(* ===== verification/Afl_Prelude.thy ===== *)
theory Afl_Prelude
  imports Complex_Main "HOL-Library.Word" "HOL-Library.Log_Nat"
begin

text \<open>
  Shared vocabulary of the development: the C integer types, the error values of the
  modelled functions, the error monad without notation, byte buffers read as little-endian
  words, and the generic lemmas on lists and words that the component theories use.
\<close>

unbundle bit_operations_syntax

section \<open>Types\<close>

type_synonym u8 = "8 word"
type_synonym u16 = "16 word"
type_synonym u32 = "32 word"
type_synonym u64 = "64 word"
type_synonym u128 = "128 word"
type_synonym bytes = "u8 list"

text \<open>
  \<open>FATAL\<close> and \<open>PFATAL\<close> are the macros of include/debug.h: both print a message and exit.
  \<open>UB\<close> stands for an operation whose result C leaves undefined (integer division by zero,
  conversion of an out-of-range floating-point value, access outside an object).
\<close>

datatype afl_error = FATAL string | PFATAL string | UB string

type_synonym 'a res = "afl_error + 'a"

section \<open>Named theorem collections\<close>

named_theorems bytes_simps \<open>little-endian loads and stores, bit by bit\<close>
named_theorems afl_frame \<open>fields an operation leaves unchanged\<close>
named_theorems afl_len \<open>lengths of buffers after an operation\<close>

section \<open>The error monad\<close>

definition rbind :: "'e + 'a \<Rightarrow> ('a \<Rightarrow> 'e + 'b) \<Rightarrow> 'e + 'b" where
  "rbind m f = (case m of Inl e \<Rightarrow> Inl e | Inr x \<Rightarrow> f x)"

lemma rbind_simps [simp]:
  "rbind (Inl e) f = Inl e"
  "rbind (Inr x) f = f x"
  by (simp_all add: rbind_def)

lemma rbind_eq_Inr_iff: "rbind m f = Inr y \<longleftrightarrow> (\<exists>x. m = Inr x \<and> f x = Inr y)"
  by (cases m) simp_all

lemma rbind_eq_Inl_iff: "rbind m f = Inl e \<longleftrightarrow> m = Inl e \<or> (\<exists>x. m = Inr x \<and> f x = Inl e)"
  by (cases m) auto

text \<open>A \<open>for\<close> loop over a list of indices whose body may fail.\<close>

fun rfold :: "('i \<Rightarrow> 's \<Rightarrow> 'e + 's) \<Rightarrow> 'i list \<Rightarrow> 's \<Rightarrow> 'e + 's" where
  "rfold f [] s = Inr s"
| "rfold f (i # is) s = rbind (f i s) (rfold f is)"

lemma rfold_append: "rfold f (xs @ ys) s = rbind (rfold f xs s) (rfold f ys)"
  by (induction xs arbitrary: s) (auto simp: rbind_def split: sum.splits)

lemma rfold_invariant:
  assumes "rfold f is s = Inr t" and "P s"
    and "\<And>i s t. i \<in> set is \<Longrightarrow> P s \<Longrightarrow> f i s = Inr t \<Longrightarrow> P t"
  shows "P t"
  using assms
proof (induction "is" arbitrary: s)
  case Nil
  then show ?case by simp
next
  case (Cons i "is")
  then obtain u where "f i s = Inr u" and "rfold f is u = Inr t"
    by (auto simp: rbind_eq_Inr_iff)
  with Cons show ?case by (metis list.set_intros(1,2))
qed

lemma rfold_total:
  assumes "P s" and "\<And>i s. i \<in> set is \<Longrightarrow> P s \<Longrightarrow> \<exists>t. f i s = Inr t \<and> P t"
  shows "\<exists>t. rfold f is s = Inr t \<and> P t"
  using assms by (induction "is" arbitrary: s) (auto, metis rbind_simps(2))

lemma fold_invariant_on:
  assumes "P s" and "\<And>i s. i \<in> set is \<Longrightarrow> P s \<Longrightarrow> P (f i s)"
  shows "P (fold f is s)"
  using assms by (induction "is" arbitrary: s) auto

section \<open>Bytes and little-endian words\<close>

primrec load_le :: "bytes \<Rightarrow> 'a::len word" where
  "load_le [] = 0"
| "load_le (b # bs) = ucast b OR push_bit 8 (load_le bs)"

definition byte_of :: "'a::len word \<Rightarrow> nat \<Rightarrow> u8" where
  "byte_of w k = ucast (drop_bit (8 * k) w)"

definition store_le :: "nat \<Rightarrow> 'a::len word \<Rightarrow> bytes" where
  "store_le n w = map (byte_of w) [0..<n]"

lemma bit_load_le [bytes_simps]:
  "bit (load_le bs :: 'a::len word) k \<longleftrightarrow>
     k < LENGTH('a) \<and> k div 8 < length bs \<and> bit (bs ! (k div 8)) (k mod 8)"
proof (induction bs arbitrary: k)
  case Nil
  then show ?case by simp
next
  case (Cons b bs)
  show ?case
  proof (cases "k < 8")
    case True
    then show ?thesis by (auto simp: bit_simps)
  next
    case False
    then obtain j where k: "k = j + 8" by (metis add.commute le_Suc_ex not_less)
    have "\<not> bit b k" using False by (auto dest!: bit_imp_le_length)
    then show ?thesis by (auto simp: k bit_simps Cons.IH)
  qed
qed

lemma bit_byte_of [bytes_simps]:
  "bit (byte_of w k) j \<longleftrightarrow> j < 8 \<and> bit w (8 * k + j)"
  by (auto simp: byte_of_def bit_simps)

lemma byte_of_load_le [simp]:
  assumes "k < length bs" and "8 * length bs \<le> LENGTH('a::len)"
  shows "byte_of (load_le bs :: 'a word) k = bs ! k"
proof (rule bit_word_eqI)
  fix j assume "j < LENGTH(8)"
  then have j: "j < 8" by simp
  have "8 * k + j < LENGTH('a)" using assms j by linarith
  then show "bit (byte_of (load_le bs :: 'a word) k) j \<longleftrightarrow> bit (bs ! k) j"
    using assms j by (simp add: bytes_simps)
qed

lemma store_load_le [simp]:
  assumes "8 * length bs \<le> LENGTH('a::len)"
  shows "store_le (length bs) (load_le bs :: 'a word) = bs"
  using assms by (intro nth_equalityI) (simp_all add: store_le_def)

lemma length_store_le [simp]: "length (store_le n w) = n"
  by (simp add: store_le_def)

lemma nth_store_le [simp]: "k < n \<Longrightarrow> store_le n w ! k = byte_of w k"
  by (simp add: store_le_def)

lemma word_eq_bytes:
  assumes "LENGTH('a::len) = 8 * n"
  shows "(v :: 'a word) = w \<longleftrightarrow> (\<forall>k<n. byte_of v k = byte_of w k)"
proof
  assume eq: "\<forall>k<n. byte_of v k = byte_of w k"
  show "v = w"
  proof (rule bit_word_eqI)
    fix j assume "j < LENGTH('a)"
    then have "j div 8 < n" using assms by (simp add: less_mult_imp_div_less mult.commute)
    with eq have "bit (byte_of v (j div 8)) (j mod 8) \<longleftrightarrow> bit (byte_of w (j div 8)) (j mod 8)"
      by simp
    then show "bit v j \<longleftrightarrow> bit w j" by (simp add: bytes_simps)
  qed
qed simp

lemma byte_of_0 [simp]: "byte_of 0 k = 0"
  by (simp add: byte_of_def)

lemma byte_of_and [simp]: "byte_of (v AND w) k = byte_of v k AND byte_of w k"
  by (rule bit_word_eqI) (auto simp: bytes_simps bit_simps)

lemma byte_of_or [simp]: "byte_of (v OR w) k = byte_of v k OR byte_of w k"
  by (rule bit_word_eqI) (auto simp: bytes_simps bit_simps)

lemma byte_of_not:
  assumes "8 * k + 8 \<le> LENGTH('a::len)"
  shows "byte_of (NOT w :: 'a word) k = NOT (byte_of w k)"
  by (rule bit_word_eqI) (use assms in \<open>auto simp: bytes_simps bit_simps\<close>)

lemma load_le_eq_0_iff:
  assumes "8 * length bs \<le> LENGTH('a::len)"
  shows "(load_le bs :: 'a word) = 0 \<longleftrightarrow> (\<forall>b\<in>set bs. b = 0)"
proof
  assume z: "(load_le bs :: 'a word) = 0"
  show "\<forall>b\<in>set bs. b = 0"
  proof
    fix b assume "b \<in> set bs"
    then obtain k where "k < length bs" "b = bs ! k" by (auto simp: in_set_conv_nth)
    then have "b = byte_of (load_le bs :: 'a word) k" using assms by simp
    then show "b = 0" by (simp add: z)
  qed
next
  assume "\<forall>b\<in>set bs. b = 0"
  then show "(load_le bs :: 'a word) = 0"
    by (induction bs) simp_all
qed

lemma unat_shiftr: "unat (drop_bit k w) = unat w div 2 ^ k"
  by (subst unat_drop_bit_eq) (rule drop_bit_eq_div)

lemma ucast_of_nat_unat: "(of_nat (unat w) :: 'b::len word) = ucast w"
  by simp

lemma bit_imp_ge: "bit (w :: 'a::len word) k \<Longrightarrow> 2 ^ k \<le> unat w"
proof -
  assume "bit w k"
  then have "bit (unat w) k" by (simp add: bit_unsigned_iff)
  then have "odd (unat w div 2 ^ k)" by (simp add: bit_iff_odd)
  then have "unat w div 2 ^ k \<noteq> 0" by (metis even_zero)
  then show ?thesis by (simp add: div_eq_0_iff)
qed

lemma top_bit:
  assumes "2 ^ k \<le> unat w" and "unat w < 2 ^ Suc k"
  shows "bit (w :: 'a::len word) k"
proof -
  have "unat w div 2 ^ k = 1" using assms by (intro div_nat_eqI) simp_all
  then have "bit (unat w) k" by (simp add: bit_iff_odd)
  then show ?thesis by (simp add: bit_unsigned_iff)
qed

lemma unat_pow2: "k < LENGTH('a::len) \<Longrightarrow> unat (2 ^ k :: 'a word) = 2 ^ k"
proof -
  assume "k < LENGTH('a)"
  then have "(2 :: nat) ^ k < 2 ^ LENGTH('a)" by simp
  then have "unat (of_nat (2 ^ k) :: 'a word) = 2 ^ k" by (simp only: unsigned_of_nat take_bit_nat_eq_self of_nat_id)
  then show ?thesis by (simp only: of_nat_power of_nat_numeral)
qed

section \<open>Lists\<close>

lemma take_drop_split: "n \<le> length xs \<Longrightarrow> take (m + n) xs = take n xs @ take m (drop n xs)"
  by (metis add.commute take_add)

lemma nth_take_drop_append:
  "length ys = n \<Longrightarrow> i < n \<Longrightarrow> (ys @ zs) ! i = ys ! i"
  by (simp add: nth_append)

lemma length_filter_upt_nth:
  "length (filter P xs) = card {i. i < length xs \<and> P (xs ! i)}"
  by (simp add: length_filter_conv_card)

end
