(* ===== verification/Float64.thy ===== *)
theory Float64
  imports Afl_Prelude
begin

text \<open>
  The C type \<open>double\<close> (IEEE 754 binary64, round to nearest, ties to even), executable over
  the rationals. A finite double is the rational it denotes, so every arithmetic operation
  of the source is one exact rational operation followed by one rounding. The sign of a zero
  is not represented: no modelled function divides by a negative zero or reads its sign.
  \<open>long double\<close> is the 80-bit extended format of x86-64. The functions of libm that are not
  correctly rounded (\<open>log\<close>, \<open>log2\<close>, \<open>log10\<close>, \<open>log1p\<close>) are parameters of the functions that
  call them.
\<close>

section \<open>Rounding a rational to an integer\<close>

definition rne :: "rat \<Rightarrow> int" where
  "rne x = (let f = \<lfloor>x\<rfloor>; d = x - of_int f in
     if d < 1 / 2 then f else if 1 / 2 < d then f + 1 else if even f then f else f + 1)"

lemma rne_bounds: "\<lfloor>x\<rfloor> \<le> rne x" "rne x \<le> \<lfloor>x\<rfloor> + 1"
  by (simp_all add: rne_def Let_def)

lemma rne_of_int [simp]: "rne (of_int k) = k"
  by (simp add: rne_def)

lemma rne_mono: "x \<le> y \<Longrightarrow> rne x \<le> rne y"
proof -
  assume le: "x \<le> y"
  then have "\<lfloor>x\<rfloor> \<le> \<lfloor>y\<rfloor>" by (rule floor_mono)
  then consider "\<lfloor>x\<rfloor> = \<lfloor>y\<rfloor>" | "\<lfloor>x\<rfloor> + 1 \<le> \<lfloor>y\<rfloor>" by linarith
  then show ?thesis
  proof cases
    case 1
    with le show ?thesis by (auto simp: rne_def Let_def)
  next
    case 2
    then show ?thesis using rne_bounds [of x] rne_bounds [of y] by linarith
  qed
qed

lemma floor_minus_nonint:
  fixes x :: rat
  assumes "x \<noteq> of_int \<lfloor>x\<rfloor>"
  shows "\<lfloor>- x\<rfloor> = - \<lfloor>x\<rfloor> - 1"
  using assms by (intro floor_unique) (simp_all add: le_less floor_less_iff, linarith+)

lemma rne_minus: "rne (- x) = - rne x"
proof (cases "x = of_int \<lfloor>x\<rfloor>")
  case True
  then show ?thesis by (metis rne_of_int of_int_minus)
next
  case False
  have "x - of_int \<lfloor>x\<rfloor> < 1" "0 \<le> x - of_int \<lfloor>x\<rfloor>"
    using floor_correct [of x] by linarith+
  then show ?thesis
    by (auto simp: rne_def Let_def floor_minus_nonint [OF False])
qed

section \<open>The binary exponent of a positive rational\<close>

definition expo2 :: "rat \<Rightarrow> int" where
  "expo2 x = (let (p, q) = quotient_of x; k = bitlen p - bitlen q
     in if 2 powi k \<le> x then k else k - 1)"

lemma bitlen_powi_bounds:
  assumes "0 < p"
  shows "2 powi (bitlen p - 1) \<le> (of_int p :: rat)" and "(of_int p :: rat) < 2 powi bitlen p"
proof -
  have b: "0 < bitlen p"
    using assms bitlen_nonneg [of p] by (metis bitlen_eq_zero_iff less_le not_less)
  have "2 ^ nat (bitlen p - 1) \<le> p" "p < 2 ^ nat (bitlen p)"
    using bitlen_bounds [OF assms] by simp_all
  then have "(2 :: rat) ^ nat (bitlen p - 1) \<le> of_int p" "of_int p < (2 :: rat) ^ nat (bitlen p)"
    by (metis of_int_le_iff of_int_numeral of_int_power, metis of_int_less_iff of_int_numeral of_int_power)
  then show "2 powi (bitlen p - 1) \<le> (of_int p :: rat)" "(of_int p :: rat) < 2 powi bitlen p"
    using b by (simp_all add: power_int_def)
qed

lemma expo2_bounds:
  assumes "0 < x"
  shows "2 powi expo2 x \<le> x" and "x < 2 powi (expo2 x + 1)"
proof -
  obtain p q where pq: "quotient_of x = (p, q)" by (cases "quotient_of x")
  have q: "0 < q" using pq by (rule quotient_of_denom_pos)
  have x: "x = of_int p / of_int q" using pq by (rule quotient_of_div)
  have p: "0 < p" using assms q by (simp add: x zero_less_divide_iff)
  define k where "k = bitlen p - bitlen q"
  have "of_int p / of_int q < (2 :: rat) powi bitlen p / 2 powi (bitlen q - 1)"
    using bitlen_powi_bounds [OF p] bitlen_powi_bounds [OF q] p q
    by (intro frac_less) auto
  also have "\<dots> = 2 powi (k + 1)"
    by (simp add: k_def power_int_diff power_int_add)
  finally have up: "x < 2 powi (k + 1)" by (simp add: x)
  have "(2 :: rat) powi (bitlen p - 1) / 2 powi bitlen q \<le> of_int p / of_int q"
    using bitlen_powi_bounds [OF p] bitlen_powi_bounds [OF q] p q
    by (intro frac_le) auto
  then have lo: "2 powi (k - 1) \<le> x"
    by (simp add: x k_def power_int_diff power_int_add field_simps)
  show "2 powi expo2 x \<le> x" "x < 2 powi (expo2 x + 1)"
    using up lo by (auto simp: expo2_def pq k_def [symmetric])
qed

lemma powi_less_iff [simp]: "(2 :: rat) powi a < 2 powi b \<longleftrightarrow> a < b"
  by (metis linorder_not_less one_less_numeral_iff power_int_increasing power_int_strict_increasing
      semiring_norm(76) less_imp_le)

lemma powi_le_iff [simp]: "(2 :: rat) powi a \<le> 2 powi b \<longleftrightarrow> a \<le> b"
  by (simp add: linorder_not_less [symmetric])

lemma powi_pos [simp]: "(0 :: rat) < 2 powi k"
  by simp

lemma expo2_mono:
  assumes "0 < x" and "x \<le> y"
  shows "expo2 x \<le> expo2 y"
proof -
  have "2 powi expo2 x < (2 :: rat) powi (expo2 y + 1)"
    using expo2_bounds [of x] expo2_bounds [of y] assms by linarith
  then show ?thesis by simp
qed

lemma expo2_less:
  assumes "0 < x" and "x < 2 powi k"
  shows "expo2 x < k"
proof -
  have "2 powi expo2 x < (2 :: rat) powi k"
    using expo2_bounds [of x] assms by linarith
  then show ?thesis by simp
qed

section \<open>Rounding to a binary floating-point format\<close>

text \<open>
  \<open>qexp p emin x\<close> is the exponent of the unit in the last place of \<open>x\<close> in a format with
  \<open>p\<close> significant bits and least normal exponent \<open>emin\<close>; \<open>rnd p emin\<close> rounds to it.
\<close>

definition qexp :: "nat \<Rightarrow> int \<Rightarrow> rat \<Rightarrow> int" where
  "qexp p emin x = max (if x = 0 then emin else expo2 \<bar>x\<bar>) emin - (int p - 1)"

definition rnd :: "nat \<Rightarrow> int \<Rightarrow> rat \<Rightarrow> rat" where
  "rnd p emin x = of_int (rne (x / 2 powi qexp p emin x)) * 2 powi qexp p emin x"

definition rep :: "nat \<Rightarrow> int \<Rightarrow> rat \<Rightarrow> bool" where
  "rep p emin x \<longleftrightarrow> (\<exists>m k. x = of_int m * 2 powi k \<and> \<bar>m\<bar> \<le> 2 ^ p \<and> emin - (int p - 1) \<le> k)"

lemma qexp_minus [simp]: "qexp p emin (- x) = qexp p emin x"
  by (simp add: qexp_def)

lemma rnd_minus [simp]: "rnd p emin (- x) = - rnd p emin x"
  by (simp add: rnd_def rne_minus)

lemma rnd_0 [simp]: "rnd p emin 0 = 0"
  using rne_of_int [of 0] by (simp add: rnd_def)

lemma powi_as_int: "0 \<le> k \<Longrightarrow> (2 :: rat) powi k = of_int (2 ^ nat k)"
  by (simp add: power_int_def)

lemma scaled_le:
  assumes "1 \<le> p"
  shows "\<bar>x\<bar> / 2 powi qexp p emin x \<le> 2 powi int p"
proof (cases "x = 0")
  case False
  have "\<bar>x\<bar> < 2 powi (expo2 \<bar>x\<bar> + 1)" using False by (intro expo2_bounds) simp
  also have "\<dots> \<le> 2 powi (qexp p emin x + int p)"
    using False by (simp add: qexp_def)
  finally show ?thesis by (simp add: power_int_add field_simps)
qed simp

lemma rnd_le_top:
  assumes "1 \<le> p"
  shows "rnd p emin x \<le> 2 powi (qexp p emin x + int p)"
proof -
  have "x / 2 powi qexp p emin x \<le> of_int (2 ^ p)"
  proof -
    have "x / 2 powi qexp p emin x \<le> \<bar>x\<bar> / 2 powi qexp p emin x"
      by (intro divide_right_mono) simp_all
    also have "\<dots> \<le> 2 powi int p" using assms by (rule scaled_le)
    finally show ?thesis by simp
  qed
  then have "rne (x / 2 powi qexp p emin x) \<le> 2 ^ p"
    using rne_mono rne_of_int by metis
  then have "(of_int (rne (x / 2 powi qexp p emin x)) :: rat) \<le> 2 ^ p"
    by (metis of_int_le_iff of_int_numeral of_int_power)
  then show ?thesis
    by (simp add: rnd_def power_int_add)
qed

lemma rnd_ge_bottom:
  assumes "0 < x" and "emin \<le> expo2 x" and "1 \<le> p"
  shows "2 powi expo2 x \<le> rnd p emin x"
proof -
  have q: "qexp p emin x = expo2 x - (int p - 1)"
    using assms by (simp add: qexp_def)
  have "of_int (2 ^ (p - 1)) \<le> x / 2 powi qexp p emin x"
  proof -
    have "(2 :: rat) ^ (p - 1) * 2 powi qexp p emin x = 2 powi (int (p - 1) + qexp p emin x)"
      by (simp add: power_int_add)
    also have "\<dots> = 2 powi expo2 x" using assms(3) by (simp add: q of_nat_diff)
    also have "\<dots> \<le> x" using assms(1) by (rule expo2_bounds)
    finally show ?thesis by (simp add: field_simps)
  qed
  then have "2 ^ (p - 1) \<le> rne (x / 2 powi qexp p emin x)"
    using rne_mono rne_of_int by metis
  then have "(2 :: rat) ^ (p - 1) \<le> of_int (rne (x / 2 powi qexp p emin x))"
    by (metis of_int_le_iff of_int_numeral of_int_power)
  then have "(2 :: rat) ^ (p - 1) * 2 powi qexp p emin x \<le> rnd p emin x"
    by (simp add: rnd_def)
  moreover have "(2 :: rat) ^ (p - 1) * 2 powi qexp p emin x = 2 powi expo2 x"
    using assms(3) by (simp add: q of_nat_diff flip: power_int_add power_int_of_nat)
  ultimately show ?thesis by simp
qed

lemma rnd_nonneg: "0 \<le> x \<Longrightarrow> 0 \<le> rnd p emin x"
  using rne_mono [of 0 "x / 2 powi qexp p emin x"] rne_of_int [of 0]
  by (simp add: rnd_def)

lemma rnd_mono_nonneg:
  assumes "0 \<le> x" and "x \<le> y" and "1 \<le> p"
  shows "rnd p emin x \<le> rnd p emin y"
proof (cases "x = 0 \<or> qexp p emin x = qexp p emin y")
  case True
  then show ?thesis
  proof
    assume "x = 0" then show ?thesis using assms by (simp add: rnd_nonneg)
  next
    assume "qexp p emin x = qexp p emin y"
    then show ?thesis
      using assms rne_mono [of "x / 2 powi qexp p emin y" "y / 2 powi qexp p emin y"]
      by (simp add: rnd_def divide_right_mono)
  qed
next
  case False
  then have x: "0 < x" and y: "0 < y" using assms by auto
  have "expo2 x \<le> expo2 y" using x assms(2) by (rule expo2_mono)
  with False x y have *: "max (expo2 x) emin < expo2 y" "emin \<le> expo2 y"
    by (auto simp: qexp_def)
  have "rnd p emin x \<le> 2 powi (qexp p emin x + int p)"
    using assms(3) by (rule rnd_le_top)
  also have "\<dots> \<le> 2 powi expo2 y"
    using * x by (auto simp: qexp_def max_def)
  also have "\<dots> \<le> rnd p emin y"
    using y * assms(3) by (intro rnd_ge_bottom)
  finally show ?thesis .
qed

lemma rnd_mono:
  assumes "x \<le> y" and "1 \<le> p"
  shows "rnd p emin x \<le> rnd p emin y"
proof -
  consider "0 \<le> x" | "x < 0" "0 \<le> y" | "y < 0" using assms by linarith
  then show ?thesis
  proof cases
    case 1
    then show ?thesis using assms by (intro rnd_mono_nonneg)
  next
    case 2
    then show ?thesis
      using rnd_nonneg [of "- x" p emin] rnd_nonneg [of y p emin] by simp
  next
    case 3
    then show ?thesis
      using rnd_mono_nonneg [of "- y" "- x" p emin] assms by simp
  qed
qed

lemma rnd_exact:
  assumes "rep p emin x" and "1 \<le> p"
  shows "rnd p emin x = x"
proof (cases "x = 0")
  case False
  obtain m k where x: "x = of_int m * 2 powi k" and m: "\<bar>m\<bar> \<le> 2 ^ p"
    and k: "emin - (int p - 1) \<le> k"
    using assms(1) by (auto simp: rep_def)
  have ax: "\<bar>x\<bar> = of_int \<bar>m\<bar> * 2 powi k" by (simp add: x abs_mult)
  have "2 powi expo2 \<bar>x\<bar> \<le> \<bar>x\<bar>" using False by (intro expo2_bounds) simp
  also have "\<dots> \<le> 2 powi (int p + k)"
    using m by (simp add: ax power_int_add) (metis of_int_le_iff of_int_abs of_int_numeral of_int_power)
  finally have e: "expo2 \<bar>x\<bar> \<le> int p + k" by simp
  have "\<exists>n. x = of_int n * 2 powi qexp p emin x"
  proof (cases "qexp p emin x \<le> k")
    case True
    then have "of_int (2 ^ nat (k - qexp p emin x)) = (2 :: rat) powi k / 2 powi qexp p emin x"
      using powi_as_int [of "k - qexp p emin x"] power_int_diff [of "2 :: rat" k "qexp p emin x"]
      by simp
    then have "x = of_int (m * 2 ^ nat (k - qexp p emin x)) * 2 powi qexp p emin x"
      using x by (simp only: of_int_mult) (simp add: field_simps)
    then show ?thesis by blast
  next
    case gt: False
    then have eq: "expo2 \<bar>x\<bar> = int p + k" using e k False by (auto simp: qexp_def split: if_splits)
    have "2 powi (int p + k) \<le> \<bar>x\<bar>" using False eq expo2_bounds(1) [of "\<bar>x\<bar>"] by simp
    then have "(2 :: rat) ^ p \<le> of_int \<bar>m\<bar>" by (simp add: ax power_int_add)
    then have "2 ^ p \<le> \<bar>m\<bar>" by (metis of_int_le_iff of_int_numeral of_int_power)
    with m have am: "\<bar>m\<bar> = 2 ^ p" by simp
    have q: "qexp p emin x = k + 1"
      using gt eq False k by (auto simp: qexp_def max_def split: if_splits)
    have "m = sgn m * 2 ^ p" using am by (metis mult_sgn_abs)
    also have "\<dots> = (sgn m * 2 ^ (p - 1)) * 2" using assms(2) by (cases p) simp_all
    finally have m2: "(of_int m :: rat) = of_int (sgn m * 2 ^ (p - 1)) * 2"
      by (metis of_int_mult of_int_numeral)
    have "x = of_int (sgn m * 2 ^ (p - 1)) * 2 powi qexp p emin x"
      unfolding q by (subst x, subst m2, simp only: power_int_add_1 mult.assoc mult.commute simp_thms)
         (simp add: power_int_add mult.commute)
    then show ?thesis by blast
  qed
  then obtain n where n: "x = of_int n * 2 powi qexp p emin x" ..
  then have "x / 2 powi qexp p emin x = of_int n" by (metis nonzero_mult_div_cancel_right powi_pos less_irrefl)
  then show ?thesis using n by (simp add: rnd_def)
qed simp

lemma rep_rnd:
  assumes "1 \<le> p"
  shows "rep p emin (rnd p emin x)"
proof -
  let ?q = "qexp p emin x"
  have b: "\<bar>x\<bar> / 2 powi ?q \<le> of_int (2 ^ p)"
    using scaled_le [OF assms, of x emin] by simp
  then have "x / 2 powi ?q \<le> of_int (2 ^ p)" "- of_int (2 ^ p) \<le> x / 2 powi ?q"
    by (auto simp: field_simps abs_le_iff)
  then have "rne (x / 2 powi ?q) \<le> 2 ^ p" "- (2 ^ p) \<le> rne (x / 2 powi ?q)"
    using rne_mono rne_of_int of_int_minus by metis+
  then have "\<bar>rne (x / 2 powi ?q)\<bar> \<le> 2 ^ p" by (simp add: abs_le_iff)
  moreover have "emin - (int p - 1) \<le> ?q" by (simp add: qexp_def)
  ultimately show ?thesis by (auto simp: rep_def rnd_def)
qed

section \<open>The interface of a rounding\<close>

text \<open>
  What the arithmetic proofs of the components rely on: rounding is monotone, odd, exact on
  the representable values and its results are representable.
\<close>

locale fp_rounding =
  fixes r :: "rat \<Rightarrow> rat" and isrep :: "rat \<Rightarrow> bool"
  assumes mono: "x \<le> y \<Longrightarrow> r x \<le> r y"
    and odd: "r (- x) = - r x"
    and exact: "isrep x \<Longrightarrow> r x = x"
    and isrep: "isrep (r x)"
begin

lemma idem [simp]: "r (r x) = r x"
  by (rule exact) (rule isrep)

lemma zero [simp]: "r 0 = 0"
  using odd [of 0] by simp

lemma le_rep: "isrep c \<Longrightarrow> x \<le> c \<Longrightarrow> r x \<le> c"
  using mono [of x c] exact [of c] by simp

lemma ge_rep: "isrep c \<Longrightarrow> c \<le> x \<Longrightarrow> c \<le> r x"
  using mono [of c x] exact [of c] by simp

lemma between: "isrep a \<Longrightarrow> isrep b \<Longrightarrow> a \<le> x \<Longrightarrow> x \<le> b \<Longrightarrow> a \<le> r x \<and> r x \<le> b"
  by (simp add: le_rep ge_rep)

lemma nonneg: "0 \<le> x \<Longrightarrow> 0 \<le> r x"
  using mono [of 0 x] by simp

lemma nonpos: "x \<le> 0 \<Longrightarrow> r x \<le> 0"
  using mono [of x 0] by simp

lemma pos: "isrep c \<Longrightarrow> 0 < c \<Longrightarrow> c \<le> x \<Longrightarrow> 0 < r x"
  using ge_rep [of c x] by linarith

lemma abs_le: "isrep c \<Longrightarrow> \<bar>x\<bar> \<le> c \<Longrightarrow> \<bar>r x\<bar> \<le> c"
  using le_rep [of c x] le_rep [of c "- x"] by (simp add: odd abs_le_iff)

end

section \<open>double and long double\<close>

definition fl :: "rat \<Rightarrow> rat" where
  "fl = rnd 53 (- 1022)"

definition fl80 :: "rat \<Rightarrow> rat" where
  "fl80 = rnd 64 (- 16382)"

interpretation fl: fp_rounding fl "rep 53 (- 1022)"
  by unfold_locales (auto simp: fl_def rnd_mono rnd_exact rep_rnd)

interpretation fl80: fp_rounding fl80 "rep 64 (- 16382)"
  by unfold_locales (auto simp: fl80_def rnd_mono rnd_exact rep_rnd)

lemma rep_scaled: "\<bar>m\<bar> \<le> 2 ^ p \<Longrightarrow> emin - (int p - 1) \<le> k \<Longrightarrow> rep p emin (of_int m * 2 powi k)"
  by (auto simp: rep_def)

lemma rep_of_int: "\<bar>m\<bar> \<le> 2 ^ 53 \<Longrightarrow> rep 53 (- 1022) (of_int m)"
  using rep_scaled [of m 53 "- 1022" 0] by simp

lemma rep_pow2: "0 \<le> k \<Longrightarrow> rep 53 (- 1022) (2 ^ k)"
  using rep_scaled [of 1 53 "- 1022" "int k"] by simp

lemma fl_of_int: "\<bar>m\<bar> \<le> 2 ^ 53 \<Longrightarrow> fl (of_int m) = of_int m"
  by (rule fl.exact) (rule rep_of_int)

datatype dbl = NaN | PInf | NInf | Fin rat

text \<open>\<open>mkd x\<close> is the double nearest to the rational \<open>x\<close>, an infinity beyond the range.\<close>

definition dlim :: rat where
  "dlim = 2 ^ 1024"

definition mkd :: "rat \<Rightarrow> dbl" where
  "mkd x = (let y = fl x in
     if dlim \<le> y then PInf else if y \<le> - dlim then NInf else Fin y)"

fun dneg :: "dbl \<Rightarrow> dbl" where
  "dneg NaN = NaN"
| "dneg PInf = NInf"
| "dneg NInf = PInf"
| "dneg (Fin x) = Fin (- x)"

fun dadd :: "dbl \<Rightarrow> dbl \<Rightarrow> dbl" where
  "dadd NaN _ = NaN"
| "dadd _ NaN = NaN"
| "dadd PInf NInf = NaN"
| "dadd NInf PInf = NaN"
| "dadd PInf _ = PInf"
| "dadd NInf _ = NInf"
| "dadd _ PInf = PInf"
| "dadd _ NInf = NInf"
| "dadd (Fin x) (Fin y) = mkd (x + y)"

definition dsub :: "dbl \<Rightarrow> dbl \<Rightarrow> dbl" where
  "dsub a b = dadd a (dneg b)"

definition dinf :: "rat \<Rightarrow> dbl" where
  "dinf s = (if s = 0 then NaN else if 0 < s then PInf else NInf)"

fun dmul :: "dbl \<Rightarrow> dbl \<Rightarrow> dbl" where
  "dmul NaN _ = NaN"
| "dmul _ NaN = NaN"
| "dmul PInf PInf = PInf"
| "dmul NInf NInf = PInf"
| "dmul PInf NInf = NInf"
| "dmul NInf PInf = NInf"
| "dmul PInf (Fin y) = dinf y"
| "dmul NInf (Fin y) = dinf (- y)"
| "dmul (Fin x) PInf = dinf x"
| "dmul (Fin x) NInf = dinf (- x)"
| "dmul (Fin x) (Fin y) = mkd (x * y)"

text \<open>Division; the divisor's zero is positive.\<close>

fun ddiv :: "dbl \<Rightarrow> dbl \<Rightarrow> dbl" where
  "ddiv NaN _ = NaN"
| "ddiv _ NaN = NaN"
| "ddiv (Fin x) (Fin y) = (if y = 0 then dinf x else mkd (x / y))"
| "ddiv (Fin x) _ = Fin 0"
| "ddiv PInf (Fin y) = (if y < 0 then NInf else PInf)"
| "ddiv NInf (Fin y) = (if y < 0 then PInf else NInf)"
| "ddiv _ _ = NaN"

fun dlt :: "dbl \<Rightarrow> dbl \<Rightarrow> bool" where
  "dlt (Fin x) (Fin y) = (x < y)"
| "dlt (Fin x) PInf = True"
| "dlt NInf (Fin y) = True"
| "dlt NInf PInf = True"
| "dlt _ _ = False"

definition dle :: "dbl \<Rightarrow> dbl \<Rightarrow> bool" where
  "dle x y \<longleftrightarrow> x \<noteq> NaN \<and> y \<noteq> NaN \<and> \<not> dlt y x"

text \<open>Conversions between unsigned integers and doubles.\<close>

definition d_of_u :: "'a::len word \<Rightarrow> dbl" where
  "d_of_u w = mkd (of_int (uint w))"

definition u_of_d :: "dbl \<Rightarrow> 'a::len word res" where
  "u_of_d d = (case d of
     Fin x \<Rightarrow> if - 1 < x \<and> x < 2 ^ LENGTH('a) then Inr (word_of_int (if x < 0 then 0 else \<lfloor>x\<rfloor>))
              else Inl (UB ''float to integer'')
   | _ \<Rightarrow> Inl (UB ''float to integer''))"

section \<open>Finite results\<close>

named_theorems dbl_simps \<open>finite doubles\<close>

definition big :: rat where
  "big = 2 ^ 1000"

lemma le_big: "x \<le> 2 ^ 200 \<Longrightarrow> x \<le> big"
proof -
  assume "x \<le> 2 ^ 200"
  also have "(2 :: rat) ^ 200 \<le> 2 ^ 1000" by (intro power_increasing) simp_all
  finally show ?thesis by (simp only: big_def)
qed

lemma mkd_Fin [dbl_simps]: "\<bar>x\<bar> \<le> big \<Longrightarrow> mkd x = Fin (fl x)"
proof -
  assume "\<bar>x\<bar> \<le> big"
  then have "\<bar>fl x\<bar> \<le> big" unfolding big_def by (intro fl.abs_le rep_pow2) simp_all
  moreover have "big < dlim" unfolding big_def dlim_def by (intro power_strict_increasing) simp_all
  ultimately have "\<not> dlim \<le> fl x" "\<not> fl x \<le> - dlim" by linarith+
  then show ?thesis by (simp add: mkd_def Let_def)
qed

lemma mkd_small: "\<bar>x\<bar> \<le> 2 ^ 200 \<Longrightarrow> mkd x = Fin (fl x)"
  by (intro mkd_Fin le_big)

lemma dlim_pos: "0 < dlim"
  by (simp only: dlim_def zero_less_power zero_less_numeral)

lemma mkd_not_NaN [simp]: "mkd x \<noteq> NaN"
  by (simp add: mkd_def Let_def)

lemma mkd_eq_Fin_iff: "mkd x = Fin y \<longleftrightarrow> y = fl x \<and> \<bar>fl x\<bar> < dlim"
  by (auto simp: mkd_def Let_def abs_less_iff)

lemma mkd_nonneg_cases: "0 \<le> x \<Longrightarrow> mkd x = PInf \<and> dlim \<le> fl x \<or> mkd x = Fin (fl x) \<and> 0 \<le> fl x"
  using fl.nonneg [of x] dlim_pos by (auto simp: mkd_def Let_def)

lemma mkd_rep: "rep 53 (- 1022) x \<Longrightarrow> \<bar>x\<bar> \<le> big \<Longrightarrow> mkd x = Fin x"
  by (simp add: mkd_Fin fl.exact)

lemma of_int_uint_bound:
  "0 \<le> (of_int (uint (w :: 'a::len word)) :: rat)"
  "(of_int (uint w) :: rat) < 2 ^ LENGTH('a)"
proof -
  have "uint w < 2 ^ LENGTH('a)" by simp
  then show "(of_int (uint w) :: rat) < 2 ^ LENGTH('a)"
    by (metis of_int_less_iff of_int_numeral of_int_power)
  show "0 \<le> (of_int (uint w) :: rat)" by (simp only: of_int_0_le_iff unsigned_greater_eq)
qed

lemma d_of_u_Fin [dbl_simps]:
  assumes "LENGTH('a::len) \<le> 200"
  shows "d_of_u (w :: 'a word) = Fin (fl (of_int (uint w)))"
proof -
  have "(2 :: rat) ^ LENGTH('a) \<le> 2 ^ 200" using assms by (intro power_increasing) simp_all
  with of_int_uint_bound [of w] have "\<bar>of_int (uint w) :: rat\<bar> \<le> 2 ^ 200" by linarith
  then show ?thesis unfolding d_of_u_def by (intro mkd_Fin le_big)
qed

lemma d_of_u64: "d_of_u (w :: u64) = Fin (fl (of_int (uint w)))"
  by (rule d_of_u_Fin) simp

lemma fl_uint_nonneg: "0 \<le> fl (of_int (uint w))"
  by (intro fl.nonneg) (simp only: of_int_0_le_iff unsigned_greater_eq)

lemma fl_uint_ge1: "(w :: u64) \<noteq> 0 \<Longrightarrow> 1 \<le> fl (of_int (uint w))"
proof -
  assume "w \<noteq> 0"
  then have "1 \<le> uint w" by (simp add: int_one_le_iff_zero_less order.strict_iff_order uint_0_iff)
  then have "(1 :: rat) \<le> of_int (uint w)" by (metis of_int_le_iff of_int_1)
  then show ?thesis using rep_of_int [of 1] by (intro fl.ge_rep) simp_all
qed

end
