(* ===== verification/Afl_State.thy ===== *)
theory Afl_State
  imports Float64
begin

text \<open>
  The data of the fuzzer: the power schedules and the fields of \<open>afl_forkserver_t\<close>
  (include/forkserver.h), \<open>struct queue_entry\<close> and \<open>afl_state_t\<close> (include/afl-fuzz.h) that the
  modelled functions read or write. Field names are those of the code, those of queue entries
  with the prefix \<open>q_\<close>. A pointer to a queue entry is the index of the entry in \<open>queue_buf\<close>
  (its \<open>id\<close>), a null pointer is \<open>None\<close>. \<open>cache_do_once\<close> is the function-static \<open>do_once\<close> of
  \<open>queue_testcase_get\<close>. \<open>shmem_fuzz\<close> is the test case the target will read, in shared memory or in
  its input file, and \<open>disk\<close> the list of files the fuzzer has written, latest last.
\<close>

datatype schedule =
  EXPLORE | MMOPT | EXPLOIT | FAST | COE | LIN | QUAD | RARE | SEEK

text \<open>The enumeration order, which the range tests on schedules use.\<close>

fun sched_idx :: "schedule \<Rightarrow> nat" where
  "sched_idx EXPLORE = 0"
| "sched_idx MMOPT = 1"
| "sched_idx EXPLOIT = 2"
| "sched_idx FAST = 3"
| "sched_idx COE = 4"
| "sched_idx LIN = 5"
| "sched_idx QUAD = 6"
| "sched_idx RARE = 7"
| "sched_idx SEEK = 8"

lemma sched_idx_inject [simp]: "sched_idx s = sched_idx t \<longleftrightarrow> s = t"
  by (cases s; cases t) simp_all

instantiation schedule :: linorder
begin

definition less_eq_schedule :: "schedule \<Rightarrow> schedule \<Rightarrow> bool" where
  "s \<le> t \<longleftrightarrow> sched_idx s \<le> sched_idx t"

definition less_schedule :: "schedule \<Rightarrow> schedule \<Rightarrow> bool" where
  "s < t \<longleftrightarrow> sched_idx s < sched_idx t"

instance
  by standard (auto simp: less_eq_schedule_def less_schedule_def)

end

lemmas sched_ord [simp] = less_eq_schedule_def less_schedule_def

section \<open>Records\<close>

datatype san_abstraction = SIMPLIFY_TRACE | UNIQUE_TRACE | COVERAGE_INCREASE

datatype stage_val_type = STAGE_VAL_NONE | STAGE_VAL_LE | STAGE_VAL_BE

record afl_env_vars =
  afl_ignore_timeouts :: bool
  afl_keep_timeouts :: bool
  afl_cal_fast :: bool
  afl_sha1_filenames :: bool
  afl_no_crash_readme :: u8
  afl_post_process_keep_original :: bool

record afl_forkserver =
  trace_bits :: bytes
  map_size :: u32
  real_map_size :: u32
  exec_tmout :: u32
  mem_limit :: u64
  total_execs :: u64
  last_kill_signal :: u8
  use_shmem_fuzz :: bool
  shmem_fuzz :: bytes

record skipdet_entry =
  continue_inf :: u8
  done_eff :: u8
  undet_bits :: u32
  quick_eff_bytes :: u32
  skip_eff_map :: "bytes option"
  done_inf_map :: "bytes option"

record queue_entry =
  q_fname :: string
  q_len :: u32
  q_id :: u32
  q_cal_failed :: u8
  q_trim_done :: bool
  q_was_fuzzed :: bool
  q_passed_det :: bool
  q_has_new_cov :: bool
  q_var_behavior :: bool
  q_favored :: bool
  q_fs_redundant :: bool
  q_is_ascii :: bool
  q_disabled :: bool
  q_bitmap_size :: u32
  q_fuzz_level :: u32
  q_n_fuzz_entry :: u32
  q_exec_us :: u64
  q_handicap :: u64
  q_depth :: u64
  q_exec_cksum :: u64
  q_tc_ref :: u32
  q_perf_score :: dbl
  q_weight :: dbl
  q_cpu_energy_cost :: u64
  q_mem_energy_cost :: u64
  q_mother :: "nat option"
  q_trace_mini :: "bytes option"
  q_testcase_buf :: "bytes option"
  q_skipdet_e :: "skipdet_entry option"

record afl_state =
  fsrv :: afl_forkserver
  cpu_energy_map :: "u64 option"
  mem_energy_map :: "u64 option"
  limit_time_sig :: int
  schedule :: schedule
  havoc_max_mult :: u8
  non_instrumented_mode :: bool
  score_changed :: bool
  bitmap_changed :: bool
  fixed_seed :: bool
  reinit_table :: bool
  resuming_fuzz :: bool
  crash_mode :: u8
  afl_disable_redundant :: bool
  virgin_bits :: bytes
  virgin_tmout :: bytes
  virgin_crash :: bytes
  alias_probability :: "dbl list"
  alias_table :: "u32 list"
  active_items :: u32
  var_bytes :: bytes
  n_fuzz :: "nat \<Rightarrow> u32"
  queued_items :: u32
  queued_variable :: u32
  queued_discovered :: u32
  queued_favored :: u32
  queued_with_cov :: u32
  pending_not_fuzzed :: u32
  pending_favored :: u32
  cur_depth :: u32
  max_depth :: u32
  var_byte_count :: u32
  cycles_wo_finds :: u64
  start_time :: u64
  last_find_time :: u64
  longest_find_time :: u64
  stage_cur :: u32
  stage_max :: u32
  smallest_favored :: int
  rand_cnt :: u32
  init_seed :: u64
  rand_seed0 :: u64
  rand_seed1 :: u64
  rand_seed2 :: u64
  total_cal_us :: u64
  total_cal_cycles :: u64
  total_bitmap_size :: u64
  total_bitmap_entries :: u64
  total_mem_energy :: u128
  total_cpu_energy :: u128
  min_mem_energy :: u64
  max_mem_energy :: u64
  min_cpu_energy :: u64
  max_cpu_energy :: u64
  queue :: "nat option"
  queue_cur :: "nat option"
  queue_top :: "nat option"
  queue_buf :: "queue_entry list"
  top_rated :: "nat option list"
  top_rated_candidates :: "u32 list option list"
  first_trace :: bytes
  map_tmp_buf :: bytes
  ready_for_splicing_count :: u32
  q_testcase_max_cache_size :: u64
  q_testcase_max_cache_entries :: u32
  q_testcase_cache_size :: u64
  q_testcase_max_cache_count :: u32
  q_testcase_cache_count :: u32
  q_testcase_smallest_free :: u32
  q_testcase_evictions :: u32
  q_testcase_cache :: "nat option list"
  last_scored_idx :: int
  testcase_buf :: bytes
  splicecase_buf :: bytes
  cache_do_once :: bool
  custom_mutators_count :: u32
  syncing_party :: "string option"
  cmplog_mode :: bool
  current_entry :: u32
  splicing_with :: int
  stop_soon :: u8
  bytes_trim_in :: u64
  bytes_trim_out :: u64
  trim_execs :: u64
  clean_trace :: bytes
  min_length :: u32
  max_length :: u32
  no_unlink :: bool
  total_tmouts :: u64
  saved_hangs :: u64
  saved_crashes :: u64
  total_crashes :: u64
  saved_tmouts :: u64
  queue_cycle :: u64
  hang_tmout :: u32
  switch_fuzz_mode :: u64
  fuzz_mode :: u8
  last_hang_time :: u64
  last_crash_time :: u64
  last_crash_execs :: u64
  san_binary_length :: u8
  san_abstraction :: san_abstraction
  simplified_n_fuzz :: "nat \<Rightarrow> u8"
  n_fuzz_dup :: "nat \<Rightarrow> u8"
  san_case_status :: u8
  san_fsrvs :: "afl_forkserver list"
  subseq_tmouts :: u32
  cur_skipped_items :: u32
  skip_requested :: u8
  syncing_case :: u32
  foreign_file :: "string option"
  prev_run_time :: u64
  stage_short :: string
  stage_cur_byte :: int
  stage_val_type :: stage_val_type
  stage_cur_val :: int
  out_dir :: string
  orig_cmdline :: string
  file_extension :: "string option"
  afl_env :: afl_env_vars
  disk :: "(string \<times> bytes) list"

section \<open>Zeroed objects\<close>

text \<open>
  The state as it comes out of \<open>calloc\<close>, and an entry as \<open>ck_alloc\<close> returns it: the points
  from which concrete states are built.
\<close>

definition fsrv_zero :: afl_forkserver where
  "fsrv_zero = \<lparr>trace_bits = [],
     map_size = 0,
     real_map_size = 0,
     exec_tmout = 0,
     mem_limit = 0,
     total_execs = 0,
     last_kill_signal = 0,
     use_shmem_fuzz = False,
     shmem_fuzz = []\<rparr>"

definition env_zero :: afl_env_vars where
  "env_zero = \<lparr>afl_ignore_timeouts = False, afl_keep_timeouts = False, afl_cal_fast = False, afl_sha1_filenames = False, afl_no_crash_readme = 0,
     afl_post_process_keep_original = False\<rparr>"

definition skipdet_zero :: skipdet_entry where
  "skipdet_zero = \<lparr>continue_inf = 0, done_eff = 0, undet_bits = 0, quick_eff_bytes = 0,
     skip_eff_map = None, done_inf_map = None\<rparr>"

definition entry_zero :: queue_entry where
  "entry_zero = \<lparr>q_fname = '''',
     q_len = 0,
     q_id = 0,
     q_cal_failed = 0,
     q_trim_done = False,
     q_was_fuzzed = False,
     q_passed_det = False,
     q_has_new_cov = False,
     q_var_behavior = False,
     q_favored = False,
     q_fs_redundant = False,
     q_is_ascii = False,
     q_disabled = False,
     q_bitmap_size = 0,
     q_fuzz_level = 0,
     q_n_fuzz_entry = 0,
     q_exec_us = 0,
     q_handicap = 0,
     q_depth = 0,
     q_exec_cksum = 0,
     q_tc_ref = 0,
     q_perf_score = Fin 0,
     q_weight = Fin 0,
     q_cpu_energy_cost = 0,
     q_mem_energy_cost = 0,
     q_mother = None,
     q_trace_mini = None,
     q_testcase_buf = None,
     q_skipdet_e = None\<rparr>"

definition afl_zero :: afl_state where
  "afl_zero = \<lparr>fsrv = fsrv_zero,
     cpu_energy_map = None,
     mem_energy_map = None,
     limit_time_sig = 0,
     schedule = EXPLORE,
     havoc_max_mult = 0,
     non_instrumented_mode = False,
     score_changed = False,
     bitmap_changed = False,
     fixed_seed = False,
     reinit_table = False,
     resuming_fuzz = False,
     crash_mode = 0,
     afl_disable_redundant = False,
     virgin_bits = [],
     virgin_tmout = [],
     virgin_crash = [],
     alias_probability = [],
     alias_table = [],
     active_items = 0,
     var_bytes = [],
     n_fuzz = (\<lambda>_. 0),
     queued_items = 0,
     queued_variable = 0,
     queued_discovered = 0,
     queued_favored = 0,
     queued_with_cov = 0,
     pending_not_fuzzed = 0,
     pending_favored = 0,
     cur_depth = 0,
     max_depth = 0,
     var_byte_count = 0,
     cycles_wo_finds = 0,
     start_time = 0,
     last_find_time = 0,
     longest_find_time = 0,
     stage_cur = 0,
     stage_max = 0,
     smallest_favored = 0,
     rand_cnt = 0,
     init_seed = 0,
     rand_seed0 = 0,
     rand_seed1 = 0,
     rand_seed2 = 0,
     total_cal_us = 0,
     total_cal_cycles = 0,
     total_bitmap_size = 0,
     total_bitmap_entries = 0,
     total_mem_energy = 0,
     total_cpu_energy = 0,
     min_mem_energy = 0,
     max_mem_energy = 0,
     min_cpu_energy = 0,
     max_cpu_energy = 0,
     queue = None,
     queue_cur = None,
     queue_top = None,
     queue_buf = [],
     top_rated = [],
     top_rated_candidates = [],
     first_trace = [],
     map_tmp_buf = [],
     ready_for_splicing_count = 0,
     q_testcase_max_cache_size = 0,
     q_testcase_max_cache_entries = 0,
     q_testcase_cache_size = 0,
     q_testcase_max_cache_count = 0,
     q_testcase_cache_count = 0,
     q_testcase_smallest_free = 0,
     q_testcase_evictions = 0,
     q_testcase_cache = [],
     last_scored_idx = 0,
     testcase_buf = [],
     splicecase_buf = [],
     cache_do_once = False,
     custom_mutators_count = 0,
     syncing_party = None,
     cmplog_mode = False,
     current_entry = 0,
     splicing_with = 0,
     stop_soon = 0,
     bytes_trim_in = 0,
     bytes_trim_out = 0,
     trim_execs = 0,
     clean_trace = [],
     min_length = 0,
     max_length = 0,
     no_unlink = False,
     total_tmouts = 0,
     saved_hangs = 0,
     saved_crashes = 0,
     total_crashes = 0,
     saved_tmouts = 0,
     queue_cycle = 0,
     hang_tmout = 0,
     switch_fuzz_mode = 0,
     fuzz_mode = 0,
     last_hang_time = 0,
     last_crash_time = 0,
     last_crash_execs = 0,
     san_binary_length = 0,
     san_abstraction = SIMPLIFY_TRACE,
     simplified_n_fuzz = (\<lambda>_. 0),
     n_fuzz_dup = (\<lambda>_. 0),
     san_case_status = 0,
     san_fsrvs = [],
     subseq_tmouts = 0,
     cur_skipped_items = 0,
     skip_requested = 0,
     syncing_case = 0,
     foreign_file = None,
     prev_run_time = 0,
     stage_short = '''',
     stage_cur_byte = 0,
     stage_val_type = STAGE_VAL_NONE,
     stage_cur_val = 0,
     out_dir = '''',
     orig_cmdline = '''',
     file_extension = None,
     afl_env = env_zero,
     disk = []\<rparr>"

lemmas zero_defs = fsrv_zero_def entry_zero_def afl_zero_def

end
