(* ===== verification/Text.thy ===== *)
theory Text
  imports Afl_State
begin

text \<open>
  Text detection, \<open>check_if_text_buf\<close> and \<open>check_if_text\<close> of src/afl-fuzz-queue.c. The bytes from
  the current offset to the end are the list the loop works on, so that \<open>len - offset\<close> is its
  length. Reading the file is a parameter: \<open>None\<close> when it cannot be opened, otherwise the bytes
  that \<open>read\<close> delivered. The reference is the UTF-8 encoding of Unicode scalar values (RFC 3629).
\<close>

section \<open>The scanner\<close>

definition in_range :: "u8 \<Rightarrow> u8 \<Rightarrow> u8 \<Rightarrow> bool" where
  "in_range lo x hi \<longleftrightarrow> lo \<le> x \<and> x \<le> hi"

definition plain_char :: "u8 \<Rightarrow> bool" where
  "plain_char x \<longleftrightarrow> x = 0x09 \<or> x = 0x0A \<or> x = 0x0D \<or> in_range 0x20 x 0x7E"

definition ascii_char :: "u8 \<Rightarrow> bool" where
  "ascii_char x \<longleftrightarrow> x \<le> 0x7F \<or> in_range 0x20 x 0x7E"

definition two_byte :: "bytes \<Rightarrow> bool" where
  "two_byte b \<longleftrightarrow> length b > 1 \<and> in_range 0xC2 (b ! 0) 0xDF \<and> in_range 0x80 (b ! 1) 0xBF"

definition three_byte :: "bytes \<Rightarrow> bool" where
  "three_byte b \<longleftrightarrow> length b > 2 \<and>
     (b ! 0 = 0xE0 \<and> in_range 0xA0 (b ! 1) 0xBF \<and> in_range 0x80 (b ! 2) 0xBF \<or>
      (in_range 0xE1 (b ! 0) 0xEC \<or> b ! 0 = 0xEE \<or> b ! 0 = 0xEF) \<and> in_range 0x80 (b ! 1) 0xBF \<and> in_range 0x80 (b ! 2) 0xBF \<or>
      b ! 0 = 0xED \<and> in_range 0x80 (b ! 1) 0x9F \<and> in_range 0x80 (b ! 2) 0xBF)"

definition four_byte :: "bytes \<Rightarrow> bool" where
  "four_byte b \<longleftrightarrow> length b > 3 \<and>
     (b ! 0 = 0xF0 \<and> in_range 0x90 (b ! 1) 0xBF \<and> in_range 0x80 (b ! 2) 0xBF \<and> in_range 0x80 (b ! 3) 0xBF \<or>
      in_range 0xF1 (b ! 0) 0xF3 \<and> in_range 0x80 (b ! 1) 0xBF \<and> in_range 0x80 (b ! 2) 0xBF \<and> in_range 0x80 (b ! 3) 0xBF \<or>
      b ! 0 = 0xF4 \<and> in_range 0x80 (b ! 1) 0x8F \<and> in_range 0x80 (b ! 2) 0xBF \<and> in_range 0x80 (b ! 3) 0xBF)"

text \<open>One iteration: how far the offset moves, and what it adds to \<open>ascii\<close> and \<open>utf8\<close>.\<close>

definition text_step :: "bytes \<Rightarrow> nat \<times> u32 \<times> u32" where
  "text_step b =
     (if plain_char (b ! 0) then (1, 1, 1)
      else let ascii = (if ascii_char (b ! 0) then 1 else 0)
           in if two_byte b then (2, ascii, 1)
              else if three_byte b then (3, ascii, 1)
              else if four_byte b then (4, ascii, 1)
              else (1, ascii, 0))"

lemma text_step_pos: "text_step b = (n, a, u) \<Longrightarrow> 0 < n"
  by (auto simp: text_step_def Let_def split: if_splits)

text \<open>The loop; a character of \<open>n\<close> bytes lowers \<open>comp\<close> by \<open>n - 1\<close>.\<close>

function text_loop :: "bytes \<Rightarrow> u32 \<Rightarrow> u32 \<Rightarrow> int \<Rightarrow> u32 \<times> u32 \<times> int" where
  "text_loop b ascii utf8 cmp =
     (if b = [] then (ascii, utf8, cmp)
      else case text_step b of (n, a, u) \<Rightarrow> text_loop (drop n b) (ascii + a) (utf8 + u) (cmp - (int n - 1)))"
  by pat_completeness auto

termination
  by (relation "measure (\<lambda>(b, _). length b)") (auto dest!: text_step_pos [OF sym])

declare text_loop.simps [simp del]

definition check_if_text_buf :: "bytes \<Rightarrow> u32 \<Rightarrow> u8" where
  "check_if_text_buf buf len =
     (case text_loop (take (unat len) buf) 0 0 0 of
        (ascii, utf8, _) \<Rightarrow> ucast (if ascii < utf8 then utf8 else ascii))"

definition AFL_TXT_MIN_LEN :: u32 where
  "AFL_TXT_MIN_LEN = 12"

definition AFL_TXT_MAX_LEN :: u32 where
  "AFL_TXT_MAX_LEN = 65535"

definition AFL_TXT_MIN_PERCENT :: int where
  "AFL_TXT_MIN_PERCENT = 99"

definition MAX_FILE :: u32 where
  "MAX_FILE = 1 * 1024 * 1024"

definition check_if_text :: "(string \<Rightarrow> nat \<Rightarrow> bytes option) \<Rightarrow> queue_entry \<Rightarrow> u8 res" where
  "check_if_text read_file q =
     (if q_len q < AFL_TXT_MIN_LEN \<or> q_len q < AFL_TXT_MAX_LEN then Inr 0
      else let len = (if MAX_FILE \<le> q_len q then MAX_FILE - 1 else q_len q)
           in case read_file (q_fname q) (unat len) of
                None \<Rightarrow> Inr 0
              | Some buf \<Rightarrow>
                  if length buf \<noteq> unat len then Inr 0
                  else case text_loop buf 0 0 (int (length buf)) of
                         (ascii, utf8, cmp) \<Rightarrow>
                           if cmp = 0 \<or> len = 0 then Inl (UB ''division by zero'')
                           else let percent_utf8 = uint (utf8 * 100) div cmp;
                                    percent_ascii = uint (ascii * 100) div uint len
                                in Inr (if percent_ascii \<le> percent_utf8 \<and> AFL_TXT_MIN_PERCENT \<le> percent_utf8 then 2
                                        else if AFL_TXT_MIN_PERCENT \<le> percent_ascii then 1
                                        else 0))"

section \<open>UTF-8\<close>

definition scalar_value :: "nat \<Rightarrow> bool" where
  "scalar_value c \<longleftrightarrow> c < 0xD800 \<or> 0xE000 \<le> c \<and> c < 0x110000"

definition utf8_encode :: "nat \<Rightarrow> bytes" where
  "utf8_encode c =
     (if c < 0x80 then [of_nat c]
      else if c < 0x800 then [of_nat (0xC0 + c div 64), of_nat (0x80 + c mod 64)]
      else if c < 0x10000
      then [of_nat (0xE0 + c div 4096), of_nat (0x80 + c div 64 mod 64), of_nat (0x80 + c mod 64)]
      else [of_nat (0xF0 + c div 262144), of_nat (0x80 + c div 4096 mod 64),
            of_nat (0x80 + c div 64 mod 64), of_nat (0x80 + c mod 64)])"

lemma unat_of_byte: "n < 256 \<Longrightarrow> unat (of_nat n :: u8) = n"
  by (simp add: unsigned_of_nat take_bit_nat_eq_self)

lemma byte_lt: "unat (x :: u8) < 256"
  using unsigned_less [of x] by simp

lemma byte_eq: "(x :: u8) = of_nat n \<longleftrightarrow> unat x = n" if "n < 256"
  using that by (simp add: word_unat_eq_iff unat_of_byte)

lemma in_range_unat: "in_range lo x hi \<longleftrightarrow> unat lo \<le> unat x \<and> unat x \<le> unat hi"
  by (simp add: in_range_def word_le_nat_alt)

lemma encode2:
  assumes "2 \<le> a" and "a < 32" and "b < 64"
  shows "utf8_encode (64 * a + b) = [of_nat (0xC0 + a), of_nat (0x80 + b)]"
  using assms by (simp add: utf8_encode_def)

lemma encode3:
  assumes "a < 16" and "b < 64" and "d < 64" and "0x800 \<le> 4096 * a + 64 * b"
  shows "utf8_encode (4096 * a + 64 * b + d) = [of_nat (0xE0 + a), of_nat (0x80 + b), of_nat (0x80 + d)]"
proof -
  let ?c = "4096 * a + 64 * b + d"
  have "?c < 0x10000" "\<not> ?c < 0x800" using assms by linarith+
  moreover have "?c div 4096 = a" "?c div 64 = 64 * a + b" using assms by simp_all
  moreover have "(d + 64 * (64 * a + b)) mod 64 = d" "(64 * a + b) mod 64 = b"
    using assms unfolding mod_mult_self2 by simp_all
  ultimately show ?thesis by (simp add: utf8_encode_def algebra_simps)
qed

lemma encode4:
  assumes "a < 8" and "b < 64" and "d < 64" and "e < 64" and "0x10000 \<le> 262144 * a + 4096 * b"
  shows "utf8_encode (262144 * a + 4096 * b + 64 * d + e) =
    [of_nat (0xF0 + a), of_nat (0x80 + b), of_nat (0x80 + d), of_nat (0x80 + e)]"
proof -
  let ?c = "262144 * a + 4096 * b + 64 * d + e"
  have "\<not> ?c < 0x10000" using assms by linarith
  moreover have "?c div 262144 = a" "?c div 4096 = 64 * a + b" "?c div 64 = 4096 * a + 64 * b + d" using assms by simp_all
  moreover have "(e + 64 * (4096 * a + 64 * b + d)) mod 64 = e" "(d + 64 * (64 * a + b)) mod 64 = d" "(64 * a + b) mod 64 = b"
    using assms unfolding mod_mult_self2 by simp_all
  ultimately show ?thesis by (simp add: utf8_encode_def algebra_simps)
qed

lemma take2_iff: "take 2 b = [x, y] \<longleftrightarrow> 1 < length b \<and> b ! 0 = x \<and> b ! 1 = y"
  by (cases b; cases "tl b") (auto simp: numeral_2_eq_2)

lemma take3_iff: "take 3 b = [x, y, z] \<longleftrightarrow> 2 < length b \<and> b ! 0 = x \<and> b ! 1 = y \<and> b ! 2 = z"
  by (cases b; cases "tl b"; cases "tl (tl b)") (auto simp: numeral_2_eq_2 numeral_3_eq_3)

lemma take4_iff: "take 4 b = [x, y, z, w] \<longleftrightarrow> 3 < length b \<and> b ! 0 = x \<and> b ! 1 = y \<and> b ! 2 = z \<and> b ! 3 = w"
  by (cases b; cases "tl b"; cases "tl (tl b)"; cases "tl (tl (tl b))") (auto simp: eval_nat_numeral)

text \<open>The three multi-byte tests accept exactly the encodings of the scalar values above 0x7F.\<close>

lemma two_byte_iff:
  "two_byte b \<longleftrightarrow> (\<exists>c. 0x80 \<le> c \<and> c < 0x800 \<and> take 2 b = utf8_encode c)"
proof
  assume t: "two_byte b"
  define x y where "x = unat (b ! 0) - 0xC0" and "y = unat (b ! 1) - 0x80"
  have r: "2 \<le> x" "x < 32" "y < 64" "unat (b ! 0) = 0xC0 + x" "unat (b ! 1) = 0x80 + y" "1 < length b"
    using t by (auto simp: two_byte_def in_range_unat x_def y_def)
  then have "take 2 b = utf8_encode (64 * x + y)"
    using byte_eq [of "0xC0 + x" "b ! 0"] byte_eq [of "0x80 + y" "b ! 1"] by (simp add: encode2 take2_iff)
  then show "\<exists>c. 0x80 \<le> c \<and> c < 0x800 \<and> take 2 b = utf8_encode c"
    using r by (intro exI [of _ "64 * x + y"]) simp
next
  assume "\<exists>c. 0x80 \<le> c \<and> c < 0x800 \<and> take 2 b = utf8_encode c"
  then obtain c where c: "0x80 \<le> c" "c < 0x800" "take 2 b = utf8_encode c" by blast
  then have e: "1 < length b" "b ! 0 = of_nat (0xC0 + c div 64)" "b ! 1 = of_nat (0x80 + c mod 64)"
    by (simp_all add: utf8_encode_def take2_iff)
  have r: "2 \<le> c div 64" "c div 64 < 32" "c mod 64 < 64" using c by simp_all
  then have "unat (b ! 0) = 0xC0 + c div 64" "unat (b ! 1) = 0x80 + c mod 64"
    unfolding e by (intro unat_of_byte; simp)+
  then show "two_byte b" using e(1) r by (simp only: two_byte_def in_range_unat) simp
qed

lemma sextets3: "c = 4096 * (c div 4096) + 64 * (c div 64 mod 64) + c mod (64 :: nat)"
proof -
  define q r where "q = c div 64" and "r = q div 64"
  have "c = 64 * q + c mod 64" "q = 64 * r + q mod 64" unfolding r_def q_def by simp_all
  moreover have "r = c div 4096" unfolding r_def q_def by (simp flip: div_mult2_eq)
  ultimately show ?thesis unfolding q_def [symmetric] by linarith
qed

lemma sextets4: "c = 262144 * (c div 262144) + 4096 * (c div 4096 mod 64) + 64 * (c div 64 mod 64) + c mod (64 :: nat)"
proof -
  define q where "q = c div 4096"
  have "q = 64 * (c div 262144) + q mod 64" unfolding q_def by (simp add: div_mult2_eq [of c 4096 64, simplified])
  then show ?thesis using sextets3 [of c] unfolding q_def [symmetric] by linarith
qed

lemma three_byte_iff:
  "three_byte b \<longleftrightarrow> (\<exists>c. 0x800 \<le> c \<and> c < 0x10000 \<and> scalar_value c \<and> take 3 b = utf8_encode c)"
proof
  assume t: "three_byte b"
  define x y z where "x = unat (b ! 0) - 0xE0" and "y = unat (b ! 1) - 0x80" and "z = unat (b ! 2) - 0x80"
  have u: "unat (b ! 0) = 0xE0 + x" "unat (b ! 1) = 0x80 + y" "unat (b ! 2) = 0x80 + z" "2 < length b"
    and r: "x < 16" "y < 64" "z < 64" "0x800 \<le> 4096 * x + 64 * y" "x = 13 \<Longrightarrow> y < 32"
    using t by (auto simp: three_byte_def in_range_unat x_def y_def z_def)
  then have e: "take 3 b = utf8_encode (4096 * x + 64 * y + z)"
    using byte_eq [of "0xE0 + x" "b ! 0"] byte_eq [of "0x80 + y" "b ! 1"] byte_eq [of "0x80 + z" "b ! 2"]
    by (simp add: encode3 take3_iff)
  have "scalar_value (4096 * x + 64 * y + z)" using r unfolding scalar_value_def by (cases "x < 13"; cases "x = 13") auto
  then show "\<exists>c. 0x800 \<le> c \<and> c < 0x10000 \<and> scalar_value c \<and> take 3 b = utf8_encode c"
    using r e by (intro exI [of _ "4096 * x + 64 * y + z"]) simp
next
  assume "\<exists>c. 0x800 \<le> c \<and> c < 0x10000 \<and> scalar_value c \<and> take 3 b = utf8_encode c"
  then obtain c where c: "0x800 \<le> c" "c < 0x10000" "scalar_value c" "take 3 b = utf8_encode c" by blast
  define x y z where "x = c div 4096" and "y = c div 64 mod 64" and "z = c mod 64"
  have cc: "c = 4096 * x + 64 * y + z" and r: "x < 16" "y < 64" "z < 64"
    using c(2) sextets3 [of c] unfolding x_def y_def z_def by simp_all
  have e: "2 < length b" "b ! 0 = of_nat (0xE0 + x)" "b ! 1 = of_nat (0x80 + y)" "b ! 2 = of_nat (0x80 + z)"
    using c by (simp_all add: utf8_encode_def take3_iff x_def y_def z_def)
  have u: "unat (b ! 0) = 0xE0 + x" "unat (b ! 1) = 0x80 + y" "unat (b ! 2) = 0x80 + z"
    unfolding e using r by (intro unat_of_byte; simp)+
  have "x = 0 \<Longrightarrow> 32 \<le> y" "x = 13 \<Longrightarrow> y < 32" using c(1, 3) r unfolding cc scalar_value_def by auto
  moreover have "b ! 0 = 0xE0 \<longleftrightarrow> x = 0" "b ! 0 = 0xED \<longleftrightarrow> x = 13" "b ! 0 = 0xEE \<longleftrightarrow> x = 14" "b ! 0 = 0xEF \<longleftrightarrow> x = 15"
    by (simp_all add: word_unat_eq_iff u)
  ultimately show "three_byte b" using e(1) r by (simp only: three_byte_def in_range_unat u) auto
qed

lemma four_byte_iff:
  "four_byte b \<longleftrightarrow> (\<exists>c. 0x10000 \<le> c \<and> c < 0x110000 \<and> take 4 b = utf8_encode c)"
proof
  assume t: "four_byte b"
  define x y z w where "x = unat (b ! 0) - 0xF0" and "y = unat (b ! 1) - 0x80" and "z = unat (b ! 2) - 0x80" and "w = unat (b ! 3) - 0x80"
  have u: "unat (b ! 0) = 0xF0 + x" "unat (b ! 1) = 0x80 + y" "unat (b ! 2) = 0x80 + z" "unat (b ! 3) = 0x80 + w" "3 < length b"
    and r: "x < 5" "y < 64" "z < 64" "w < 64" "0x10000 \<le> 262144 * x + 4096 * y" "x = 4 \<Longrightarrow> y < 16"
    using t by (auto simp: four_byte_def in_range_unat x_def y_def z_def w_def)
  then have e: "take 4 b = utf8_encode (262144 * x + 4096 * y + 64 * z + w)"
    using byte_eq [of "0xF0 + x" "b ! 0"] byte_eq [of "0x80 + y" "b ! 1"] byte_eq [of "0x80 + z" "b ! 2"] byte_eq [of "0x80 + w" "b ! 3"]
    by (subst encode4) (simp_all add: take4_iff)
  have "262144 * x + 4096 * y + 64 * z + w < 0x110000" using r by (cases "x = 4") auto
  then show "\<exists>c. 0x10000 \<le> c \<and> c < 0x110000 \<and> take 4 b = utf8_encode c"
    using r e by (intro exI [of _ "262144 * x + 4096 * y + 64 * z + w"]) simp
next
  assume "\<exists>c. 0x10000 \<le> c \<and> c < 0x110000 \<and> take 4 b = utf8_encode c"
  then obtain c where c: "0x10000 \<le> c" "c < 0x110000" "take 4 b = utf8_encode c" by blast
  define x y z w where "x = c div 262144" and "y = c div 4096 mod 64" and "z = c div 64 mod 64" and "w = c mod 64"
  have cc: "c = 262144 * x + 4096 * y + 64 * z + w" and r: "x < 5" "y < 64" "z < 64" "w < 64"
    using c(2) sextets4 [of c] unfolding x_def y_def z_def w_def by simp_all
  have e: "3 < length b" "b ! 0 = of_nat (0xF0 + x)" "b ! 1 = of_nat (0x80 + y)" "b ! 2 = of_nat (0x80 + z)" "b ! 3 = of_nat (0x80 + w)"
    using c by (simp_all add: utf8_encode_def take4_iff x_def y_def z_def w_def)
  have u: "unat (b ! 0) = 0xF0 + x" "unat (b ! 1) = 0x80 + y" "unat (b ! 2) = 0x80 + z" "unat (b ! 3) = 0x80 + w"
    unfolding e using r by (intro unat_of_byte; simp)+
  have "x = 0 \<Longrightarrow> 16 \<le> y" "x = 4 \<Longrightarrow> y < 16" using c(1, 2) r unfolding cc by auto
  moreover have "b ! 0 = 0xF0 \<longleftrightarrow> x = 0" "b ! 0 = 0xF4 \<longleftrightarrow> x = 4" by (simp_all add: word_unat_eq_iff u)
  ultimately show "four_byte b" using e(1) r by (simp only: four_byte_def in_range_unat u) auto
qed

lemmas multi_byte_iff = two_byte_iff three_byte_iff four_byte_iff

lemma length_utf8_encode:
  "length (utf8_encode c) = (if c < 0x80 then 1 else if c < 0x800 then 2 else if c < 0x10000 then 3 else 4)"
  by (simp add: utf8_encode_def)

lemma lead_byte:
  "two_byte b \<Longrightarrow> \<not> ascii_char (b ! 0)" "three_byte b \<Longrightarrow> \<not> ascii_char (b ! 0) \<and> \<not> two_byte b"
  "four_byte b \<Longrightarrow> \<not> ascii_char (b ! 0) \<and> \<not> two_byte b \<and> \<not> three_byte b"
  by (auto simp: two_byte_def three_byte_def four_byte_def ascii_char_def in_range_unat word_le_nat_alt word_unat_eq_iff)

lemma multi_length:
  "two_byte b \<Longrightarrow> 2 \<le> length b" "three_byte b \<Longrightarrow> 3 \<le> length b" "four_byte b \<Longrightarrow> 4 \<le> length b"
  by (auto simp: two_byte_def three_byte_def four_byte_def)

lemma plain_ascii: "plain_char x \<Longrightarrow> ascii_char x"
  by (auto simp: plain_char_def ascii_char_def in_range_unat word_le_nat_alt)

lemma text_step_multi:
  "two_byte b \<Longrightarrow> text_step b = (2, 0, 1)" "three_byte b \<Longrightarrow> text_step b = (3, 0, 1)" "four_byte b \<Longrightarrow> text_step b = (4, 0, 1)"
  using lead_byte [of b] plain_ascii [of "b ! 0"] by (auto simp: text_step_def)

lemma text_step_multi_iff:
  "1 < n \<and> text_step b = (n, 0, 1) \<longleftrightarrow> n = 2 \<and> two_byte b \<or> n = 3 \<and> three_byte b \<or> n = 4 \<and> four_byte b"
  using text_step_multi [of b] by (auto simp: text_step_def Let_def split: if_splits)

lemma scalar_ranges:
  "0x80 \<le> c \<and> scalar_value c \<longleftrightarrow>
     0x80 \<le> c \<and> c < 0x800 \<or> 0x800 \<le> c \<and> c < 0x10000 \<and> scalar_value c \<or> 0x10000 \<le> c \<and> c < 0x110000"
  by (auto simp: scalar_value_def)

text \<open>
  The scanner takes more than one byte at a time exactly for the UTF-8 encodings of the
  Unicode scalar values above 0x7F (no overlong form, no surrogate, nothing above 0x10FFFF), and
  counts each as one UTF-8 character and no ASCII character.
\<close>

theorem text_step_utf8:
  "1 < n \<and> text_step b = (n, 0, 1) \<longleftrightarrow>
     (\<exists>c. 0x80 \<le> c \<and> scalar_value c \<and> n = length (utf8_encode c) \<and> take n b = utf8_encode c)"
proof -
  have "(\<exists>c. 0x80 \<le> c \<and> scalar_value c \<and> n = length (utf8_encode c) \<and> take n b = utf8_encode c) \<longleftrightarrow>
      n = 2 \<and> (\<exists>c. 0x80 \<le> c \<and> c < 0x800 \<and> take 2 b = utf8_encode c) \<or>
      n = 3 \<and> (\<exists>c. 0x800 \<le> c \<and> c < 0x10000 \<and> scalar_value c \<and> take 3 b = utf8_encode c) \<or>
      n = 4 \<and> (\<exists>c. 0x10000 \<le> c \<and> c < 0x110000 \<and> take 4 b = utf8_encode c)"
  proof -
    have "0x80 \<le> c \<and> scalar_value c \<and> n = length (utf8_encode c) \<and> take n b = utf8_encode c \<longleftrightarrow>
      n = 2 \<and> (0x80 \<le> c \<and> c < 0x800 \<and> take 2 b = utf8_encode c) \<or>
      n = 3 \<and> (0x800 \<le> c \<and> c < 0x10000 \<and> scalar_value c \<and> take 3 b = utf8_encode c) \<or>
      n = 4 \<and> (0x10000 \<le> c \<and> c < 0x110000 \<and> take 4 b = utf8_encode c)" for c
    proof -
      consider "c < 0x80" | "0x80 \<le> c" "c < 0x800" | "0x800 \<le> c" "c < 0x10000" | "0x10000 \<le> c" by linarith
      then show ?thesis by cases (auto simp: length_utf8_encode scalar_value_def)
    qed
    then show ?thesis by (simp only: ex_disj_distrib ex_simps)
  qed
  then show ?thesis unfolding text_step_multi_iff multi_byte_iff by (rule sym)
qed

section \<open>Whole texts\<close>

definition text_cp :: "nat \<Rightarrow> bool" where
  "text_cp c \<longleftrightarrow> c = 9 \<or> c = 10 \<or> c = 13 \<or> 0x20 \<le> c \<and> c \<le> 0x7E \<or> 0x80 \<le> c \<and> scalar_value c"

definition utf8_text :: "nat list \<Rightarrow> bytes" where
  "utf8_text cps = concat (map utf8_encode cps)"

lemma text_step_encode:
  assumes "text_cp c"
  shows "text_step (utf8_encode c @ b) = (length (utf8_encode c), if c < 0x80 then 1 else 0, 1)"
proof (cases "c < 0x80")
  case True
  then have "plain_char (of_nat c)" using assms
    by (auto simp: text_cp_def plain_char_def in_range_unat unat_of_byte)
  then show ?thesis using True by (simp add: text_step_def utf8_encode_def)
next
  case False
  let ?b = "utf8_encode c @ b"
  have c: "0x80 \<le> c \<and> scalar_value c" using False assms by (auto simp: text_cp_def)
  have t: "take (length (utf8_encode c)) ?b = utf8_encode c" by simp
  from c [unfolded scalar_ranges] have "two_byte ?b \<and> length (utf8_encode c) = 2 \<or> three_byte ?b \<and> length (utf8_encode c) = 3 \<or>
      four_byte ?b \<and> length (utf8_encode c) = 4"
    using t unfolding multi_byte_iff by (auto simp: length_utf8_encode)
  then show ?thesis using False text_step_multi [of ?b] by auto
qed

lemma text_loop_encode:
  assumes "\<forall>c\<in>set cps. text_cp c"
  shows "text_loop (utf8_text cps) a u k =
    (a + of_nat (length (filter (\<lambda>c. c < 0x80) cps)), u + of_nat (length cps), k - int (length (utf8_text cps)) + int (length cps))"
  using assms
proof (induction cps arbitrary: a u k)
  case Nil
  then show ?case by (simp add: utf8_text_def text_loop.simps)
next
  case (Cons c cps)
  have "utf8_encode c \<noteq> []" using length_utf8_encode [of c] by (auto split: if_splits)
  then show ?case using Cons text_step_encode [of c "utf8_text cps"]
    by (subst text_loop.simps) (auto simp: utf8_text_def)
qed

lemma length_utf8_text: "length cps \<le> length (utf8_text cps)"
  by (induction cps) (auto simp: utf8_text_def length_utf8_encode)

text \<open>
  What the loop counts: \<open>A\<close> and \<open>U\<close> of the \<open>N\<close> iterations. The byte count that \<open>comp\<close> starts from
  ends at \<open>N\<close>.
\<close>

lemma text_loop_counts:
  "\<exists>A U N. text_loop b a u k = (a + of_nat A, u + of_nat U, k - int (length b) + int N) \<and> A \<le> N \<and> U \<le> N \<and> N \<le> length b \<and>
     (b \<noteq> [] \<longrightarrow> 0 < N) \<and> (A = length b \<longleftrightarrow> (\<forall>x\<in>set b. ascii_char x)) \<and> (U = length b \<longrightarrow> (\<forall>x\<in>set b. ascii_char x))"
proof (induction b a u k rule: text_loop.induct)
  case (1 b a u k)
  show ?case
  proof (cases "b = []")
    case True
    then show ?thesis by (intro exI [of _ 0]) (simp add: text_loop.simps)
  next
    case False
    obtain n da du where st: "text_step b = (n, da, du)" by (cases "text_step b")
    obtain x bs where b: "b = x # bs" using False by (cases b) auto
    have d: "da = of_nat (if ascii_char x then 1 else 0)" "du = of_nat (if n = 1 \<and> \<not> plain_char x then 0 else 1)"
      "0 < n" "n \<le> length b" "ascii_char x \<longrightarrow> n = 1" "plain_char x \<longrightarrow> n = 1"
      using st lead_byte [of b] plain_ascii [of x] False multi_length [of b] unfolding b
      by (auto simp: text_step_def Let_def split: if_splits)
    obtain A U N where IH: "text_loop (drop n b) (a + da) (u + du) (k - (int n - 1)) =
        (a + da + of_nat A, u + du + of_nat U, k - (int n - 1) - int (length (drop n b)) + int N)"
      "A \<le> N" "U \<le> N" "N \<le> length (drop n b)" "A = length (drop n b) \<longleftrightarrow> (\<forall>x\<in>set (drop n b). ascii_char x)"
      "U = length (drop n b) \<longrightarrow> (\<forall>x\<in>set (drop n b). ascii_char x)"
      using 1 [OF False st [symmetric] refl] by blast
    let ?da = "if ascii_char x then 1 else 0 :: nat" and ?du = "if n = 1 \<and> \<not> plain_char x then 0 else 1 :: nat"
    have f1: "text_loop b a u k = (a + of_nat (?da + A), u + of_nat (?du + U), k - int (length b) + int (Suc N))"
      using IH(1) d False st by (subst text_loop.simps) (simp add: of_nat_diff)
    have f2: "?da + A = length b \<longleftrightarrow> (\<forall>x\<in>set b. ascii_char x)"
      using IH(2, 4, 5) d b by (cases "ascii_char x") auto
    have f3: "?du + U = length b \<longrightarrow> (\<forall>x\<in>set b. ascii_char x)"
    proof
      assume e: "?du + U = length b"
      have U: "U + n \<le> length b" using IH(3, 4) d(3, 4) by simp
      have "?du \<le> 1" by simp
      then have n: "n = 1" using e U d(3) by linarith
      then have "plain_char x" using e U by (cases "plain_char x") simp_all
      moreover have "U = length (drop n b)" using n e \<open>plain_char x\<close> by simp
      ultimately show "\<forall>x\<in>set b. ascii_char x" using IH(6) n b plain_ascii by simp
    qed
    have f4: "?da + A \<le> Suc N" "?du + U \<le> Suc N" "Suc N \<le> length b" using IH(2-4) d(3,4) by auto
    show ?thesis by (intro exI conjI) (rule f1 f2 f3 f4 | simp)+
  qed
qed


section \<open>The two checks\<close>

text \<open>
  \<open>check_if_text_buf\<close> on a buffer of fewer than 256 bytes returns the length of the buffer
  exactly when every byte is ASCII, which is the test redqueen makes on compared values.
\<close>

theorem check_if_text_buf_ascii:
  assumes "length buf < 256"
  shows "check_if_text_buf buf (of_nat (length buf)) = of_nat (length buf) \<longleftrightarrow> (\<forall>x\<in>set buf. x \<le> 0x7F)"
proof -
  obtain A U N where t: "text_loop buf 0 0 0 = (of_nat A, of_nat U, 0 - int (length buf) + int N)"
    and le: "A \<le> N" "U \<le> N" "N \<le> length buf"
    and A: "A = length buf \<longleftrightarrow> (\<forall>x\<in>set buf. ascii_char x)" and U: "U = length buf \<longrightarrow> (\<forall>x\<in>set buf. ascii_char x)"
    using text_loop_counts [of buf 0 0 0] by auto
  have sm: "n < 256 \<Longrightarrow> unat (of_nat n :: u32) = n" for n by (simp add: unsigned_of_nat take_bit_nat_eq_self)
  have uc: "ucast (of_nat n :: u32) = (of_nat n :: u8)" if "n < 256" for n
  proof -
    have "of_nat (unat (of_nat n :: u32)) = (ucast (of_nat n :: u32) :: u8)" by simp
    then show ?thesis using sm [OF that] by (simp only:)
  qed
  have "unat (of_nat (length buf) :: u32) = length buf" using sm assms by blast
  then have c: "check_if_text_buf buf (of_nat (length buf)) = of_nat (max A U)"
    using t le assms sm [of A] sm [of U] uc [of A] uc [of U] by (simp add: check_if_text_buf_def word_less_nat_alt max_def)
  have "check_if_text_buf buf (of_nat (length buf)) = of_nat (length buf) \<longleftrightarrow> max A U = length buf"
    unfolding c using le assms by (simp add: word_unat_eq_iff unat_of_byte)
  also have "\<dots> \<longleftrightarrow> (\<forall>x\<in>set buf. ascii_char x)" using A U le by (auto simp: max_def)
  also have "\<dots> \<longleftrightarrow> (\<forall>x\<in>set buf. x \<le> 0x7F)" by (auto simp: ascii_char_def in_range_unat word_le_nat_alt)
  finally show ?thesis .
qed

theorem check_if_text_buf_ascii_witness:
  "check_if_text_buf [0x41, 0x00] 2 = 2 \<and> check_if_text_buf [0xC3, 0xA9] 2 \<noteq> 2"
  using check_if_text_buf_ascii [of "[0x41, 0x00]"] check_if_text_buf_ascii [of "[0xC3, 0xA9]"] by simp

lemmas txt_limits = AFL_TXT_MIN_LEN_def AFL_TXT_MAX_LEN_def AFL_TXT_MIN_PERCENT_def MAX_FILE_def

lemma check_if_text_returns:
  "\<exists>r \<in> {0, 1, 2}. check_if_text read_file q = Inr r \<and> (if q_len q < 65535 then r = 0 else True)"
proof (cases "q_len q < 65535")
  case True
  then show ?thesis by (simp add: check_if_text_def txt_limits)
next
  case False
  define len where "len = (if MAX_FILE \<le> q_len q then MAX_FILE - 1 else q_len q)"
  have len: "0 < unat len" using False by (auto simp: len_def txt_limits word_less_nat_alt)
  show ?thesis
  proof (cases "read_file (q_fname q) (unat len)")
    case None
    then show ?thesis using False by (simp add: check_if_text_def Let_def flip: len_def)
  next
    case (Some buf)
    obtain A U N where t: "text_loop buf 0 0 (int (length buf)) = (of_nat A, of_nat U, int N)" and "buf \<noteq> [] \<longrightarrow> 0 < N"
      using text_loop_counts [of buf 0 0 "int (length buf)"] by auto
    show ?thesis
    proof (cases "length buf = unat len")
      case True
      then have "text_loop buf 0 0 (uint len) = (of_nat A, of_nat U, int N)" "0 < N" "len \<noteq> 0"
        using t len \<open>buf \<noteq> [] \<longrightarrow> 0 < N\<close> by auto
      then show ?thesis using False Some True
        by (simp add: check_if_text_def Let_def flip: len_def)
    next
      case False
      then show ?thesis using Some \<open>\<not> q_len q < 65535\<close> by (simp add: check_if_text_def Let_def flip: len_def)
    qed
  qed
qed

lemma uint_percent:
  assumes "m < 2 ^ 20"
  shows "uint (of_nat m * 100 :: u32) = 100 * int m"
proof -
  have "uint (of_nat (m * 100) :: u32) = int (m * 100)"
    using assms by (simp only: unsigned_of_nat) (simp add: take_bit_nat_eq_self)
  then show ?thesis by simp
qed

text \<open>
  C37: a file that holds the UTF-8 encoding of printable characters, tabs and line ends is
  recognised as UTF-8 text if it has at least \<open>AFL_TXT_MAX_LEN = 65535\<close> bytes and less than a megabyte. A
  shorter one is rejected unread, where include/config.h documents 65535 as the largest length that is
  evaluated: the comparison in the code is the wrong way round.
\<close>

theorem check_if_text_utf8:
  assumes "\<forall>c\<in>set cps. text_cp c" and "length (utf8_text cps) < 2 ^ 20" and "q_len q = of_nat (length (utf8_text cps))"
    and "read_file (q_fname q) (length (utf8_text cps)) = Some (utf8_text cps)"
  shows "check_if_text read_file q = Inr (if length (utf8_text cps) < 65535 then 0 else 2)"
proof -
  let ?n = "length (utf8_text cps)"
  let ?a = "length (filter (\<lambda>c. c < 0x80) cps)"
  have un: "n < 2 ^ 32 \<Longrightarrow> unat (of_nat n :: u32) = n" for n by (simp add: unsigned_of_nat take_bit_nat_eq_self)
  have n: "unat (q_len q) = ?n" using assms(2) un [of ?n] unfolding assms(3) by simp
  have len: "(if MAX_FILE \<le> q_len q then MAX_FILE - 1 else q_len q) = q_len q"
    using assms(2) n by (simp add: txt_limits word_le_nat_alt)
  have sh: "q_len q < AFL_TXT_MIN_LEN \<or> q_len q < AFL_TXT_MAX_LEN \<longleftrightarrow> ?n < 65535"
    using n by (auto simp: txt_limits word_less_nat_alt)
  show ?thesis
  proof (cases "?n < 65535")
    case True
    then show ?thesis using sh by (simp add: check_if_text_def)
  next
    case False
    have t: "text_loop (utf8_text cps) 0 0 (int ?n) = (of_nat ?a, of_nat (length cps), int (length cps))"
      using text_loop_encode [OF assms(1), of 0 0 "int ?n"] by simp
    have l: "length cps \<le> ?n" "?a \<le> length cps" "0 < length cps"
      using length_utf8_text [of cps] False by (auto simp: utf8_text_def)
    have u: "uint (of_nat (length cps) * 100 :: u32) = 100 * int (length cps)" "uint (of_nat ?a * 100 :: u32) = 100 * int ?a"
      using uint_percent [of "length cps"] uint_percent [of ?a] order.strict_trans1 [OF l(1) assms(2)]
        order.strict_trans1 [OF order.trans [OF l(2, 1)] assms(2)] by blast+
    have q: "uint (q_len q) = int ?n" using n by (metis uint_nat)
    have "100 * int ?a div int ?n \<le> 100"
    proof -
      have "100 * int ?a div int ?n \<le> 100 * int ?n div int ?n" using order.trans [OF l(2, 1)] order.strict_trans2 [OF l(3, 1)] by (intro zdiv_mono1) linarith+
      also have "\<dots> \<le> 100" by simp
      finally show ?thesis .
    qed
    moreover have "100 * int (length cps) div int (length cps) = 100" using l by simp
    moreover have "q_len q \<noteq> 0" using n False by auto
    ultimately show ?thesis using False sh t l(3) assms(4)
      by (simp add: check_if_text_def Let_def len n u q AFL_TXT_MIN_PERCENT_def)
  qed
qed

theorem check_if_text_utf8_witness:
  "check_if_text (\<lambda>_ n. Some (utf8_text (replicate n 0x41))) (entry_zero\<lparr>q_len := 70000\<rparr>) = Inr 2 \<and>
   check_if_text (\<lambda>_ n. Some (utf8_text (replicate n 0x41))) (entry_zero\<lparr>q_len := 60000\<rparr>) = Inr 0"
proof -
  have l: "length (utf8_text (replicate n 0x41)) = n" for n
    by (simp add: utf8_text_def length_concat utf8_encode_def sum_list_replicate)
  have t: "text_cp 0x41" by (simp add: text_cp_def)
  show ?thesis
    using check_if_text_utf8 [of "replicate 70000 0x41" "entry_zero\<lparr>q_len := 70000\<rparr>" "\<lambda>_ n. Some (utf8_text (replicate n 0x41))"]
      check_if_text_utf8 [of "replicate 60000 0x41" "entry_zero\<lparr>q_len := 60000\<rparr>" "\<lambda>_ n. Some (utf8_text (replicate n 0x41))"]
    by (simp add: l t)
qed

end
