(* ===== verification/Bitmap.thy ===== *)
theory Bitmap
  imports Afl_State
begin

text \<open>
  The coverage map: src/afl-fuzz-bitmap.c and the 64-bit routines of include/coverage-64.h.
  The C code walks the byte maps a machine word at a time; the model does the same over
  little-endian loads and stores of the byte lists, and the lemmas reduce every word loop to
  a byte-wise reference. The maps are at least as long as the words the loops visit, which
  the lemmas state as hypotheses on their lengths.
\<close>

section \<open>Lookup tables\<close>

definition simplify_lookup :: "u8 \<Rightarrow> u8" where
  "simplify_lookup b = (if b = 0 then 1 else 128)"

definition count_class_lookup8 :: "u8 \<Rightarrow> u8" where
  "count_class_lookup8 b =
     (if b = 0 then 0 else if b = 1 then 1 else if b = 2 then 2 else if b = 3 then 4
      else if b \<le> 7 then 8 else if b \<le> 15 then 16 else if b \<le> 31 then 32
      else if b \<le> 127 then 64 else 128)"

text \<open>The 16-bit table is an array with static storage, filled by \<open>init_count_class16\<close>.\<close>

definition class16_entry :: "nat \<Rightarrow> nat \<Rightarrow> u16" where
  "class16_entry b1 b2 =
     push_bit 8 (ucast (count_class_lookup8 (of_nat b1))) OR ucast (count_class_lookup8 (of_nat b2))"

definition init_class16_row :: "nat \<Rightarrow> (nat \<Rightarrow> u16) \<Rightarrow> nat \<Rightarrow> u16" where
  "init_class16_row b1 tbl = fold (\<lambda>b2 t. t(b1 * 256 + b2 := class16_entry b1 b2)) [0..<256] tbl"

definition init_count_class16 :: "(nat \<Rightarrow> u16) \<Rightarrow> nat \<Rightarrow> u16" where
  "init_count_class16 tbl = fold init_class16_row [0..<256] tbl"

definition count_class_lookup16 :: "nat \<Rightarrow> u16" where
  "count_class_lookup16 = init_count_class16 (\<lambda>_. 0)"

section \<open>Word routines of coverage-64.h\<close>

definition half_of :: "u64 \<Rightarrow> nat \<Rightarrow> u16" where
  "half_of w k = ucast (drop_bit (16 * k) w)"

definition classify_word :: "u64 \<Rightarrow> u64" where
  "classify_word w =
     (let m = \<lambda>k. ucast (count_class_lookup16 (unat (half_of w k))) :: u64
      in m 0 OR push_bit 16 (m 1) OR push_bit 32 (m 2) OR push_bit 48 (m 3))"

definition simplify_word :: "u64 \<Rightarrow> u64" where
  "simplify_word w =
     (if w \<noteq> 0 then load_le (map simplify_lookup (store_le 8 w)) else 0x0101010101010101)"

text \<open>A loop that rewrites the first \<open>n\<close> 64-bit words of a byte buffer in place.\<close>

fun word_loop :: "nat \<Rightarrow> (u64 \<Rightarrow> u64) \<Rightarrow> bytes \<Rightarrow> bytes" where
  "word_loop 0 f m = m"
| "word_loop (Suc n) f m = store_le 8 (f (load_le (take 8 m))) @ word_loop n f (drop 8 m)"

definition simplify_trace :: "u32 \<Rightarrow> bytes \<Rightarrow> bytes" where
  "simplify_trace msize m = word_loop (unat (drop_bit 3 msize)) simplify_word m"

definition classify_counts :: "afl_forkserver \<Rightarrow> afl_forkserver" where
  "classify_counts f = f\<lparr>trace_bits :=
     word_loop (unat (drop_bit 3 (map_size f)))
       (\<lambda>w. if w \<noteq> 0 then classify_word w else w) (trace_bits f)\<rparr>"

definition discover_word :: "u8 \<Rightarrow> u64 \<Rightarrow> u64 \<Rightarrow> u8 \<times> u64" where
  "discover_word ret current virgin =
     (if current AND virgin \<noteq> 0 then
        ((if ret < 2 then
            if (byte_of current 0 \<noteq> 0 \<and> byte_of virgin 0 = 255) \<or> (byte_of current 1 \<noteq> 0 \<and> byte_of virgin 1 = 255) \<or>
               (byte_of current 2 \<noteq> 0 \<and> byte_of virgin 2 = 255) \<or> (byte_of current 3 \<noteq> 0 \<and> byte_of virgin 3 = 255) \<or>
               (byte_of current 4 \<noteq> 0 \<and> byte_of virgin 4 = 255) \<or> (byte_of current 5 \<noteq> 0 \<and> byte_of virgin 5 = 255) \<or>
               (byte_of current 6 \<noteq> 0 \<and> byte_of virgin 6 = 255) \<or> (byte_of current 7 \<noteq> 0 \<and> byte_of virgin 7 = 255)
            then 2 else 1
          else ret),
         virgin AND NOT current)
      else (ret, virgin))"

text \<open>
  \<open>skim\<close>, the portable variant: \<open>n\<close> packs of four words, stopping at the first word whose
  classified value meets the virgin map.
\<close>

definition skim_hit :: "bytes \<Rightarrow> bytes \<Rightarrow> nat \<Rightarrow> bool" where
  "skim_hit virgin current k =
     (let c = load_le (take 8 (drop (8 * k) current)) :: u64;
          v = load_le (take 8 (drop (8 * k) virgin)) :: u64
      in c \<noteq> 0 \<and> classify_word c AND v \<noteq> 0)"

fun skim_loop :: "nat \<Rightarrow> bytes \<Rightarrow> bytes \<Rightarrow> u32" where
  "skim_loop 0 virgin current = 0"
| "skim_loop (Suc n) virgin current =
     (if skim_hit virgin current 0 then 1
      else if skim_hit virgin current 1 then 1
      else if skim_hit virgin current 2 then 1
      else if skim_hit virgin current 3 then 1
      else skim_loop n (drop 32 virgin) (drop 32 current))"

definition skim :: "bytes \<Rightarrow> bytes \<Rightarrow> nat \<Rightarrow> u32" where
  "skim virgin current nbytes = skim_loop ((nbytes + 31) div 32) virgin current"

section \<open>Counting routines of afl-fuzz-bitmap.c\<close>

text \<open>
  A loop over the first \<open>n\<close> 32-bit words of a buffer that adds up the contributions
  \<open>f v\<close> in a \<open>u32\<close>.
\<close>

fun count_loop :: "nat \<Rightarrow> (u32 \<Rightarrow> u32) \<Rightarrow> bytes \<Rightarrow> u32 \<Rightarrow> u32" where
  "count_loop 0 f m ret = ret"
| "count_loop (Suc n) f m ret = count_loop n f (drop 4 m) (ret + f (load_le (take 4 m)))"

definition words32 :: "u32 \<Rightarrow> nat" where
  "words32 real_size = unat (drop_bit 2 (real_size + 3))"

definition builtin_popcount :: "u32 \<Rightarrow> u32" where
  "builtin_popcount v = of_nat (length (filter (bit v) [0..<32]))"

definition count_bits :: "u32 \<Rightarrow> bytes \<Rightarrow> u32" where
  "count_bits real_size mem =
     count_loop (words32 real_size)
       (\<lambda>v. if v = 0xffffffff then 32 else builtin_popcount v) mem 0"

definition count_bytes_word :: "u32 \<Rightarrow> u32" where
  "count_bytes_word v =
     (if v = 0 then 0
      else (if v AND 0x000000ff \<noteq> 0 then 1 else 0) + (if v AND 0x0000ff00 \<noteq> 0 then 1 else 0)
         + (if v AND 0x00ff0000 \<noteq> 0 then 1 else 0) + (if v AND 0xff000000 \<noteq> 0 then 1 else 0))"

definition count_bytes :: "u32 \<Rightarrow> bytes \<Rightarrow> u32" where
  "count_bytes real_size mem = count_loop (words32 real_size) count_bytes_word mem 0"

definition count_non_255_word :: "u32 \<Rightarrow> u32" where
  "count_non_255_word v =
     (if v = 0xffffffff then 0
      else (if v AND 0x000000ff \<noteq> 0x000000ff then 1 else 0)
         + (if v AND 0x0000ff00 \<noteq> 0x0000ff00 then 1 else 0)
         + (if v AND 0x00ff0000 \<noteq> 0x00ff0000 then 1 else 0)
         + (if v AND 0xff000000 \<noteq> 0xff000000 then 1 else 0))"

definition count_non_255_bytes :: "u32 \<Rightarrow> bytes \<Rightarrow> u32" where
  "count_non_255_bytes real_size mem = count_loop (words32 real_size) count_non_255_word mem 0"

section \<open>New coverage\<close>

text \<open>Which of the three virgin maps of the state a call works on.\<close>

datatype vmap = VirginBits | VirginTmout | VirginCrash

fun get_virgin :: "vmap \<Rightarrow> afl_state \<Rightarrow> bytes" where
  "get_virgin VirginBits a = virgin_bits a"
| "get_virgin VirginTmout a = virgin_tmout a"
| "get_virgin VirginCrash a = virgin_crash a"

fun set_virgin :: "vmap \<Rightarrow> bytes \<Rightarrow> afl_state \<Rightarrow> afl_state" where
  "set_virgin VirginBits m a = a\<lparr>virgin_bits := m\<rparr>"
| "set_virgin VirginTmout m a = a\<lparr>virgin_tmout := m\<rparr>"
| "set_virgin VirginCrash m a = a\<lparr>virgin_crash := m\<rparr>"

fun discover_loop :: "nat \<Rightarrow> u8 \<Rightarrow> bytes \<Rightarrow> bytes \<Rightarrow> u8 \<times> bytes" where
  "discover_loop 0 ret cur vir = (ret, vir)"
| "discover_loop (Suc n) ret cur vir =
     (let c = load_le (take 8 cur); v = load_le (take 8 vir);
          (ret', v') = (if c \<noteq> 0 then discover_word ret c v else (ret, v));
          (ret'', rest) = discover_loop n ret' (drop 8 cur) (drop 8 vir)
      in (ret'', store_le 8 v' @ rest))"

definition words64 :: "u32 \<Rightarrow> nat" where
  "words64 real_size = unat (drop_bit 3 (real_size + 7))"

definition has_new_bits :: "vmap \<Rightarrow> afl_state \<Rightarrow> u8 \<times> afl_state" where
  "has_new_bits vm a =
     (let (ret, vir) = discover_loop (words64 (real_map_size (fsrv a))) 0
                         (trace_bits (fsrv a)) (get_virgin vm a);
          a' = set_virgin vm vir a
      in (ret, if ret \<noteq> 0 \<and> vm = VirginBits then a'\<lparr>bitmap_changed := True\<rparr> else a'))"

definition has_new_bits_unclassified :: "vmap \<Rightarrow> afl_state \<Rightarrow> u8 \<times> bool \<times> afl_state" where
  "has_new_bits_unclassified vm a =
     (if skim (get_virgin vm a) (trace_bits (fsrv a)) (unat (map_size (fsrv a))) = 0
      then (0, False, a)
      else let (ret, a') = has_new_bits vm (a\<lparr>fsrv := classify_counts (fsrv a)\<rparr>)
           in (ret, True, a'))"

definition minimize_step :: "bytes \<Rightarrow> nat \<Rightarrow> bytes \<Rightarrow> bytes" where
  "minimize_step src i dst =
     (if src ! i \<noteq> 0 then dst[i div 8 := dst ! (i div 8) OR push_bit (i mod 8) 1] else dst)"

definition minimize_bits :: "u32 \<Rightarrow> bytes \<Rightarrow> bytes \<Rightarrow> bytes" where
  "minimize_bits msize dst src = fold (minimize_step src) [0..<unat msize] dst"

section \<open>Lookup tables, byte by byte\<close>

lemma class16_row_upto:
  "fold (\<lambda>b2 t. t(b1 * 256 + b2 := class16_entry b1 b2)) [0..<n] t i =
     (if b1 * 256 \<le> i \<and> i < b1 * 256 + n then class16_entry b1 (i - b1 * 256) else t i)"
  by (induction n) (auto simp: less_Suc_eq)

lemma init_class16_row_apply:
  "init_class16_row b1 t i = (if i div 256 = b1 then class16_entry b1 (i mod 256) else t i)"
proof -
  have "b1 * 256 \<le> i \<and> i < b1 * 256 + 256 \<longleftrightarrow> i div 256 = b1" by auto
  moreover have "i div 256 = b1 \<Longrightarrow> i - b1 * 256 = i mod 256" by (auto simp: minus_div_mult_eq_mod)
  ultimately show ?thesis
    unfolding init_class16_row_def class16_row_upto by auto
qed

lemma class16_rows:
  "fold init_class16_row [0..<n] t i =
     (if i div 256 < n then class16_entry (i div 256) (i mod 256) else t i)"
  by (induction n) (auto simp: init_class16_row_apply less_Suc_eq)

lemma count_class_lookup16_eq:
  "count_class_lookup16 i = (if i < 65536 then class16_entry (i div 256) (i mod 256) else 0)"
proof -
  have "i div 256 < 256 \<longleftrightarrow> i < 65536" by auto
  then show ?thesis
    by (simp add: count_class_lookup16_def init_count_class16_def class16_rows)
qed

declare count_class_lookup16_eq [code]

lemma byte_of_u16: 
  "(of_nat (unat (h :: u16) mod 256) :: u8) = byte_of h 0"
  "(of_nat (unat (h :: u16) div 256) :: u8) = byte_of h 1"
proof -
  have "(of_nat (unat h mod 256) :: u8) = of_nat (unat h)"
    by (simp only: word_of_nat_eq_iff) (simp add: take_bit_eq_mod)
  then show "(of_nat (unat h mod 256) :: u8) = byte_of h 0" by (simp add: byte_of_def)
  have "(of_nat (unat h div 256) :: u8) = of_nat (unat (drop_bit 8 h))"
    by (simp only: unat_shiftr) simp
  then show "(of_nat (unat h div 256) :: u8) = byte_of h 1"
    by (simp only: byte_of_def ucast_of_nat_unat) simp
qed

lemma byte_of_class16:
  assumes "b < 2"
  shows "byte_of (count_class_lookup16 (unat (h :: u16))) b = count_class_lookup8 (byte_of h b)"
proof -
  have h: "unat h < 65536" using unsigned_less [of h] by simp
  have e: "count_class_lookup16 (unat h) = push_bit 8 (ucast (count_class_lookup8 (byte_of h 1)))
     OR ucast (count_class_lookup8 (byte_of h 0))"
    using h by (simp add: count_class_lookup16_eq class16_entry_def byte_of_u16)
  have "b = 0 \<or> b = 1" using assms by auto
  then show ?thesis unfolding e
    by (elim disjE; simp only:; intro bit_word_eqI) (auto simp: bytes_simps bit_simps simp del: byte_of_or dest: bit_imp_le_length)
qed

lemma byte_of_half:
  assumes "b < 2" shows "byte_of (half_of w j) b = byte_of w (2 * j + b)"
  by (intro bit_word_eqI) (use assms in \<open>auto simp: half_of_def bytes_simps bit_simps ac_simps\<close>)

lemma half_of_classify:
  assumes "j < 4"
  shows "half_of (classify_word w) j = count_class_lookup16 (unat (half_of w j))"
proof -
  have "j = 0 \<or> j = 1 \<or> j = 2 \<or> j = 3" using assms by auto
  then show ?thesis
    unfolding classify_word_def Let_def
    by (elim disjE; simp only:; intro bit_word_eqI) (auto simp: half_of_def [of "_ OR _"] bit_simps  dest: bit_imp_le_length)
qed

lemma byte_of_classify_word:
  assumes "k < 8"
  shows "byte_of (classify_word w) k = count_class_lookup8 (byte_of w k)"
proof -
  obtain j b where k: "k = 2 * j + b" "b < 2" "j < 4"
  proof
    show "k = 2 * (k div 2) + k mod 2" "k mod 2 < 2" "k div 2 < 4" using assms by auto
  qed
  then have "byte_of (classify_word w) k = byte_of (half_of (classify_word w) j) b"
    by (simp add: byte_of_half)
  also have "\<dots> = count_class_lookup8 (byte_of (half_of w j) b)"
    using k by (simp add: half_of_classify byte_of_class16)
  also have "\<dots> = count_class_lookup8 (byte_of w k)" using k by (simp add: byte_of_half)
  finally show ?thesis .
qed

lemma byte_of_simplify_word:
  assumes "k < 8"
  shows "byte_of (simplify_word w) k = simplify_lookup (byte_of w k)"
proof (cases "w = 0")
  case True
  have "k = 0 \<or> k = 1 \<or> k = 2 \<or> k = 3 \<or> k = 4 \<or> k = 5 \<or> k = 6 \<or> k = 7" using assms by auto
  then show ?thesis
    by (elim disjE) (simp_all add: True simplify_word_def simplify_lookup_def byte_of_def)
next
  case False
  then show ?thesis using assms by (simp add: simplify_word_def)
qed

section \<open>Word loops as byte loops\<close>

lemma word_loop_bytes:
  assumes "\<And>w k. k < 8 \<Longrightarrow> byte_of (f w) k = g (byte_of w k)" and "8 * n \<le> length m"
  shows "word_loop n f m = map g (take (8 * n) m) @ drop (8 * n) m"
  using assms(2)
proof (induction n arbitrary: m)
  case (Suc n)
  have l: "length (take 8 m) = 8" using Suc.prems by simp
  have "store_le 8 (f (load_le (take 8 m))) = map g (take 8 m)"
    using l by (intro nth_equalityI) (simp_all add: assms(1))
  then show ?case
    using Suc.IH [of "drop 8 m"] Suc.prems by (simp add: take_add ac_simps)
qed simp

lemma classify_counts_bytes:
  assumes "unat (map_size f) \<le> length (trace_bits f)"
  shows "trace_bits (classify_counts f) =
     map count_class_lookup8 (take (8 * (unat (map_size f) div 8)) (trace_bits f))
     @ drop (8 * (unat (map_size f) div 8)) (trace_bits f)"
proof -
  have n: "unat (drop_bit 3 (map_size f)) = unat (map_size f) div 8"
    by (simp only: unat_shiftr) simp
  have "byte_of (if w \<noteq> 0 then classify_word w else w) k = count_class_lookup8 (byte_of w k)"
    if "k < 8" for w :: u64 and k
    using that by (simp add: byte_of_classify_word count_class_lookup8_def [of 0])
  then show ?thesis
    using assms by (simp add: classify_counts_def n word_loop_bytes)
qed

section \<open>New coverage, byte by byte\<close>

text \<open>
  The reference: a trace byte hits a pristine virgin byte (a new tuple), or it shares a bit
  with the virgin byte (a new hit-count class); the bits seen are cleared.
\<close>

definition new_tuple :: "bytes \<Rightarrow> bytes \<Rightarrow> bool" where
  "new_tuple cur vir = list_ex (\<lambda>(c, v). c \<noteq> 0 \<and> v = 255) (zip cur vir)"

definition new_count :: "bytes \<Rightarrow> bytes \<Rightarrow> bool" where
  "new_count cur vir = list_ex (\<lambda>(c, v). c AND v \<noteq> 0) (zip cur vir)"

definition cov_level :: "bytes \<Rightarrow> bytes \<Rightarrow> u8" where
  "cov_level cur vir = (if new_tuple cur vir then 2 else if new_count cur vir then 1 else 0)"

definition clear_seen :: "bytes \<Rightarrow> bytes \<Rightarrow> bytes" where
  "clear_seen cur vir = map (\<lambda>(c, v). v AND NOT c) (zip cur vir)"

lemma u8_lt_2: "ret < (2 :: u8) \<longleftrightarrow> ret = 0 \<or> ret = 1"
  by (auto simp: word_less_nat_alt word_unat_eq_iff)

lemma u8_12 [simp]: "\<not> (2 :: u8) \<le> 1" "(1 :: u8) \<le> 2"
  by (simp_all add: word_le_nat_alt)

lemma new_tuple_imp_new_count: "new_tuple cur vir \<Longrightarrow> new_count cur vir"
proof -
  have "(255 :: u8) = - 1" by simp
  then have neutral: "c AND 255 = c" for c :: u8 by (metis and.right_neutral)
  assume "new_tuple cur vir"
  then obtain c where "(c, 255) \<in> set (zip cur vir)" "c \<noteq> 0"
    by (auto simp: new_tuple_def list_ex_iff)
  then show "new_count cur vir"
    unfolding new_count_def list_ex_iff by (intro bexI [of _ "(c, 255)"]) (simp_all add: neutral)
qed

lemma cov_level_append:
  assumes "length c1 = length v1"
  shows "cov_level (c1 @ c2) (v1 @ v2) = max (cov_level c1 v1) (cov_level c2 v2)"
  using assms by (auto simp: cov_level_def new_tuple_def new_count_def max_def)

lemma clear_seen_append:
  "length c1 = length v1 \<Longrightarrow> clear_seen (c1 @ c2) (v1 @ v2) = clear_seen c1 v1 @ clear_seen c2 v2"
  by (simp add: clear_seen_def)

lemma length_clear_seen [simp]: "length (clear_seen c v) = min (length c) (length v)"
  by (simp add: clear_seen_def)

lemma clear_seen_id: "\<not> new_count cur vir \<Longrightarrow> length vir \<le> length cur \<Longrightarrow> clear_seen cur vir = vir"
proof (induction cur arbitrary: vir)
  case (Cons c cur)
  have "c AND v = 0 \<Longrightarrow> v AND NOT c = v" for v :: u8
    by (intro bit_word_eqI) (auto simp: bit_simps bit_eq_iff)
  with Cons show ?case
    by (cases vir) (auto simp: new_count_def clear_seen_def)
qed (simp add: clear_seen_def)

lemma cov_level_clear_seen: "length cur = length vir \<Longrightarrow> cov_level cur (clear_seen cur vir) = 0"
proof -
  assume l: "length cur = length vir"
  have [simp]: "c AND (v AND NOT c) = 0" for c v :: u8
    by (intro bit_word_eqI) (auto simp: bit_simps)
  have "\<not> new_count cur (clear_seen cur vir)"
    using l by (auto simp: new_count_def clear_seen_def list_ex_iff in_set_conv_nth)
  then show ?thesis using new_tuple_imp_new_count by (auto simp: cov_level_def)
qed

lemma list8: "length xs = 8 \<Longrightarrow> (\<exists>x\<in>set xs. P x) \<longleftrightarrow> (\<exists>k<8. P (xs ! k))"
  by (metis in_set_conv_nth)

lemma and_eq_0_bytes:
  assumes "length cur = 8" and "length vir = 8"
  shows "(load_le cur :: u64) AND load_le vir \<noteq> 0 \<longleftrightarrow> new_count cur vir"
proof -
  have "(load_le cur :: u64) AND load_le vir \<noteq> 0 \<longleftrightarrow> (\<exists>k<8. cur ! k AND vir ! k \<noteq> 0)"
    using assms by (subst word_eq_bytes [where n = 8]) auto
  also have "\<dots> \<longleftrightarrow> new_count cur vir"
    using assms by (auto simp: new_count_def list_ex_iff set_zip)
  finally show ?thesis .
qed

lemma ex_less_8: "(\<exists>k<8::nat. P k) \<longleftrightarrow> P 0 \<or> P 1 \<or> P 2 \<or> P 3 \<or> P 4 \<or> P 5 \<or> P 6 \<or> P 7"
  by (auto simp: numeral_eq_Suc less_Suc_eq)

lemma new_tuple_8:
  assumes "length cur = 8" and "length vir = 8"
  shows "new_tuple cur vir \<longleftrightarrow> (\<exists>k<8. cur ! k \<noteq> 0 \<and> vir ! k = 255)"
  using assms by (auto simp: new_tuple_def list_ex_iff set_zip)

lemma discover_word_0: "discover_word ret 0 v = (ret, v)"
  by (simp add: discover_word_def)

lemma discover_word_bytes:
  assumes "length cur = 8" and "length vir = 8"
  shows "discover_word ret (load_le cur) (load_le vir) =
     (max ret (cov_level cur vir), load_le vir AND NOT (load_le cur))"
proof (cases "new_count cur vir")
  case True
  have "(\<exists>k<8. cur ! k \<noteq> 0 \<and> vir ! k = 255) \<longleftrightarrow> new_tuple cur vir"
    using assms by (simp add: new_tuple_8)
  then have e: "discover_word ret (load_le cur) (load_le vir) =
     ((if ret < 2 then if new_tuple cur vir then 2 else 1 else ret), load_le vir AND NOT (load_le cur))"
    using True assms by (simp add: discover_word_def and_eq_0_bytes ex_less_8)
  have le2: "cov_level cur vir \<le> 2" by (simp add: cov_level_def)
  show ?thesis
  proof (cases "ret < 2")
    case r: True
    then show ?thesis unfolding e using True by (auto simp: cov_level_def max_def u8_lt_2)
  next
    case False
    then have "max ret (cov_level cur vir) = ret" using le2 by (auto simp: max_def)
    with False show ?thesis unfolding e by simp
  qed
next
  case False
  then have z: "(load_le cur :: u64) AND load_le vir = 0" using and_eq_0_bytes assms by blast
  have "(load_le vir :: u64) AND NOT (load_le cur) = load_le vir"
    using z by (intro bit_word_eqI) (auto simp: bit_simps bit_eq_iff)
  moreover have "cov_level cur vir = 0"
    using False new_tuple_imp_new_count by (auto simp: cov_level_def)
  ultimately show ?thesis using z by (simp add: discover_word_def)
qed

lemma store_clear_seen:
  assumes "length cur = 8" and "length vir = 8"
  shows "store_le 8 ((load_le vir :: u64) AND NOT (load_le cur)) = clear_seen cur vir"
  using assms by (intro nth_equalityI) (simp_all add: clear_seen_def byte_of_not)

lemma discover_loop_bytes:
  assumes "8 * n \<le> length cur" and "8 * n \<le> length vir"
  shows "discover_loop n ret cur vir =
     (max ret (cov_level (take (8 * n) cur) (take (8 * n) vir)),
      clear_seen (take (8 * n) cur) (take (8 * n) vir) @ drop (8 * n) vir)"
  using assms
proof (induction n arbitrary: ret cur vir)
  case 0
  then show ?case by (simp add: cov_level_def new_tuple_def new_count_def clear_seen_def)
next
  case (Suc n)
  let ?c = "take 8 cur" and ?v = "take 8 vir"
  have l: "length ?c = 8" "length ?v = 8" using Suc.prems by simp_all
  have step: "(if (load_le ?c :: u64) \<noteq> 0 then discover_word ret (load_le ?c) (load_le ?v) else (ret, load_le ?v))
     = (max ret (cov_level ?c ?v), load_le ?v AND NOT (load_le ?c))"
    using discover_word_bytes [OF l, of ret] discover_word_0 [of ret "load_le ?v"] by metis
  have t: "take (8 * Suc n) xs = take 8 xs @ take (8 * n) (drop 8 xs)" for xs :: bytes
    by (simp add: take_add ac_simps)
  have lt: "length ?c = length ?v" using l by simp
  have IH: "discover_loop n (max ret (cov_level ?c ?v)) (drop 8 cur) (drop 8 vir) =
     (max (max ret (cov_level ?c ?v)) (cov_level (take (8 * n) (drop 8 cur)) (take (8 * n) (drop 8 vir))),
      clear_seen (take (8 * n) (drop 8 cur)) (take (8 * n) (drop 8 vir)) @ drop (8 * n) (drop 8 vir))"
    using Suc.prems by (intro Suc.IH) simp_all
  show ?case
    unfolding discover_loop.simps Let_def step prod.case IH store_clear_seen [OF l] t
      cov_level_append [OF lt] clear_seen_append [OF lt]
    by (simp add: max.assoc add.commute)
qed


section \<open>has_new_bits\<close>

lemma words64_le:
  assumes "unat r \<le> 2 ^ 32 - 8"
  shows "8 * words64 r = 8 * ((unat r + 7) div 8)"
proof -
  have "unat (r + 7) = unat r + 7"
    using assms by (subst unat_add_lem [THEN iffD1]) simp_all
  then show ?thesis by (simp add: words64_def unat_shiftr del: drop_bit_eq_div)
qed

lemma get_set_virgin [simp]: "get_virgin vm (set_virgin vm m a) = m"
  by (cases vm) simp_all

lemma fsrv_set_virgin [simp]: "fsrv (set_virgin vm m a) = fsrv a"
  by (cases vm) simp_all

lemma get_virgin_fsrv [simp]: "get_virgin vm (a\<lparr>fsrv := f\<rparr>) = get_virgin vm a"
  by (cases vm) simp_all

lemma get_virgin_changed [simp]: "get_virgin vm (a\<lparr>bitmap_changed := c\<rparr>) = get_virgin vm a"
  by (cases vm) simp_all

lemma set_virgin_id [simp]: "set_virgin vm (get_virgin vm a) a = a"
  by (cases vm) simp_all

text \<open>The bytes of the two maps that \<open>has_new_bits\<close> reads.\<close>

abbreviation seen_len :: "afl_state \<Rightarrow> nat" where
  "seen_len a \<equiv> 8 * words64 (real_map_size (fsrv a))"

definition maps_ok :: "vmap \<Rightarrow> afl_state \<Rightarrow> bool" where
  "maps_ok vm a \<longleftrightarrow>
     length (trace_bits (fsrv a)) = unat (map_size (fsrv a)) \<and>
     length (get_virgin vm a) = unat (map_size (fsrv a)) \<and>
     seen_len a \<le> unat (map_size (fsrv a)) \<and> 32 dvd unat (map_size (fsrv a))"

lemma has_new_bits_bytes:
  assumes "maps_ok vm a"
  defines "cur \<equiv> take (seen_len a) (trace_bits (fsrv a))"
    and "vir \<equiv> take (seen_len a) (get_virgin vm a)"
  shows "fst (has_new_bits vm a) = cov_level cur vir"
    and "get_virgin vm (snd (has_new_bits vm a)) = clear_seen cur vir @ drop (seen_len a) (get_virgin vm a)"
    and "fsrv (snd (has_new_bits vm a)) = fsrv a"
proof -
  have d: "discover_loop (words64 (real_map_size (fsrv a))) 0 (trace_bits (fsrv a)) (get_virgin vm a) =
     (max 0 (cov_level cur vir), clear_seen cur vir @ drop (seen_len a) (get_virgin vm a))"
    unfolding cur_def vir_def using assms(1) by (intro discover_loop_bytes) (simp_all add: maps_ok_def)
  show "fst (has_new_bits vm a) = cov_level cur vir"
    "get_virgin vm (snd (has_new_bits vm a)) = clear_seen cur vir @ drop (seen_len a) (get_virgin vm a)"
    "fsrv (snd (has_new_bits vm a)) = fsrv a"
    by (simp_all add: has_new_bits_def d Let_def)
qed

lemma has_new_bits_maps_ok:
  assumes "maps_ok vm a"
  shows "maps_ok vm (snd (has_new_bits vm a))"
  using assms has_new_bits_bytes [OF assms] by (auto simp: maps_ok_def min_def)

lemma cov_level_prefix:
  assumes "cov_level cur vir = 0" shows "cov_level (take n cur) (take n vir) = 0"
proof -
  have "\<not> new_count cur vir" using assms by (auto simp: cov_level_def split: if_splits)
  then have "\<not> new_count (take n cur) (take n vir)"
    by (auto simp: new_count_def list_ex_iff simp flip: take_zip dest: in_set_takeD)
  then show ?thesis using new_tuple_imp_new_count by (auto simp: cov_level_def)
qed

section \<open>skim\<close>

lemma skim_hit_bytes:
  assumes "8 * k + 8 \<le> length virgin" and "8 * k + 8 \<le> length current"
  shows "skim_hit virgin current k \<longleftrightarrow>
     new_count (map count_class_lookup8 (take 8 (drop (8 * k) current))) (take 8 (drop (8 * k) virgin))"
proof -
  let ?c = "take 8 (drop (8 * k) current)" and ?v = "take 8 (drop (8 * k) virgin)"
  have l: "length ?c = 8" "length ?v = 8" using assms by simp_all
  have e: "classify_word (load_le ?c) = load_le (map count_class_lookup8 ?c)"
    using l by (subst word_eq_bytes [where n = 8]) (simp_all add: byte_of_classify_word)
  have "classify_word 0 = 0"
    by (subst word_eq_bytes [where n = 8]) (simp_all add: byte_of_classify_word count_class_lookup8_def)
  then have "skim_hit virgin current k \<longleftrightarrow> classify_word (load_le ?c) AND load_le ?v \<noteq> 0"
    by (auto simp: skim_hit_def Let_def)
  also have "\<dots> \<longleftrightarrow> new_count (map count_class_lookup8 ?c) ?v"
    unfolding e using l by (intro and_eq_0_bytes) simp_all
  finally show ?thesis .
qed

lemma new_count_append:
  "length c1 = length v1 \<Longrightarrow> new_count (c1 @ c2) (v1 @ v2) \<longleftrightarrow> new_count c1 v1 \<or> new_count c2 v2"
  by (simp add: new_count_def)

lemma take_32_split: "take 32 xs = take 8 xs @ take 8 (drop 8 xs) @ take 8 (drop 16 xs) @ take 8 (drop 24 xs)"
proof -
  have "take 32 xs = take 8 xs @ take 24 (drop 8 xs)" using take_add [of 8 24 xs] by simp
  moreover have "take 24 (drop 8 xs) = take 8 (drop 8 xs) @ take 16 (drop 16 xs)"
    using take_add [of 8 16 "drop 8 xs"] by simp
  moreover have "take 16 (drop 16 xs) = take 8 (drop 16 xs) @ take 8 (drop 24 xs)"
    using take_add [of 8 8 "drop 16 xs"] by simp
  ultimately show ?thesis by simp
qed

lemma skim_loop_bytes:
  assumes "32 * n \<le> length virgin" and "32 * n \<le> length current"
  shows "skim_loop n virgin current \<noteq> 0 \<longleftrightarrow>
     new_count (map count_class_lookup8 (take (32 * n) current)) (take (32 * n) virgin)"
  using assms
proof (induction n arbitrary: virgin current)
  case 0
  then show ?case by (simp add: new_count_def)
next
  case (Suc n)
  let ?cls = "map count_class_lookup8"
  have t: "take (32 * Suc n) xs = take 32 xs @ take (32 * n) (drop 32 xs)" for xs :: bytes
    by (simp add: take_add ac_simps)
  have hit: "skim_hit virgin current k \<longleftrightarrow>
      new_count (?cls (take 8 (drop (8 * k) current))) (take 8 (drop (8 * k) virgin))"
    if "k < 4" for k
  proof -
    have "8 * k + 8 \<le> 32" "32 \<le> length virgin" "32 \<le> length current" using that Suc.prems by auto
    then show ?thesis by (intro skim_hit_bytes) linarith+
  qed
  have IH: "skim_loop n (drop 32 virgin) (drop 32 current) \<noteq> 0 \<longleftrightarrow>
      new_count (?cls (take (32 * n) (drop 32 current))) (take (32 * n) (drop 32 virgin))"
    using Suc.prems by (intro Suc.IH) simp_all
  have "new_count (?cls (take 32 current)) (take 32 virgin) \<longleftrightarrow>
      skim_hit virgin current 0 \<or> skim_hit virgin current 1 \<or> skim_hit virgin current 2 \<or>
      skim_hit virgin current 3"
    using hit [of 0] hit [of 1] hit [of 2] hit [of 3] Suc.prems
    by (simp add: take_32_split new_count_append)
  moreover have "new_count (?cls (take (32 * Suc n) current)) (take (32 * Suc n) virgin) \<longleftrightarrow>
      new_count (?cls (take 32 current)) (take 32 virgin) \<or>
      new_count (?cls (take (32 * n) (drop 32 current))) (take (32 * n) (drop 32 virgin))"
    unfolding t map_append using Suc.prems by (intro new_count_append) simp
  ultimately show ?case using IH by auto
qed


lemma skim_level:
  assumes "maps_ok vm a"
  shows "skim (get_virgin vm a) (trace_bits (fsrv a)) (unat (map_size (fsrv a))) = 0 \<longleftrightarrow>
     \<not> new_count (trace_bits (classify_counts (fsrv a))) (get_virgin vm a)"
proof -
  let ?n = "unat (map_size (fsrv a))"
  have d: "32 dvd ?n" and lt: "length (trace_bits (fsrv a)) = ?n" and lv: "length (get_virgin vm a) = ?n"
    using assms by (simp_all add: maps_ok_def)
  from d have n: "32 * ((?n + 31) div 32) = ?n" by auto
  have d8: "8 * (?n div 8) = ?n" using d dvd_trans [of 8 32 ?n] by auto
  have "trace_bits (classify_counts (fsrv a)) = map count_class_lookup8 (trace_bits (fsrv a))"
    using lt by (subst classify_counts_bytes) (simp_all add: d8)
  then show ?thesis
    using skim_loop_bytes [of "(?n + 31) div 32" "get_virgin vm a" "trace_bits (fsrv a)"]
    by (auto simp: skim_def n lt lv)
qed

lemma classify_counts_fields [simp]:
  "map_size (classify_counts f) = map_size f" "real_map_size (classify_counts f) = real_map_size f"
  "exec_tmout (classify_counts f) = exec_tmout f" "total_execs (classify_counts f) = total_execs f"
  by (simp_all add: classify_counts_def)

lemma classify_counts_maps_ok:
  assumes "maps_ok vm a" shows "maps_ok vm (a\<lparr>fsrv := classify_counts (fsrv a)\<rparr>)"
  using assms by (auto simp: maps_ok_def classify_counts_bytes)

section \<open>Counting loops\<close>

lemma all_byte_positions: "(\<forall>n. m \<le> n \<and> n < m + 8 \<longrightarrow> P n) \<longleftrightarrow> (\<forall>j<8. P (m + j :: nat))"
  by (auto simp: le_iff_add)

lemma and_byte_mask:
  assumes "k < 4"
  shows "(v :: u32) AND push_bit (8 * k) (mask 8) = 0 \<longleftrightarrow> byte_of v k = 0"
    and "v AND push_bit (8 * k) (mask 8) = push_bit (8 * k) (mask 8) \<longleftrightarrow> byte_of v k = mask 8"
proof -
  have m: "bit (push_bit (8 * k) (mask 8) :: u32) n \<longleftrightarrow> 8 * k \<le> n \<and> n < 8 * k + 8" for n
    using assms by (auto simp: bit_simps)
  have lt: "n < 8 * k + 8 \<Longrightarrow> n < 32" for n using assms by linarith
  have "v AND push_bit (8 * k) (mask 8) = 0 \<longleftrightarrow>
      (\<forall>n. 8 * k \<le> n \<and> n < 8 * k + 8 \<longrightarrow> \<not> bit v n)"
    by (simp only: bit_eq_iff bit_and_iff m bit_0_eq bot_apply) (use lt in auto)
  also have "\<dots> \<longleftrightarrow> byte_of v k = 0"
    unfolding all_byte_positions by (simp only: bit_eq_iff bytes_simps bit_0_eq bot_apply) auto
  finally show "v AND push_bit (8 * k) (mask 8) = 0 \<longleftrightarrow> byte_of v k = 0" .
  have "v AND push_bit (8 * k) (mask 8) = push_bit (8 * k) (mask 8) \<longleftrightarrow>
      (\<forall>n. 8 * k \<le> n \<and> n < 8 * k + 8 \<longrightarrow> bit v n)"
    by (simp only: bit_eq_iff bit_and_iff m) (use lt in auto)
  also have "\<dots> \<longleftrightarrow> byte_of v k = mask 8"
    unfolding all_byte_positions by (simp only: bit_eq_iff bytes_simps bit_mask_iff) (auto simp: bit_simps)
  finally show "v AND push_bit (8 * k) (mask 8) = push_bit (8 * k) (mask 8) \<longleftrightarrow> byte_of v k = mask 8" .
qed

lemma u32_masks:
  "(0x000000ff :: u32) = push_bit (8 * 0) (mask 8)" "(0x0000ff00 :: u32) = push_bit (8 * 1) (mask 8)"
  "(0x00ff0000 :: u32) = push_bit (8 * 2) (mask 8)" "(0xff000000 :: u32) = push_bit (8 * 3) (mask 8)"
  by (simp_all add: mask_numeral)

lemma count_loop_bytes:
  assumes "\<And>bs. length bs = 4 \<Longrightarrow> f (load_le bs) = of_nat (w bs)"
    and "\<And>xs ys. w (xs @ ys) = w xs + w ys" and "4 * n \<le> length m"
  shows "count_loop n f m ret = ret + of_nat (w (take (4 * n) m))"
  using assms(3)
proof (induction n arbitrary: m ret)
  case 0
  have "w [] = 0" using assms(2) [of "[]" "[]"] by simp
  then show ?case by simp
next
  case (Suc n)
  have t: "take (4 * Suc n) m = take 4 m @ take (4 * n) (drop 4 m)" by (simp add: take_add)
  have "count_loop (Suc n) f m ret = count_loop n f (drop 4 m) (ret + of_nat (w (take 4 m)))"
    using Suc.prems by (simp add: assms(1))
  also have "\<dots> = ret + of_nat (w (take 4 m)) + of_nat (w (take (4 * n) (drop 4 m)))"
    using Suc.prems by (intro Suc.IH) simp
  finally show ?case by (simp only: t assms(2) of_nat_add add.assoc)
qed

lemma length4: "length bs = 4 \<Longrightarrow> \<exists>a b c d. bs = [a, b, c, d]"
  by (simp add: numeral_eq_Suc length_Suc_conv) auto

lemma count_bytes_word_bytes:
  assumes "length bs = 4"
  shows "count_bytes_word (load_le bs) = of_nat (length (filter (\<lambda>b. b \<noteq> 0) bs))"
proof -
  obtain a b c d where bs: "bs = [a, b, c, d]" using length4 [OF assms] by blast
  have e: "byte_of (load_le bs :: u32) k = bs ! k" if "k < 4" for k using assms that by simp
  show ?thesis
    unfolding count_bytes_word_def u32_masks using assms
    by (simp only: and_byte_mask e) (simp add: bs load_le_eq_0_iff del: load_le.simps)
qed

lemma all_less_4: "(\<forall>k<4::nat. P k) \<longleftrightarrow> P 0 \<and> P 1 \<and> P 2 \<and> P 3"
  by (auto simp: numeral_eq_Suc less_Suc_eq)

lemma count_non_255_word_bytes:
  assumes "length bs = 4"
  shows "count_non_255_word (load_le bs) = of_nat (length (filter (\<lambda>b. b \<noteq> 255) bs))"
proof -
  obtain a b c d where bs: "bs = [a, b, c, d]" using length4 [OF assms] by blast
  have e: "byte_of (load_le bs :: u32) k = bs ! k" if "k < 4" for k using assms that by simp
  have m8: "(mask 8 :: u8) = 255" by (simp add: mask_numeral)
  have ff: "(load_le bs :: u32) = 0xffffffff \<longleftrightarrow> (\<forall>k<4. bs ! k = 255)"
  proof -
    have "byte_of (0xffffffff :: u32) k = 255" if "k < 4" for k
    proof -
      have "k = 0 \<or> k = 1 \<or> k = 2 \<or> k = 3" using that by auto
      then show ?thesis by (elim disjE) (simp_all add: byte_of_def)
    qed
    then show ?thesis by (subst word_eq_bytes [where n = 4]) (simp_all add: e)
  qed
  show ?thesis
    unfolding count_non_255_word_def u32_masks ff using assms
    by (simp only: and_byte_mask e) (simp add: bs m8 all_less_4)
qed


lemma words32_le:
  assumes "unat r \<le> 2 ^ 32 - 4"
  shows "4 * words32 r = 4 * ((unat r + 3) div 4)"
proof -
  have "unat (r + 3) = unat r + 3"
    using assms by (subst unat_add_lem [THEN iffD1]) simp_all
  then show ?thesis by (simp add: words32_def unat_shiftr del: drop_bit_eq_div)
qed

definition pop8 :: "u8 \<Rightarrow> nat" where
  "pop8 b = length (filter (bit b) [0..<8])"

lemma popcount_bytes:
  assumes "length bs = 4"
  shows "builtin_popcount (load_le bs) = of_nat (sum_list (map pop8 bs))"
proof -
  obtain a b c d where bs: "bs = [a, b, c, d]" using length4 [OF assms] by blast
  have seg: "filter (bit (load_le bs :: u32)) [8 * k..<8 * k + 8] =
      map (\<lambda>j. j + 8 * k) (filter (bit (bs ! k)) [0..<8])" if "k < 4" for k
  proof -
    have "[8 * k..<8 * k + 8] = map (\<lambda>j. j + 8 * k) [0..<8]" by (simp add: map_add_upt add.commute)
    moreover have "bit (load_le bs :: u32) (j + 8 * k) \<longleftrightarrow> bit (bs ! k) j" if "j < 8" for j
      using that \<open>k < 4\<close> assms by (simp add: bit_load_le)
    ultimately show ?thesis
      by (simp add: filter_map o_def) (intro arg_cong [of _ _ "map _"] filter_cong; simp)
  qed
  have "[0..<32] = [8 * 0..<8 * 0 + 8] @ [8 * 1..<8 * 1 + 8] @ [8 * 2..<8 * 2 + 8] @ [8 * 3..<8 * 3 + 8]"
    by (simp add: upt_conv_Cons)
  then have "length (filter (bit (load_le bs :: u32)) [0..<32]) = sum_list (map pop8 bs)"
    by (simp only: filter_append length_append) (simp only: seg, simp add: bs pop8_def)
  then show ?thesis by (simp add: builtin_popcount_def)
qed

lemma count_bits_word:
  assumes "length bs = 4"
  shows "(if (load_le bs :: u32) = 0xffffffff then 32 else builtin_popcount (load_le bs)) =
    (of_nat (sum_list (map pop8 bs)) :: u32)"
proof -
  have "builtin_popcount 0xffffffff = 32"
    by (simp add: builtin_popcount_def upt_conv_Cons)
  then show ?thesis using popcount_bytes [OF assms] by auto
qed

section \<open>minimize_bits\<close>

lemma length_minimize_step [simp]: "length (minimize_step src i d) = length d"
  by (simp add: minimize_step_def)

lemma length_minimize_fold [simp]: "length (fold (minimize_step src) is d) = length d"
  by (induction "is" arbitrary: d) auto

lemma length_minimize_bits [simp]: "length (minimize_bits n dst src) = length dst"
  by (simp add: minimize_bits_def)

lemma minimize_step_bit:
  assumes "i div 8 < length d" and "k div 8 < length d"
  shows "bit (minimize_step src i d ! (k div 8)) (k mod 8) \<longleftrightarrow>
     bit (d ! (k div 8)) (k mod 8) \<or> (i = k \<and> src ! i \<noteq> 0)"
proof (cases "i div 8 = k div 8")
  case True
  then have "k mod 8 = i mod 8 \<longleftrightarrow> i = k" by (metis div_mod_decomp)
  then show ?thesis using True assms by (auto simp: minimize_step_def bit_simps)
next
  case False
  then show ?thesis using assms by (auto simp: minimize_step_def nth_list_update)
qed

lemma bit_minimize_bits:
  assumes "(unat n + 7) div 8 \<le> length dst" and "k div 8 < length dst"
  shows "bit (minimize_bits n dst src ! (k div 8)) (k mod 8) \<longleftrightarrow>
     bit (dst ! (k div 8)) (k mod 8) \<or> (k < unat n \<and> src ! k \<noteq> 0)"
proof -
  have "bit (fold (minimize_step src) [0..<m] dst ! (k div 8)) (k mod 8) \<longleftrightarrow>
     bit (dst ! (k div 8)) (k mod 8) \<or> (k < m \<and> src ! k \<noteq> 0)" if "m \<le> unat n" for m
    using that
  proof (induction m)
    case (Suc m)
    have "m div 8 < length dst" using Suc.prems assms(1) by linarith
    then show ?case
      using Suc assms(2) by (auto simp: minimize_step_bit less_Suc_eq)
  qed simp
  then show ?thesis by (simp add: minimize_bits_def)
qed

section \<open>Properties\<close>

text \<open>
  C39: \<open>classify_counts\<close>, which rewrites the trace a 64-bit word at a time through the 16-bit
  table built by \<open>init_count_class16\<close> and skips zero words, replaces every byte of the
  whole words of the map by its hit-count class and leaves a partial last word alone.
\<close>

theorem classify_counts_bytewise:
  assumes "unat (map_size f) \<le> length (trace_bits f)" and "i < length (trace_bits f)"
  shows "length (trace_bits (classify_counts f)) = length (trace_bits f) \<and>
     trace_bits (classify_counts f) ! i =
       (if i < 8 * (unat (map_size f) div 8) then count_class_lookup8 (trace_bits f ! i)
        else trace_bits f ! i)"
  using assms by (auto simp: classify_counts_bytes nth_append min_def)

theorem classify_counts_bytewise_witness:
  "trace_bits (classify_counts (fsrv_zero\<lparr>map_size := 9, trace_bits := [0, 1, 2, 3, 5, 9, 40, 200, 5]\<rparr>)) ! 5 = 16 \<and>
   trace_bits (classify_counts (fsrv_zero\<lparr>map_size := 9, trace_bits := [0, 1, 2, 3, 5, 9, 40, 200, 5]\<rparr>)) ! 8 = 5"
  using classify_counts_bytewise [of "fsrv_zero\<lparr>map_size := 9, trace_bits := [0, 1, 2, 3, 5, 9, 40, 200, 5]\<rparr>" 5]
    classify_counts_bytewise [of "fsrv_zero\<lparr>map_size := 9, trace_bits := [0, 1, 2, 3, 5, 9, 40, 200, 5]\<rparr>" 8]
  by (simp add: zero_defs count_class_lookup8_def)

text \<open>
  \<open>simplify_trace\<close> replaces every byte of the whole words of the map by 1 if the tuple
  was not hit and by 128 if it was, whatever the path through the sparse-map shortcut.
\<close>

theorem simplify_trace_bytewise:
  assumes "unat n \<le> length m"
  shows "simplify_trace n m =
     map simplify_lookup (take (8 * (unat n div 8)) m) @ drop (8 * (unat n div 8)) m"
proof -
  have "unat (drop_bit 3 n) = unat n div 8" by (simp only: unat_shiftr) simp
  then show ?thesis
    using assms by (simp add: simplify_trace_def word_loop_bytes byte_of_simplify_word)
qed

theorem simplify_trace_bytewise_witness:
  "simplify_trace 8 [0, 7, 0, 0, 255, 0, 0, 1] = [1, 128, 1, 1, 128, 1, 1, 128]"
  using simplify_trace_bytewise [of 8 "[0, 7, 0, 0, 255, 0, 0, 1]"]
  by (simp add: simplify_lookup_def)

text \<open>
  C24: \<open>has_new_bits\<close> returns 2 exactly when a non-zero trace byte meets a pristine virgin
  byte, 1 exactly when the trace only shares bits with virgin bytes already touched, and 0
  otherwise; it clears exactly the trace's bits from the virgin map, byte by byte, leaves the
  rest of the map alone, and marks the bitmap as changed only for the map of all finds.
\<close>

theorem has_new_bits_correct:
  assumes "maps_ok vm a"
  shows "(fst (has_new_bits vm a) = 2 \<longleftrightarrow>
      (\<exists>i < seen_len a. trace_bits (fsrv a) ! i \<noteq> 0 \<and> get_virgin vm a ! i = 255)) \<and>
    (fst (has_new_bits vm a) = 0 \<longleftrightarrow>
      (\<forall>i < seen_len a. trace_bits (fsrv a) ! i AND get_virgin vm a ! i = 0)) \<and>
    fst (has_new_bits vm a) \<in> {0, 1, 2} \<and>
    (\<forall>i < unat (map_size (fsrv a)). get_virgin vm (snd (has_new_bits vm a)) ! i =
      (if i < seen_len a then get_virgin vm a ! i AND NOT (trace_bits (fsrv a) ! i)
       else get_virgin vm a ! i)) \<and>
    (bitmap_changed (snd (has_new_bits vm a)) \<longleftrightarrow>
      bitmap_changed a \<or> (vm = VirginBits \<and> fst (has_new_bits vm a) \<noteq> 0))"
proof (intro conjI allI impI)
  let ?n = "seen_len a"
  let ?c = "take ?n (trace_bits (fsrv a))" and ?v = "take ?n (get_virgin vm a)"
  have l: "length ?c = ?n" "length ?v = ?n"
    and n: "?n \<le> length (get_virgin vm a)" "length (get_virgin vm a) = unat (map_size (fsrv a))"
    using assms by (simp_all add: maps_ok_def)
  have ex: "list_ex P (zip ?c ?v) \<longleftrightarrow> (\<exists>i<?n. P (trace_bits (fsrv a) ! i, get_virgin vm a ! i))" for P
    using l by (auto simp: list_ex_iff set_zip) (metis nth_take)
  note hnb = has_new_bits_bytes [OF assms]
  show "fst (has_new_bits vm a) = 2 \<longleftrightarrow>
      (\<exists>i<?n. trace_bits (fsrv a) ! i \<noteq> 0 \<and> get_virgin vm a ! i = 255)"
    by (simp add: hnb cov_level_def new_tuple_def ex)
  have "fst (has_new_bits vm a) = 0 \<longleftrightarrow> \<not> new_count ?c ?v"
    using new_tuple_imp_new_count [of ?c ?v] by (simp add: hnb cov_level_def)
  then show "fst (has_new_bits vm a) = 0 \<longleftrightarrow>
      (\<forall>i<?n. trace_bits (fsrv a) ! i AND get_virgin vm a ! i = 0)"
    by (simp add: new_count_def ex)
  show "fst (has_new_bits vm a) \<in> {0, 1, 2}" by (simp add: hnb cov_level_def)
  show "get_virgin vm (snd (has_new_bits vm a)) ! i =
      (if i < ?n then get_virgin vm a ! i AND NOT (trace_bits (fsrv a) ! i) else get_virgin vm a ! i)"
    if "i < unat (map_size (fsrv a))" for i
    using that l n by (auto simp: hnb nth_append clear_seen_def)
  show "bitmap_changed (snd (has_new_bits vm a)) \<longleftrightarrow>
      bitmap_changed a \<or> (vm = VirginBits \<and> fst (has_new_bits vm a) \<noteq> 0)"
    by (cases vm) (auto simp: has_new_bits_def Let_def split: prod.splits)
qed

definition cov_example :: afl_state where
  "cov_example = afl_zero\<lparr>
     fsrv := fsrv_zero\<lparr>map_size := 32, real_map_size := 8, trace_bits := [0, 1, 4] @ replicate 29 0\<rparr>,
     virgin_bits := [255, 255, 7] @ replicate 29 255\<rparr>"

lemma cov_example_ok: "maps_ok VirginBits cov_example"
  by (simp add: maps_ok_def cov_example_def zero_defs words64_def)

theorem has_new_bits_correct_witness:
  "maps_ok VirginBits cov_example \<and> fst (has_new_bits VirginBits cov_example) = 2 \<and>
   get_virgin VirginBits (snd (has_new_bits VirginBits cov_example)) ! 2 = 3"
proof -
  have "\<exists>i < seen_len cov_example. trace_bits (fsrv cov_example) ! i \<noteq> 0 \<and> get_virgin VirginBits cov_example ! i = 255"
    by (rule exI [of _ 1]) (simp add: cov_example_def zero_defs words64_def)
  then have "fst (has_new_bits VirginBits cov_example) = 2"
    using has_new_bits_correct [OF cov_example_ok] by blast
  moreover have "get_virgin VirginBits (snd (has_new_bits VirginBits cov_example)) ! 2 = 3"
    using has_new_bits_correct [OF cov_example_ok]
    by (simp add: cov_example_def zero_defs words64_def)
  ultimately show ?thesis using cov_example_ok by blast
qed

text \<open>
  A trace that has been accounted for is never new again: a second \<open>has_new_bits\<close> on the
  same trace and map returns 0 and changes nothing in the virgin map.
\<close>

theorem has_new_bits_idempotent:
  assumes "maps_ok vm a"
  shows "fst (has_new_bits vm (snd (has_new_bits vm a))) = 0 \<and>
    get_virgin vm (snd (has_new_bits vm (snd (has_new_bits vm a)))) = get_virgin vm (snd (has_new_bits vm a))"
proof (intro conjI)
  let ?a = "snd (has_new_bits vm a)"
  let ?c = "take (seen_len a) (trace_bits (fsrv a))" and ?v = "take (seen_len a) (get_virgin vm a)"
  have l: "length ?c = length ?v" using assms by (simp add: maps_ok_def)
  note one = has_new_bits_bytes [OF assms] and two = has_new_bits_bytes [OF has_new_bits_maps_ok [OF assms]]
  have s: "seen_len ?a = seen_len a" "trace_bits (fsrv ?a) = trace_bits (fsrv a)" using one(3) by simp_all
  have p: "take (seen_len a) (get_virgin vm ?a) = clear_seen ?c ?v"
    and r: "drop (seen_len a) (get_virgin vm ?a) = drop (seen_len a) (get_virgin vm a)"
    using assms by (simp_all add: one(2) maps_ok_def)
  have z: "cov_level ?c (clear_seen ?c ?v) = 0" using l by (rule cov_level_clear_seen)
  then have "\<not> new_count ?c (clear_seen ?c ?v)" by (auto simp: cov_level_def split: if_splits)
  then have c: "clear_seen ?c (clear_seen ?c ?v) = clear_seen ?c ?v" by (rule clear_seen_id) (use l in simp)
  show "fst (has_new_bits vm ?a) = 0" using two(1) z by (simp add: s p)
  show "get_virgin vm (snd (has_new_bits vm ?a)) = get_virgin vm ?a"
    by (simp only: two(2) s p r c) (simp only: one(2))
qed

theorem has_new_bits_idempotent_witness:
  "fst (has_new_bits VirginBits cov_example) = 2 \<and>
   fst (has_new_bits VirginBits (snd (has_new_bits VirginBits cov_example))) = 0"
  using has_new_bits_idempotent [OF cov_example_ok] has_new_bits_bytes(1) [OF cov_example_ok]
  by (simp add: cov_level_def new_tuple_def cov_example_def zero_defs words64_def)

lemma unclassified_level:
  assumes "maps_ok vm a"
  defines "b \<equiv> a\<lparr>fsrv := classify_counts (fsrv a)\<rparr>"
  shows "fst (has_new_bits_unclassified vm a) = fst (has_new_bits vm b) \<and>
    get_virgin vm (snd (snd (has_new_bits_unclassified vm a))) = get_virgin vm (snd (has_new_bits vm b))"
proof -
  let ?n = "seen_len a"
  have ok: "maps_ok vm b" unfolding b_def using assms(1) by (rule classify_counts_maps_ok)
  note hnb = has_new_bits_bytes [OF ok]
  have v: "get_virgin vm b = get_virgin vm a" "seen_len b = ?n" by (simp_all add: b_def)
  have *: "fst (has_new_bits vm b) = 0 \<and> get_virgin vm (snd (has_new_bits vm b)) = get_virgin vm a"
    if "\<not> new_count (trace_bits (fsrv b)) (get_virgin vm a)"
  proof -
    have "cov_level (trace_bits (fsrv b)) (get_virgin vm a) = 0"
      using that new_tuple_imp_new_count by (auto simp: cov_level_def)
    then have z: "cov_level (take ?n (trace_bits (fsrv b))) (take ?n (get_virgin vm a)) = 0"
      by (rule cov_level_prefix)
    then have "\<not> new_count (take ?n (trace_bits (fsrv b))) (take ?n (get_virgin vm a))"
      by (auto simp: cov_level_def split: if_splits)
    then have "clear_seen (take ?n (trace_bits (fsrv b))) (take ?n (get_virgin vm a)) = take ?n (get_virgin vm a)"
      using ok v by (intro clear_seen_id) (simp_all add: maps_ok_def)
    with z show ?thesis by (simp add: hnb v)
  qed
  show ?thesis
    using * skim_level [OF assms(1)]
    by (auto simp: has_new_bits_unclassified_def b_def Let_def split: prod.splits)
qed

text \<open>
  C25: the fast path is exact: \<open>has_new_bits_unclassified\<close>, which first skims the raw trace,
  returns what classifying the trace and then calling \<open>has_new_bits\<close> returns, and leaves the
  same virgin map behind.
\<close>

theorem has_new_bits_unclassified_exact:
  assumes "maps_ok vm a"
  shows "fst (has_new_bits_unclassified vm a) = fst (has_new_bits vm (a\<lparr>fsrv := classify_counts (fsrv a)\<rparr>)) \<and>
    get_virgin vm (snd (snd (has_new_bits_unclassified vm a))) = get_virgin vm (snd (has_new_bits vm (a\<lparr>fsrv := classify_counts (fsrv a)\<rparr>)))"
  using assms by (rule unclassified_level)

theorem has_new_bits_unclassified_exact_witness:
  "fst (has_new_bits_unclassified VirginBits cov_example) =
   fst (has_new_bits VirginBits (cov_example\<lparr>fsrv := classify_counts (fsrv cov_example)\<rparr>))"
  using has_new_bits_unclassified_exact [OF cov_example_ok] by simp

text \<open>
  The three counting loops, which read the map as 32-bit words, count what their names
  say over the bytes of the words they visit: set bits, non-zero bytes, bytes other than 255
  (as \<open>u32\<close> values).
\<close>

theorem counters_correct:
  assumes "4 * words32 r \<le> length m"
  shows "count_bits r m = of_nat (sum_list (map pop8 (take (4 * words32 r) m))) \<and>
    count_bytes r m = of_nat (length (filter (\<lambda>b. b \<noteq> 0) (take (4 * words32 r) m))) \<and>
    count_non_255_bytes r m = of_nat (length (filter (\<lambda>b. b \<noteq> 255) (take (4 * words32 r) m)))"
  using assms
  by (simp add: count_bits_def count_bytes_def count_non_255_bytes_def count_bits_word
      count_bytes_word_bytes count_non_255_word_bytes
      count_loop_bytes [where w = "\<lambda>bs. sum_list (map pop8 bs)"]
      count_loop_bytes [where w = "\<lambda>bs. length (filter (\<lambda>b. b \<noteq> 0) bs)"]
      count_loop_bytes [where w = "\<lambda>bs. length (filter (\<lambda>b. b \<noteq> 255) bs)"])

theorem counters_correct_witness:
  "count_bits 5 [255, 0, 3, 0, 255, 255, 0, 1] = 27 \<and> count_bytes 5 [255, 0, 3, 0, 255, 255, 0, 1] = 5 \<and>
   count_non_255_bytes 5 [255, 0, 3, 0, 255, 255, 0, 1] = 5"
  using counters_correct [of 5 "[255, 0, 3, 0, 255, 255, 0, 1]"]
  by (simp add: words32_def pop8_def upt_conv_Cons)

text \<open>
  \<open>minimize_bits\<close> sets bit \<open>k\<close> of the compact map exactly for the tuples that were hit,
  on top of what was set, and stays within \<open>(map_size + 7) / 8\<close> bytes.
\<close>

theorem minimize_bits_correct:
  assumes "(unat n + 7) div 8 \<le> length dst" and "k div 8 < length dst"
  shows "(bit (minimize_bits n dst src ! (k div 8)) (k mod 8) \<longleftrightarrow>
       bit (dst ! (k div 8)) (k mod 8) \<or> (k < unat n \<and> src ! k \<noteq> 0)) \<and>
     length (minimize_bits n dst src) = length dst"
  using bit_minimize_bits [OF assms] by simp

theorem minimize_bits_correct_witness:
  "bit (minimize_bits 9 [0, 0] [0, 5, 0, 0, 0, 0, 0, 0, 1] ! (8 div 8)) (8 mod 8) \<and>
   \<not> bit (minimize_bits 9 [0, 0] [0, 5, 0, 0, 0, 0, 0, 0, 1] ! (7 div 8)) (7 mod 8)"
  using minimize_bits_correct [of 9 "[0, 0]" 8 "[0, 5, 0, 0, 0, 0, 0, 0, 1]"]
    minimize_bits_correct [of 9 "[0, 0]" 7 "[0, 5, 0, 0, 0, 0, 0, 0, 1]"]
  by simp

end
