(* ===== verification/Energy.thy ===== *)
theory Energy
  imports Afl_State
begin

text \<open>
  The energy measurements that GreenAFL adds: the hook of \<open>fuzz_run_target\<close>
  (src/afl-fuzz-run.c) that moves the readings of the shared maps into the current queue
  entry, the accounting of \<open>calibrate_case\<close>, the bonus and the favour factor of
  src/afl-fuzz-queue.c, and \<open>next_pow2\<close> of include/alloc-inl.h. The function \<open>log1p\<close> of libm
  is a parameter; \<open>log1p_contract\<close> states the documented facts the proofs use.
\<close>

section \<open>Reading the energy maps\<close>

definition set_entry :: "nat \<Rightarrow> (queue_entry \<Rightarrow> queue_entry) \<Rightarrow> afl_state \<Rightarrow> afl_state" where
  "set_entry k f a = a\<lparr>queue_buf := (queue_buf a)[k := f (queue_buf a ! k)]\<rparr>"

definition cpu_hook :: "afl_state \<Rightarrow> afl_state" where
  "cpu_hook a = (case cpu_energy_map a of
     None \<Rightarrow> a
   | Some val \<Rightarrow>
       (let a' = (case queue_cur a of
              Some c \<Rightarrow> if 0 < val then set_entry c (q_cpu_energy_cost_update (\<lambda>_. val)) a else a
            | None \<Rightarrow> a)
        in a'\<lparr>cpu_energy_map := Some 0\<rparr>))"

definition mem_hook :: "afl_state \<Rightarrow> afl_state" where
  "mem_hook a = (case mem_energy_map a of
     None \<Rightarrow> a
   | Some val \<Rightarrow>
       (let a' = (case queue_cur a of
              Some c \<Rightarrow> if 0 < val then set_entry c (q_mem_energy_cost_update (\<lambda>_. val)) a else a
            | None \<Rightarrow> a)
        in a'\<lparr>mem_energy_map := Some 0\<rparr>))"

definition energy_hook :: "afl_state \<Rightarrow> afl_state" where
  "energy_hook a = mem_hook (cpu_hook a)"

text \<open>
  \<open>fuzz_run_target\<close>: \<open>run\<close> stands for \<open>afl_fsrv_run_target\<close> and the target it executes. It
  yields the run result, the trace left in the shared coverage map and the readings the
  preload library stored in the energy maps (\<open>None\<close> when it stored nothing).
\<close>

type_synonym target_run = "afl_forkserver \<Rightarrow> u32 \<Rightarrow> u8 \<times> afl_forkserver \<times> u64 option \<times> u64 option"

definition store_reading :: "u64 option \<Rightarrow> u64 option \<Rightarrow> u64 option" where
  "store_reading m v = (case m of None \<Rightarrow> None | Some old \<Rightarrow> (case v of None \<Rightarrow> Some old | Some x \<Rightarrow> Some x))"

definition fuzz_run_target :: "target_run \<Rightarrow> afl_state \<Rightarrow> u32 \<Rightarrow> u8 \<times> afl_state" where
  "fuzz_run_target run a timeout =
     (let (res, f', c, m) = run (fsrv a) timeout;
          a' = a\<lparr>fsrv := f', cpu_energy_map := store_reading (cpu_energy_map a) c,
                 mem_energy_map := store_reading (mem_energy_map a) m\<rparr>
      in (res, energy_hook a'))"

section \<open>Accounting during calibration\<close>

definition track_min :: "u64 \<Rightarrow> u64 \<Rightarrow> u64" where
  "track_min cost lo = (if lo = 0 \<or> cost < lo then cost else lo)"

definition track_max :: "u64 \<Rightarrow> u64 \<Rightarrow> u64" where
  "track_max cost hi = (if hi = 0 \<or> hi < cost then cost else hi)"

definition account_energy :: "queue_entry \<Rightarrow> afl_state \<Rightarrow> afl_state" where
  "account_energy q a =
     (let cpu = q_cpu_energy_cost q; mem = q_mem_energy_cost q;
          a = a\<lparr>total_cpu_energy := total_cpu_energy a + ucast cpu,
                total_mem_energy := total_mem_energy a + ucast mem\<rparr>;
          a = (if cpu \<noteq> 0 then a\<lparr>min_cpu_energy := track_min cpu (min_cpu_energy a),
                                 max_cpu_energy := track_max cpu (max_cpu_energy a)\<rparr> else a)
      in if mem \<noteq> 0 then a\<lparr>min_mem_energy := track_min mem (min_mem_energy a),
                            max_mem_energy := track_max mem (max_mem_energy a)\<rparr> else a)"

section \<open>The energy bonus\<close>

definition clamp_dbl :: "dbl \<Rightarrow> dbl \<Rightarrow> dbl \<Rightarrow> dbl" where
  "clamp_dbl lo hi d = (let d = (if dlt d lo then lo else d) in if dlt hi d then hi else d)"

definition energy_norm :: "(dbl \<Rightarrow> dbl) \<Rightarrow> u64 \<Rightarrow> u64 \<Rightarrow> u64 \<Rightarrow> dbl" where
  "energy_norm log1p eMin eMax e =
     (let num = log1p (d_of_u (if eMin < e then e - eMin else 0));
          den = log1p (d_of_u (eMax - eMin))
      in clamp_dbl (Fin 0) (Fin 1) (ddiv num den))"

definition energy_bonus :: "(dbl \<Rightarrow> dbl) \<Rightarrow> afl_state \<Rightarrow> u64 \<Rightarrow> dbl" where
  "energy_bonus log1p a e =
     (let eMin = min_cpu_energy a + min_mem_energy a;
          eMax = max_cpu_energy a + max_mem_energy a
      in if e = 0 \<or> eMax \<le> eMin then Fin 1
         else
           (let norm = energy_norm log1p eMin eMax e;
                bonus = dadd (Fin 1) (dmul (Fin (1 / 4)) (dsub (Fin (1 / 2)) norm))
            in clamp_dbl (mkd (8 / 10)) (Fin (5 / 4)) bonus))"

section \<open>Favour factor of an entry\<close>

definition smear :: "nat \<Rightarrow> u64 \<Rightarrow> u64" where
  "smear k w = w OR drop_bit k w"

definition next_pow2 :: "u64 \<Rightarrow> u64" where
  "next_pow2 w = smear 16 (smear 8 (smear 4 (smear 2 (smear 1 (w - 1))))) + 1"

definition fuzz_p2_of :: "afl_state \<Rightarrow> queue_entry \<Rightarrow> u64" where
  "fuzz_p2_of a q =
     (if schedule a \<ge> FAST \<and> schedule a < RARE then 0
      else if schedule a = RARE then next_pow2 (ucast (n_fuzz a (unat (q_n_fuzz_entry q))))
      else ucast (q_fuzz_level q))"

definition base_factor_of :: "afl_state \<Rightarrow> queue_entry \<Rightarrow> u64" where
  "base_factor_of a q =
     (if schedule a \<ge> RARE \<or> fixed_seed a then ucast (push_bit 2 (q_len q))
      else q_exec_us q * ucast (q_len q))"

definition fav_factor_of :: "(dbl \<Rightarrow> dbl) \<Rightarrow> afl_state \<Rightarrow> queue_entry \<Rightarrow> u64 res" where
  "fav_factor_of log1p a q =
     (let fav = base_factor_of a q in
      if q_cpu_energy_cost q \<noteq> 0 \<or> q_mem_energy_cost q \<noteq> 0
      then (let e = q_cpu_energy_cost q + q_mem_energy_cost q
            in u_of_d (ddiv (d_of_u fav) (energy_bonus log1p a e)))
      else Inr fav)"

section \<open>The range and the direction of the bonus\<close>

text \<open>
  What the code relies on of \<open>log1p\<close> of libm, on finite non-negative arguments: the result is
  finite and non-negative, positive from 1 on, and the function does not decrease (it is the
  correctly rounded \<open>ln (1 + x)\<close> that IEEE 754 recommends).
\<close>

definition log1p_contract :: "(dbl \<Rightarrow> dbl) \<Rightarrow> bool" where
  "log1p_contract f \<longleftrightarrow>
     (\<forall>x. 0 \<le> x \<longrightarrow> (\<exists>y. f (Fin x) = Fin y \<and> 0 \<le> y \<and> (1 \<le> x \<longrightarrow> 0 < y))) \<and>
     (\<forall>x y u v. 0 \<le> x \<longrightarrow> x \<le> y \<longrightarrow> f (Fin x) = Fin u \<longrightarrow> f (Fin y) = Fin v \<longrightarrow> u \<le> v)"

lemma log1p_contract_id: "log1p_contract (\<lambda>x. x)"
  by (auto simp: log1p_contract_def)

definition pivot :: "rat \<Rightarrow> rat" where
  "pivot n = fl (1 + fl (1 / 4 * fl (1 / 2 - n)))"

lemma rep_eighths: "\<bar>m\<bar> \<le> 2 ^ 53 \<Longrightarrow> rep 53 (- 1022) (of_int m / 8)"
proof -
  assume "\<bar>m\<bar> \<le> 2 ^ 53"
  then have "rep 53 (- 1022) (of_int m * 2 powi (- 3))" by (intro rep_scaled) simp_all
  also have "(of_int m :: rat) * 2 powi (- 3) = of_int m / 8" by (simp add: power_int_def field_simps)
  finally show ?thesis .
qed

lemma pivot_bounds:
  assumes "0 \<le> n" and "n \<le> 1"
  shows "7 / 8 \<le> pivot n \<and> pivot n \<le> 9 / 8"
proof -
  have "- 1 / 2 \<le> fl (1 / 2 - n) \<and> fl (1 / 2 - n) \<le> 1 / 2"
    using rep_eighths [of 4] rep_eighths [of "- 4"] assms by (intro fl.between) simp_all
  then have "- 1 / 8 \<le> fl (1 / 4 * fl (1 / 2 - n)) \<and> fl (1 / 4 * fl (1 / 2 - n)) \<le> 1 / 8"
    using rep_eighths [of 1] rep_eighths [of "- 1"] by (intro fl.between) simp_all
  then show ?thesis
    using rep_eighths [of 7] rep_eighths [of 9] unfolding pivot_def by (intro fl.between) simp_all
qed

lemma pivot_antimono: "m \<le> n \<Longrightarrow> pivot n \<le> pivot m"
  unfolding pivot_def by (intro fl.mono add_left_mono mult_left_mono) simp_all

lemma fl_08: "fl (8 / 10) \<le> 7 / 8"
  using rep_eighths [of 7] by (intro fl.le_rep) simp_all

lemma mkd_le2: "\<bar>x\<bar> \<le> 2 \<Longrightarrow> mkd x = Fin (fl x)"
  by (rule mkd_small) simp

lemma bonus_of_norm:
  assumes "0 \<le> n" and "n \<le> 1"
  shows "dadd (Fin 1) (dmul (Fin (1 / 4)) (dsub (Fin (1 / 2)) (Fin n))) = Fin (pivot n)"
proof -
  have 1: "\<bar>1 / 2 - n\<bar> \<le> 2" using assms by linarith
  have "\<bar>fl (1 / 2 - n)\<bar> \<le> 1"
    using rep_of_int [of 1] assms by (intro fl.abs_le) (simp_all add: abs_le_iff)
  then have 2: "\<bar>1 / 4 * fl (1 / 2 - n)\<bar> \<le> 1" by (simp add: abs_mult)
  then have "\<bar>fl (1 / 4 * fl (1 / 2 - n))\<bar> \<le> 1"
    using rep_of_int [of 1] by (intro fl.abs_le) simp_all
  then have 3: "\<bar>1 + fl (1 / 4 * fl (1 / 2 - n))\<bar> \<le> 2" by linarith
  show ?thesis
    by (simp only: dsub_def dneg.simps dadd.simps dmul.simps pivot_def diff_conv_add_uminus [symmetric]
        mkd_le2 1 3 mkd_le2 [OF order_trans [OF 2]] one_le_numeral)
qed

lemma clamp_noop:
  assumes "7 / 8 \<le> b" and "b \<le> 9 / 8"
  shows "\<not> dlt (Fin b) (mkd (8 / 10))" and "\<not> dlt (Fin (5 / 4)) (Fin b)"
  using assms fl_08 by (simp_all add: mkd_small)

lemma clamp01_range: "d \<noteq> NaN \<Longrightarrow> \<exists>n. clamp_dbl (Fin 0) (Fin 1) d = Fin n \<and> 0 \<le> n \<and> n \<le> 1"
  by (cases d) (auto simp: clamp_dbl_def)

abbreviation norm_of :: "(dbl \<Rightarrow> dbl) \<Rightarrow> afl_state \<Rightarrow> u64 \<Rightarrow> dbl" where
  "norm_of f a e \<equiv> energy_norm f (min_cpu_energy a + min_mem_energy a) (max_cpu_energy a + max_mem_energy a) e"

definition energy_window :: "afl_state \<Rightarrow> bool" where
  "energy_window a \<longleftrightarrow> min_cpu_energy a + min_mem_energy a < max_cpu_energy a + max_mem_energy a"

lemma ddiv_Fin_pos: "0 \<le> x \<Longrightarrow> 0 < y \<Longrightarrow> ddiv (Fin x) (Fin y) \<noteq> NaN"
  by simp

lemma log1p_contractD:
  assumes "log1p_contract f" and "0 \<le> x"
  obtains y where "f (Fin x) = Fin y" and "0 \<le> y" and "1 \<le> x \<Longrightarrow> 0 < y"
  using assms unfolding log1p_contract_def by blast

lemma log1p_contract_mono:
  assumes "log1p_contract f" and "0 \<le> x" and "x \<le> y" and "f (Fin x) = Fin u" and "f (Fin y) = Fin v"
  shows "u \<le> v"
  using assms unfolding log1p_contract_def by blast

lemma norm_of_parts:
  assumes "log1p_contract f" and "energy_window a"
  obtains x y where
    "f (d_of_u (if min_cpu_energy a + min_mem_energy a < e then e - (min_cpu_energy a + min_mem_energy a) else 0)) = Fin x"
    "f (d_of_u (max_cpu_energy a + max_mem_energy a - (min_cpu_energy a + min_mem_energy a))) = Fin y"
    "0 \<le> x" "0 < y"
proof -
  let ?m = "min_cpu_energy a + min_mem_energy a" and ?M = "max_cpu_energy a + max_mem_energy a"
  obtain x where x: "f (d_of_u (if ?m < e then e - ?m else 0)) = Fin x" "0 \<le> x"
    using log1p_contractD [OF assms(1) fl_uint_nonneg [of "if ?m < e then e - ?m else 0"]] by (metis d_of_u64)
  have "?M - ?m \<noteq> 0" using assms(2) by (auto simp: energy_window_def)
  then have "1 \<le> fl (of_int (uint (?M - ?m)))" by (rule fl_uint_ge1)
  then obtain y where "f (d_of_u (?M - ?m)) = Fin y" "0 < y"
    using log1p_contractD [OF assms(1) fl_uint_nonneg [of "?M - ?m"]] by (metis d_of_u64)
  then show thesis using x that by blast
qed

lemma norm_of_range:
  assumes "log1p_contract f" and "energy_window a"
  obtains n where "norm_of f a e = Fin n" and "0 \<le> n" and "n \<le> 1"
proof -
  obtain x y where
    "norm_of f a e = clamp_dbl (Fin 0) (Fin 1) (ddiv (Fin x) (Fin y))" "0 \<le> x" "0 < y"
    by (rule norm_of_parts [OF assms, of e]) (simp add: energy_norm_def Let_def)
  then show thesis using clamp01_range [OF ddiv_Fin_pos [of x y]] that by metis
qed

lemma energy_bonus_pivot:
  assumes "log1p_contract f" and "energy_window a" and "e \<noteq> 0" and "norm_of f a e = Fin n"
  shows "energy_bonus f a e = Fin (pivot n)"
proof -
  obtain n' where "norm_of f a e = Fin n'" "0 \<le> n'" "n' \<le> 1"
    using norm_of_range [OF assms(1,2)] .
  then have n: "0 \<le> n" "n \<le> 1" using assms(4) by simp_all
  have "energy_bonus f a e = clamp_dbl (mkd (8 / 10)) (Fin (5 / 4))
      (dadd (Fin 1) (dmul (Fin (1 / 4)) (dsub (Fin (1 / 2)) (Fin n))))"
    using assms(2,3) by (simp only: energy_bonus_def energy_window_def Let_def linorder_not_le [symmetric]
        assms(4) if_False simp_thms)
  also have "\<dots> = Fin (pivot n)"
    unfolding bonus_of_norm [OF n] using clamp_noop [of "pivot n"] pivot_bounds [OF n]
    by (simp add: clamp_dbl_def)
  finally show ?thesis .
qed

lemma energy_bonus_one: "e = 0 \<or> \<not> energy_window a \<Longrightarrow> energy_bonus f a e = Fin 1"
  by (auto simp: energy_bonus_def energy_window_def Let_def linorder_not_less)

lemma energy_bonus_bounds:
  assumes "log1p_contract f"
  obtains b where "energy_bonus f a e = Fin b" and "7 / 8 \<le> b" and "b \<le> 9 / 8"
proof (cases "e = 0 \<or> \<not> energy_window a")
  case True
  then show thesis using that [of 1] by (simp add: energy_bonus_one)
next
  case False
  then obtain n where "norm_of f a e = Fin n" "0 \<le> n" "n \<le> 1"
    using norm_of_range [OF assms] by metis
  then show thesis
    using False energy_bonus_pivot [OF assms] pivot_bounds [of n] that by blast
qed

text \<open>
  C26: the energy bonus is a finite double between 0.875 and 1.125 for every state and every
  cost, so the final clamps to 0.8 and 1.25 never fire, and it is exactly 1 when the entry
  has no reading or no energy spread has been seen.
\<close>
theorem energy_bonus_range:
  assumes "log1p_contract log1p"
  shows "(\<exists>b. energy_bonus log1p a e = Fin b \<and> 7 / 8 \<le> b \<and> b \<le> 9 / 8) \<and>
     (e = 0 \<or> max_cpu_energy a + max_mem_energy a \<le> min_cpu_energy a + min_mem_energy a \<longrightarrow>
        energy_bonus log1p a e = Fin 1)"
  using energy_bonus_bounds [OF assms, of a e] energy_bonus_one [of e a]
  by (auto simp: energy_window_def linorder_not_less)

theorem energy_bonus_range_witness:
  "\<exists>b. energy_bonus (\<lambda>x. x) (afl_zero\<lparr>max_cpu_energy := 8\<rparr>) 2 = Fin b \<and> 7 / 8 \<le> b \<and> b \<le> 9 / 8"
  using energy_bonus_range [OF log1p_contract_id, of "afl_zero\<lparr>max_cpu_energy := 8\<rparr>" 2] by (rule conjunct1)

lemma sub_mono_word:
  fixes m e e' :: u64
  assumes "e \<le> e'"
  shows "uint (if m < e then e - m else 0) \<le> uint (if m < e' then e' - m else 0)"
  using assms by (auto simp: word_less_def word_le_def uint_sub_lem [THEN iffD1] less_imp_le)

lemma clamp01_mono_div:
  assumes "0 \<le> x" "x \<le> x'" "0 < y" "clamp_dbl (Fin 0) (Fin 1) (ddiv (Fin x) (Fin y)) = Fin n"
    "clamp_dbl (Fin 0) (Fin 1) (ddiv (Fin x') (Fin y)) = Fin n'"
  shows "n \<le> n'"
proof -
  have "fl (x / y) \<le> fl (x' / y)" using assms by (intro fl.mono divide_right_mono) simp_all
  moreover have "0 \<le> fl (x / y)" using assms by (intro fl.nonneg) simp
  ultimately show ?thesis
    using assms(3-5) by (auto simp: clamp_dbl_def mkd_def Let_def split: if_splits)
qed

lemma energy_bonus_le:
  assumes "log1p_contract log1p" and "0 < e" and "e \<le> e'"
    and "energy_bonus log1p a e = Fin b" and "energy_bonus log1p a e' = Fin b'"
  shows "b' \<le> b"
proof (cases "energy_window a")
  case False
  then show ?thesis using assms(4,5) by (simp add: energy_bonus_one)
next
  case True
  let ?m = "min_cpu_energy a + min_mem_energy a" and ?M = "max_cpu_energy a + max_mem_energy a"
  have ne: "e \<noteq> 0" "e' \<noteq> 0" using assms(2,3) by auto
  obtain x y where x: "log1p (d_of_u (if ?m < e then e - ?m else 0)) = Fin x"
    "log1p (d_of_u (?M - ?m)) = Fin y" "0 \<le> x" "0 < y" using norm_of_parts [OF assms(1) True] .
  obtain x' where x': "log1p (d_of_u (if ?m < e' then e' - ?m else 0)) = Fin x'"
    using norm_of_parts [OF assms(1) True] by metis
  have "fl (of_int (uint (if ?m < e then e - ?m else 0))) \<le> fl (of_int (uint (if ?m < e' then e' - ?m else 0)))"
    by (intro fl.mono) (simp only: of_int_le_iff sub_mono_word [OF assms(3)])
  then have "x \<le> x'"
    using log1p_contract_mono [OF assms(1) fl_uint_nonneg] x(1) x' unfolding d_of_u64 by blast
  moreover obtain n n' where n: "norm_of log1p a e = Fin n" "norm_of log1p a e' = Fin n'"
    using norm_of_range [OF assms(1) True] by metis
  ultimately have "n \<le> n'"
    using x x' by (intro clamp01_mono_div [of x x' y n n']) (simp_all add: energy_norm_def Let_def)
  then show ?thesis
    using assms(4,5) energy_bonus_pivot [OF assms(1) True ne(1) n(1)]
      energy_bonus_pivot [OF assms(1) True ne(2) n(2)] pivot_antimono [of n n'] by simp
qed

text \<open>
  The bonus never rewards the more expensive of two entries: between measured costs it
  does not increase with the cost.
\<close>
theorem energy_bonus_antimono:
  assumes "log1p_contract log1p" and "0 < e" and "e \<le> e'"
  shows "dle (energy_bonus log1p a e') (energy_bonus log1p a e)"
proof -
  obtain b b' where b: "energy_bonus log1p a e = Fin b" "energy_bonus log1p a e' = Fin b'"
    using energy_bonus_bounds [OF assms(1)] by metis
  then show ?thesis using energy_bonus_le [OF assms b] by (simp add: dle_def)
qed

theorem energy_bonus_antimono_witness:
  "dle (energy_bonus (\<lambda>x. x) (afl_zero\<lparr>max_cpu_energy := 8\<rparr>) 5)
       (energy_bonus (\<lambda>x. x) (afl_zero\<lparr>max_cpu_energy := 8\<rparr>) 2)"
  by (rule energy_bonus_antimono [OF log1p_contract_id]) simp_all

section \<open>The favour factor\<close>

lemma div_bonus_range:
  assumes "0 \<le> x" "x \<le> 2 ^ 63" "7 / 8 \<le> b"
  shows "0 \<le> fl (x / b) \<and> fl (x / b) \<le> 3 * 2 ^ 62 \<and> mkd (x / b) = Fin (fl (x / b))"
proof -
  have "x / b \<le> 2 ^ 63 / (7 / 8)" using assms by (intro frac_le) simp_all
  also have "\<dots> \<le> 3 * 2 ^ 62" by simp
  finally have u: "x / b \<le> 3 * 2 ^ 62" .
  have l: "0 \<le> x / b" using assms by simp
  have "rep 53 (- 1022) (3 * 2 ^ 62)" using rep_scaled [of 3 53 "- 1022" 62] by simp
  then have "fl (x / b) \<le> 3 * 2 ^ 62" using u by (rule fl.le_rep)
  moreover have "\<bar>x / b\<bar> \<le> 2 ^ 200" using u l by simp
  ultimately show ?thesis using fl.nonneg [OF l] mkd_small [of "x / b"] by blast
qed

lemma u_of_d_floor:
  assumes "0 \<le> y" "y < 2 ^ LENGTH('a::len)"
  shows "(u_of_d (Fin y) :: 'a word res) = Inr (word_of_int \<lfloor>y\<rfloor>)"
  using assms by (simp add: u_of_d_def)

lemma uint_word_of_floor:
  assumes "0 \<le> y" "y < 2 ^ LENGTH('a::len)"
  shows "uint (word_of_int \<lfloor>y\<rfloor> :: 'a word) = \<lfloor>y\<rfloor>"
proof -
  have "y < of_int (2 ^ LENGTH('a))" using assms(2) by simp
  then have "\<lfloor>y\<rfloor> < 2 ^ LENGTH('a)" by (simp only: floor_less_iff)
  moreover have "0 \<le> \<lfloor>y\<rfloor>" using assms(1) by simp
  ultimately show ?thesis by (simp only: uint_word_of_int_eq take_bit_int_eq_self)
qed

definition energy_of :: "queue_entry \<Rightarrow> u64" where
  "energy_of q = q_cpu_energy_cost q + q_mem_energy_cost q"

definition measured :: "queue_entry \<Rightarrow> bool" where
  "measured q \<longleftrightarrow> q_cpu_energy_cost q \<noteq> 0 \<or> q_mem_energy_cost q \<noteq> 0"

lemma fl_uint_le_pow63:
  assumes "(w :: u64) \<le> 2 ^ 63"
  shows "fl (of_int (uint w)) \<le> 2 ^ 63"
proof -
  have "uint w \<le> 2 ^ 63" using assms by (simp add: word_le_def)
  then have "(of_int (uint w) :: rat) \<le> 2 ^ 63" by (metis of_int_le_iff of_int_numeral of_int_power)
  then show ?thesis using rep_pow2 [of 63] by (intro fl.le_rep) simp_all
qed

lemma fav_factor_of_measured:
  assumes "log1p_contract f" and "measured q" and "base_factor_of a q \<le> 2 ^ 63"
  obtains b where "energy_bonus f a (energy_of q) = Fin b" and "7 / 8 \<le> b" and "b \<le> 9 / 8"
    and "fav_factor_of f a q = Inr (word_of_int \<lfloor>fl (fl (of_int (uint (base_factor_of a q))) / b)\<rfloor>)"
proof -
  obtain b where b: "energy_bonus f a (energy_of q) = Fin b" "7 / 8 \<le> b" "b \<le> 9 / 8"
    using energy_bonus_bounds [OF assms(1)] .
  let ?x = "fl (of_int (uint (base_factor_of a q)))"
  have x: "0 \<le> ?x" "?x \<le> 2 ^ 63" using fl_uint_nonneg fl_uint_le_pow63 [OF assms(3)] by blast+
  note r = div_bonus_range [OF x b(2)]
  have "fl (?x / b) < 2 ^ LENGTH(64)" using r by simp
  then have "(u_of_d (Fin (fl (?x / b))) :: u64 res) = Inr (word_of_int \<lfloor>fl (?x / b)\<rfloor>)"
    using r by (intro u_of_d_floor) simp_all
  moreover have "fav_factor_of f a q = u_of_d (ddiv (Fin ?x) (Fin b))"
    using assms(2) b(1) by (simp add: fav_factor_of_def measured_def energy_of_def d_of_u64)
  moreover have "ddiv (Fin ?x) (Fin b) = Fin (fl (?x / b))" using r b(2) by simp
  ultimately show thesis using that b by simp
qed

text \<open>
  As long as the speed times size product stays below \<open>2 ^ 63\<close>, the energy-weighted favour
  factor is a defined 64-bit value (the conversion back from \<open>double\<close> is in range), and of two
  measured entries with the same product the one with the lower energy cost never has the
  larger factor.
\<close>
theorem fav_factor_energy_order:
  assumes "log1p_contract log1p" and "measured q" and "measured q'"
    and "base_factor_of a q = base_factor_of a q'" and "base_factor_of a q \<le> 2 ^ 63"
    and "0 < energy_of q" and "energy_of q \<le> energy_of q'"
  shows "\<exists>f f'. fav_factor_of log1p a q = Inr f \<and> fav_factor_of log1p a q' = Inr f' \<and> f \<le> f'"
proof -
  let ?x = "fl (of_int (uint (base_factor_of a q)))"
  obtain b where b: "energy_bonus log1p a (energy_of q) = Fin b" "7 / 8 \<le> b"
      "fav_factor_of log1p a q = Inr (word_of_int \<lfloor>fl (?x / b)\<rfloor>)"
    using fav_factor_of_measured [OF assms(1,2,5)] .
  obtain b' where b': "energy_bonus log1p a (energy_of q') = Fin b'" "7 / 8 \<le> b'"
      "fav_factor_of log1p a q' = Inr (word_of_int \<lfloor>fl (?x / b')\<rfloor>)"
    using fav_factor_of_measured [OF assms(1,3)] assms(4,5) by metis
  have x: "0 \<le> ?x" "?x \<le> 2 ^ 63" using fl_uint_nonneg fl_uint_le_pow63 [OF assms(5)] by blast+
  have "b' \<le> b" using energy_bonus_le [OF assms(1,6,7) b(1) b'(1)] .
  then have "\<lfloor>fl (?x / b)\<rfloor> \<le> \<lfloor>fl (?x / b')\<rfloor>"
    using x b(2) b'(2) by (intro floor_mono fl.mono divide_left_mono) simp_all
  moreover have "fl (?x / b) < 2 ^ LENGTH(64)" "fl (?x / b') < 2 ^ LENGTH(64)"
    using div_bonus_range [OF x b(2)] div_bonus_range [OF x b'(2)] by simp_all
  ultimately have "(word_of_int \<lfloor>fl (?x / b)\<rfloor> :: u64) \<le> word_of_int \<lfloor>fl (?x / b')\<rfloor>"
    using div_bonus_range [OF x b(2)] div_bonus_range [OF x b'(2)]
    by (simp only: word_le_def uint_word_of_floor)
  then show ?thesis using b(3) b'(3) by blast
qed

theorem fav_factor_energy_order_witness:
  "\<exists>f f'. fav_factor_of (\<lambda>x. x) (afl_zero\<lparr>max_cpu_energy := 8\<rparr>)
       (entry_zero\<lparr>q_len := 10, q_exec_us := 100, q_cpu_energy_cost := 1\<rparr>) = Inr f \<and>
     fav_factor_of (\<lambda>x. x) (afl_zero\<lparr>max_cpu_energy := 8\<rparr>)
       (entry_zero\<lparr>q_len := 10, q_exec_us := 100, q_cpu_energy_cost := 8\<rparr>) = Inr f' \<and> f \<le> f'"
  by (rule fav_factor_energy_order [OF log1p_contract_id])
     (simp_all add: measured_def energy_of_def base_factor_of_def zero_defs)

section \<open>next_pow2\<close>

lemma bit_smear: "bit (smear k w) i \<longleftrightarrow> bit w i \<or> bit w (i + k)"
  by (auto simp: smear_def bit_simps add.commute dest: bit_imp_le_length)

definition smeared :: "u64 \<Rightarrow> u64" where
  "smeared w = smear 16 (smear 8 (smear 4 (smear 2 (smear 1 w))))"

lemma ex_less_double: "(\<exists>j<2 * (k :: nat). P j) \<longleftrightarrow> (\<exists>j<k. P j) \<or> (\<exists>j<k. P (j + k))"
proof
  assume "\<exists>j<2 * k. P j"
  then obtain j where j: "j < 2 * k" "P j" by blast
  then show "(\<exists>j<k. P j) \<or> (\<exists>j<k. P (j + k))"
    by (cases "j < k") (auto intro: exI [of _ "j - k"])
next
  assume "(\<exists>j<k. P j) \<or> (\<exists>j<k. P (j + k))"
  then obtain j where "j < k" "P j \<or> P (j + k)" by blast
  then show "\<exists>j<2 * k. P j"
    by (elim disjE) (auto intro: exI [of _ j] exI [of _ "j + k"])
qed

lemma bit_smear_run:
  assumes "\<And>i. bit w' i \<longleftrightarrow> (\<exists>j<k. bit w (i + j))"
  shows "bit (smear k w') i \<longleftrightarrow> (\<exists>j<2 * k. bit w (i + j))"
  by (simp add: bit_smear assms ex_less_double add.assoc add.commute add.left_commute)

lemma bit_smeared: "bit (smeared w) i \<longleftrightarrow> (\<exists>j<32. bit w (i + j))"
proof -
  have "\<And>i. bit (smear 1 w) i \<longleftrightarrow> (\<exists>j<2. bit w (i + j))"
    by (auto simp: bit_smear less_2_cases_iff)
  from bit_smear_run [OF this]
  have "\<And>i. bit (smear 2 (smear 1 w)) i \<longleftrightarrow> (\<exists>j<4. bit w (i + j))" by simp
  from bit_smear_run [OF this]
  have "\<And>i. bit (smear 4 (smear 2 (smear 1 w))) i \<longleftrightarrow> (\<exists>j<8. bit w (i + j))" by simp
  from bit_smear_run [OF this]
  have "\<And>i. bit (smear 8 (smear 4 (smear 2 (smear 1 w)))) i \<longleftrightarrow> (\<exists>j<16. bit w (i + j))" by simp
  from bit_smear_run [OF this] show ?thesis by (simp add: smeared_def)
qed

lemma smeared_mask:
  assumes "unat w < 2 ^ 32"
  obtains k where "k \<le> 32" and "smeared w = mask k" and "unat w < 2 ^ k" and "0 < k \<Longrightarrow> 2 ^ (k - 1) \<le> unat w"
proof -
  define k where "k = (LEAST k. unat w < 2 ^ k)"
  have lt: "unat w < 2 ^ k" unfolding k_def by (rule LeastI) (rule assms)
  have k32: "k \<le> 32" unfolding k_def using assms by (rule Least_le)
  have ge: "2 ^ (k - 1) \<le> unat w" if "0 < k"
    using not_less_Least [of "k - 1" "\<lambda>k. unat w < 2 ^ k"] that by (simp add: k_def)
  have "smeared w = mask k"
  proof (rule bit_word_eqI)
    fix i assume "i < LENGTH(64)"
    have "(\<exists>j<32. bit w (i + j)) \<longleftrightarrow> i < k"
    proof
      assume "\<exists>j<32. bit w (i + j)"
      then obtain j where "2 ^ (i + j) \<le> unat w" using bit_imp_ge by blast
      with lt have "(2 :: nat) ^ (i + j) < 2 ^ k" by linarith
      then show "i < k" by simp
    next
      assume i: "i < k"
      then have "bit w (k - 1)" using top_bit [of "k - 1" w] lt ge by simp
      then have "bit w (i + (k - 1 - i))" using i by simp
      then show "\<exists>j<32. bit w (i + j)" using i k32 by (intro exI [of _ "k - 1 - i"]) auto
    qed
    then show "bit (smeared w) i \<longleftrightarrow> bit (mask k :: u64) i"
      using \<open>i < LENGTH(64)\<close> by (simp add: bit_smeared bit_mask_iff)
  qed
  then show thesis using that k32 lt ge by blast
qed

text \<open>
  For every argument from 1 to \<open>2 ^ 32\<close>, in particular for every positive 32-bit fuzz count,
  \<open>next_pow2\<close> returns the least power of two that is not smaller than its argument; the count 0
  gives 0.
\<close>
theorem next_pow2_correct:
  assumes "0 < w" and "w \<le> 2 ^ 32"
  shows "(\<exists>k\<le>32. unat (next_pow2 w) = 2 ^ k) \<and> w \<le> next_pow2 w \<and> unat (next_pow2 w) < 2 * unat w \<and>
     next_pow2 0 = 0"
proof -
  have pos: "0 < unat w" using assms(1) by (simp add: word_less_nat_alt)
  have "unat w \<le> 2 ^ 32" using assms(2) by (simp add: word_le_nat_alt)
  moreover have um: "unat (w - 1) = unat w - 1" using assms(1) by (intro unat_minus_one) auto
  ultimately have "unat (w - 1) < 2 ^ 32" using pos by linarith
  then obtain k where k: "k \<le> 32" "smeared (w - 1) = mask k" "unat (w - 1) < 2 ^ k"
      "0 < k \<Longrightarrow> 2 ^ (k - 1) \<le> unat (w - 1)"
    using smeared_mask by blast
  have "next_pow2 w = 2 ^ k" using k(2) by (simp add: next_pow2_def smeared_def mask_eq_decr_exp)
  then have u: "unat (next_pow2 w) = 2 ^ k" using k(1) by (simp add: unat_pow2)
  have "unat w \<le> 2 ^ k" using k(3) um pos by linarith
  moreover have "2 ^ k < 2 * unat w"
  proof (cases k)
    case 0 then show ?thesis using pos by simp
  next
    case (Suc n) then show ?thesis using k(4) um pos by simp
  qed
  moreover have "next_pow2 0 = 0" by (simp add: next_pow2_def smear_def)
  ultimately show ?thesis using u k(1) by (auto simp: word_le_nat_alt)
qed

theorem next_pow2_correct_witness:
  "(\<exists>k\<le>32. unat (next_pow2 100) = 2 ^ k) \<and> 100 \<le> next_pow2 100 \<and> unat (next_pow2 100) < 2 * unat (100 :: u64)"
  using next_pow2_correct [of 100] by simp

lemma next_pow2_wide: "next_pow2 (2 ^ 33 + 1) \<noteq> 2 ^ 34"
  by (simp add: next_pow2_def smear_def)

section \<open>The energy hook of a run\<close>

lemma hook_frame [afl_frame]:
  "queue_cur (cpu_hook a) = queue_cur a" "queue_cur (mem_hook a) = queue_cur a"
  "mem_energy_map (cpu_hook a) = mem_energy_map a" "cpu_energy_map (mem_hook a) = cpu_energy_map a"
  "length (queue_buf (cpu_hook a)) = length (queue_buf a)"
  "length (queue_buf (mem_hook a)) = length (queue_buf a)"
  "fsrv (cpu_hook a) = fsrv a" "fsrv (mem_hook a) = fsrv a"
  by (auto simp: cpu_hook_def mem_hook_def set_entry_def Let_def split: option.splits)

lemma cpu_hook_entry:
  assumes "i < length (queue_buf a)"
  shows "queue_buf (cpu_hook a) ! i =
    (case cpu_energy_map a of
       Some val \<Rightarrow> if queue_cur a = Some i \<and> 0 < val then (queue_buf a ! i)\<lparr>q_cpu_energy_cost := val\<rparr>
                   else queue_buf a ! i
     | None \<Rightarrow> queue_buf a ! i)"
  using assms by (auto simp: cpu_hook_def set_entry_def Let_def nth_list_update split: option.splits)

lemma mem_hook_entry:
  assumes "i < length (queue_buf a)"
  shows "queue_buf (mem_hook a) ! i =
    (case mem_energy_map a of
       Some val \<Rightarrow> if queue_cur a = Some i \<and> 0 < val then (queue_buf a ! i)\<lparr>q_mem_energy_cost := val\<rparr>
                   else queue_buf a ! i
     | None \<Rightarrow> queue_buf a ! i)"
  using assms by (auto simp: mem_hook_def set_entry_def Let_def nth_list_update split: option.splits)

lemma hook_maps [simp]:
  "cpu_energy_map (cpu_hook a) = map_option (\<lambda>_. 0) (cpu_energy_map a)"
  "mem_energy_map (mem_hook a) = map_option (\<lambda>_. 0) (mem_energy_map a)"
  by (simp_all add: cpu_hook_def mem_hook_def Let_def split: option.splits)

text \<open>The costs an entry has after a run that left the readings \<open>c\<close> and \<open>m\<close> in the maps.\<close>

definition keep_reading :: "u64 option \<Rightarrow> u64 \<Rightarrow> u64" where
  "keep_reading r old = (case r of Some v \<Rightarrow> if 0 < v then v else old | None \<Rightarrow> old)"

lemma energy_hook_costs:
  assumes "i < length (queue_buf a)"
  shows "queue_buf (energy_hook a) ! i =
    (if queue_cur a = Some i
     then (queue_buf a ! i)
            \<lparr>q_cpu_energy_cost := keep_reading (cpu_energy_map a) (q_cpu_energy_cost (queue_buf a ! i)),
             q_mem_energy_cost := keep_reading (mem_energy_map a) (q_mem_energy_cost (queue_buf a ! i))\<rparr>
     else queue_buf a ! i)"
  using assms by (simp add: energy_hook_def mem_hook_entry cpu_hook_entry afl_frame keep_reading_def
      split: option.splits)

text \<open>
  After any run of the target, whatever it returned, the positive readings found in the
  energy maps are the costs of the current queue entry, a missing or zero reading leaves the old
  cost, no other entry changes, and both maps are reset to zero for the next run.
\<close>
theorem fuzz_run_target_energy:
  assumes "run (fsrv a) tmout = (res, f', c, m)" and "i < length (queue_buf a)"
  shows "fst (fuzz_run_target run a tmout) = res \<and>
    fsrv (snd (fuzz_run_target run a tmout)) = f' \<and>
    cpu_energy_map (snd (fuzz_run_target run a tmout)) = map_option (\<lambda>_. 0) (cpu_energy_map a) \<and>
    mem_energy_map (snd (fuzz_run_target run a tmout)) = map_option (\<lambda>_. 0) (mem_energy_map a) \<and>
    queue_buf (snd (fuzz_run_target run a tmout)) ! i =
      (if queue_cur a = Some i
       then (queue_buf a ! i)
              \<lparr>q_cpu_energy_cost := keep_reading (store_reading (cpu_energy_map a) c) (q_cpu_energy_cost (queue_buf a ! i)),
               q_mem_energy_cost := keep_reading (store_reading (mem_energy_map a) m) (q_mem_energy_cost (queue_buf a ! i))\<rparr>
       else queue_buf a ! i)"
  using assms
  by (simp add: fuzz_run_target_def energy_hook_costs)
     (simp add: energy_hook_def afl_frame store_reading_def split: option.splits)

theorem fuzz_run_target_energy_witness:
  "q_cpu_energy_cost (queue_buf (snd (fuzz_run_target (\<lambda>f t. (0, f, Some 7, None))
      (afl_zero\<lparr>cpu_energy_map := Some 0, queue_cur := Some 0, queue_buf := [entry_zero]\<rparr>) 5)) ! 0) = 7"
proof -
  let ?a = "afl_zero\<lparr>cpu_energy_map := Some 0, queue_cur := Some 0, queue_buf := [entry_zero]\<rparr>"
  have "queue_buf (snd (fuzz_run_target (\<lambda>f t. (0, f, Some 7, None)) ?a 5)) ! 0 =
    (queue_buf ?a ! 0)
      \<lparr>q_cpu_energy_cost := keep_reading (store_reading (cpu_energy_map ?a) (Some 7)) (q_cpu_energy_cost (queue_buf ?a ! 0)),
       q_mem_energy_cost := keep_reading (store_reading (mem_energy_map ?a) None) (q_mem_energy_cost (queue_buf ?a ! 0))\<rparr>"
    using fuzz_run_target_energy [of "\<lambda>f t. (0, f, Some 7, None)" ?a 5 0 "fsrv ?a" "Some 7" None 0] by simp
  then show ?thesis by (simp add: keep_reading_def store_reading_def)
qed

section \<open>The accounted totals and extremes\<close>

definition account_all :: "queue_entry list \<Rightarrow> afl_state \<Rightarrow> afl_state" where
  "account_all qs a = fold account_energy qs a"

lemma account_energy_cpu:
  "total_cpu_energy (account_energy q a) = total_cpu_energy a + ucast (q_cpu_energy_cost q)"
  "min_cpu_energy (account_energy q a) =
     (if q_cpu_energy_cost q = 0 then min_cpu_energy a else track_min (q_cpu_energy_cost q) (min_cpu_energy a))"
  "max_cpu_energy (account_energy q a) =
     (if q_cpu_energy_cost q = 0 then max_cpu_energy a else track_max (q_cpu_energy_cost q) (max_cpu_energy a))"
  by (simp_all add: account_energy_def Let_def)

lemma account_energy_mem:
  "total_mem_energy (account_energy q a) = total_mem_energy a + ucast (q_mem_energy_cost q)"
  "min_mem_energy (account_energy q a) =
     (if q_mem_energy_cost q = 0 then min_mem_energy a else track_min (q_mem_energy_cost q) (min_mem_energy a))"
  "max_mem_energy (account_energy q a) =
     (if q_mem_energy_cost q = 0 then max_mem_energy a else track_max (q_mem_energy_cost q) (max_mem_energy a))"
  by (simp_all add: account_energy_def Let_def)

definition least_of :: "u64 list \<Rightarrow> u64" where
  "least_of xs = (let ys = filter (\<lambda>x. x \<noteq> 0) xs in if ys = [] then 0 else Min (set ys))"

definition greatest_of :: "u64 list \<Rightarrow> u64" where
  "greatest_of xs = (let ys = filter (\<lambda>x. x \<noteq> 0) xs in if ys = [] then 0 else Max (set ys))"

lemma least_of_snoc: "least_of (xs @ [x]) = (if x = 0 then least_of xs else track_min x (least_of xs))"
proof (cases "filter (\<lambda>x. x \<noteq> 0) xs = []")
  case True
  then show ?thesis by (simp add: least_of_def track_min_def Let_def)
next
  case False
  then have ne: "{y \<in> set xs. y \<noteq> 0} \<noteq> {}" by (auto simp: filter_empty_conv)
  have "Min {y \<in> set xs. y \<noteq> 0} \<in> {y \<in> set xs. y \<noteq> 0}" using ne by (intro Min_in) simp_all
  then have "Min {y \<in> set xs. y \<noteq> 0} \<noteq> 0" by simp
  moreover have "least_of xs = Min {y \<in> set xs. y \<noteq> 0}" using False by (simp add: least_of_def)
  moreover have "x \<noteq> 0 \<Longrightarrow> least_of (xs @ [x]) = min x (Min {y \<in> set xs. y \<noteq> 0})"
    using ne by (simp add: least_of_def)
  moreover have "x = 0 \<Longrightarrow> least_of (xs @ [x]) = least_of xs" by (simp add: least_of_def)
  ultimately show ?thesis by (simp only: track_min_def min_def if_False simp_thms split: if_split) auto
qed

lemma greatest_of_snoc: "greatest_of (xs @ [x]) = (if x = 0 then greatest_of xs else track_max x (greatest_of xs))"
proof (cases "filter (\<lambda>x. x \<noteq> 0) xs = []")
  case True
  then show ?thesis by (simp add: greatest_of_def track_max_def Let_def)
next
  case False
  then have ne: "{y \<in> set xs. y \<noteq> 0} \<noteq> {}" by (auto simp: filter_empty_conv)
  have "Max {y \<in> set xs. y \<noteq> 0} \<in> {y \<in> set xs. y \<noteq> 0}" using ne by (intro Max_in) simp_all
  then have "Max {y \<in> set xs. y \<noteq> 0} \<noteq> 0" by simp
  moreover have "greatest_of xs = Max {y \<in> set xs. y \<noteq> 0}" using False by (simp add: greatest_of_def)
  moreover have "x \<noteq> 0 \<Longrightarrow> greatest_of (xs @ [x]) = max x (Max {y \<in> set xs. y \<noteq> 0})"
    using ne by (simp add: greatest_of_def)
  moreover have "x = 0 \<Longrightarrow> greatest_of (xs @ [x]) = greatest_of xs" by (simp add: greatest_of_def)
  ultimately show ?thesis by (simp only: track_max_def max_def if_False simp_thms split: if_split) auto
qed

text \<open>
  C27: starting from zeroed statistics, after calibrating any sequence of entries the CPU and
  memory minima and maxima are the least and the greatest of the non-zero costs seen (0 when
  there is none), and the totals are the 128-bit sums of the costs.
\<close>
theorem account_energy_extremes:
  assumes "min_cpu_energy a = 0" "max_cpu_energy a = 0" "min_mem_energy a = 0" "max_mem_energy a = 0"
    and "total_cpu_energy a = 0" "total_mem_energy a = 0"
  shows "min_cpu_energy (account_all qs a) = least_of (map q_cpu_energy_cost qs) \<and>
    max_cpu_energy (account_all qs a) = greatest_of (map q_cpu_energy_cost qs) \<and>
    min_mem_energy (account_all qs a) = least_of (map q_mem_energy_cost qs) \<and>
    max_mem_energy (account_all qs a) = greatest_of (map q_mem_energy_cost qs) \<and>
    total_cpu_energy (account_all qs a) = (\<Sum>q\<leftarrow>qs. ucast (q_cpu_energy_cost q)) \<and>
    total_mem_energy (account_all qs a) = (\<Sum>q\<leftarrow>qs. ucast (q_mem_energy_cost q))"
proof (induction qs rule: rev_induct)
  case Nil
  then show ?case using assms by (simp add: account_all_def least_of_def greatest_of_def)
next
  case (snoc q qs)
  then show ?case
    by (simp add: account_all_def account_energy_cpu account_energy_mem least_of_snoc greatest_of_snoc)
qed

theorem account_energy_extremes_witness:
  "min_cpu_energy (account_all [entry_zero\<lparr>q_cpu_energy_cost := 9\<rparr>, entry_zero, entry_zero\<lparr>q_cpu_energy_cost := 4\<rparr>] afl_zero) = 4"
  by (subst account_energy_extremes [THEN conjunct1]) (simp_all add: zero_defs least_of_def)

end
