(* ===== verification/Favored.thy ===== *)
theory Favored
  imports Bitmap Energy
begin

text \<open>
  The favoured set of src/afl-fuzz-queue.c: for every byte of the coverage map the best entry
  that reaches it (\<open>update_bitmap_score\<close>, \<open>update_bitmap_rescore\<close>), and the selection of a
  small set of entries that covers the map (\<open>cull_queue\<close>). A pointer to a queue entry is its
  index in \<open>queue_buf\<close>, which is also its \<open>id\<close>, so two pointers to one entry alias as in the
  code. The invariant \<open>slots_inv\<close> is the ownership discipline of the code: \<open>tc_ref\<close> counts the
  slots an entry holds and an entry without slots owns no compact trace.
\<close>

section \<open>Redundant entries\<close>

definition mark_as_redundant :: "nat \<Rightarrow> bool \<Rightarrow> afl_state \<Rightarrow> afl_state" where
  "mark_as_redundant k st a =
     (if st = q_fs_redundant (queue_buf a ! k) then a
      else
        (let a = set_entry k (q_fs_redundant_update (\<lambda>_. st)) a;
             a = (if st then set_entry k (q_trace_mini_update (\<lambda>_. None)) a else a)
         in if st \<and> afl_disable_redundant a then set_entry k (q_disabled_update (\<lambda>_. True)) a else a))"

section \<open>Winning a slot\<close>

definition drop_ref :: "nat \<Rightarrow> afl_state \<Rightarrow> afl_state" where
  "drop_ref t a =
     (let a = set_entry t (\<lambda>q. q\<lparr>q_tc_ref := q_tc_ref q - 1\<rparr>) a
      in if q_tc_ref (queue_buf a ! t) = 0 then set_entry t (q_trace_mini_update (\<lambda>_. None)) a else a)"

definition enter_slot :: "nat \<Rightarrow> nat \<Rightarrow> afl_state \<Rightarrow> afl_state" where
  "enter_slot i k a =
     (set_entry k (\<lambda>q. q\<lparr>q_tc_ref := q_tc_ref q + 1\<rparr>) a)\<lparr>top_rated := (top_rated a)[i := Some k]\<rparr>"

definition alloc_mini :: "nat \<Rightarrow> u32 \<Rightarrow> afl_state \<Rightarrow> afl_state" where
  "alloc_mini k len a =
     (if q_trace_mini (queue_buf a ! k) = None
      then set_entry k (q_trace_mini_update (\<lambda>_. Some
             (minimize_bits (map_size (fsrv a)) (replicate (unat len) 0) (trace_bits (fsrv a))))) a
      else a)"

definition mini_len :: "afl_state \<Rightarrow> u32" where
  "mini_len a = drop_bit 3 (map_size (fsrv a) + 7)"

definition insert_winner :: "nat \<Rightarrow> nat \<Rightarrow> afl_state \<Rightarrow> afl_state" where
  "insert_winner i k a =
     (let a = alloc_mini k (mini_len a) (enter_slot i k a) in a\<lparr>score_changed := True\<rparr>)"

definition score_slot ::
  "(dbl \<Rightarrow> dbl) \<Rightarrow> nat \<Rightarrow> u64 \<Rightarrow> u64 \<Rightarrow> nat \<Rightarrow> afl_state \<Rightarrow> afl_state res" where
  "score_slot log1p k fuzz_p2 fav i a =
     (if trace_bits (fsrv a) ! i = 0 then Inr a
      else case top_rated a ! i of
        None \<Rightarrow> Inr (insert_winner i k a)
      | Some t \<Rightarrow>
          rbind (fav_factor_of log1p a (queue_buf a ! t)) (\<lambda>top_fav.
            if fuzz_p2_of a (queue_buf a ! t) < fuzz_p2 then Inr a
            else if top_fav < fav then Inr a
            else Inr (insert_winner i k (drop_ref t a))))"

definition update_bitmap_score ::
  "(dbl \<Rightarrow> dbl) \<Rightarrow> nat \<Rightarrow> bool \<Rightarrow> afl_state \<Rightarrow> afl_state res" where
  "update_bitmap_score log1p k have_trace a =
     (let q = queue_buf a ! k in
      if q_disabled q then Inr a
      else rbind (fav_factor_of log1p a q) (\<lambda>fav.
        if have_trace
        then rfold (score_slot log1p k (fuzz_p2_of a q) fav) [0..<unat (map_size (fsrv a))] a
        else Inr a))"

text \<open>
  \<open>update_bitmap_rescore\<close> allocates \<open>map_size / 8\<close> bytes, rounded down, for a compact trace, so here the
  stores of \<open>minimize_bits\<close> are checked against the allocation.
\<close>

definition store_bit :: "bytes \<Rightarrow> nat \<Rightarrow> bytes \<Rightarrow> bytes res" where
  "store_bit src i dst =
     (if src ! i \<noteq> 0 \<and> length dst \<le> i div 8 then Inl (UB ''write past trace_mini'') else Inr (minimize_step src i dst))"

definition minimize_into :: "u32 \<Rightarrow> bytes \<Rightarrow> bytes \<Rightarrow> bytes res" where
  "minimize_into msize dst src = rfold (store_bit src) [0..<unat msize] dst"

definition rescore_alloc :: "nat \<Rightarrow> afl_state \<Rightarrow> afl_state res" where
  "rescore_alloc k a =
     (if q_trace_mini (queue_buf a ! k) = None
      then rbind (minimize_into (map_size (fsrv a)) (replicate (unat (drop_bit 3 (map_size (fsrv a)))) 0) (trace_bits (fsrv a))) (\<lambda>m.
             Inr (set_entry k (q_trace_mini_update (\<lambda>_. Some m)) a))
      else Inr a)"

definition rescore_winner :: "nat \<Rightarrow> nat \<Rightarrow> afl_state \<Rightarrow> afl_state res" where
  "rescore_winner i k a = rbind (rescore_alloc k (enter_slot i k a)) (\<lambda>a. Inr (a\<lparr>score_changed := True\<rparr>))"

definition update_bitmap_rescore ::
  "(dbl \<Rightarrow> dbl) \<Rightarrow> nat \<Rightarrow> nat \<Rightarrow> afl_state \<Rightarrow> afl_state res" where
  "update_bitmap_rescore log1p k i a =
     (let q = queue_buf a ! k in
      if q_disabled q then Inr a
      else rbind (fav_factor_of log1p a q) (\<lambda>fav.
        case top_rated a ! i of
          None \<Rightarrow> rescore_winner i k a
        | Some t \<Rightarrow>
            rbind (fav_factor_of log1p a (queue_buf a ! t)) (\<lambda>top_fav.
              if fuzz_p2_of a (queue_buf a ! t) < fuzz_p2_of a q then Inr a
              else if top_fav < fav then Inr a
              else rescore_winner i k (drop_ref t a))))"

section \<open>Culling\<close>

definition unfavor_all :: "afl_state \<Rightarrow> afl_state" where
  "unfavor_all a = fold (\<lambda>i. set_entry i (q_favored_update (\<lambda>_. False))) [0..<unat (queued_items a)] a"

text \<open>The loop \<open>while (j--)\<close> over the compact trace of a winner.\<close>

definition clear_byte :: "bytes \<Rightarrow> nat \<Rightarrow> bytes \<Rightarrow> bytes" where
  "clear_byte mini j tv = (if mini ! j \<noteq> 0 then tv[j := tv ! j AND NOT (mini ! j)] else tv)"

definition clear_covered :: "nat \<Rightarrow> bytes \<Rightarrow> bytes \<Rightarrow> bytes" where
  "clear_covered len mini tv = fold (clear_byte mini) (rev [0..<len]) tv"

definition note_pending :: "nat \<Rightarrow> afl_state \<Rightarrow> afl_state" where
  "note_pending t a =
     (if q_was_fuzzed (queue_buf a ! t) then a
      else
        (let a = a\<lparr>pending_favored := pending_favored a + 1\<rparr>;
             n = uint (q_id (queue_buf a ! t))
         in if smallest_favored a = - 1 \<or> n < smallest_favored a then a\<lparr>smallest_favored := n\<rparr> else a))"

definition make_favored :: "nat \<Rightarrow> afl_state \<Rightarrow> afl_state" where
  "make_favored t a =
     (if \<not> q_favored (queue_buf a ! t) \<and> \<not> q_disabled (queue_buf a ! t)
      then note_pending t
             ((set_entry t (q_favored_update (\<lambda>_. True)) a)\<lparr>queued_favored := queued_favored a + 1\<rparr>)
      else a)"

definition cull_slot :: "nat \<Rightarrow> afl_state \<Rightarrow> afl_state" where
  "cull_slot i a =
     (case top_rated a ! i of
        None \<Rightarrow> a
      | Some t \<Rightarrow>
          if bit (map_tmp_buf a ! (i div 8)) (i mod 8)
          then (case q_trace_mini (queue_buf a ! t) of
                  None \<Rightarrow> a
                | Some mini \<Rightarrow>
                    make_favored t
                      (a\<lparr>map_tmp_buf := clear_covered (unat (drop_bit 3 (map_size (fsrv a)))) mini (map_tmp_buf a)\<rparr>))
          else a)"

definition redundant_pass :: "afl_state \<Rightarrow> afl_state" where
  "redundant_pass a =
     fold (\<lambda>i a. if q_disabled (queue_buf a ! i) then a
                 else mark_as_redundant i (\<not> q_favored (queue_buf a ! i)) a)
       [0..<unat (queued_items a)] a"

definition cull_start :: "afl_state \<Rightarrow> afl_state" where
  "cull_start a =
     (let len = unat (drop_bit 3 (map_size (fsrv a)));
          a = a\<lparr>score_changed := False,
                map_tmp_buf := replicate len 255 @ drop len (map_tmp_buf a),
                queued_favored := 0, pending_favored := 0\<rparr>
      in (unfavor_all a)\<lparr>smallest_favored := - 1\<rparr>)"

definition cull_queue :: "afl_state \<Rightarrow> afl_state" where
  "cull_queue a =
     (if \<not> score_changed a \<or> non_instrumented_mode a then a
      else
        (let a = cull_start a;
             a = fold cull_slot [0..<unat (map_size (fsrv a))] a;
             a = redundant_pass a
         in a\<lparr>reinit_table := True\<rparr>))"

section \<open>What scoring leaves alone\<close>

lemma queue_buf_set_entry [simp]: "queue_buf (set_entry k f a) = (queue_buf a)[k := f (queue_buf a ! k)]"
  by (simp add: set_entry_def)

lemma set_entry_frame [simp]:
  "fsrv (set_entry k f a) = fsrv a" "top_rated (set_entry k f a) = top_rated a"
  "queue_cur (set_entry k f a) = queue_cur a" "queued_items (set_entry k f a) = queued_items a"
  "map_tmp_buf (set_entry k f a) = map_tmp_buf a" "queued_favored (set_entry k f a) = queued_favored a"
  "pending_favored (set_entry k f a) = pending_favored a"
  "smallest_favored (set_entry k f a) = smallest_favored a"
  "afl_disable_redundant (set_entry k f a) = afl_disable_redundant a"
  "score_changed (set_entry k f a) = score_changed a"
  by (simp_all add: set_entry_def)

text \<open>
  Scoring changes \<open>tc_ref\<close> and \<open>trace_mini\<close> of entries, the slots and the change flag, and
  nothing else; so the factors it compares are those of the state it started from.
\<close>

definition entry_core :: "queue_entry \<Rightarrow> queue_entry" where
  "entry_core q = q\<lparr>q_tc_ref := 0, q_trace_mini := None\<rparr>"

definition state_core :: "afl_state \<Rightarrow> afl_state" where
  "state_core a = a\<lparr>queue_buf := [], top_rated := [], score_changed := False\<rparr>"

definition score_frame :: "afl_state \<Rightarrow> afl_state \<Rightarrow> bool" where
  "score_frame a b \<longleftrightarrow> state_core b = state_core a \<and> length (top_rated b) = length (top_rated a) \<and>
     map entry_core (queue_buf b) = map entry_core (queue_buf a)"

lemma score_frame_refl [simp, intro]: "score_frame a a"
  by (simp add: score_frame_def)

lemma score_frame_trans: "score_frame a b \<Longrightarrow> score_frame b c \<Longrightarrow> score_frame a c"
  by (simp add: score_frame_def)

lemma entry_core_upd [simp]:
  "entry_core (q\<lparr>q_tc_ref := r\<rparr>) = entry_core q" "entry_core (q\<lparr>q_trace_mini := m\<rparr>) = entry_core q"
  by (simp_all add: entry_core_def)

lemma score_frame_set_entry:
  assumes "entry_core (f (queue_buf a ! k)) = entry_core (queue_buf a ! k)"
  shows "score_frame a (set_entry k f a)"
proof -
  have "map entry_core ((queue_buf a)[k := f (queue_buf a ! k)]) = map entry_core (queue_buf a)"
    by (simp only: map_update assms) (simp add: map_update [symmetric])
  then show ?thesis by (simp add: score_frame_def state_core_def set_entry_def)
qed

lemma score_frame_drop_ref: "score_frame a (drop_ref t a)"
proof -
  let ?b = "set_entry t (\<lambda>q. q\<lparr>q_tc_ref := q_tc_ref q - 1\<rparr>) a"
  have "score_frame a ?b" by (simp add: score_frame_set_entry)
  moreover have "score_frame ?b (set_entry t (q_trace_mini_update (\<lambda>_. None)) ?b)"
    by (simp add: score_frame_set_entry)
  ultimately show ?thesis by (auto simp: drop_ref_def Let_def intro: score_frame_trans)
qed

lemma score_frame_slots: "score_frame a b \<Longrightarrow> score_frame a (b\<lparr>top_rated := (top_rated b)[i := x]\<rparr>)"
  by (simp add: score_frame_def state_core_def)

lemma score_frame_flag: "score_frame a b \<Longrightarrow> score_frame a (b\<lparr>score_changed := s\<rparr>)"
  by (simp add: score_frame_def state_core_def)

lemma score_frame_enter_slot: "score_frame a (enter_slot i k a)"
  using score_frame_slots [OF score_frame_set_entry, of "\<lambda>q. q\<lparr>q_tc_ref := q_tc_ref q + 1\<rparr>" a k i "Some k"]
  by (simp add: enter_slot_def)

lemma score_frame_alloc_mini: "score_frame a (alloc_mini k len a)"
  by (simp add: alloc_mini_def score_frame_set_entry)

lemma score_frame_insert_winner: "score_frame a (insert_winner i k a)"
  by (simp add: insert_winner_def Let_def)
     (intro score_frame_flag score_frame_trans [OF score_frame_enter_slot score_frame_alloc_mini])

lemma score_slot_frame:
  assumes "score_slot log1p k p2 fav i a = Inr b"
  shows "score_frame a b"
  using assms score_frame_trans [OF score_frame_drop_ref score_frame_insert_winner]
  by (auto simp: score_slot_def rbind_eq_Inr_iff score_frame_insert_winner split: if_splits option.splits)

section \<open>Factors are stable while scoring\<close>

lemma energy_bonus_core: "energy_bonus f (state_core a) e = energy_bonus f a e"
  by (simp add: energy_bonus_def state_core_def)

lemma core_fields:
  "schedule (state_core a) = schedule a" "fixed_seed (state_core a) = fixed_seed a"
  "n_fuzz (state_core a) = n_fuzz a" "q_len (entry_core q) = q_len q" "q_exec_us (entry_core q) = q_exec_us q"
  "q_fuzz_level (entry_core q) = q_fuzz_level q" "q_n_fuzz_entry (entry_core q) = q_n_fuzz_entry q"
  "q_cpu_energy_cost (entry_core q) = q_cpu_energy_cost q" "q_mem_energy_cost (entry_core q) = q_mem_energy_cost q"
  by (simp_all add: state_core_def entry_core_def)

lemma factors_core:
  "fav_factor_of f a q = fav_factor_of f (state_core a) (entry_core q)"
  "fuzz_p2_of a q = fuzz_p2_of (state_core a) (entry_core q)"
  by (simp_all only: fav_factor_of_def fuzz_p2_of_def base_factor_of_def energy_bonus_core core_fields)

lemma factors_frame:
  assumes "score_frame a b" and "t < length (queue_buf a)"
  shows "fav_factor_of f b (queue_buf b ! t) = fav_factor_of f a (queue_buf a ! t)"
    and "fuzz_p2_of b (queue_buf b ! t) = fuzz_p2_of a (queue_buf a ! t)"
proof -
  have "entry_core (queue_buf b ! t) = entry_core (queue_buf a ! t)"
    using assms unfolding score_frame_def by (metis length_map nth_map)
  then show "fav_factor_of f b (queue_buf b ! t) = fav_factor_of f a (queue_buf a ! t)"
    "fuzz_p2_of b (queue_buf b ! t) = fuzz_p2_of a (queue_buf a ! t)"
    using assms(1) factors_core(1) [of f b "queue_buf b ! t"] factors_core(1) [of f a "queue_buf a ! t"]
      factors_core(2) [of b "queue_buf b ! t"] factors_core(2) [of a "queue_buf a ! t"]
    by (simp_all add: score_frame_def)
qed

lemma score_frame_simps:
  assumes "score_frame a b"
  shows "fsrv b = fsrv a" "length (queue_buf b) = length (queue_buf a)"
    "length (top_rated b) = length (top_rated a)" "queued_items b = queued_items a"
proof -
  have c: "state_core b = state_core a" using assms by (simp add: score_frame_def)
  show "fsrv b = fsrv a" using arg_cong [OF c, of fsrv] by (simp add: state_core_def)
  show "queued_items b = queued_items a" using arg_cong [OF c, of queued_items] by (simp add: state_core_def)
  show "length (queue_buf b) = length (queue_buf a)" using assms by (metis score_frame_def length_map)
  show "length (top_rated b) = length (top_rated a)" using assms by (simp add: score_frame_def)
qed

section \<open>Who holds a slot after scoring\<close>

definition beats :: "(dbl \<Rightarrow> dbl) \<Rightarrow> afl_state \<Rightarrow> nat \<Rightarrow> nat \<Rightarrow> bool" where
  "beats log1p a k t \<longleftrightarrow>
     fuzz_p2_of a (queue_buf a ! k) \<le> fuzz_p2_of a (queue_buf a ! t) \<and>
     (case (fav_factor_of log1p a (queue_buf a ! k), fav_factor_of log1p a (queue_buf a ! t)) of
        (Inr f, Inr g) \<Rightarrow> f \<le> g
      | _ \<Rightarrow> False)"

definition slot_winner :: "(dbl \<Rightarrow> dbl) \<Rightarrow> afl_state \<Rightarrow> nat \<Rightarrow> nat \<Rightarrow> nat option" where
  "slot_winner log1p a k i =
     (if trace_bits (fsrv a) ! i = 0 then top_rated a ! i
      else case top_rated a ! i of
        None \<Rightarrow> Some k
      | Some t \<Rightarrow> if beats log1p a k t then Some k else Some t)"

definition slots_ok :: "afl_state \<Rightarrow> bool" where
  "slots_ok a \<longleftrightarrow> length (top_rated a) = unat (map_size (fsrv a)) \<and>
     (\<forall>t. Some t \<in> set (top_rated a) \<longrightarrow> t < length (queue_buf a))"

lemma top_rated_simps [simp]:
  "top_rated (drop_ref t a) = top_rated a"
  "top_rated (alloc_mini k len a) = top_rated a"
  "top_rated (enter_slot i k a) = (top_rated a)[i := Some k]"
  "top_rated (insert_winner i k a) = (top_rated a)[i := Some k]"
  by (simp_all add: drop_ref_def alloc_mini_def enter_slot_def insert_winner_def Let_def)

lemma score_slot_top_rated:
  assumes "score_slot log1p k p2 fav i b = Inr c" and "score_frame a b"
    and "p2 = fuzz_p2_of a (queue_buf a ! k)" and "fav_factor_of log1p a (queue_buf a ! k) = Inr fav"
    and "top_rated b ! i = top_rated a ! i" and "i < length (top_rated a)" and "slots_ok a"
  shows "top_rated c = (top_rated b)[i := slot_winner log1p a k i]"
proof (cases "trace_bits (fsrv a) ! i = 0")
  case True
  then show ?thesis using assms by (simp add: score_slot_def slot_winner_def score_frame_simps)
       (metis list_update_id)
next
  case hit: False
  show ?thesis
  proof (cases "top_rated a ! i")
    case None
    then show ?thesis using assms(1,2,5) hit
      by (auto simp: score_slot_def slot_winner_def score_frame_simps)
  next
    case (Some t)
    then have t: "t < length (queue_buf a)" using assms(6,7) by (metis nth_mem slots_ok_def)
    note fr = factors_frame [OF assms(2) t]
    have b: "top_rated b ! i = Some t" "(top_rated b)[i := Some t] = top_rated b"
      using Some assms(5) list_update_id [of "top_rated b" i] by simp_all
    have f: "fsrv b = fsrv a" using assms(2) by (rule score_frame_simps)
    have "\<exists>g. fav_factor_of log1p a (queue_buf a ! t) = Inr g \<and>
        (if fuzz_p2_of a (queue_buf a ! t) < p2 then (Inr b :: afl_state res) else if g < fav then Inr b
         else Inr (insert_winner i k (drop_ref t b))) = Inr c"
      using assms(1) hit b(1) f by (simp add: score_slot_def rbind_eq_Inr_iff fr)
    then obtain g where g: "fav_factor_of log1p a (queue_buf a ! t) = Inr g"
      and c: "(if fuzz_p2_of a (queue_buf a ! t) < p2 then (Inr b :: afl_state res) else if g < fav then Inr b
               else Inr (insert_winner i k (drop_ref t b))) = Inr c" by blast
    show ?thesis
      using c hit Some g assms(3,4) b(2)
      by (auto simp: slot_winner_def beats_def linorder_not_less linorder_not_le [symmetric] split: if_splits)
  qed
qed

lemma score_loop_top_rated:
  assumes "rfold (score_slot log1p k p2 fav) [0..<n] a = Inr c"
    and "p2 = fuzz_p2_of a (queue_buf a ! k)" and "fav_factor_of log1p a (queue_buf a ! k) = Inr fav"
    and "n \<le> length (top_rated a)" and "slots_ok a"
  shows "score_frame a c \<and> top_rated c = map (slot_winner log1p a k) [0..<n] @ drop n (top_rated a)"
  using assms(1,4)
proof (induction n arbitrary: c)
  case 0
  then show ?case by simp
next
  case (Suc n)
  then obtain b where b: "rfold (score_slot log1p k p2 fav) [0..<n] a = Inr b"
      and step: "score_slot log1p k p2 fav n b = Inr c"
    by (auto simp: rfold_append rbind_eq_Inr_iff)
  have IH: "score_frame a b" "top_rated b = map (slot_winner log1p a k) [0..<n] @ drop n (top_rated a)"
    using Suc.IH [OF b] Suc.prems(2) by simp_all
  have nth: "top_rated b ! n = top_rated a ! n" using IH(2) Suc.prems(2) by (simp add: nth_append)
  have "top_rated c = (top_rated b)[n := slot_winner log1p a k n]"
    using score_slot_top_rated [OF step IH(1) assms(2,3) nth _ assms(5)] Suc.prems(2) by simp
  moreover have "drop n (top_rated a) = top_rated a ! n # drop (Suc n) (top_rated a)"
    using Suc.prems(2) by (simp add: Cons_nth_drop_Suc)
  ultimately have "top_rated c = map (slot_winner log1p a k) [0..<Suc n] @ drop (Suc n) (top_rated a)"
    by (simp add: IH(2) list_update_append)
  then show ?case using score_frame_trans [OF IH(1) score_slot_frame [OF step]] by blast
qed

lemma update_bitmap_score_slots:
  assumes "update_bitmap_score log1p k True a = Inr a'" and "slots_ok a"
    and "\<not> q_disabled (queue_buf a ! k)"
  shows "score_frame a a' \<and> top_rated a' = map (slot_winner log1p a k) [0..<unat (map_size (fsrv a))]"
proof -
  obtain fav where "fav_factor_of log1p a (queue_buf a ! k) = Inr fav"
    and "rfold (score_slot log1p k (fuzz_p2_of a (queue_buf a ! k)) fav) [0..<unat (map_size (fsrv a))] a = Inr a'"
    using assms(1,3) by (auto simp: update_bitmap_score_def Let_def rbind_eq_Inr_iff)
  then show ?thesis
    using score_loop_top_rated [of log1p k _ fav "unat (map_size (fsrv a))" a a'] assms(2)
    by (simp add: slots_ok_def)
qed

definition factors_defined :: "(dbl \<Rightarrow> dbl) \<Rightarrow> afl_state \<Rightarrow> bool" where
  "factors_defined log1p a \<longleftrightarrow> (\<forall>t < length (queue_buf a). \<exists>f. fav_factor_of log1p a (queue_buf a ! t) = Inr f)"

lemma score_slot_total:
  assumes "factors_defined log1p a" and "score_frame a b"
    and "\<forall>t. Some t \<in> set (top_rated b) \<longrightarrow> t < length (queue_buf a)" and "k < length (queue_buf a)"
    and "i < length (top_rated b)"
  shows "\<exists>c. score_slot log1p k p2 fav i b = Inr c \<and> score_frame a c \<and>
     (\<forall>t. Some t \<in> set (top_rated c) \<longrightarrow> t < length (queue_buf a))"
proof -
  have "\<exists>c. score_slot log1p k p2 fav i b = Inr c \<and> (\<forall>t. Some t \<in> set (top_rated c) \<longrightarrow> t < length (queue_buf a))"
  proof (cases "top_rated b ! i")
    case None
    then show ?thesis using assms(3,4) by (auto simp: score_slot_def dest!: set_update_subset_insert [THEN subsetD])
  next
    case (Some t)
    then have t: "t < length (queue_buf a)" using assms(3,5) by (metis nth_mem)
    then obtain g where "fav_factor_of log1p b (queue_buf b ! t) = Inr g"
      using assms(1) factors_frame(1) [OF assms(2) t] by (auto simp: factors_defined_def)
    then show ?thesis using assms(3,4) Some
      by (auto simp: score_slot_def dest!: set_update_subset_insert [THEN subsetD])
  qed
  then show ?thesis using score_frame_trans [OF assms(2)] score_slot_frame by metis
qed

lemma update_bitmap_score_total:
  assumes "slots_ok a" and "k < length (queue_buf a)" and "factors_defined log1p a"
  shows "\<exists>a'. update_bitmap_score log1p k have_trace a = Inr a'"
proof -
  obtain fav where fav: "fav_factor_of log1p a (queue_buf a ! k) = Inr fav"
    using assms by (auto simp: factors_defined_def)
  have "\<exists>c. rfold (score_slot log1p k p2 fav) [0..<unat (map_size (fsrv a))] a = Inr c \<and>
     (score_frame a c \<and> (\<forall>t. Some t \<in> set (top_rated c) \<longrightarrow> t < length (queue_buf a)))" for p2
  proof (rule rfold_total)
    fix i b assume "i \<in> set [0..<unat (map_size (fsrv a))]"
      and b: "score_frame a b \<and> (\<forall>t. Some t \<in> set (top_rated b) \<longrightarrow> t < length (queue_buf a))"
    then have "i < length (top_rated b)" using assms(1) by (auto simp: slots_ok_def score_frame_simps)
    with b show "\<exists>c. score_slot log1p k p2 fav i b = Inr c \<and>
       (score_frame a c \<and> (\<forall>t. Some t \<in> set (top_rated c) \<longrightarrow> t < length (queue_buf a)))"
      using score_slot_total [OF assms(3) _ _ assms(2)] by blast
  qed (use assms(1) in \<open>auto simp: slots_ok_def\<close>)
  then show ?thesis using fav by (auto simp: update_bitmap_score_def Let_def)
qed

text \<open>
  C20: scoring a traced entry never fails while the favour factors are defined, and afterwards
  every slot of the map is held by exactly the right entry: an untouched byte keeps its holder,
  an empty touched slot goes to the scored entry, and an occupied one changes hands precisely
  when the scored entry is fuzzed no more often and its energy-weighted speed times size factor
  is not larger.
\<close>
theorem update_bitmap_score_winners:
  assumes "slots_ok a" and "k < length (queue_buf a)" and "factors_defined log1p a"
    and "\<not> q_disabled (queue_buf a ! k)"
  shows "\<exists>a'. update_bitmap_score log1p k True a = Inr a' \<and>
     length (top_rated a') = length (top_rated a) \<and>
     (\<forall>i < length (top_rated a). top_rated a' ! i =
        (if trace_bits (fsrv a) ! i = 0 then top_rated a ! i
         else case top_rated a ! i of
           None \<Rightarrow> Some k
         | Some t \<Rightarrow> if beats log1p a k t then Some k else Some t))"
proof -
  obtain a' where a': "update_bitmap_score log1p k True a = Inr a'"
    using update_bitmap_score_total [OF assms(1-3)] by blast
  have "top_rated a' = map (slot_winner log1p a k) [0..<unat (map_size (fsrv a))]"
    using update_bitmap_score_slots [OF a' assms(1,4)] by blast
  then show ?thesis using a' assms(1) by (auto simp: slots_ok_def slot_winner_def)
qed

definition small_state :: afl_state where
  "small_state = afl_zero\<lparr>
     fsrv := fsrv_zero\<lparr>trace_bits := [1, 0, 2, 0, 0, 0, 0, 0], map_size := 8\<rparr>,
     queue_buf := [entry_zero\<lparr>q_len := 4, q_exec_us := 5, q_tc_ref := 1, q_trace_mini := Some [4]\<rparr>,
                   entry_zero\<lparr>q_id := 1, q_len := 3, q_exec_us := 5\<rparr>],
     queued_items := 2,
     map_tmp_buf := [0],
     top_rated := [None, None, Some 0, None, None, None, None, None]\<rparr>"

lemma small_state_ok: "slots_ok small_state" "factors_defined log1p small_state"
  by (auto simp: small_state_def slots_ok_def factors_defined_def fav_factor_of_def zero_defs less_Suc_eq)

theorem update_bitmap_score_winners_witness:
  "\<exists>a'. update_bitmap_score (\<lambda>x. x) 1 True small_state = Inr a' \<and> top_rated a' ! 0 = Some 1 \<and>
     top_rated a' ! 1 = None \<and> top_rated a' ! 2 = Some 1"
proof -
  have "beats (\<lambda>x. x) small_state 1 0"
    by (simp add: beats_def small_state_def zero_defs fav_factor_of_def base_factor_of_def fuzz_p2_of_def)
  moreover obtain a' where a': "update_bitmap_score (\<lambda>x. x) 1 True small_state = Inr a'"
      and w: "\<And>i. i < length (top_rated small_state) \<Longrightarrow> top_rated a' ! i =
        (if trace_bits (fsrv small_state) ! i = 0 then top_rated small_state ! i
         else case top_rated small_state ! i of
           None \<Rightarrow> Some 1
         | Some t \<Rightarrow> if beats (\<lambda>x. x) small_state 1 t then Some 1 else Some t)"
    using update_bitmap_score_winners [of small_state 1 "\<lambda>x. x"] small_state_ok
    by (auto simp: small_state_def zero_defs)
  ultimately have "top_rated a' ! 0 = Some 1" "top_rated a' ! 1 = None" "top_rated a' ! 2 = Some 1"
    using w [of 0] w [of 1] w [of 2] by (simp_all add: small_state_def)
  with a' show ?thesis by blast
qed

section \<open>Ownership of slots and compact traces\<close>

lemma factors_defined_bounded:
  assumes "log1p_contract log1p" and "\<forall>t < length (queue_buf a). base_factor_of a (queue_buf a ! t) \<le> 2 ^ 63"
  shows "factors_defined log1p a"
  unfolding factors_defined_def
proof (intro allI impI)
  fix t assume t: "t < length (queue_buf a)"
  show "\<exists>f. fav_factor_of log1p a (queue_buf a ! t) = Inr f"
  proof (cases "measured (queue_buf a ! t)")
    case True
    then show ?thesis using fav_factor_of_measured [OF assms(1)] assms(2) t by metis
  next
    case False
    then show ?thesis by (simp add: measured_def fav_factor_of_def Let_def)
  qed
qed

lemma count_list_update:
  "i < length xs \<Longrightarrow>
     count_list (xs[i := x]) y + (if xs ! i = y then 1 else 0) = count_list xs y + (if x = y then 1 else 0)"
proof (induction xs arbitrary: i)
  case (Cons z zs)
  show ?case
  proof (cases i)
    case (Suc n)
    then show ?thesis using Cons.IH [of n] Cons.prems by (auto split: if_splits)
  qed simp
qed simp

lemma count_list_le_length: "count_list xs y \<le> length xs"
  by (induction xs) auto

definition entry_owns :: "u32 \<Rightarrow> nat option list \<Rightarrow> nat \<Rightarrow> queue_entry \<Rightarrow> bool" where
  "entry_owns len tr k q \<longleftrightarrow> q_tc_ref q = of_nat (count_list tr (Some k)) \<and>
     (q_tc_ref q = 0 \<longrightarrow> q_trace_mini q = None) \<and>
     (\<forall>m. q_trace_mini q = Some m \<longrightarrow> length m = unat len)"

definition refs_ok :: "nat option list \<Rightarrow> afl_state \<Rightarrow> bool" where
  "refs_ok tr a \<longleftrightarrow> (\<forall>k < length (queue_buf a). entry_owns (mini_len a) tr k (queue_buf a ! k))"

definition slots_inv :: "afl_state \<Rightarrow> bool" where
  "slots_inv a \<longleftrightarrow> slots_ok a \<and> refs_ok (top_rated a) a"

lemma mini_len_simps [simp]:
  "mini_len (set_entry k f a) = mini_len a"
  "mini_len (a\<lparr>top_rated := x\<rparr>) = mini_len a" "mini_len (a\<lparr>score_changed := s\<rparr>) = mini_len a"
  "mini_len (drop_ref t a) = mini_len a" "mini_len (enter_slot i k a) = mini_len a"
  "mini_len (alloc_mini k len a) = mini_len a"
  by (simp_all add: mini_len_def drop_ref_def enter_slot_def alloc_mini_def Let_def)

lemma fsrv_simps [simp]:
  "fsrv (drop_ref t a) = fsrv a" "fsrv (enter_slot i k a) = fsrv a" "fsrv (alloc_mini k len a) = fsrv a"
  "fsrv (insert_winner i k a) = fsrv a"
  by (simp_all add: drop_ref_def enter_slot_def alloc_mini_def insert_winner_def Let_def)

lemma refs_ok_set_entry:
  assumes "refs_ok tr a" and "k < length (queue_buf a)"
    and "entry_owns (mini_len a) tr' k (f (queue_buf a ! k))"
    and "\<And>j. j \<noteq> k \<Longrightarrow> count_list tr' (Some j) = count_list tr (Some j)"
  shows "refs_ok tr' (set_entry k f a)"
  using assms by (auto simp: refs_ok_def entry_owns_def nth_list_update)

lemma count_update_other:
  "i < length tr \<Longrightarrow> tr ! i = Some t \<or> tr ! i = None \<Longrightarrow> x = Some t \<or> x = None \<Longrightarrow> j \<noteq> t \<Longrightarrow>
     count_list (tr[i := x]) (Some j) = count_list tr (Some j)"
  using count_list_update [of i tr x "Some j"] by (auto split: if_splits)

lemma refs_ok_drop_ref:
  assumes "refs_ok tr a" and "i < length tr" and "tr ! i = Some t" and "t < length (queue_buf a)"
  shows "refs_ok (tr[i := None]) (drop_ref t a)"
proof -
  let ?f = "\<lambda>q. if q_tc_ref q - 1 = 0 then q\<lparr>q_tc_ref := q_tc_ref q - 1, q_trace_mini := None\<rparr>
                 else q\<lparr>q_tc_ref := q_tc_ref q - 1\<rparr>"
  have eq: "drop_ref t a = set_entry t ?f a"
    using assms(4) by (auto simp: drop_ref_def set_entry_def Let_def)
  have "count_list tr (Some t) = count_list (tr[i := None]) (Some t) + 1"
    using count_list_update [OF assms(2), of None "Some t"] assms(3) by simp
  moreover have o: "entry_owns (mini_len a) tr t (queue_buf a ! t)"
    using assms(1,4) by (simp add: refs_ok_def)
  ultimately have "entry_owns (mini_len a) (tr[i := None]) t (?f (queue_buf a ! t))"
    by (auto simp: entry_owns_def)
  then show ?thesis unfolding eq
    using assms count_update_other [OF assms(2), of t None]
    by (intro refs_ok_set_entry [OF assms(1,4)]) simp_all
qed

text \<open>Between \<open>enter_slot\<close> and the allocation the entry holds a slot, so it may own a trace.\<close>

lemma refs_ok_win:
  assumes "refs_ok tr a" and "i < length tr" and "tr ! i = None" and "k < length (queue_buf a)"
    and "length tr < 2 ^ 32"
  shows "refs_ok (tr[i := Some k]) (alloc_mini k (mini_len a) (enter_slot i k a))"
proof -
  let ?m = "minimize_bits (map_size (fsrv a)) (replicate (unat (mini_len a)) 0) (trace_bits (fsrv a))"
  let ?f = "\<lambda>q. if q_trace_mini q = None then q\<lparr>q_tc_ref := q_tc_ref q + 1, q_trace_mini := Some ?m\<rparr>
                 else q\<lparr>q_tc_ref := q_tc_ref q + 1\<rparr>"
  have eq: "alloc_mini k (mini_len a) (enter_slot i k a) = (set_entry k ?f a)\<lparr>top_rated := (top_rated a)[i := Some k]\<rparr>"
    using assms(4) by (auto simp: alloc_mini_def enter_slot_def set_entry_def)
  have c: "count_list (tr[i := Some k]) (Some k) = count_list tr (Some k) + 1"
    using count_list_update [OF assms(2), of "Some k" "Some k"] assms(3) by simp
  have "count_list (tr[i := Some k]) (Some k) < 2 ^ 32"
    using count_list_le_length [of "tr[i := Some k]" "Some k"] assms(5) by simp
  then have "(of_nat (count_list tr (Some k) + 1) :: u32) \<noteq> 0"
    unfolding c by (subst word_of_nat_eq_0_iff) (auto dest: dvd_imp_le)
  moreover have o: "entry_owns (mini_len a) tr k (queue_buf a ! k)"
    using assms(1,4) by (simp add: refs_ok_def)
  ultimately have "entry_owns (mini_len a) (tr[i := Some k]) k (?f (queue_buf a ! k))"
    using c by (auto simp: entry_owns_def add.commute)
  then have "refs_ok (tr[i := Some k]) (set_entry k ?f a)"
    using assms count_update_other [OF assms(2), of k "Some k"]
    by (intro refs_ok_set_entry [OF assms(1,4)]) simp_all
  then show ?thesis unfolding eq by (simp add: refs_ok_def)
qed

lemma slots_ok_update:
  assumes "slots_ok a" and "score_frame a b" and "k < length (queue_buf a)"
    and "top_rated b = (top_rated a)[i := Some k]"
  shows "slots_ok b"
  using assms
  by (auto simp: slots_ok_def score_frame_simps dest!: set_update_subset_insert [THEN subsetD])

lemma slots_len_bound: "slots_ok a \<Longrightarrow> length (top_rated a) < 2 ^ 32"
  using unsigned_less [of "map_size (fsrv a)"] by (simp add: slots_ok_def)

definition take_over :: "nat \<Rightarrow> nat \<Rightarrow> afl_state \<Rightarrow> afl_state" where
  "take_over i k a =
     insert_winner i k (case top_rated a ! i of None \<Rightarrow> a | Some t \<Rightarrow> drop_ref t a)"

lemma slots_inv_take_over:
  assumes "slots_inv a" and "i < length (top_rated a)" and "k < length (queue_buf a)"
  shows "slots_inv (take_over i k a)"
proof -
  let ?b = "case top_rated a ! i of None \<Rightarrow> a | Some t \<Rightarrow> drop_ref t a"
  have ok: "slots_ok a" and refs: "refs_ok (top_rated a) a" using assms(1) by (simp_all add: slots_inv_def)
  have fr: "score_frame a ?b" by (simp add: score_frame_drop_ref split: option.split)
  have tr: "top_rated ?b = top_rated a" and ml: "mini_len ?b = mini_len a" by (simp_all split: option.split)
  have "t < length (queue_buf a)" if "top_rated a ! i = Some t" for t
    using ok assms(2) that by (metis nth_mem slots_ok_def)
  then have "refs_ok ((top_rated a)[i := None]) ?b"
    using refs refs_ok_drop_ref [OF refs assms(2)]
    by (auto simp: list_update_same_conv [THEN iffD2, OF assms(2)] split: option.split)
  then have "refs_ok ((top_rated a)[i := None, i := Some k]) (alloc_mini k (mini_len ?b) (enter_slot i k ?b))"
    using assms(2,3) slots_len_bound [OF ok] score_frame_simps(2) [OF fr]
    by (intro refs_ok_win) simp_all
  then have "refs_ok (top_rated (take_over i k a)) (take_over i k a)"
    by (simp add: take_over_def insert_winner_def Let_def refs_ok_def tr ml)
  moreover have "slots_ok (take_over i k a)"
    using score_frame_trans [OF fr score_frame_insert_winner] assms(3)
    by (intro slots_ok_update [OF ok]) (simp_all add: take_over_def tr)
  ultimately show ?thesis by (simp add: slots_inv_def)
qed

lemma score_slot_cases:
  assumes "score_slot log1p k p2 fav i a = Inr b"
  shows "b = a \<or> b = take_over i k a"
  using assms by (auto simp: score_slot_def take_over_def rbind_eq_Inr_iff split: if_splits option.splits)

lemma update_bitmap_score_inv:
  assumes "update_bitmap_score log1p k have_trace a = Inr a'" and "slots_inv a" and "k < length (queue_buf a)"
  shows "slots_inv a'"
proof -
  let ?P = "\<lambda>b. slots_inv b \<and> score_frame a b"
  have loop: "?P c" if "rfold (score_slot log1p k p2 fav) [0..<unat (map_size (fsrv a))] a = Inr c" for p2 fav c
    using that
  proof (rule rfold_invariant)
    show "?P a" using assms(2) by simp
  next
    fix i b c assume i: "i \<in> set [0..<unat (map_size (fsrv a))]" and b: "?P b"
      and s: "score_slot log1p k p2 fav i b = Inr c"
    have "i < length (top_rated b)" "k < length (queue_buf b)"
      using i b assms(2,3) by (auto simp: slots_inv_def slots_ok_def score_frame_simps)
    then have "slots_inv c" using score_slot_cases [OF s] slots_inv_take_over b by auto
    then show "?P c" using b score_slot_frame [OF s] score_frame_trans by blast
  qed
  then show ?thesis using assms(1,2)
    by (auto simp: update_bitmap_score_def Let_def rbind_eq_Inr_iff split: if_splits)
qed

lemma update_bitmap_score_frame:
  assumes "update_bitmap_score log1p k have_trace a = Inr b"
  shows "score_frame a b"
proof -
  have "score_frame a c" if "rfold (score_slot log1p k p2 fav) is a = Inr c" for p2 fav "is" c
    by (rule rfold_invariant [OF that]) (auto intro: score_frame_trans score_slot_frame)
  then show ?thesis using assms by (auto simp: update_bitmap_score_def Let_def rbind_eq_Inr_iff split: if_splits)
qed

section \<open>Rescoring\<close>

lemma mini_len_multiple:
  assumes "8 dvd unat (map_size (fsrv a))"
  shows "drop_bit 3 (map_size (fsrv a)) = mini_len a"
proof -
  let ?m = "map_size (fsrv a)"
  obtain n where n: "unat ?m = 8 * n" using assms by blast
  have "unat ?m < 2 ^ 32" using unsigned_less [of ?m] by simp
  then have "unat ?m + unat (7 :: u32) < 2 ^ 32" using n by simp
  then have "unat (?m + 7) = unat ?m + 7" by (simp add: unat_plus_if')
  then have "unat (?m + 7) div 8 = unat ?m div 8" using n by simp
  then have "unat (drop_bit 3 ?m) = unat (mini_len a)"
    unfolding mini_len_def by (simp only: unat_shiftr) simp
  then show ?thesis by (simp only: word_unat_eq_iff)
qed

lemma minimize_into_fits:
  assumes "unat n \<le> 8 * length dst"
  shows "minimize_into n dst src = Inr (minimize_bits n dst src)"
proof -
  have "rfold (store_bit src) [0..<m] dst = Inr (fold (minimize_step src) [0..<m] dst) \<and> length (fold (minimize_step src) [0..<m] dst) = length dst"
    if "m \<le> unat n" for m
    using that
  proof (induction m)
    case (Suc m)
    then have "m div 8 < length dst" using assms by linarith
    with Suc show ?case by (simp add: rfold_append store_bit_def minimize_step_def)
  qed simp
  then show ?thesis by (simp add: minimize_into_def minimize_bits_def)
qed

lemma rescore_winner_multiple:
  assumes "8 dvd unat (map_size (fsrv a))"
  shows "rescore_winner i k a = Inr (insert_winner i k a)"
proof -
  let ?m = "map_size (fsrv a)"
  have "unat ?m \<le> 8 * unat (drop_bit 3 ?m)" using assms by (simp only: unat_shiftr) auto
  then have "minimize_into ?m (replicate (unat (drop_bit 3 ?m)) 0) src = Inr (minimize_bits ?m (replicate (unat (drop_bit 3 ?m)) 0) src)" for src
    by (intro minimize_into_fits) simp
  then show ?thesis
    by (simp add: rescore_winner_def rescore_alloc_def insert_winner_def alloc_mini_def Let_def mini_len_multiple [OF assms, symmetric] enter_slot_def)
qed

lemma update_bitmap_rescore_multiple:
  assumes "8 dvd unat (map_size (fsrv a))" and "update_bitmap_rescore log1p k i a = Inr b"
  shows "b = a \<or> b = take_over i k a"
  using assms(2) rescore_winner_multiple [OF assms(1)] rescore_winner_multiple [of "drop_ref _ a"] assms(1)
  by (auto simp: update_bitmap_rescore_def Let_def take_over_def rbind_eq_Inr_iff split: if_splits option.splits)

text \<open>
  C21: the bookkeeping of slots is preserved by scoring and by rescoring (on maps whose size is a
  multiple of eight): the table stays within the queue, the reference count of every entry is
  the number of slots it holds, an entry that holds no slot owns no compact trace, and every
  compact trace has the size the culling pass reads.
\<close>
theorem slots_inv_preserved:
  assumes "slots_inv a" and "k < length (queue_buf a)"
  shows "(\<forall>a'. update_bitmap_score log1p k have_trace a = Inr a' \<longrightarrow> slots_inv a') \<and>
     (\<forall>a'. i < length (top_rated a) \<longrightarrow> 8 dvd unat (map_size (fsrv a)) \<longrightarrow>
        update_bitmap_rescore log1p k i a = Inr a' \<longrightarrow> slots_inv a')"
  using assms update_bitmap_score_inv update_bitmap_rescore_multiple slots_inv_take_over by metis

lemma small_state_inv: "slots_inv small_state"
proof -
  have "mini_len small_state = 1" by (simp add: mini_len_def small_state_def)
  moreover have "k < length (queue_buf small_state) \<longleftrightarrow> k = 0 \<or> k = 1" for k
    by (auto simp: small_state_def)
  ultimately have "refs_ok (top_rated small_state) small_state"
    by (simp add: refs_ok_def) (auto simp: entry_owns_def small_state_def zero_defs)
  then show ?thesis by (simp add: slots_inv_def small_state_ok)
qed

theorem slots_inv_preserved_witness:
  "\<exists>a'. update_bitmap_score (\<lambda>x. x) 1 True small_state = Inr a' \<and> slots_inv a'"
proof -
  have k: "1 < length (queue_buf small_state)" by (simp add: small_state_def)
  then obtain a' where "update_bitmap_score (\<lambda>x. x) 1 True small_state = Inr a'"
    using update_bitmap_score_total small_state_ok by metis
  then show ?thesis using slots_inv_preserved [OF small_state_inv k] by blast
qed

section \<open>What culling computes\<close>

definition tv_bit :: "bytes \<Rightarrow> nat \<Rightarrow> bool" where
  "tv_bit tv j \<longleftrightarrow> bit (tv ! (j div 8)) (j mod 8)"

lemma clear_byte_nth:
  "i < length tv \<Longrightarrow> clear_byte mini j tv ! i = (if i = j then tv ! i AND NOT (mini ! i) else tv ! i)"
  by (auto simp: clear_byte_def nth_list_update)

lemma length_clear_byte [simp]: "length (clear_byte mini j tv) = length tv"
  by (simp add: clear_byte_def)

lemma clear_fold_nth:
  "i < length tv \<Longrightarrow> distinct js \<Longrightarrow>
     fold (clear_byte mini) js tv ! i = (if i \<in> set js then tv ! i AND NOT (mini ! i) else tv ! i)"
  by (induction js arbitrary: tv) (auto simp: clear_byte_nth)

lemma length_clear_fold [simp]: "length (fold (clear_byte mini) js tv) = length tv"
  by (induction js arbitrary: tv) auto

lemma length_clear_covered [simp]: "length (clear_covered len mini tv) = length tv"
  by (simp add: clear_covered_def)

lemma clear_covered_bit:
  assumes "len \<le> length tv" and "j < 8 * len"
  shows "tv_bit (clear_covered len mini tv) j \<longleftrightarrow> tv_bit tv j \<and> \<not> tv_bit mini j"
proof -
  have "j div 8 < len" using assms(2) by auto
  then show ?thesis using assms(1)
    by (auto simp: clear_covered_def tv_bit_def clear_fold_nth bit_simps)
qed

text \<open>Culling changes only the favour flag of entries, its scratch map and its counters.\<close>

definition fav_core :: "queue_entry \<Rightarrow> queue_entry" where
  "fav_core q = q\<lparr>q_favored := False\<rparr>"

definition cull_frame :: "afl_state \<Rightarrow> afl_state \<Rightarrow> bool" where
  "cull_frame a b \<longleftrightarrow> fsrv b = fsrv a \<and> top_rated b = top_rated a \<and> queued_items b = queued_items a \<and>
     afl_disable_redundant b = afl_disable_redundant a \<and>
     length (map_tmp_buf b) = length (map_tmp_buf a) \<and>
     map fav_core (queue_buf b) = map fav_core (queue_buf a)"

lemma cull_frame_refl [simp]: "cull_frame a a"
  by (simp add: cull_frame_def)

lemma cull_frame_trans: "cull_frame a b \<Longrightarrow> cull_frame b c \<Longrightarrow> cull_frame a c"
  by (simp add: cull_frame_def)

lemma fav_core_upd [simp]: "fav_core (q\<lparr>q_favored := v\<rparr>) = fav_core q"
  by (simp add: fav_core_def)

lemma fav_core_fields:
  "q_trace_mini (fav_core q) = q_trace_mini q" "q_disabled (fav_core q) = q_disabled q"
  "q_was_fuzzed (fav_core q) = q_was_fuzzed q" "q_id (fav_core q) = q_id q"
  "q_fs_redundant (fav_core q) = q_fs_redundant q" "q_tc_ref (fav_core q) = q_tc_ref q"
  by (simp_all add: fav_core_def)

lemma cull_frame_entry:
  assumes "cull_frame a b" and "k < length (queue_buf a)"
  shows "q_trace_mini (queue_buf b ! k) = q_trace_mini (queue_buf a ! k)"
    "q_disabled (queue_buf b ! k) = q_disabled (queue_buf a ! k)"
    "q_was_fuzzed (queue_buf b ! k) = q_was_fuzzed (queue_buf a ! k)"
    "q_id (queue_buf b ! k) = q_id (queue_buf a ! k)"
    "q_fs_redundant (queue_buf b ! k) = q_fs_redundant (queue_buf a ! k)"
    "q_tc_ref (queue_buf b ! k) = q_tc_ref (queue_buf a ! k)"
proof -
  have eq: "fav_core (queue_buf b ! k) = fav_core (queue_buf a ! k)"
    using assms unfolding cull_frame_def by (metis length_map nth_map)
  show "q_trace_mini (queue_buf b ! k) = q_trace_mini (queue_buf a ! k)"
    "q_disabled (queue_buf b ! k) = q_disabled (queue_buf a ! k)"
    "q_was_fuzzed (queue_buf b ! k) = q_was_fuzzed (queue_buf a ! k)"
    "q_id (queue_buf b ! k) = q_id (queue_buf a ! k)"
    "q_fs_redundant (queue_buf b ! k) = q_fs_redundant (queue_buf a ! k)"
    "q_tc_ref (queue_buf b ! k) = q_tc_ref (queue_buf a ! k)"
    using eq fav_core_fields by metis+
qed

lemma cull_frame_length: "cull_frame a b \<Longrightarrow> length (queue_buf b) = length (queue_buf a)"
  unfolding cull_frame_def by (metis length_map)

text \<open>The favour statistics that \<open>cull_queue\<close> maintains, as functions of the queue.\<close>

definition pending :: "queue_entry \<Rightarrow> bool" where
  "pending q \<longleftrightarrow> q_favored q \<and> \<not> q_was_fuzzed q"

definition smallest_of :: "queue_entry list \<Rightarrow> int" where
  "smallest_of qs = (if \<exists>q \<in> set qs. pending q then Min ((\<lambda>q. uint (q_id q)) ` {q \<in> set qs. pending q}) else - 1)"

definition stats_ok :: "afl_state \<Rightarrow> bool" where
  "stats_ok a \<longleftrightarrow> queued_favored a = of_nat (length (filter q_favored (queue_buf a))) \<and>
     pending_favored a = of_nat (length (filter pending (queue_buf a))) \<and>
     smallest_favored a = smallest_of (queue_buf a)"

lemma filter_update_length:
  "i < length xs \<Longrightarrow>
     length (filter P (xs[i := x])) + (if P (xs ! i) then 1 else 0) = length (filter P xs) + (if P x then 1 else 0)"
proof (induction xs arbitrary: i)
  case (Cons z zs)
  show ?case
  proof (cases i)
    case (Suc n)
    then show ?thesis using Cons.IH [of n] Cons.prems by (auto split: if_splits)
  qed simp
qed simp

lemma pending_set_update:
  assumes "t < length qs" and "\<not> pending (qs ! t)"
  shows "{q \<in> set (qs[t := x]). pending q} = (if pending x then insert x {q \<in> set qs. pending q} else {q \<in> set qs. pending q})"
proof -
  have "{q \<in> set qs. pending q} \<subseteq> set (qs[t := x])"
  proof
    fix q assume "q \<in> {q \<in> set qs. pending q}"
    then obtain j where "j < length qs" "qs ! j = q" "pending q" by (auto simp: in_set_conv_nth)
    then show "q \<in> set (qs[t := x])" using assms by (metis length_list_update nth_list_update_neq nth_mem)
  qed
  moreover have "x \<in> set (qs[t := x])" using assms(1) by (simp add: set_update_memI)
  moreover have "set (qs[t := x]) \<subseteq> insert x (set qs)" by (rule set_update_subset_insert)
  ultimately show ?thesis by auto
qed

lemma smallest_of_update:
  assumes "t < length qs" and "\<not> pending (qs ! t)"
  shows "smallest_of (qs[t := x]) =
    (if pending x
     then (if smallest_of qs = - 1 \<or> uint (q_id x) < smallest_of qs then uint (q_id x) else smallest_of qs)
     else smallest_of qs)"
proof -
  let ?S = "{q \<in> set qs. pending q}" and ?f = "\<lambda>q. uint (q_id q)"
  have alt: "smallest_of ys = (if {q \<in> set ys. pending q} = {} then - 1 else Min (?f ` {q \<in> set ys. pending q}))" for ys
    by (auto simp: smallest_of_def)
  show ?thesis
  proof (cases "pending x")
    case False
    then show ?thesis by (simp only: alt pending_set_update [OF assms] if_False)
  next
    case True
    show ?thesis
    proof (cases "?S = {}")
      case True
      then show ?thesis using \<open>pending x\<close> by (simp only: alt pending_set_update [OF assms]) simp
    next
      case False
      have "Min (?f ` ?S) \<in> ?f ` ?S" using False by (intro Min_in) auto
      then have "0 \<le> Min (?f ` ?S)" by auto
      moreover have "Min (?f ` insert x ?S) = min (?f x) (Min (?f ` ?S))" using False by simp
      moreover have "smallest_of qs = Min (?f ` ?S)" "smallest_of (qs[t := x]) = Min (?f ` insert x ?S)"
        using False \<open>pending x\<close> by (simp_all only: alt pending_set_update [OF assms] if_True if_False) simp_all
      ultimately show ?thesis using \<open>pending x\<close> by simp
    qed
  qed
qed

lemma make_favored_stats:
  assumes "stats_ok a" and "t < length (queue_buf a)"
  shows "stats_ok (make_favored t a)"
proof (cases "\<not> q_favored (queue_buf a ! t) \<and> \<not> q_disabled (queue_buf a ! t)")
  case True
  let ?q = "queue_buf a ! t" and ?q' = "(queue_buf a ! t)\<lparr>q_favored := True\<rparr>"
  have qb: "queue_buf (make_favored t a) = (queue_buf a)[t := ?q']"
    using True assms(2) by (simp add: make_favored_def note_pending_def Let_def)
  have np: "\<not> pending ?q" using True by (simp add: pending_def)
  have f: "length (filter q_favored ((queue_buf a)[t := ?q'])) = length (filter q_favored (queue_buf a)) + 1"
    using filter_update_length [OF assms(2), of q_favored ?q'] True by simp
  have p: "length (filter pending ((queue_buf a)[t := ?q'])) =
      length (filter pending (queue_buf a)) + (if q_was_fuzzed ?q then 0 else 1)"
    using filter_update_length [OF assms(2), of pending ?q'] np True by (simp add: pending_def)
  have "queued_favored (make_favored t a) = queued_favored a + 1"
    "pending_favored (make_favored t a) = pending_favored a + (if q_was_fuzzed ?q then 0 else 1)"
    "smallest_favored (make_favored t a) =
       (if q_was_fuzzed ?q then smallest_favored a
        else if smallest_favored a = - 1 \<or> uint (q_id ?q) < smallest_favored a then uint (q_id ?q)
        else smallest_favored a)"
    using True assms(2) by (simp_all add: make_favored_def note_pending_def Let_def)
  then show ?thesis
    using assms(1) smallest_of_update [OF assms(2) np, of ?q']
    by (simp only: stats_ok_def qb f p) (simp add: pending_def add.commute)
next
  case False
  then show ?thesis using assms(1) by (auto simp: make_favored_def)
qed

lemma make_favored_frame:
  assumes "t < length (queue_buf a)"
  shows "cull_frame a (make_favored t a)"
proof -
  have "map fav_core ((queue_buf a)[t := (queue_buf a ! t)\<lparr>q_favored := True\<rparr>]) = map fav_core (queue_buf a)"
    by (simp only: map_update fav_core_upd) (simp add: map_update [symmetric])
  then show ?thesis using assms
    by (auto simp: cull_frame_def make_favored_def note_pending_def Let_def set_entry_def)
qed

lemma make_favored_tmp [simp]: "map_tmp_buf (make_favored t a) = map_tmp_buf a"
  by (simp add: make_favored_def note_pending_def Let_def)

lemma make_favored_flag:
  assumes "k < length (queue_buf a)" "t < length (queue_buf a)"
  shows "q_favored (queue_buf (make_favored t a) ! k) \<longleftrightarrow>
     q_favored (queue_buf a ! k) \<or> (k = t \<and> \<not> q_disabled (queue_buf a ! t))"
  using assms by (auto simp: make_favored_def note_pending_def Let_def nth_list_update)

text \<open>
  The state of the selection loop before slot \<open>n\<close>: a byte that has left the scratch map is in the
  compact trace of a favoured or disabled holder, and every slot passed so far has been treated.
\<close>

definition chosen :: "afl_state \<Rightarrow> nat \<Rightarrow> bool" where
  "chosen a t \<longleftrightarrow> q_favored (queue_buf a ! t) \<or> q_disabled (queue_buf a ! t)"

definition covered :: "afl_state \<Rightarrow> nat \<Rightarrow> bool" where
  "covered a j \<longleftrightarrow> (\<exists>t. Some t \<in> set (top_rated a) \<and> chosen a t \<and>
     (\<exists>m. q_trace_mini (queue_buf a ! t) = Some m \<and> tv_bit m j))"

definition cull_loop_inv :: "afl_state \<Rightarrow> nat \<Rightarrow> afl_state \<Rightarrow> bool" where
  "cull_loop_inv a n b \<longleftrightarrow> cull_frame a b \<and> stats_ok b \<and>
     (\<forall>k < length (queue_buf a). q_favored (queue_buf b ! k) \<longrightarrow>
        Some k \<in> set (top_rated a) \<and> \<not> q_disabled (queue_buf a ! k)) \<and>
     (\<forall>j < unat (map_size (fsrv a)). \<not> tv_bit (map_tmp_buf b) j \<longrightarrow> covered b j) \<and>
     (\<forall>i < n. \<forall>t. top_rated a ! i = Some t \<longrightarrow> q_trace_mini (queue_buf a ! t) \<noteq> None \<longrightarrow>
        tv_bit (map_tmp_buf b) i \<longrightarrow> chosen b t)"

lemma covered_mono:
  assumes "covered a j" and "cull_frame a b" and "slots_ok a"
    and "\<And>k. k < length (queue_buf a) \<Longrightarrow> q_favored (queue_buf a ! k) \<Longrightarrow> q_favored (queue_buf b ! k)"
  shows "covered b j"
proof -
  obtain t m where t: "Some t \<in> set (top_rated a)" "chosen a t" "q_trace_mini (queue_buf a ! t) = Some m" "tv_bit m j"
    using assms(1) by (auto simp: covered_def)
  then have l: "t < length (queue_buf a)" using assms(3) by (simp add: slots_ok_def)
  have "top_rated b = top_rated a" using assms(2) by (simp add: cull_frame_def)
  then show ?thesis using t assms(4) [OF l] cull_frame_entry [OF assms(2) l]
    by (auto simp: covered_def chosen_def)
qed

definition cull_ready :: "afl_state \<Rightarrow> bool" where
  "cull_ready a \<longleftrightarrow> slots_ok a \<and> 8 dvd unat (map_size (fsrv a)) \<and>
     unat (map_size (fsrv a)) div 8 \<le> length (map_tmp_buf a) \<and> unat (queued_items a) = length (queue_buf a)"

lemma cull_loop_invD:
  assumes "cull_loop_inv a n b" and "cull_ready a"
  shows "cull_frame a b" "stats_ok b" "slots_ok a" "slots_ok b" "top_rated b = top_rated a" "fsrv b = fsrv a"
    "length (queue_buf b) = length (queue_buf a)"
proof -
  show fr: "cull_frame a b" "stats_ok b" and ok: "slots_ok a"
    using assms by (simp_all add: cull_loop_inv_def cull_ready_def)
  show tr: "top_rated b = top_rated a" "fsrv b = fsrv a" using fr(1) by (simp_all add: cull_frame_def)
  show l: "length (queue_buf b) = length (queue_buf a)" by (rule cull_frame_length [OF fr(1)])
  show "slots_ok b" using ok by (simp add: slots_ok_def tr l)
qed

lemma slot_holder:
  assumes "slots_ok a" and "i < unat (map_size (fsrv a))" and "top_rated a ! i = Some t"
  shows "Some t \<in> set (top_rated a)" and "t < length (queue_buf a)"
proof -
  show "Some t \<in> set (top_rated a)" using assms by (metis nth_mem slots_ok_def)
  then show "t < length (queue_buf a)" using assms(1) by (simp add: slots_ok_def)
qed

lemma cull_slot_skip:
  assumes "cull_loop_inv a n b" and "cull_ready a" and "n < unat (map_size (fsrv a))"
    and "\<nexists>t m. top_rated a ! n = Some t \<and> tv_bit (map_tmp_buf b) n \<and> q_trace_mini (queue_buf b ! t) = Some m"
  shows "cull_loop_inv a (Suc n) (cull_slot n b)"
proof -
  note D = cull_loop_invD [OF assms(1,2)]
  have eq: "cull_slot n b = b" using assms(4) by (auto simp: cull_slot_def D(5) tv_bit_def split: option.splits)
  have "chosen b t" if "top_rated a ! n = Some t" "q_trace_mini (queue_buf a ! t) \<noteq> None" "tv_bit (map_tmp_buf b) n" for t
    using that assms(4) cull_frame_entry(1) [OF D(1) slot_holder(2) [OF D(3) assms(3) that(1)]] by auto
  then show ?thesis using assms(1) unfolding eq by (auto simp: cull_loop_inv_def less_Suc_eq)
qed

text \<open>Choosing holder \<open>t\<close>: its bytes leave the scratch map and it becomes favoured.\<close>

definition pick :: "nat \<Rightarrow> bytes \<Rightarrow> afl_state \<Rightarrow> afl_state" where
  "pick t m b = make_favored t
     (b\<lparr>map_tmp_buf := clear_covered (unat (drop_bit 3 (map_size (fsrv b)))) m (map_tmp_buf b)\<rparr>)"

lemma pick_frame:
  assumes "t < length (queue_buf b)"
  shows "cull_frame b (pick t m b)"
proof -
  let ?c = "b\<lparr>map_tmp_buf := clear_covered (unat (drop_bit 3 (map_size (fsrv b)))) m (map_tmp_buf b)\<rparr>"
  have "cull_frame b ?c" by (simp add: cull_frame_def)
  moreover have "cull_frame ?c (make_favored t ?c)" using assms by (intro make_favored_frame) simp
  ultimately show ?thesis unfolding pick_def by (rule cull_frame_trans)
qed

lemma pick_stats: "stats_ok b \<Longrightarrow> t < length (queue_buf b) \<Longrightarrow> stats_ok (pick t m b)"
  unfolding pick_def by (rule make_favored_stats) (simp_all add: stats_ok_def)

lemma pick_favored:
  assumes "t < length (queue_buf b)" and "k < length (queue_buf b)"
  shows "q_favored (queue_buf (pick t m b) ! k) \<longleftrightarrow>
     q_favored (queue_buf b ! k) \<or> k = t \<and> \<not> q_disabled (queue_buf b ! t)"
  using make_favored_flag [of k "b\<lparr>map_tmp_buf := clear_covered (unat (drop_bit 3 (map_size (fsrv b)))) m (map_tmp_buf b)\<rparr>" t]
    assms by (simp add: pick_def)

lemma pick_chosen:
  assumes "t < length (queue_buf b)" and "k < length (queue_buf b)"
  shows "chosen (pick t m b) k \<longleftrightarrow> chosen b k \<or> k = t"
  using pick_favored [OF assms] cull_frame_entry(2) [OF pick_frame [OF assms(1)] assms(2)]
  by (auto simp: chosen_def)

lemma pick_bits:
  assumes "cull_ready a" and "cull_frame a b" and "j < unat (map_size (fsrv a))"
  shows "tv_bit (map_tmp_buf (pick t m b)) j \<longleftrightarrow> tv_bit (map_tmp_buf b) j \<and> \<not> tv_bit m j"
proof -
  have fs: "fsrv b = fsrv a" "length (map_tmp_buf b) = length (map_tmp_buf a)"
    using assms(2) by (simp_all add: cull_frame_def)
  have "unat (drop_bit 3 (map_size (fsrv b))) = unat (map_size (fsrv a)) div 8"
    unfolding fs by (simp only: unat_shiftr) simp
  then show ?thesis using assms(1,3) fs(2)
    unfolding pick_def make_favored_tmp by (simp add: cull_ready_def) (intro clear_covered_bit, auto)
qed

lemma pick_covered:
  assumes "slots_ok b" and "Some t \<in> set (top_rated b)" and "q_trace_mini (queue_buf b ! t) = Some m"
    and "covered b j \<or> tv_bit m j"
  shows "covered (pick t m b) j"
proof -
  have t: "t < length (queue_buf b)" using assms(1,2) by (simp add: slots_ok_def)
  note fr = pick_frame [OF t]
  show ?thesis
  proof (cases "covered b j")
    case True
    then show ?thesis using covered_mono [OF _ fr assms(1)] pick_favored [OF t] by simp
  next
    case False
    moreover have "top_rated (pick t m b) = top_rated b" using fr by (simp add: cull_frame_def)
    ultimately show ?thesis
      using assms pick_chosen [OF t t] cull_frame_entry(1) [OF fr t] by (auto simp: covered_def)
  qed
qed

lemma cull_slot_pick:
  assumes inv: "cull_loop_inv a n b" and ready: "cull_ready a" and n: "n < unat (map_size (fsrv a))"
    and t: "top_rated a ! n = Some t" "tv_bit (map_tmp_buf b) n" "q_trace_mini (queue_buf b ! t) = Some m"
  shows "cull_loop_inv a (Suc n) (cull_slot n b)"
proof -
  note D = cull_loop_invD [OF inv ready]
  have eq: "cull_slot n b = pick t m b" using t by (simp add: cull_slot_def D(5) tv_bit_def pick_def)
  note ta = slot_holder [OF D(3) n t(1)]
  have tb: "t < length (queue_buf b)" "Some t \<in> set (top_rated b)" using ta by (simp_all add: D(5,7))
  note bits = pick_bits [OF ready D(1)]
  have "covered (pick t m b) j" if "j < unat (map_size (fsrv a))" "\<not> tv_bit (map_tmp_buf (pick t m b)) j" for j
    using that inv bits [OF that(1)] pick_covered [OF D(4) tb(2) t(3)] by (auto simp: cull_loop_inv_def)
  moreover have "chosen (pick t m b) u"
    if i: "i < Suc n" "top_rated a ! i = Some u" "q_trace_mini (queue_buf a ! u) \<noteq> None"
      "tv_bit (map_tmp_buf (pick t m b)) i" for i u
  proof (cases "i = n")
    case True
    then show ?thesis using t(1) i(2) pick_chosen [OF tb(1) tb(1)] by simp
  next
    case False
    then have i': "i < n" "i < unat (map_size (fsrv a))" using i(1) n by simp_all
    then have "chosen b u" using inv i(2-4) bits by (auto simp: cull_loop_inv_def)
    then show ?thesis using pick_chosen [OF tb(1)] slot_holder(2) [OF D(3) i'(2) i(2)] D(7) by simp
  qed
  moreover have "Some k \<in> set (top_rated a) \<and> \<not> q_disabled (queue_buf a ! k)"
    if "k < length (queue_buf a)" "q_favored (queue_buf (pick t m b) ! k)" for k
    using that pick_favored [OF tb(1), of k m] inv ta cull_frame_entry(2) [OF D(1) ta(2)] D(7)
    by (auto simp: cull_loop_inv_def)
  ultimately show ?thesis unfolding cull_loop_inv_def eq
    using cull_frame_trans [OF D(1) pick_frame [OF tb(1)]] pick_stats [OF D(2) tb(1)] by blast
qed

lemma cull_loop:
  assumes "cull_loop_inv a 0 b" and "cull_ready a" and "n \<le> unat (map_size (fsrv a))"
  shows "cull_loop_inv a n (fold cull_slot [0..<n] b)"
  using assms(3)
proof (induction n)
  case (Suc n)
  then have "cull_loop_inv a n (fold cull_slot [0..<n] b)" "n < unat (map_size (fsrv a))" by simp_all
  then have "cull_loop_inv a (Suc n) (cull_slot n (fold cull_slot [0..<n] b))"
    using cull_slot_skip cull_slot_pick assms(2) by metis
  then show ?case by simp
qed (use assms(1) in simp)

lemma fold_set_entry:
  "n \<le> length (queue_buf a) \<Longrightarrow>
     fold (\<lambda>i. set_entry i f) [0..<n] a = a\<lparr>queue_buf := map f (take n (queue_buf a)) @ drop n (queue_buf a)\<rparr>"
proof (induction n)
  case (Suc n)
  then have n: "n < length (queue_buf a)" by simp
  have "drop n (queue_buf a) = queue_buf a ! n # drop (Suc n) (queue_buf a)"
    using n by (simp add: Cons_nth_drop_Suc)
  then show ?case using Suc n
    by (simp add: set_entry_def list_update_append nth_append take_Suc_conv_app_nth)
qed simp

lemma unfavor_all_eq:
  assumes "unat (queued_items a) = length (queue_buf a)"
  shows "unfavor_all a = a\<lparr>queue_buf := map fav_core (queue_buf a)\<rparr>"
  using fold_set_entry [of "length (queue_buf a)" a fav_core]
  by (simp add: unfavor_all_def assms fav_core_def [abs_def])

definition mark_entry :: "bool \<Rightarrow> queue_entry \<Rightarrow> queue_entry" where
  "mark_entry dr q =
     (if q_disabled q \<or> q_fs_redundant q = (\<not> q_favored q) then q
      else if q_favored q then q\<lparr>q_fs_redundant := False\<rparr>
      else if dr then q\<lparr>q_fs_redundant := True, q_trace_mini := None, q_disabled := True\<rparr>
      else q\<lparr>q_fs_redundant := True, q_trace_mini := None\<rparr>)"

lemma mark_as_redundant_entry:
  assumes "i < length (queue_buf a)"
  shows "(if q_disabled (queue_buf a ! i) then a else mark_as_redundant i (\<not> q_favored (queue_buf a ! i)) a) =
     set_entry i (mark_entry (afl_disable_redundant a)) a"
  using assms by (auto simp: mark_as_redundant_def mark_entry_def set_entry_def Let_def)

lemma redundant_pass_eq:
  assumes "unat (queued_items a) = length (queue_buf a)"
  shows "redundant_pass a = a\<lparr>queue_buf := map (mark_entry (afl_disable_redundant a)) (queue_buf a)\<rparr>"
proof -
  let ?g = "\<lambda>i a. if q_disabled (queue_buf a ! i) then a else mark_as_redundant i (\<not> q_favored (queue_buf a ! i)) a"
  have "fold ?g [0..<n] a = fold (\<lambda>i. set_entry i (mark_entry (afl_disable_redundant a))) [0..<n] a"
    if "n \<le> length (queue_buf a)" for n
    using that
  proof (induction n)
    case (Suc n)
    let ?b = "fold (\<lambda>i. set_entry i (mark_entry (afl_disable_redundant a))) [0..<n] a"
    have "afl_disable_redundant ?b = afl_disable_redundant a" "length (queue_buf ?b) = length (queue_buf a)"
      using fold_set_entry [of n a] Suc.prems by simp_all
    then show ?case using Suc mark_as_redundant_entry [of n ?b] by (simp split: if_splits)
  qed simp
  then show ?thesis
    using fold_set_entry [of "length (queue_buf a)" a] by (simp add: redundant_pass_def assms)
qed

lemma mark_entry_fields [simp]:
  "q_favored (mark_entry dr q) = q_favored q" "q_was_fuzzed (mark_entry dr q) = q_was_fuzzed q"
  "q_id (mark_entry dr q) = q_id q" "q_tc_ref (mark_entry dr q) = q_tc_ref q"
  "q_favored q \<Longrightarrow> q_trace_mini (mark_entry dr q) = q_trace_mini q"
  "\<not> q_disabled q \<Longrightarrow> q_fs_redundant (mark_entry dr q) = (\<not> q_favored q)"
  by (simp_all add: mark_entry_def)

lemma pending_mark [simp]: "pending (mark_entry dr q) = pending q"
  by (simp add: pending_def)

lemma stats_ok_marked:
  assumes "stats_ok b"
  shows "stats_ok (b\<lparr>queue_buf := map (mark_entry dr) (queue_buf b), reinit_table := r\<rparr>)"
proof -
  have "(\<lambda>q. uint (q_id q)) ` {q \<in> set (map (mark_entry dr) qs). pending q} =
      (\<lambda>q. uint (q_id q)) ` {q \<in> set qs. pending q}" for qs
    by (force simp: image_iff)
  then have "smallest_of (map (mark_entry dr) qs) = smallest_of qs" for qs
    by (simp only: smallest_of_def) simp
  then show ?thesis using assms by (simp add: stats_ok_def filter_map comp_def)
qed

definition culled :: "afl_state \<Rightarrow> afl_state" where
  "culled a = fold cull_slot [0..<unat (map_size (fsrv a))] (cull_start a)"

lemma cull_start_eq:
  assumes "cull_ready a"
  shows "cull_start a = a\<lparr>score_changed := False,
     map_tmp_buf := replicate (unat (map_size (fsrv a)) div 8) 255 @ drop (unat (map_size (fsrv a)) div 8) (map_tmp_buf a),
     queued_favored := 0, pending_favored := 0, queue_buf := map fav_core (queue_buf a), smallest_favored := - 1\<rparr>"
proof -
  have "unat (drop_bit 3 (map_size (fsrv a))) = unat (map_size (fsrv a)) div 8" by (simp only: unat_shiftr) simp
  then show ?thesis using assms by (simp only: cull_start_def Let_def) (simp add: unfavor_all_eq cull_ready_def)
qed

lemma cull_start_inv:
  assumes "cull_ready a"
  shows "cull_ready (cull_start a)" and "cull_loop_inv (cull_start a) 0 (cull_start a)"
proof -
  note eq = cull_start_eq [OF assms]
  show "cull_ready (cull_start a)" using assms by (simp add: eq cull_ready_def slots_ok_def)
  have "\<not> q_favored (fav_core q)" for q by (simp add: fav_core_def)
  then have "stats_ok (cull_start a)"
    by (auto simp: eq stats_ok_def smallest_of_def pending_def filter_empty_conv)
  moreover have "tv_bit (map_tmp_buf (cull_start a)) j" if "j < unat (map_size (fsrv a))" for j
  proof -
    have "j div 8 < unat (map_size (fsrv a)) div 8" using that assms by (auto simp: cull_ready_def)
    then have "map_tmp_buf (cull_start a) ! (j div 8) = mask 8" by (simp add: eq nth_append mask_eq_decr_exp)
    then show ?thesis by (simp add: tv_bit_def bit_mask_iff)
  qed
  ultimately show "cull_loop_inv (cull_start a) 0 (cull_start a)"
    by (simp add: cull_loop_inv_def) (simp add: eq fav_core_def)
qed

lemma culled_inv:
  assumes "cull_ready a"
  shows "cull_loop_inv (cull_start a) (unat (map_size (fsrv a))) (culled a)"
  using cull_loop [OF cull_start_inv(2,1) [OF assms], of "unat (map_size (fsrv a))"]
  by (simp add: culled_def cull_start_eq [OF assms])

lemma cull_queue_eq:
  assumes "score_changed a" and "\<not> non_instrumented_mode a" and "cull_ready a"
  shows "cull_queue a = (culled a)\<lparr>queue_buf := map (mark_entry (afl_disable_redundant a)) (queue_buf (culled a)),
     reinit_table := True\<rparr>"
proof -
  have fr: "cull_frame (cull_start a) (culled a)" using culled_inv [OF assms(3)] by (simp add: cull_loop_inv_def)
  then have "unat (queued_items (culled a)) = length (queue_buf (culled a))"
    "afl_disable_redundant (culled a) = afl_disable_redundant a"
    using assms(3) cull_frame_length [OF fr] by (simp_all add: cull_frame_def cull_start_eq cull_ready_def)
  then show ?thesis
    using assms(1,2) redundant_pass_eq [of "culled a"]
    by (simp add: cull_queue_def Let_def culled_def cull_start_eq [OF assms(3)])
qed

text \<open>
  C22: after culling, the favoured entries cover the coverage map: if no slot is held by a disabled
  entry, every byte that the compact trace of its slot's holder contains is contained in the
  compact trace of some favoured entry.
\<close>
theorem cull_queue_covers:
  assumes "score_changed a" and "\<not> non_instrumented_mode a" and "cull_ready a"
    and "\<forall>u. Some u \<in> set (top_rated a) \<longrightarrow> \<not> q_disabled (queue_buf a ! u)"
    and "i < unat (map_size (fsrv a))" and "top_rated a ! i = Some t"
    and "q_trace_mini (queue_buf a ! t) = Some m" and "tv_bit m i"
  shows "\<exists>f < length (queue_buf (cull_queue a)). q_favored (queue_buf (cull_queue a) ! f) \<and>
     (\<exists>m'. q_trace_mini (queue_buf (cull_queue a) ! f) = Some m' \<and> tv_bit m' i)"
proof -
  let ?s = "cull_start a" and ?c = "culled a"
  note eq = cull_start_eq [OF assms(3)] and inv = culled_inv [OF assms(3)]
  note D = cull_loop_invD [OF inv cull_start_inv(1) [OF assms(3)]]
  have ok: "slots_ok a" using assms(3) by (simp add: cull_ready_def)
  note t = slot_holder [OF ok assms(5,6)]
  have ms: "q_trace_mini (queue_buf ?s ! t) = Some m" using t assms(7) by (simp add: eq fav_core_fields)
  have "covered ?c i"
  proof (cases "tv_bit (map_tmp_buf ?c) i")
    case True
    then have "chosen ?c t" using inv assms(5,6) ms by (auto simp: cull_loop_inv_def eq)
    moreover have "q_trace_mini (queue_buf ?c ! t) = Some m"
      using cull_frame_entry(1) [OF D(1), of t] ms t by (simp add: eq)
    ultimately show ?thesis using assms(8) t(1) D(5) by (auto simp: covered_def eq)
  next
    case False
    then show ?thesis using inv assms(5) by (simp add: cull_loop_inv_def eq)
  qed
  then obtain f m' where f: "Some f \<in> set (top_rated a)" "chosen ?c f" "q_trace_mini (queue_buf ?c ! f) = Some m'" "tv_bit m' i"
    using D(5) by (auto simp: covered_def eq)
  then have fl: "f < length (queue_buf a)" using ok by (simp add: slots_ok_def)
  have "q_disabled (queue_buf ?c ! f) = q_disabled (queue_buf a ! f)"
    using cull_frame_entry(2) [OF D(1), of f] fl by (simp add: eq fav_core_fields)
  then have "q_favored (queue_buf ?c ! f)" using f(1,2) assms(4) by (simp add: chosen_def)
  moreover have "f < length (queue_buf ?c)" using fl D(7) by (simp add: eq)
  ultimately show ?thesis using f(3,4) by (auto simp: cull_queue_eq [OF assms(1-3)])
qed

text \<open>
  C23: after culling, the counters describe the queue: \<open>queued_favored\<close> counts the favoured entries,
  \<open>pending_favored\<close> those not fuzzed yet, \<open>smallest_favored\<close> is the least id among the latter or -1;
  every favoured entry is enabled and holds a slot, an enabled entry is redundant exactly when it
  is not favoured, and the alias table is marked for a rebuild.
\<close>
theorem cull_queue_stats:
  assumes "score_changed a" and "\<not> non_instrumented_mode a" and "cull_ready a"
  shows "stats_ok (cull_queue a) \<and> \<not> score_changed (cull_queue a) \<and> reinit_table (cull_queue a) \<and>
     top_rated (cull_queue a) = top_rated a \<and> length (queue_buf (cull_queue a)) = length (queue_buf a) \<and>
     (\<forall>k < length (queue_buf a). q_favored (queue_buf (cull_queue a) ! k) \<longrightarrow>
        Some k \<in> set (top_rated a) \<and> \<not> q_disabled (queue_buf a ! k)) \<and>
     (\<forall>k < length (queue_buf a). \<not> q_disabled (queue_buf a ! k) \<longrightarrow>
        q_fs_redundant (queue_buf (cull_queue a) ! k) = (\<not> q_favored (queue_buf (cull_queue a) ! k)))"
proof -
  note eq = cull_start_eq [OF assms(3)] and inv = culled_inv [OF assms(3)] and cq = cull_queue_eq [OF assms]
  note D = cull_loop_invD [OF inv cull_start_inv(1) [OF assms(3)]]
  have l: "length (queue_buf (culled a)) = length (queue_buf a)" using D(7) by (simp add: eq)
  have sc: "\<not> score_changed (culled a)"
    unfolding culled_def by (rule fold_invariant_on [where P = "\<lambda>b. \<not> score_changed b"])
      (auto simp: eq cull_slot_def make_favored_def note_pending_def Let_def split: option.splits)
  have dis: "q_disabled (queue_buf (culled a) ! k) = q_disabled (queue_buf a ! k)" if "k < length (queue_buf a)" for k
    using cull_frame_entry(2) [OF D(1), of k] that by (simp add: eq fav_core_fields)
  have "stats_ok (cull_queue a)" unfolding cq by (rule stats_ok_marked [OF D(2)])
  moreover have "q_favored (queue_buf (cull_queue a) ! k) \<longrightarrow> Some k \<in> set (top_rated a) \<and> \<not> q_disabled (queue_buf a ! k)"
    if "k < length (queue_buf a)" for k
    using inv that l by (simp add: cq cull_loop_inv_def) (simp add: eq fav_core_fields)
  moreover have "q_fs_redundant (queue_buf (cull_queue a) ! k) = (\<not> q_favored (queue_buf (cull_queue a) ! k))"
    if "k < length (queue_buf a)" "\<not> q_disabled (queue_buf a ! k)" for k
    using that l dis by (simp add: cq)
  ultimately show ?thesis using sc D(5) l by (simp add: cq eq)
qed

lemma small_state_ready: "cull_ready (small_state\<lparr>score_changed := True\<rparr>)"
  using small_state_ok(1) by (simp add: cull_ready_def slots_ok_def) (simp add: small_state_def)

theorem cull_queue_covers_witness:
  "\<exists>f < length (queue_buf (cull_queue (small_state\<lparr>score_changed := True\<rparr>))).
     q_favored (queue_buf (cull_queue (small_state\<lparr>score_changed := True\<rparr>)) ! f) \<and>
     (\<exists>m'. q_trace_mini (queue_buf (cull_queue (small_state\<lparr>score_changed := True\<rparr>)) ! f) = Some m' \<and> tv_bit m' 2)"
proof (rule cull_queue_covers [OF _ _ small_state_ready, where t = 0 and m = "[4]"])
  show "tv_bit [4] 2" by (simp add: tv_bit_def bit_numeral_rec)
qed (auto simp: small_state_def zero_defs)

theorem cull_queue_stats_witness:
  "stats_ok (cull_queue (small_state\<lparr>score_changed := True\<rparr>)) \<and> reinit_table (cull_queue (small_state\<lparr>score_changed := True\<rparr>))"
  using cull_queue_stats [OF _ _ small_state_ready] by (simp add: small_state_def zero_defs)

text \<open>Culling keeps the ownership discipline.\<close>

lemma slots_inv_cull_queue:
  assumes "slots_inv a" and "cull_ready a"
  shows "slots_inv (cull_queue a)"
proof (cases "score_changed a \<and> \<not> non_instrumented_mode a")
  case False
  then show ?thesis using assms(1) by (auto simp: cull_queue_def)
next
  case True
  then have cq: "cull_queue a = (culled a)\<lparr>queue_buf := map (mark_entry (afl_disable_redundant a)) (queue_buf (culled a)),
     reinit_table := True\<rparr>" using cull_queue_eq assms(2) by blast
  note eq = cull_start_eq [OF assms(2)]
  note D = cull_loop_invD [OF culled_inv [OF assms(2)] cull_start_inv(1) [OF assms(2)]]
  have l: "length (queue_buf (culled a)) = length (queue_buf a)" using D(7) by (simp add: eq)
  have e: "q_trace_mini (queue_buf (culled a) ! k) = q_trace_mini (queue_buf a ! k)"
    "q_tc_ref (queue_buf (culled a) ! k) = q_tc_ref (queue_buf a ! k)" if "k < length (queue_buf a)" for k
    using cull_frame_entry(1,6) [OF D(1), of k] that by (simp_all add: eq fav_core_fields)
  have ml: "mini_len (cull_queue a) = mini_len a" using D(6) by (simp add: cq eq mini_len_def)
  have "entry_owns len tr k (mark_entry dr q)" if "entry_owns len tr k q" for len tr k dr q
    using that by (auto simp: entry_owns_def mark_entry_def)
  moreover have "entry_owns (mini_len a) (top_rated a) k (queue_buf (culled a) ! k)" if "k < length (queue_buf a)" for k
    using assms(1) that e [OF that] by (simp add: slots_inv_def refs_ok_def entry_owns_def)
  ultimately have "refs_ok (top_rated (cull_queue a)) (cull_queue a)"
    using l D(5) by (simp add: refs_ok_def ml) (simp add: cq eq)
  moreover have "slots_ok (cull_queue a)"
    using assms(1) D(5,6) l by (simp add: slots_inv_def slots_ok_def cq) (simp add: eq)
  ultimately show ?thesis by (simp add: slots_inv_def)
qed

end
