(* ===== verification/Score.thy ===== *)
theory Score
  imports Favored
begin

text \<open>
  The performance score of a queue entry, \<open>calculate_score\<close> of src/afl-fuzz-queue.c, one
  definition per stage of the function: execution speed, coverage, handicap, depth, power
  schedule, limits, and the energy multipliers that GreenAFL adds. Every conversion between
  integers and doubles is written out, and an integer division by zero or an out-of-range
  conversion is the error \<open>UB\<close>. Each floating-point operation is rounded on its own. The
  function \<open>log2\<close> of libm is a parameter.
\<close>

section \<open>long double\<close>

text \<open>The running mean of the COE schedule is a \<open>long double\<close>.\<close>

definition llim :: rat where
  "llim = 2 ^ 16384"

definition mkl :: "rat \<Rightarrow> dbl" where
  "mkl x = (let y = fl80 x in if llim \<le> y then PInf else if y \<le> - llim then NInf else Fin y)"

fun ladd :: "dbl \<Rightarrow> dbl \<Rightarrow> dbl" where
  "ladd (Fin x) (Fin y) = mkl (x + y)"
| "ladd x y = dadd x y"

fun ldiv :: "dbl \<Rightarrow> dbl \<Rightarrow> dbl" where
  "ldiv (Fin x) (Fin y) = (if y = 0 then dinf x else mkl (x / y))"
| "ldiv x y = ddiv x y"

section \<open>Stages of calculate_score\<close>

definition scale_u32 :: "u32 \<Rightarrow> dbl \<Rightarrow> u32 res" where
  "scale_u32 perf f = u_of_d (dmul (d_of_u perf) f)"

definition avg_exec_us_of :: "afl_state \<Rightarrow> u32" where
  "avg_exec_us_of a =
     (let cal_cycles = ucast (total_cal_cycles a) :: u32;
          cal_cycles = (if cal_cycles = 0 then 1 else cal_cycles)
      in ucast (total_cal_us a div ucast cal_cycles))"

definition avg_bitmap_size_of :: "afl_state \<Rightarrow> u32" where
  "avg_bitmap_size_of a =
     (let bitmap_entries = ucast (total_bitmap_entries a) :: u32;
          bitmap_entries = (if bitmap_entries = 0 then 1 else bitmap_entries)
      in ucast (total_bitmap_size a div ucast bitmap_entries))"

definition exec_score :: "afl_state \<Rightarrow> queue_entry \<Rightarrow> u32" where
  "exec_score a q =
     (let avg = avg_exec_us_of a; us = q_exec_us q; above = (\<lambda>c. dlt (d_of_u avg) (dmul (d_of_u us) (mkd c)))
      in if schedule a < RARE \<and> \<not> fixed_seed a
         then (if above (1 / 10) then 10
               else if above (1 / 4) then 25
               else if above (1 / 2) then 50
               else if above (3 / 4) then 75
               else if us * 4 < ucast avg then 300
               else if us * 3 < ucast avg then 200
               else if us * 2 < ucast avg then 150
               else 100)
         else 100)"

definition bitmap_score :: "afl_state \<Rightarrow> queue_entry \<Rightarrow> u32 \<Rightarrow> u32 res" where
  "bitmap_score a q perf =
     (let avg = avg_bitmap_size_of a; bs = q_bitmap_size q
      in if dlt (d_of_u avg) (dmul (d_of_u bs) (mkd (3 / 10))) then Inr (perf * 3)
         else if dlt (d_of_u avg) (dmul (d_of_u bs) (mkd (1 / 2))) then Inr (perf * 2)
         else if dlt (d_of_u avg) (dmul (d_of_u bs) (mkd (3 / 4))) then scale_u32 perf (mkd (3 / 2))
         else if bs * 3 < avg then scale_u32 perf (mkd (1 / 4))
         else if bs * 2 < avg then scale_u32 perf (mkd (1 / 2))
         else if dlt (dmul (d_of_u bs) (mkd (3 / 2))) (d_of_u avg) then scale_u32 perf (mkd (3 / 4))
         else Inr perf)"

definition handicap_score :: "queue_entry \<Rightarrow> u32 \<Rightarrow> u32 \<times> u64" where
  "handicap_score q perf =
     (if 4 \<le> q_handicap q then (perf * 4, q_handicap q - 4)
      else if q_handicap q \<noteq> 0 then (perf * 2, q_handicap q - 1)
      else (perf, q_handicap q))"

definition depth_score :: "queue_entry \<Rightarrow> u32 \<Rightarrow> u32" where
  "depth_score q perf =
     (if q_depth q \<le> 3 then perf
      else if q_depth q \<le> 7 then perf * 2
      else if q_depth q \<le> 13 then perf * 3
      else if q_depth q \<le> 25 then perf * 4
      else perf * 5)"

definition MAX_FACTOR :: dbl where
  "MAX_FACTOR = Fin 32"

definition fuzz_count :: "afl_state \<Rightarrow> queue_entry \<Rightarrow> u32" where
  "fuzz_count a q = n_fuzz a (unat (q_n_fuzz_entry q))"

definition coe_sum :: "(dbl \<Rightarrow> dbl) \<Rightarrow> afl_state \<Rightarrow> dbl \<times> u32" where
  "coe_sum log2 a =
     fold (\<lambda>i (fuzz_mu, n_items).
             if q_disabled (queue_buf a ! i) then (fuzz_mu, n_items)
             else (ladd fuzz_mu (log2 (d_of_u (fuzz_count a (queue_buf a ! i)))), n_items + 1))
       [0..<unat (queued_items a)] (Fin 0, 0)"

definition fast_factor :: "(dbl \<Rightarrow> dbl) \<Rightarrow> afl_state \<Rightarrow> queue_entry \<Rightarrow> dbl res" where
  "fast_factor log2 a q =
     (if q_fuzz_level q = 0 then Inr (Fin 1)
      else rbind (u_of_d (log2 (d_of_u (fuzz_count a q)))) (\<lambda>l :: u32.
        let factor =
              (if l \<le> 1 then Fin 4
               else if l \<le> 3 then Fin 3
               else if l = 4 then Fin 2
               else if l = 5 then Fin 1
               else if l = 6 then (if q_favored q then Fin 1 else mkd (8 / 10))
               else if l = 7 then (if q_favored q then Fin 1 else mkd (6 / 10))
               else (if q_favored q then Fin 1 else mkd (4 / 10)))
        in Inr (if q_favored q then dmul factor (mkd (115 / 100)) else factor)))"

definition coe_factor :: "(dbl \<Rightarrow> dbl) \<Rightarrow> afl_state \<Rightarrow> queue_entry \<Rightarrow> dbl res" where
  "coe_factor log2 a q =
     (if q_fuzz_level q = 0 then Inr (Fin 1)
      else
        (let (fuzz_mu, n_items) = coe_sum log2 a
         in if n_items = 0 then Inl (FATAL ''Queue state corrupt'')
            else if dlt (ldiv fuzz_mu (d_of_u n_items)) (log2 (d_of_u (fuzz_count a q)))
            then Inr (if q_favored q then Fin 1 else Fin 0)
            else fast_factor log2 a q))"

definition div_factor :: "u32 \<Rightarrow> u32 \<Rightarrow> dbl res" where
  "div_factor num den = (if den = 0 then Inl (UB ''division by zero'') else Inr (d_of_u (num div den)))"

definition rare_score :: "afl_state \<Rightarrow> queue_entry \<Rightarrow> u32 \<Rightarrow> u32 res" where
  "rare_score a q perf =
     scale_u32 (perf + q_tc_ref q * 10)
       (dsub (Fin 1) (ddiv (d_of_u (fuzz_count a q)) (d_of_u (total_execs (fsrv a)))))"

definition schedule_score :: "(dbl \<Rightarrow> dbl) \<Rightarrow> afl_state \<Rightarrow> queue_entry \<Rightarrow> u32 \<Rightarrow> (u32 \<times> dbl) res" where
  "schedule_score log2 a q perf =
     (case schedule a of
        EXPLORE \<Rightarrow> Inr (perf, Fin 1)
      | SEEK \<Rightarrow> Inr (perf, Fin 1)
      | EXPLOIT \<Rightarrow> Inr (perf, MAX_FACTOR)
      | COE \<Rightarrow> rbind (coe_factor log2 a q) (\<lambda>f. Inr (perf, f))
      | FAST \<Rightarrow> rbind (fast_factor log2 a q) (\<lambda>f. Inr (perf, f))
      | LIN \<Rightarrow>
          if q_fuzz_level q = 0 then Inr (perf, Fin 1)
          else rbind (div_factor (q_fuzz_level q) (fuzz_count a q + 1)) (\<lambda>f. Inr (perf, f))
      | QUAD \<Rightarrow>
          if q_fuzz_level q = 0 then Inr (perf, Fin 1)
          else rbind (div_factor (q_fuzz_level q * q_fuzz_level q) (fuzz_count a q + 1)) (\<lambda>f. Inr (perf, f))
      | MMOPT \<Rightarrow> Inr (if ucast (max_depth a) - q_depth q < 5 then perf * 2 else perf, Fin 1)
      | RARE \<Rightarrow> rbind (rare_score a q perf) (\<lambda>p. Inr (p, Fin 1)))"

definition apply_factor :: "afl_state \<Rightarrow> u32 \<Rightarrow> dbl \<Rightarrow> u32 res" where
  "apply_factor a perf factor =
     (if schedule a \<ge> EXPLOIT \<and> schedule a \<le> QUAD
      then scale_u32 perf (ddiv (if dlt MAX_FACTOR factor then MAX_FACTOR else factor) (Fin 1))
      else Inr perf)"

definition mopt_score :: "afl_state \<Rightarrow> queue_entry \<Rightarrow> u32 \<Rightarrow> u32" where
  "mopt_score a q perf =
     (if limit_time_sig a \<noteq> 0 \<and> ucast (max_depth a) - q_depth q < 3 then perf * 2
      else if schedule a \<noteq> COE \<and> perf < 1 then 1
      else perf)"

definition score_limit :: "afl_state \<Rightarrow> u32" where
  "score_limit a = ucast (havoc_max_mult a) * 100"

definition cap_score :: "afl_state \<Rightarrow> u32 \<Rightarrow> u32" where
  "cap_score a perf = (if score_limit a < perf then score_limit a else perf)"

definition energy_multiplier :: "u64 \<Rightarrow> u64 \<Rightarrow> u64 \<Rightarrow> dbl" where
  "energy_multiplier lo hi cost =
     (if hi = lo then Fin 1
      else
        (let m = ddiv (dsub (mkd (2 / 10)) (Fin 5)) (d_of_u (hi - lo));
             b = dsub (Fin 5) (dmul m (d_of_u lo));
             result = (if cost = 0 then Fin 1 else dadd (dmul m (d_of_u cost)) b)
         in clamp_dbl (mkd (2 / 10)) (Fin 5) result))"

definition energy_score :: "afl_state \<Rightarrow> queue_entry \<Rightarrow> u32 \<Rightarrow> u32 res" where
  "energy_score a q perf =
     (if total_cal_cycles a = 0 then Inl (UB ''division by zero'')
      else
        rbind (u_of_d (dmul (dmul (d_of_u perf)
                 (energy_multiplier (min_cpu_energy a) (max_cpu_energy a) (q_cpu_energy_cost q)))
                 (energy_multiplier (min_mem_energy a) (max_mem_energy a) (q_mem_energy_cost q))))
          (\<lambda>perf. let perf = cap_score a perf
                   in Inr (if schedule a \<noteq> COE \<and> perf < 1 then 1 else perf)))"

definition calculate_score :: "(dbl \<Rightarrow> dbl) \<Rightarrow> nat \<Rightarrow> afl_state \<Rightarrow> (u32 \<times> afl_state) res" where
  "calculate_score log2 k a =
     (let q = queue_buf a ! k in
      rbind (bitmap_score a q (exec_score a q)) (\<lambda>perf.
        let (perf, handicap) = handicap_score q perf;
            a = set_entry k (q_handicap_update (\<lambda>_. handicap)) a
        in rbind (schedule_score log2 a q (depth_score q perf)) (\<lambda>(perf, factor).
             rbind (apply_factor a perf factor) (\<lambda>perf.
               rbind (energy_score a q (cap_score a (mopt_score a q perf))) (\<lambda>perf. Inr (perf, a))))))"

section \<open>Integer scores scaled by doubles\<close>

lemma fl_uint_exact: "LENGTH('a::len) \<le> 53 \<Longrightarrow> fl (of_int (uint (w :: 'a word))) = of_int (uint w)"
proof -
  assume "LENGTH('a) \<le> 53"
  then have "(2 :: int) ^ LENGTH('a) \<le> 2 ^ 53" by (intro power_increasing) simp_all
  moreover have "uint w < 2 ^ LENGTH('a)" "0 \<le> uint w" by simp_all
  ultimately have "\<bar>uint w\<bar> \<le> 2 ^ 53" by linarith
  then show ?thesis by (rule fl_of_int)
qed

definition rat_of :: "'a::len word \<Rightarrow> rat" where
  "rat_of w = of_nat (unat w)"

lemma rat_of_int: "of_int (uint w) = rat_of w"
  by (simp only: rat_of_def of_nat_unat of_int_uint)

lemma d_of_u32: "d_of_u (w :: u32) = Fin (rat_of w)"
  using d_of_u_Fin [of w] fl_uint_exact [of w] by (simp add: rat_of_int del: of_int_uint)

lemma unat_of_floor:
  assumes "0 \<le> y" and "y \<le> of_nat B" and "B < 2 ^ 32"
  shows "\<exists>w :: u32. u_of_d (Fin y) = Inr w \<and> unat w = nat \<lfloor>y\<rfloor> \<and> unat w \<le> B"
proof -
  have "(of_nat B :: rat) < 2 ^ 32" using assms(3) by (metis of_nat_less_iff of_nat_numeral of_nat_power)
  then have lt: "y < 2 ^ LENGTH(32)" using assms(2) by simp
  have u: "uint (word_of_int \<lfloor>y\<rfloor> :: u32) = \<lfloor>y\<rfloor>" using assms(1) lt by (rule uint_word_of_floor)
  have "\<lfloor>y\<rfloor> \<le> \<lfloor>of_nat B :: rat\<rfloor>" using assms(2) by (rule floor_mono)
  then have "nat \<lfloor>y\<rfloor> \<le> B" by simp
  moreover have "unat (word_of_int \<lfloor>y\<rfloor> :: u32) = nat \<lfloor>y\<rfloor>" by (simp only: unat_eq_nat_uint u)
  ultimately show ?thesis using u_of_d_floor [OF assms(1) lt] by metis
qed

lemma fl_scaled_bound:
  assumes "0 \<le> x" and "x \<le> of_nat C" and "n * C \<le> 2 ^ 53"
  shows "0 \<le> fl (of_nat n * x) \<and> fl (of_nat n * x) \<le> of_nat (n * C)"
proof -
  have "of_nat n * x \<le> of_int (int (n * C))" using assms by (simp add: mult_left_mono)
  moreover have "\<bar>int (n * C)\<bar> \<le> 2 ^ 53"
    using assms(3) by (metis abs_of_nat of_nat_le_iff of_nat_numeral of_nat_power)
  ultimately have "fl (of_nat n * x) \<le> of_int (int (n * C))" by (intro fl.le_rep rep_of_int)
  then show ?thesis using assms(1) fl.nonneg [of "of_nat n * x"] by simp
qed

lemma le_pow32_big: "0 \<le> x \<Longrightarrow> x \<le> of_nat B \<Longrightarrow> B \<le> 2 ^ 53 \<Longrightarrow> mkd x = Fin (fl x)"
proof -
  assume a: "0 \<le> x" "x \<le> of_nat B" "B \<le> 2 ^ 53"
  have "(of_nat B :: rat) \<le> of_nat (2 ^ 53)" using a(3) by (simp only: of_nat_le_iff)
  also have "\<dots> \<le> 2 ^ 200" by simp
  finally show ?thesis using a(1,2) by (intro mkd_small) simp
qed

lemma scale_u32_ok:
  assumes "0 \<le> x" and "x \<le> of_nat C" and "unat perf * C < 2 ^ 32"
  shows "\<exists>w. scale_u32 perf (Fin x) = Inr w \<and> unat w = nat \<lfloor>fl (rat_of perf * x)\<rfloor> \<and> unat w \<le> unat perf * C"
proof -
  let ?y = "fl (rat_of perf * x)"
  have b: "0 \<le> ?y \<and> ?y \<le> of_nat (unat perf * C)"
    unfolding rat_of_def using assms by (intro fl_scaled_bound) simp_all
  have "rat_of perf * x \<le> of_nat (unat perf * C)" "0 \<le> rat_of perf * x"
    unfolding rat_of_def using assms(1,2) by (simp_all only: of_nat_mult mult_left_mono of_nat_0_le_iff mult_nonneg_nonneg)
  then have "mkd (rat_of perf * x) = Fin ?y" using assms(3) by (intro le_pow32_big [of _ "unat perf * C"]) simp_all
  then have "scale_u32 perf (Fin x) = u_of_d (Fin ?y)" by (simp add: scale_u32_def d_of_u32)
  then show ?thesis using unat_of_floor [of ?y "unat perf * C"] b assms(3) by auto
qed

lemma unat_mult_small: "unat (w :: u32) * n < 2 ^ 32 \<Longrightarrow> n < 2 ^ 32 \<Longrightarrow> unat (w * of_nat n) = unat w * n"
  by (simp add: unat_word_ariths unsigned_of_nat take_bit_nat_eq_self)

lemma mkd_const: "0 \<le> c \<Longrightarrow> c \<le> of_nat C \<Longrightarrow> C \<le> 2 ^ 53 \<Longrightarrow> \<exists>x. mkd c = Fin x \<and> 0 \<le> x \<and> x \<le> of_nat C"
  using le_pow32_big [of c C] fl_scaled_bound [of c C 1] by simp

section \<open>Bounds of the stages\<close>

lemma exec_score_bounds: "10 \<le> unat (exec_score a q) \<and> unat (exec_score a q) \<le> 300"
  by (simp add: exec_score_def Let_def)

lemma bitmap_score_ok:
  assumes "unat perf \<le> 300"
  shows "\<exists>w. bitmap_score a q perf = Inr w \<and> unat w \<le> 900"
proof -
  have s: "\<exists>w. scale_u32 perf (mkd c) = Inr w \<and> unat w \<le> 900" if c: "0 \<le> c" "c \<le> 2" for c
  proof -
    obtain x where "mkd c = Fin x" "0 \<le> x" "x \<le> of_nat 2" using mkd_const [of c 2] c by auto
    then show ?thesis using scale_u32_ok [of x 2 perf] assms by auto
  qed
  have "unat (perf * 3) \<le> 900" "unat (perf * 2) \<le> 900"
    using unat_mult_small [of perf 3] unat_mult_small [of perf 2] assms by simp_all
  then show ?thesis using assms by (auto simp: bitmap_score_def Let_def intro: s)
qed

lemma handicap_score_bound:
  assumes "unat perf \<le> 900"
  shows "unat (fst (handicap_score q perf)) \<le> 3600"
  using unat_mult_small [of perf 4] unat_mult_small [of perf 2] assms by (simp add: handicap_score_def)

lemma depth_score_bound:
  assumes "unat perf \<le> 3600"
  shows "unat (depth_score q perf) \<le> 18000"
  using unat_mult_small [of perf 2] unat_mult_small [of perf 3] unat_mult_small [of perf 4]
    unat_mult_small [of perf 5] assms
  by (simp add: depth_score_def)

text \<open>
  What the code relies on of \<open>log2\<close> of libm: on a finite argument from 1 on it is finite,
  non-negative and not larger than the argument.
\<close>

definition log2_contract :: "(dbl \<Rightarrow> dbl) \<Rightarrow> bool" where
  "log2_contract f \<longleftrightarrow> (\<forall>x. 1 \<le> x \<longrightarrow> (\<exists>y. f (Fin x) = Fin y \<and> 0 \<le> y \<and> y \<le> x))"

lemma log2_contract_id: "log2_contract (\<lambda>x. x)"
  unfolding log2_contract_def by (auto intro: order_trans [OF zero_le_one])

definition small_factor :: "dbl \<Rightarrow> bool" where
  "small_factor d \<longleftrightarrow> (\<exists>x. d = Fin x \<and> 0 \<le> x)"

lemma fast_factor_ok:
  assumes "log2_contract log2" and "q_fuzz_level q = 0 \<or> 0 < fuzz_count a q"
  shows "\<exists>f. fast_factor log2 a q = Inr f \<and> small_factor f"
proof (cases "q_fuzz_level q = 0")
  case True
  then show ?thesis by (simp add: fast_factor_def small_factor_def)
next
  case False
  let ?n = "rat_of (fuzz_count a q)"
  have "0 < unat (fuzz_count a q)" using assms(2) False by (simp add: word_less_nat_alt)
  then have "1 \<le> unat (fuzz_count a q)" by simp
  then have "of_nat 1 \<le> ?n" unfolding rat_of_def by (simp only: of_nat_le_iff)
  then have "1 \<le> ?n" by (simp only: of_nat_1)
  then obtain y where y: "log2 (Fin ?n) = Fin y" "0 \<le> y" "y \<le> ?n" using assms(1) unfolding log2_contract_def by blast
  have "unat (fuzz_count a q) < 2 ^ 32" using unsigned_less [of "fuzz_count a q"] by simp
  then obtain l :: u32 where "u_of_d (Fin y) = Inr l"
    using unat_of_floor [OF y(2) y(3) [unfolded rat_of_def]] by blast
  then have l: "u_of_d (log2 (d_of_u (fuzz_count a q))) = Inr l" by (simp add: d_of_u32 y(1))
  have c: "\<exists>x. mkd c = Fin x \<and> 0 \<le> x \<and> x \<le> 2" if "0 \<le> c" "c \<le> 2" for c
    using mkd_const [of c 2] that by simp
  have m: "\<exists>x. dmul (Fin n) (mkd (115 / 100)) = Fin x \<and> 0 \<le> x" if "n \<in> {1, 2, 3, 4}" for n
  proof -
    obtain x where "mkd (115 / 100) = Fin x" "0 \<le> x" "x \<le> 2" using c [of "115 / 100"] by auto
    moreover have "n * x \<le> of_nat 8" "0 \<le> n * x" using that calculation by auto
    ultimately show ?thesis using le_pow32_big [of "n * x" 8] fl.nonneg [of "n * x"] by simp
  qed
  show ?thesis
    using False l m [of 1] m [of 2] m [of 3] m [of 4] c [of "8 / 10"] c [of "6 / 10"] c [of "4 / 10"]
    by (auto simp: fast_factor_def small_factor_def Let_def)
qed

lemma coe_sum_items:
  "snd (coe_sum log2 a) = of_nat (length (filter (\<lambda>i. \<not> q_disabled (queue_buf a ! i)) [0..<unat (queued_items a)]))"
proof -
  let ?step = "\<lambda>i (fuzz_mu, n_items). if q_disabled (queue_buf a ! i) then (fuzz_mu, n_items)
             else (ladd fuzz_mu (log2 (d_of_u (fuzz_count a (queue_buf a ! i)))), n_items + 1)"
  have "snd (fold ?step [0..<n] (Fin 0, 0 :: u32)) = of_nat (length (filter (\<lambda>i. \<not> q_disabled (queue_buf a ! i)) [0..<n]))" for n
    by (induction n) (auto simp: split_beta)
  then show ?thesis by (simp add: coe_sum_def)
qed

lemma coe_sum_nonzero:
  assumes "i < unat (queued_items a)" and "\<not> q_disabled (queue_buf a ! i)"
  shows "snd (coe_sum log2 a) \<noteq> 0"
proof -
  let ?l = "length (filter (\<lambda>i. \<not> q_disabled (queue_buf a ! i)) [0..<unat (queued_items a)])"
  have "i \<in> set (filter (\<lambda>i. \<not> q_disabled (queue_buf a ! i)) [0..<unat (queued_items a)])" using assms by simp
  then have "0 < ?l" by (rule length_pos_if_in_set)
  moreover have "?l \<le> unat (queued_items a)" using length_filter_le [of _ "[0..<unat (queued_items a)]"] by simp
  moreover have "unat (queued_items a) < 2 ^ 32" using unsigned_less [of "queued_items a"] by simp
  ultimately show ?thesis unfolding coe_sum_items by (subst word_of_nat_eq_0_iff) (auto dest: dvd_imp_le)
qed

text \<open>The conditions under which no stage divides by zero or converts an out-of-range value.\<close>

definition score_defined :: "afl_state \<Rightarrow> queue_entry \<Rightarrow> bool" where
  "score_defined a q \<longleftrightarrow> total_cal_cycles a \<noteq> 0 \<and>
     (case schedule a of
        COE \<Rightarrow> q_fuzz_level q = 0 \<or> 0 < fuzz_count a q \<and> (\<exists>i < unat (queued_items a). \<not> q_disabled (queue_buf a ! i))
      | FAST \<Rightarrow> q_fuzz_level q = 0 \<or> 0 < fuzz_count a q
      | LIN \<Rightarrow> q_fuzz_level q = 0 \<or> fuzz_count a q + 1 \<noteq> 0
      | QUAD \<Rightarrow> q_fuzz_level q = 0 \<or> fuzz_count a q + 1 \<noteq> 0
      | RARE \<Rightarrow> 0 < total_execs (fsrv a) \<and> uint (fuzz_count a q) \<le> uint (total_execs (fsrv a))
      | _ \<Rightarrow> True)"

lemma coe_factor_ok:
  assumes "log2_contract log2"
    and "q_fuzz_level q = 0 \<or> 0 < fuzz_count a q \<and> (\<exists>i < unat (queued_items a). \<not> q_disabled (queue_buf a ! i))"
  shows "\<exists>f. coe_factor log2 a q = Inr f \<and> small_factor f"
proof -
  obtain mu n where c: "coe_sum log2 a = (mu, n)" by (cases "coe_sum log2 a")
  have "q_fuzz_level q \<noteq> 0 \<Longrightarrow> n \<noteq> 0" using assms(2) coe_sum_nonzero [of _ a log2] c by auto
  moreover obtain f where "fast_factor log2 a q = Inr f" "small_factor f"
    using fast_factor_ok [OF assms(1), of q a] assms(2) by blast
  moreover have "small_factor (Fin 0)" "small_factor (Fin 1)" by (simp_all add: small_factor_def)
  ultimately show ?thesis by (auto simp: coe_factor_def c)
qed

lemma div_factor_ok:
  assumes "den \<noteq> 0"
  shows "\<exists>f. div_factor num den = Inr f \<and> small_factor f"
  using assms by (simp add: div_factor_def d_of_u32 small_factor_def rat_of_def del: of_nat_unat)

lemma rare_fraction:
  assumes "0 < t" and "uint (n :: u32) \<le> uint (t :: u64)"
  shows "\<exists>x. dsub (Fin 1) (ddiv (d_of_u n) (d_of_u t)) = Fin x \<and> 0 \<le> x \<and> x \<le> 1"
proof -
  let ?t = "fl (of_int (uint t))" and ?n = "rat_of n"
  have t1: "1 \<le> ?t" using assms(1) by (intro fl_uint_ge1) auto
  have n0: "0 \<le> ?n" by (simp only: rat_of_def of_nat_0_le_iff)
  have "(of_int (uint n) :: rat) \<le> of_int (uint t)" using assms(2) by (simp only: of_int_le_iff)
  then have "fl (of_int (uint n)) \<le> ?t" by (rule fl.mono)
  moreover have "fl (of_int (uint n)) = ?n" using fl_uint_exact [of n] rat_of_int [of n] by simp
  ultimately have le: "?n / ?t \<le> 1" "0 \<le> ?n / ?t" using t1 n0 by simp_all
  let ?d = "fl (?n / ?t)"
  have d: "0 \<le> ?d" "?d \<le> 1" using le rep_of_int [of 1] by (simp_all add: fl.nonneg fl.le_rep)
  then have "0 \<le> fl (1 - ?d)" "fl (1 - ?d) \<le> 1" using rep_of_int [of 1] by (simp_all add: fl.nonneg fl.le_rep)
  moreover have "ddiv (d_of_u n) (d_of_u t) = Fin ?d"
  proof -
    have "\<bar>?n / ?t\<bar> \<le> 2" using le by linarith
    then show ?thesis using t1 by (simp add: d_of_u32 d_of_u64 mkd_le2 del: of_int_uint)
  qed
  moreover have "dsub (Fin 1) (Fin ?d) = Fin (fl (1 - ?d))"
    using d mkd_le2 [of "1 - ?d"] by (simp add: dsub_def)
  ultimately show ?thesis by auto
qed

lemma schedule_score_ok:
  assumes "log2_contract log2" and "score_defined a q"
  shows "\<exists>p f. schedule_score log2 a q perf = Inr (p, f) \<and>
     (schedule a \<ge> EXPLOIT \<and> schedule a \<le> QUAD \<longrightarrow> p = perf \<and> small_factor f)"
proof (cases "schedule a")
  case RARE
  then obtain x where "dsub (Fin 1) (ddiv (d_of_u (fuzz_count a q)) (d_of_u (total_execs (fsrv a)))) = Fin x" "0 \<le> x" "x \<le> 1"
    using assms(2) rare_fraction by (force simp: score_defined_def)
  moreover have "unat (perf + q_tc_ref q * 10) * 1 < 2 ^ 32" using unsigned_less [of "perf + q_tc_ref q * 10"] by simp
  ultimately show ?thesis using RARE scale_u32_ok [of x 1 "perf + q_tc_ref q * 10"]
    by (auto simp: schedule_score_def rare_score_def)
next
  case COE
  then show ?thesis using assms coe_factor_ok [OF assms(1), of q a] by (auto simp: schedule_score_def score_defined_def)
next
  case FAST
  then show ?thesis using assms fast_factor_ok [OF assms(1), of q a] by (auto simp: schedule_score_def score_defined_def)
next
  case LIN
  then show ?thesis using assms(2) div_factor_ok [of "fuzz_count a q + 1" "q_fuzz_level q"]
    by (auto simp: schedule_score_def score_defined_def small_factor_def)
next
  case QUAD
  then show ?thesis using assms(2) div_factor_ok [of "fuzz_count a q + 1" "q_fuzz_level q * q_fuzz_level q"]
    by (auto simp: schedule_score_def score_defined_def small_factor_def)
qed (auto simp: schedule_score_def MAX_FACTOR_def small_factor_def)

lemma apply_factor_ok:
  assumes "schedule a \<ge> EXPLOIT \<and> schedule a \<le> QUAD \<longrightarrow> unat perf \<le> 18000 \<and> small_factor f"
  shows "\<exists>w. apply_factor a perf f = Inr w"
proof (cases "schedule a \<ge> EXPLOIT \<and> schedule a \<le> QUAD")
  case True
  then obtain x where x: "f = Fin x" "0 \<le> x" and p: "unat perf \<le> 18000" using assms by (auto simp: small_factor_def)
  let ?y = "if 32 < x then 32 else x"
  have y: "0 \<le> ?y" "?y \<le> of_nat 32" using x(2) by auto
  have "(if dlt MAX_FACTOR f then MAX_FACTOR else f) = Fin ?y" by (simp add: x MAX_FACTOR_def)
  moreover have "ddiv (Fin ?y) (Fin 1) = Fin (fl ?y)" using le_pow32_big [OF y] by simp
  moreover have "0 \<le> fl ?y" "fl ?y \<le> of_nat 32" using fl_scaled_bound [OF y, of 1] by simp_all
  ultimately show ?thesis
    using True scale_u32_ok [of "fl ?y" 32 perf] p by (simp only: apply_factor_def if_True) auto
next
  case False
  then show ?thesis by (auto simp: apply_factor_def)
qed

section \<open>The energy multipliers\<close>

lemma clamp_Fin: "l \<le> h \<Longrightarrow> clamp_dbl (Fin l) (Fin h) (Fin x) = Fin (min h (max l x))"
  by (simp add: clamp_dbl_def min_def max_def)

definition low_mult :: rat where
  "low_mult = fl (2 / 10)"

lemma low_mult: "mkd (2 / 10) = Fin low_mult" "1 / 8 \<le> low_mult" "low_mult \<le> 1 / 4"
proof -
  show "mkd (2 / 10) = Fin low_mult" by (simp add: low_mult_def mkd_le2)
  show "1 / 8 \<le> low_mult" unfolding low_mult_def using rep_eighths [of 1] by (intro fl.ge_rep) simp_all
  show "low_mult \<le> 1 / 4" unfolding low_mult_def using rep_eighths [of 2] by (intro fl.le_rep) simp_all
qed

definition slope :: "u64 \<Rightarrow> u64 \<Rightarrow> rat" where
  "slope lo hi = fl (fl (low_mult - 5) / fl (of_int (uint (hi - lo))))"

lemma fl_uint64_le: "fl (of_int (uint (w :: u64))) \<le> 2 ^ 64"
  using of_int_uint_bound(2) [of w] rep_pow2 [of 64] by (intro fl.le_rep) simp_all

lemma slope_bounds:
  assumes "hi \<noteq> lo"
  shows "- 5 \<le> slope lo hi" "slope lo hi \<le> 0"
    "ddiv (dsub (mkd (2 / 10)) (Fin 5)) (d_of_u (hi - lo)) = Fin (slope lo hi)"
proof -
  let ?c = "fl (low_mult - 5)" and ?d = "fl (of_int (uint (hi - lo)))"
  have c: "- 5 \<le> ?c" "?c \<le> 0"
    using rep_of_int [of "- 5"] low_mult by (simp_all add: fl.ge_rep fl.nonpos)
  have d: "1 \<le> ?d" using assms by (intro fl_uint_ge1) simp
  have "- 5 * ?d \<le> ?c" using c d by linarith
  then have q: "- 5 \<le> ?c / ?d" "?c / ?d \<le> 0" using c d by (simp_all add: field_simps divide_nonpos_pos)
  then show s: "- 5 \<le> slope lo hi" "slope lo hi \<le> 0"
    using rep_of_int [of "- 5"] by (simp_all add: slope_def fl.ge_rep fl.nonpos)
  have "\<bar>low_mult - 5\<bar> \<le> 2 ^ 200" "\<bar>?c / ?d\<bar> \<le> 2 ^ 200" using low_mult q by (simp_all add: abs_le_iff)
  then have "mkd (low_mult - 5) = Fin ?c" "mkd (?c / ?d) = Fin (slope lo hi)"
    by (simp_all only: mkd_small slope_def)
  then show "ddiv (dsub (mkd (2 / 10)) (Fin 5)) (d_of_u (hi - lo)) = Fin (slope lo hi)"
    using d unfolding low_mult(1) dsub_def by (simp add: d_of_u64 del: of_int_uint)
qed

lemma slope_times:
  assumes "hi \<noteq> lo"
  shows "dmul (Fin (slope lo hi)) (d_of_u (w :: u64)) = Fin (fl (slope lo hi * fl (of_int (uint w)))) \<and>
     \<bar>fl (slope lo hi * fl (of_int (uint w)))\<bar> \<le> 2 ^ 67"
proof -
  have "\<bar>slope lo hi\<bar> \<le> 2 ^ 3" using slope_bounds [OF assms] by (simp add: abs_le_iff)
  moreover have "\<bar>fl (of_int (uint w))\<bar> \<le> 2 ^ 64"
    using fl_uint_nonneg [of w] fl_uint64_le [of w] by linarith
  ultimately have "\<bar>slope lo hi * fl (of_int (uint w))\<bar> \<le> 2 ^ 3 * 2 ^ 64" unfolding abs_mult by (intro mult_mono) simp_all
  then have b: "\<bar>slope lo hi * fl (of_int (uint w))\<bar> \<le> 2 ^ 67" by simp
  then have "\<bar>slope lo hi * fl (of_int (uint w))\<bar> \<le> 2 ^ 200" by (rule order_trans) simp
  then have "mkd (slope lo hi * fl (of_int (uint w))) = Fin (fl (slope lo hi * fl (of_int (uint w))))" by (rule mkd_small)
  moreover have "\<bar>fl (slope lo hi * fl (of_int (uint w)))\<bar> \<le> 2 ^ 67" using b rep_pow2 [of 67] by (intro fl.abs_le) simp_all
  ultimately show ?thesis by (simp add: d_of_u64 del: of_int_uint)
qed

lemma energy_multiplier_form:
  assumes "hi \<noteq> lo"
  obtains b where "\<And>cost. cost \<noteq> 0 \<Longrightarrow> energy_multiplier lo hi cost =
    Fin (min 5 (max low_mult (fl (fl (slope lo hi * fl (of_int (uint cost))) + b))))"
proof -
  let ?p = "\<lambda>w :: u64. fl (slope lo hi * fl (of_int (uint w)))"
  let ?b = "fl (5 - ?p lo)"
  have p: "dmul (Fin (slope lo hi)) (d_of_u w) = Fin (?p w)" "\<bar>?p w\<bar> \<le> 2 ^ 67" for w
    using slope_times [OF assms] by simp_all
  have "\<bar>5 - ?p lo\<bar> \<le> \<bar>5\<bar> + \<bar>?p lo\<bar>" by (rule abs_triangle_ineq4)
  also have "\<dots> \<le> 5 + 2 ^ 67" using p(2) [of lo] by (intro add_mono) simp_all
  also have "\<dots> \<le> 2 ^ 68" by simp
  finally have b0: "\<bar>5 - ?p lo\<bar> \<le> 2 ^ 68" .
  then have b: "\<bar>?b\<bar> \<le> 2 ^ 68" using rep_pow2 [of 68] by (intro fl.abs_le) simp_all
  have "dsub (Fin 5) (Fin (?p lo)) = mkd (5 - ?p lo)" by (simp add: dsub_def)
  also have "\<dots> = Fin ?b"
  proof (rule mkd_small)
    show "\<bar>5 - ?p lo\<bar> \<le> 2 ^ 200" using b0 by (rule order_trans) (intro power_increasing, simp_all)
  qed
  finally have be: "dsub (Fin 5) (Fin (?p lo)) = Fin ?b" .
  have "energy_multiplier lo hi cost = Fin (min 5 (max low_mult (fl (?p cost + ?b))))" if "cost \<noteq> 0" for cost
  proof -
    have "\<bar>?p cost + ?b\<bar> \<le> \<bar>?p cost\<bar> + \<bar>?b\<bar>" by (rule abs_triangle_ineq)
    also have "\<dots> \<le> 2 ^ 67 + 2 ^ 68" using p(2) [of cost] b by (rule add_mono)
    also have "\<dots> \<le> 2 ^ 200" by simp
    finally have "mkd (?p cost + ?b) = Fin (fl (?p cost + ?b))" by (rule mkd_small)
    then show ?thesis
      using assms that low_mult(3) unfolding energy_multiplier_def Let_def slope_bounds(3) [OF assms] p(1) be
      by (simp only: if_False dadd.simps low_mult(1)) (subst clamp_Fin, simp_all)
  qed
  then show thesis by (rule that)
qed

lemma energy_multiplier_bounds:
  obtains x where "energy_multiplier lo hi cost = Fin x" and "low_mult \<le> x" and "x \<le> 5"
proof (cases "hi = lo \<or> cost = 0")
  case True
  have "clamp_dbl (Fin low_mult) (Fin 5) (Fin 1) = Fin 1" using low_mult by (simp add: clamp_Fin)
  then have "energy_multiplier lo hi cost = Fin 1" using True unfolding energy_multiplier_def low_mult(1) Let_def by auto
  then show thesis using that low_mult by simp
next
  case False
  then obtain b where "energy_multiplier lo hi cost =
      Fin (min 5 (max low_mult (fl (fl (slope lo hi * fl (of_int (uint cost))) + b))))"
    using energy_multiplier_form by metis
  then show thesis using that low_mult by simp
qed

lemma multiplier_antimono:
  assumes "0 < c" and "c \<le> c'"
  obtains x x' where "energy_multiplier lo hi c = Fin x" and "energy_multiplier lo hi c' = Fin x'" and "x' \<le> x"
    and "low_mult \<le> x'" and "x \<le> 5"
proof (cases "hi = lo")
  case True
  then show thesis using that [of 1 1] low_mult by (simp add: energy_multiplier_def)
next
  case False
  then obtain b where b: "\<And>cost. cost \<noteq> 0 \<Longrightarrow> energy_multiplier lo hi cost =
      Fin (min 5 (max low_mult (fl (fl (slope lo hi * fl (of_int (uint cost))) + b))))"
    using energy_multiplier_form by metis
  have "fl (of_int (uint c)) \<le> fl (of_int (uint c'))"
    using assms(2) by (intro fl.mono) (simp only: of_int_le_iff word_le_def)
  then have "slope lo hi * fl (of_int (uint c')) \<le> slope lo hi * fl (of_int (uint c))"
    using slope_bounds(2) [OF False] by (rule mult_left_mono_neg)
  then have "fl (fl (slope lo hi * fl (of_int (uint c'))) + b) \<le> fl (fl (slope lo hi * fl (of_int (uint c))) + b)"
    by (intro fl.mono add_right_mono)
  moreover have "c \<noteq> 0" "c' \<noteq> 0" using assms by auto
  ultimately show thesis using that b [of c] b [of c'] low_mult(3) by (auto simp del: of_int_uint)
qed

text \<open>
  Each energy multiplier is a finite double between the double 0.2 and 5.0 for all
  statistics and costs, is neutral when nothing was measured or all costs agree, and does not
  increase with the measured cost.
\<close>
theorem energy_multiplier_correct:
  assumes "0 < c" and "c \<le> c'"
  shows "(\<exists>x x'. energy_multiplier lo hi c = Fin x \<and> energy_multiplier lo hi c' = Fin x' \<and>
       fl (2 / 10) \<le> x' \<and> x' \<le> x \<and> x \<le> 5) \<and>
     energy_multiplier lo hi 0 = Fin 1 \<and> energy_multiplier lo lo c = Fin 1"
proof -
  have one: "clamp_dbl (Fin low_mult) (Fin 5) (Fin 1) = Fin 1" using low_mult by (simp add: clamp_Fin)
  have "energy_multiplier lo hi 0 = Fin 1" "energy_multiplier lo lo c = Fin 1"
    using one unfolding energy_multiplier_def low_mult(1) Let_def by simp_all
  moreover obtain x x' where "energy_multiplier lo hi c = Fin x" "energy_multiplier lo hi c' = Fin x'" "x' \<le> x"
      "low_mult \<le> x'" "x \<le> 5"
    using multiplier_antimono [OF assms] .
  ultimately show ?thesis unfolding low_mult_def by auto
qed

theorem energy_multiplier_correct_witness:
  "\<exists>x x'. energy_multiplier 10 90 20 = Fin x \<and> energy_multiplier 10 90 70 = Fin x' \<and> fl (2 / 10) \<le> x' \<and> x' \<le> x \<and> x \<le> 5"
  using energy_multiplier_correct [of 20 70 10 90] by simp

section \<open>The final score\<close>

lemma score_limit_unat: "unat (score_limit a) = 100 * unat (havoc_max_mult a)"
proof -
  have m: "unat (havoc_max_mult a) < 2 ^ 8" using unsigned_less [of "havoc_max_mult a"] by simp
  have "unat (ucast (havoc_max_mult a) :: u32) = unat (havoc_max_mult a)" using m by (simp add: unsigned_ucast_eq take_bit_nat_eq_self)
  then show ?thesis using m unat_mult_small [of "ucast (havoc_max_mult a)" 100] by (simp add: score_limit_def)
qed

lemma cap_score_le: "unat (cap_score a p) \<le> 100 * unat (havoc_max_mult a)"
  by (simp add: cap_score_def score_limit_unat [symmetric] word_le_nat_alt [symmetric] linorder_not_less)

lemma cap_score_mono: "p \<le> p' \<Longrightarrow> cap_score a p \<le> cap_score a p'"
  by (auto simp: cap_score_def)

definition energy_product :: "u32 \<Rightarrow> rat \<Rightarrow> rat \<Rightarrow> rat" where
  "energy_product p x y = fl (fl (rat_of p * x) * y)"

lemma energy_product_ok:
  assumes "unat p \<le> 25500" and "0 \<le> x" "x \<le> 5" and "0 \<le> y" "y \<le> 5"
  shows "\<exists>w :: u32. u_of_d (dmul (dmul (d_of_u p) (Fin x)) (Fin y)) = Inr w \<and>
     unat w = nat \<lfloor>energy_product p x y\<rfloor>"
proof -
  let ?v = "fl (rat_of p * x)"
  have "rat_of p \<le> of_nat 25500" unfolding rat_of_def using assms(1) by (simp only: of_nat_le_iff)
  moreover have p0: "0 \<le> rat_of p" by (simp only: rat_of_def of_nat_0_le_iff)
  ultimately have "rat_of p * x \<le> of_nat 25500 * 5" using assms by (intro mult_mono) simp_all
  then have v1: "rat_of p * x \<le> of_nat 127500" "0 \<le> rat_of p * x" using p0 assms by simp_all
  then have v: "0 \<le> ?v" "?v \<le> of_nat 127500"
    using rep_of_int [of 127500] by (simp_all add: fl.nonneg fl.le_rep)
  have "?v * y \<le> of_nat 127500 * 5" using v assms by (intro mult_mono) simp_all
  then have w1: "?v * y \<le> of_nat 637500" "0 \<le> ?v * y" using v assms by simp_all
  then have w: "0 \<le> energy_product p x y" "energy_product p x y \<le> of_nat 637500"
    using rep_of_int [of 637500] by (simp_all add: energy_product_def fl.nonneg fl.le_rep)
  have "dmul (dmul (d_of_u p) (Fin x)) (Fin y) = Fin (energy_product p x y)"
    using le_pow32_big [OF v1(2,1)] le_pow32_big [OF w1(2,1)] by (simp add: d_of_u32 energy_product_def)
  then show ?thesis using unat_of_floor [OF w] by auto
qed

lemma energy_score_value:
  assumes "total_cal_cycles a \<noteq> 0" and "unat p \<le> 25500"
    and "energy_multiplier (min_cpu_energy a) (max_cpu_energy a) (q_cpu_energy_cost q) = Fin x"
    and "energy_multiplier (min_mem_energy a) (max_mem_energy a) (q_mem_energy_cost q) = Fin y"
  shows "\<exists>w. unat w = nat \<lfloor>energy_product p x y\<rfloor> \<and>
     energy_score a q p = Inr (if schedule a \<noteq> COE \<and> cap_score a w < 1 then 1 else cap_score a w)"
proof -
  have b: "0 \<le> x" "x \<le> 5" "0 \<le> y" "y \<le> 5"
    using energy_multiplier_bounds [of "min_cpu_energy a" "max_cpu_energy a" "q_cpu_energy_cost q"]
      energy_multiplier_bounds [of "min_mem_energy a" "max_mem_energy a" "q_mem_energy_cost q"] assms(3,4) low_mult(2)
    by (fastforce)+
  obtain w :: u32 where "u_of_d (dmul (dmul (d_of_u p) (Fin x)) (Fin y)) = Inr w" "unat w = nat \<lfloor>energy_product p x y\<rfloor>"
    using energy_product_ok [OF assms(2) b] by blast
  then show ?thesis using assms by (auto simp: energy_score_def Let_def)
qed

lemma energy_score_ok:
  assumes "total_cal_cycles a \<noteq> 0" and "unat p \<le> 25500"
  shows "\<exists>s. energy_score a q p = Inr s \<and> unat s \<le> max 1 (100 * unat (havoc_max_mult a)) \<and>
     (schedule a \<noteq> COE \<longrightarrow> 1 \<le> s)"
proof -
  obtain x y where "energy_multiplier (min_cpu_energy a) (max_cpu_energy a) (q_cpu_energy_cost q) = Fin x"
    "energy_multiplier (min_mem_energy a) (max_mem_energy a) (q_mem_energy_cost q) = Fin y"
    using energy_multiplier_bounds by metis
  then obtain w where w: "energy_score a q p = Inr (if schedule a \<noteq> COE \<and> cap_score a w < 1 then 1 else cap_score a w)"
    using energy_score_value [OF assms] by blast
  show ?thesis unfolding w using cap_score_le [of a w] by (auto simp: word_less_nat_alt word_le_nat_alt)
qed

lemma mult_le_limit: "unat (cap_score a p) \<le> 25500"
proof -
  have "unat (havoc_max_mult a) < 2 ^ 8" using unsigned_less [of "havoc_max_mult a"] by simp
  then show ?thesis using cap_score_le [of a p] by simp
qed

lemma score_defined_handicap:
  "score_defined (set_entry k (q_handicap_update (\<lambda>_. h)) a) q = score_defined a q"
proof -
  have "q_disabled ((queue_buf a)[k := (queue_buf a ! k)\<lparr>q_handicap := h\<rparr>] ! i) = q_disabled (queue_buf a ! i)" for i
    by (cases "i = k"; cases "k < length (queue_buf a)") (auto simp: list_update_beyond)
  then show ?thesis by (simp add: score_defined_def set_entry_def fuzz_count_def split: schedule.split)
qed

lemma calculate_score_returns:
  assumes "log2_contract log2" and "score_defined a (queue_buf a ! k)"
  shows "\<exists>s h. calculate_score log2 k a = Inr (s, set_entry k (q_handicap_update (\<lambda>_. h)) a) \<and>
     unat s \<le> max 1 (100 * unat (havoc_max_mult a)) \<and> (schedule a \<noteq> COE \<longrightarrow> 1 \<le> s)"
proof -
  let ?q = "queue_buf a ! k"
  obtain p1 where p1: "bitmap_score a ?q (exec_score a ?q) = Inr p1" "unat p1 \<le> 900"
    using bitmap_score_ok exec_score_bounds by blast
  obtain p2 h where p2: "handicap_score ?q p1 = (p2, h)" by (cases "handicap_score ?q p1")
  let ?a = "set_entry k (q_handicap_update (\<lambda>_. h)) a"
  have d: "unat (depth_score ?q p2) \<le> 18000" using handicap_score_bound [OF p1(2), of ?q] p2 depth_score_bound by simp
  have sd: "score_defined ?a ?q" using assms(2) by (simp only: score_defined_handicap)
  obtain p3 f where p3: "schedule_score log2 ?a ?q (depth_score ?q p2) = Inr (p3, f)"
      "schedule ?a \<ge> EXPLOIT \<and> schedule ?a \<le> QUAD \<longrightarrow> p3 = depth_score ?q p2 \<and> small_factor f"
    using schedule_score_ok [OF assms(1) sd] by blast
  obtain p4 where p4: "apply_factor ?a p3 f = Inr p4" using apply_factor_ok p3(2) d by metis
  have "total_cal_cycles ?a \<noteq> 0" using sd by (simp add: score_defined_def)
  then obtain s where s: "energy_score ?a ?q (cap_score ?a (mopt_score ?a ?q p4)) = Inr s"
      "unat s \<le> max 1 (100 * unat (havoc_max_mult ?a))" "schedule ?a \<noteq> COE \<longrightarrow> 1 \<le> s"
    using energy_score_ok mult_le_limit by blast
  have "calculate_score log2 k a = Inr (s, ?a)"
    by (simp add: calculate_score_def Let_def p1(1) p2 p3(1) p4 s(1))
  moreover have "havoc_max_mult ?a = havoc_max_mult a" "schedule ?a = schedule a" by (simp_all add: set_entry_def)
  ultimately show ?thesis using s(2,3) by auto
qed

text \<open>
  C18: the score is defined and bounded. Unless a stage divides by zero or converts an
  out-of-range value (the conditions of \<open>score_defined\<close>), \<open>calculate_score\<close> returns, changes
  nothing but the handicap of the entry, and its result is at most \<open>havoc_max_mult * 100\<close> (or 1)
  and, outside the COE schedule, at least 1.
\<close>
theorem calculate_score_bounds:
  assumes "log2_contract log2" and "score_defined a (queue_buf a ! k)"
  shows "\<exists>s h. calculate_score log2 k a = Inr (s, set_entry k (q_handicap_update (\<lambda>_. h)) a) \<and>
     unat s \<le> max 1 (100 * unat (havoc_max_mult a)) \<and> (schedule a \<noteq> COE \<longrightarrow> 1 \<le> s)"
  using assms by (rule calculate_score_returns)

theorem calculate_score_bounds_witness:
  "\<exists>s h. calculate_score (\<lambda>x. x) 0 (small_state\<lparr>total_cal_cycles := 1, havoc_max_mult := 64, schedule := LIN\<rparr>) =
       Inr (s, set_entry 0 (q_handicap_update (\<lambda>_. h)) (small_state\<lparr>total_cal_cycles := 1, havoc_max_mult := 64, schedule := LIN\<rparr>)) \<and>
     unat s \<le> 6400 \<and> 1 \<le> s"
  using calculate_score_bounds [OF log2_contract_id, of "small_state\<lparr>total_cal_cycles := 1, havoc_max_mult := 64, schedule := LIN\<rparr>" 0]
  by (simp add: score_defined_def small_state_def zero_defs)

section \<open>The score and the energy cost\<close>

text \<open>Only the last stage reads the energy costs of the entry.\<close>

lemma stages_cpu_cost:
  "exec_score (a\<lparr>queue_buf := qb\<rparr>) (q\<lparr>q_cpu_energy_cost := c\<rparr>) = exec_score a q"
  "bitmap_score (a\<lparr>queue_buf := qb\<rparr>) (q\<lparr>q_cpu_energy_cost := c\<rparr>) p = bitmap_score a q p"
  "handicap_score (q\<lparr>q_cpu_energy_cost := c\<rparr>) p = handicap_score q p"
  "depth_score (q\<lparr>q_cpu_energy_cost := c\<rparr>) p = depth_score q p"
  "apply_factor (a\<lparr>queue_buf := qb\<rparr>) p f = apply_factor a p f"
  "mopt_score (a\<lparr>queue_buf := qb\<rparr>) (q\<lparr>q_cpu_energy_cost := c\<rparr>) p = mopt_score a q p"
  "cap_score (a\<lparr>queue_buf := qb\<rparr>) p = cap_score a p"
  by (simp_all add: exec_score_def bitmap_score_def handicap_score_def depth_score_def apply_factor_def
      mopt_score_def cap_score_def score_limit_def avg_exec_us_of_def avg_bitmap_size_of_def)

lemma schedule_score_cpu_cost:
  assumes "length qb = length (queue_buf a)"
    and "\<And>i. q_disabled (qb ! i) = q_disabled (queue_buf a ! i)"
    and "\<And>i. q_n_fuzz_entry (qb ! i) = q_n_fuzz_entry (queue_buf a ! i)"
  shows "schedule_score log2 (a\<lparr>queue_buf := qb\<rparr>) (q\<lparr>q_cpu_energy_cost := c\<rparr>) p = schedule_score log2 a q p"
proof -
  have f: "fuzz_count (a\<lparr>queue_buf := qb\<rparr>) (q\<lparr>q_cpu_energy_cost := c\<rparr>) = fuzz_count a q" by (simp add: fuzz_count_def)
  have g: "fuzz_count (a\<lparr>queue_buf := qb\<rparr>) (qb ! i) = fuzz_count a (queue_buf a ! i)" for i
    by (simp add: fuzz_count_def assms(3))
  have "coe_sum log2 (a\<lparr>queue_buf := qb\<rparr>) = coe_sum log2 a" by (simp add: coe_sum_def g assms(2) cong: if_cong)
  moreover have "fast_factor log2 (a\<lparr>queue_buf := qb\<rparr>) (q\<lparr>q_cpu_energy_cost := c\<rparr>) = fast_factor log2 a q"
    by (simp add: fast_factor_def f)
  ultimately show ?thesis
    by (simp add: schedule_score_def coe_factor_def rare_score_def f split_beta cong: if_cong split: schedule.split)
qed

text \<open>The score before the energy stage, shared by all costs the entry may have.\<close>

definition pre_energy_score :: "(dbl \<Rightarrow> dbl) \<Rightarrow> nat \<Rightarrow> afl_state \<Rightarrow> u32 res" where
  "pre_energy_score log2 k a =
     (let q = queue_buf a ! k in
      rbind (bitmap_score a q (exec_score a q)) (\<lambda>perf.
        let (perf, handicap) = handicap_score q perf;
            a = set_entry k (q_handicap_update (\<lambda>_. handicap)) a
        in rbind (schedule_score log2 a q (depth_score q perf)) (\<lambda>(perf, factor).
             rbind (apply_factor a perf factor) (\<lambda>perf. Inr (cap_score a (mopt_score a q perf))))))"

lemma energy_score_entry: "energy_score (set_entry k f a) q p = energy_score a q p"
  by (simp add: energy_score_def cap_score_def score_limit_def set_entry_def cong: if_cong)

lemma calculate_score_split:
  assumes "calculate_score log2 k a = Inr (s, a')"
  shows "\<exists>p. pre_energy_score log2 k a = Inr p \<and> energy_score a (queue_buf a ! k) p = Inr s \<and> unat p \<le> 25500"
proof -
  have "\<exists>p. pre_energy_score log2 k a = Inr p \<and> energy_score a (queue_buf a ! k) p = Inr s \<and> (\<exists>b r. p = cap_score b r)"
    using assms
    by (auto simp: calculate_score_def pre_energy_score_def Let_def split_beta rbind_eq_Inr_iff energy_score_entry)
       blast
  then show ?thesis using mult_le_limit by blast
qed

lemma pre_energy_score_cpu_cost:
  assumes "k < length (queue_buf a)"
  shows "pre_energy_score log2 k (set_entry k (q_cpu_energy_cost_update (\<lambda>_. c)) a) = pre_energy_score log2 k a"
proof -
  let ?qb = "\<lambda>h. (queue_buf a)[k := (queue_buf a ! k)\<lparr>q_cpu_energy_cost := c, q_handicap := h\<rparr>]"
  let ?b = "\<lambda>h. set_entry k (q_handicap_update (\<lambda>_. h)) a"
  have s: "set_entry k (q_handicap_update (\<lambda>_. h)) (a\<lparr>queue_buf := (queue_buf a)[k := (queue_buf a ! k)\<lparr>q_cpu_energy_cost := c\<rparr>]\<rparr>)
      = (?b h)\<lparr>queue_buf := ?qb h\<rparr>" for h
    using assms by (simp add: set_entry_def)
  have sch: "schedule_score log2 ((?b h)\<lparr>queue_buf := ?qb h\<rparr>) (q\<lparr>q_cpu_energy_cost := c\<rparr>) p = schedule_score log2 (?b h) q p" for h q p
    by (rule schedule_score_cpu_cost) (use assms in \<open>auto simp: nth_list_update\<close>)
  have e: "set_entry k (q_cpu_energy_cost_update (\<lambda>_. c)) a = a\<lparr>queue_buf := (queue_buf a)[k := (queue_buf a ! k)\<lparr>q_cpu_energy_cost := c\<rparr>]\<rparr>"
    by (simp add: set_entry_def)
  show ?thesis
    using assms by (simp add: pre_energy_score_def Let_def e s sch stages_cpu_cost)
qed

lemma energy_product_mono:
  assumes "x' \<le> x" and "0 \<le> y"
  shows "energy_product p x' y \<le> energy_product p x y"
proof -
  have "0 \<le> rat_of p" by (simp only: rat_of_def of_nat_0_le_iff)
  then show ?thesis unfolding energy_product_def using assms
    by (intro fl.mono mult_right_mono mult_left_mono)
qed

text \<open>
  C19: a measured entry never gains air time by costing more: if the same entry is scored with a
  CPU cost and with a larger one, everything else equal, its score with the larger cost is not
  larger.
\<close>
theorem calculate_score_energy_antimono:
  assumes "k < length (queue_buf a)" and "0 < q_cpu_energy_cost (queue_buf a ! k)"
    and "q_cpu_energy_cost (queue_buf a ! k) \<le> c" and "calculate_score log2 k a = Inr (s, b)"
    and "calculate_score log2 k (set_entry k (q_cpu_energy_cost_update (\<lambda>_. c)) a) = Inr (s', b')"
  shows "s' \<le> s"
proof -
  let ?q = "queue_buf a ! k" and ?e = "\<lambda>c. energy_multiplier (min_cpu_energy a) (max_cpu_energy a) c"
  obtain p where p: "pre_energy_score log2 k a = Inr p" "energy_score a ?q p = Inr s" "unat p \<le> 25500"
    using calculate_score_split [OF assms(4)] by blast
  moreover obtain p' where "pre_energy_score log2 k a = Inr p'" "energy_score a (?q\<lparr>q_cpu_energy_cost := c\<rparr>) p' = Inr s'"
    using calculate_score_split [OF assms(5)] assms(1)
    by (auto simp: pre_energy_score_cpu_cost energy_score_entry)
  ultimately have p': "energy_score a (?q\<lparr>q_cpu_energy_cost := c\<rparr>) p = Inr s'" by simp
  have cal: "total_cal_cycles a \<noteq> 0" using p(2) by (auto simp: energy_score_def)
  obtain x x' where x: "?e (q_cpu_energy_cost ?q) = Fin x" "?e c = Fin x'" "x' \<le> x"
    using multiplier_antimono [OF assms(2,3)] .
  obtain y where y: "energy_multiplier (min_mem_energy a) (max_mem_energy a) (q_mem_energy_cost ?q) = Fin y" "low_mult \<le> y"
    using energy_multiplier_bounds .
  obtain w where w: "unat w = nat \<lfloor>energy_product p x y\<rfloor>"
      "s = (if schedule a \<noteq> COE \<and> cap_score a w < 1 then 1 else cap_score a w)"
    using energy_score_value [OF cal p(3) x(1) y(1)] p(2) by auto
  obtain w' where w': "unat w' = nat \<lfloor>energy_product p x' y\<rfloor>"
      "s' = (if schedule a \<noteq> COE \<and> cap_score a w' < 1 then 1 else cap_score a w')"
    using energy_score_value [OF cal p(3), of "?q\<lparr>q_cpu_energy_cost := c\<rparr>" x' y] p' x(2) y(1) by auto
  have "w' \<le> w" unfolding word_le_nat_alt w(1) w'(1)
    using x(3) y(2) low_mult(2) by (intro nat_mono floor_mono energy_product_mono) simp_all
  then have "cap_score a w' \<le> cap_score a w" by (rule cap_score_mono)
  moreover have "1 \<le> cap_score a w" if "cap_score a w \<noteq> 0" using that by (metis linorder_not_less word_less_1)
  ultimately show ?thesis unfolding w(2) w'(2) by (auto simp: not_less)
qed

theorem calculate_score_energy_antimono_witness:
  "\<exists>s s' b b'. calculate_score (\<lambda>x. x) 0 (small_state\<lparr>total_cal_cycles := 1, havoc_max_mult := 64, max_cpu_energy := 9,
       queue_buf := [entry_zero\<lparr>q_cpu_energy_cost := 2\<rparr>]\<rparr>) = Inr (s, b) \<and>
     calculate_score (\<lambda>x. x) 0 (set_entry 0 (q_cpu_energy_cost_update (\<lambda>_. 7))
       (small_state\<lparr>total_cal_cycles := 1, havoc_max_mult := 64, max_cpu_energy := 9,
       queue_buf := [entry_zero\<lparr>q_cpu_energy_cost := 2\<rparr>]\<rparr>)) = Inr (s', b') \<and> s' \<le> s"
proof -
  let ?a = "small_state\<lparr>total_cal_cycles := 1, havoc_max_mult := 64, max_cpu_energy := 9,
       queue_buf := [entry_zero\<lparr>q_cpu_energy_cost := 2\<rparr>]\<rparr>"
  let ?b = "set_entry 0 (q_cpu_energy_cost_update (\<lambda>_. 7)) ?a"
  have "score_defined ?a q" "score_defined ?b q" for q
    by (simp_all add: score_defined_def set_entry_def small_state_def zero_defs)
  then obtain s b s' b' where "calculate_score (\<lambda>x. x) 0 ?a = Inr (s, b)" "calculate_score (\<lambda>x. x) 0 ?b = Inr (s', b')"
    using calculate_score_returns [OF log2_contract_id] by metis
  then show ?thesis
    using calculate_score_energy_antimono [of 0 ?a 7 "\<lambda>x. x" s b s' b'] by (auto simp: zero_defs)
qed

section \<open>When the score is undefined\<close>









end
