(* ===== verification/Rand.thy ===== *)
theory Rand
  imports Afl_State
begin

text \<open>
  The random numbers of src/afl-performance.c (\<open>rand_set_seed\<close>, the romuDuoJr generator
  \<open>rand_next\<close>, \<open>rand_next_percent\<close>) and the bounded draws \<open>rand_below\<close> and
  \<open>rand_below_datalen\<close> of include/afl-fuzz.h. The hash XXH3 is a parameter, and so is the
  outcome of reading /dev/urandom. The rejection loop of \<open>rand_below\<close> runs on fuel: \<open>None\<close>
  means that every output drawn so far was rejected.
\<close>

section \<open>The generator\<close>

definition rotl27 :: "u64 \<Rightarrow> u64" where
  "rotl27 d = push_bit 27 d OR drop_bit 37 d"

definition rand_next :: "afl_state \<Rightarrow> u64 \<times> afl_state" where
  "rand_next a =
     (let xp = rand_seed0 a;
          a = a\<lparr>rand_seed0 := 15241094284759029579 * rand_seed1 a\<rparr>;
          a = a\<lparr>rand_seed1 := rand_seed1 a - xp\<rparr>
      in (xp, a\<lparr>rand_seed1 := rotl27 (rand_seed1 a)\<rparr>))"

definition rand_set_seed :: "(bytes \<Rightarrow> u64) \<Rightarrow> u64 \<Rightarrow> afl_state \<Rightarrow> afl_state" where
  "rand_set_seed xxh3 seed a =
     (let a = a\<lparr>init_seed := seed\<rparr>;
          a = a\<lparr>rand_seed0 := xxh3 (store_le 8 (init_seed a))\<rparr>;
          a = a\<lparr>rand_seed1 := rand_seed0 a XOR 0x1234567890abcdef\<rparr>
      in a\<lparr>rand_seed2 := (rand_seed0 a AND 0x1234567890abcdef) XOR (rand_seed1 a OR 0xfedcba9876543210)\<rparr>)"

definition rand_next_percent :: "afl_state \<Rightarrow> dbl \<times> afl_state" where
  "rand_next_percent a = (let (x, a) = rand_next a in (ddiv (d_of_u x) (d_of_u (0xffffffffffffffff :: u64)), a))"

section \<open>Bounded draws\<close>

definition RESEED_RNG :: u64 where
  "RESEED_RNG = 2500000"

definition reject_from :: "u32 \<Rightarrow> u64" where
  "reject_from limit = (let m = 0xffffffffffffffff :: u64 in m - m mod ucast limit)"

fun rand_loop :: "nat \<Rightarrow> u64 \<Rightarrow> afl_state \<Rightarrow> (u64 \<times> afl_state) option" where
  "rand_loop 0 bnd a = None"
| "rand_loop (Suc n) bnd a = (let (r, a) = rand_next a in if bnd \<le> r then rand_loop n bnd a else Some (r, a))"

definition reseed :: "(u64 \<times> u64 \<times> u64) res \<Rightarrow> afl_state \<Rightarrow> afl_state res" where
  "reseed urandom a =
     (let cnt = rand_cnt a; a = a\<lparr>rand_cnt := cnt - 1\<rparr>
      in if cnt = 0 \<and> \<not> fixed_seed a
         then rbind urandom (\<lambda>(s0, s1, s2).
                Inr (a\<lparr>rand_seed0 := s0, rand_seed1 := s1, rand_seed2 := s2,
                       rand_cnt := ucast (RESEED_RNG div 2 + s1 mod RESEED_RNG)\<rparr>))
         else Inr a)"

definition rand_below ::
  "nat \<Rightarrow> (u64 \<times> u64 \<times> u64) res \<Rightarrow> u32 \<Rightarrow> afl_state \<Rightarrow> (u32 \<times> afl_state) option res" where
  "rand_below fuel urandom limit a =
     (if limit \<le> 1 then Inr (Some (0, a))
      else rbind (reseed urandom a) (\<lambda>a.
        Inr (map_option (\<lambda>(r, a). (ucast (r mod ucast limit), a)) (rand_loop fuel (reject_from limit) a))))"

definition obind :: "('a \<times> afl_state) option res \<Rightarrow> ('a \<Rightarrow> afl_state \<Rightarrow> ('b \<times> afl_state) option res) \<Rightarrow> ('b \<times> afl_state) option res" where
  "obind m f = rbind m (\<lambda>r. case r of None \<Rightarrow> Inr None | Some (x, a) \<Rightarrow> f x a)"

definition rand_below_datalen ::
  "nat \<Rightarrow> (u64 \<times> u64 \<times> u64) res \<Rightarrow> u32 \<Rightarrow> afl_state \<Rightarrow> (u32 \<times> afl_state) option res" where
  "rand_below_datalen fuel urandom limit a =
     (if limit \<le> 1 then Inr (Some (0, a))
      else obind (rand_below fuel urandom 3 a) (\<lambda>c a.
        if c = 2
        then obind (rand_below fuel urandom limit a) (\<lambda>x a.
               obind (rand_below fuel urandom (limit - 1) a) (\<lambda>y a.
                 obind (rand_below fuel urandom (limit - 1) a) (\<lambda>z a.
                   Inr (Some ((x mod (1 + y)) mod (1 + z), a)))))
        else if c = 1
        then obind (rand_below fuel urandom limit a) (\<lambda>x a.
               obind (rand_below fuel urandom (limit - 1) a) (\<lambda>y a. Inr (Some (x mod (1 + y), a))))
        else if c = 0 then rand_below fuel urandom limit a
        else Inr (Some (1, a))))"

section \<open>The generator is reversible\<close>

lemma bit_rotl27: "k < 64 \<Longrightarrow> bit (rotl27 d) k \<longleftrightarrow> bit d ((k + 37) mod 64)"
proof -
  assume k: "k < 64"
  show ?thesis
  proof (cases "k < 27")
    case True
    then show ?thesis by (simp add: rotl27_def bit_simps add.commute)
  next
    case False
    then have "(k + 37) mod 64 = k - 27" using k by (simp add: mod_if)
    moreover have "\<not> bit d (37 + k)" using False by (auto dest: bit_imp_le_length)
    ultimately show ?thesis using False k by (simp add: rotl27_def bit_simps)
  qed
qed

lemma rotl27_inject: "rotl27 d = rotl27 e \<Longrightarrow> d = e"
proof (rule bit_word_eqI)
  fix j assume eq: "rotl27 d = rotl27 e" and "j < LENGTH(64)"
  then have j: "j < 64" by simp
  define k where "k = (j + 27) mod 64"
  have k: "k < 64" "(k + 37) mod 64 = j" using j by (auto simp: k_def mod_simps)
  have "bit (rotl27 d) k = bit (rotl27 e) k" using eq by simp
  then show "bit d j = bit e j" using bit_rotl27 [OF k(1)] k(2) by simp
qed

lemma romu_multiplier_inverse: "(4888251478366616163 :: u64) * 15241094284759029579 = 1"
  by simp

lemma mult_inject: "(15241094284759029579 :: u64) * x = 15241094284759029579 * y \<Longrightarrow> x = y"
proof -
  assume "(15241094284759029579 :: u64) * x = 15241094284759029579 * y"
  then have "4888251478366616163 * (15241094284759029579 * x) = 4888251478366616163 * (15241094284759029579 * y)" by simp
  then show ?thesis by (simp only: mult.assoc [symmetric] romu_multiplier_inverse mult_1)
qed

lemma rand_next_simps [simp]:
  "fst (rand_next a) = rand_seed0 a"
  "rand_seed0 (snd (rand_next a)) = 15241094284759029579 * rand_seed1 a"
  "rand_seed1 (snd (rand_next a)) = rotl27 (rand_seed1 a - rand_seed0 a)"
  by (simp_all add: rand_next_def Let_def)

definition rand_live :: "afl_state \<Rightarrow> bool" where
  "rand_live a \<longleftrightarrow> rand_seed0 a \<noteq> 0 \<or> rand_seed1 a \<noteq> 0"

lemma rand_next_inject:
  assumes "rand_seed0 (snd (rand_next a)) = rand_seed0 (snd (rand_next b))"
    and "rand_seed1 (snd (rand_next a)) = rand_seed1 (snd (rand_next b))"
  shows "rand_seed0 a = rand_seed0 b \<and> rand_seed1 a = rand_seed1 b"
proof -
  have s1: "rand_seed1 a = rand_seed1 b" using assms(1) unfolding rand_next_simps by (rule mult_inject)
  have "rand_seed1 a - rand_seed0 a = rand_seed1 b - rand_seed0 b"
    using assms(2) unfolding rand_next_simps by (rule rotl27_inject)
  then show ?thesis using s1 by simp
qed

lemma rotl27_0 [simp]: "rotl27 0 = 0"
  by (simp add: rotl27_def)

lemma rand_live_next: "rand_live a \<Longrightarrow> rand_live (snd (rand_next a))"
proof (rule ccontr)
  assume l: "rand_live a" and "\<not> rand_live (snd (rand_next a))"
  then have "rand_seed0 a = rand_seed0 afl_zero \<and> rand_seed1 a = rand_seed1 afl_zero"
    by (intro rand_next_inject) (simp_all add: rand_live_def zero_defs)
  then show False using l by (simp add: rand_live_def zero_defs)
qed

lemma rand_live_seed: "rand_live (rand_set_seed xxh3 seed a)"
  by (auto simp: rand_live_def rand_set_seed_def Let_def)

text \<open>
  The generator never loses entropy: one step is injective on its 128-bit state, and from any
  seed, whatever the hash returns, it never enters the absorbing all-zero state.
\<close>
theorem rand_next_reversible:
  "(rand_seed0 (snd (rand_next a)) = rand_seed0 (snd (rand_next b)) \<and>
    rand_seed1 (snd (rand_next a)) = rand_seed1 (snd (rand_next b)) \<longleftrightarrow>
    rand_seed0 a = rand_seed0 b \<and> rand_seed1 a = rand_seed1 b) \<and>
   rand_live (((\<lambda>a. snd (rand_next a)) ^^ n) (rand_set_seed xxh3 seed a))"
proof -
  have "rand_live (((\<lambda>a. snd (rand_next a)) ^^ n) (rand_set_seed xxh3 seed a))"
    by (induction n) (simp_all add: rand_live_seed rand_live_next)
  then show ?thesis using rand_next_inject [of a b] by auto
qed

section \<open>Bounded draws\<close>

definition outputs :: "afl_state \<Rightarrow> nat \<Rightarrow> u64" where
  "outputs a i = rand_seed0 (((\<lambda>a. snd (rand_next a)) ^^ i) a)"

lemma outputs_shift: "outputs (snd (rand_next a)) i = outputs a (Suc i)"
  unfolding outputs_def by (simp only: funpow_Suc_right comp_def)

lemma rand_loop_step:
  "rand_loop (Suc n) bnd a = (if bnd \<le> rand_seed0 a then rand_loop n bnd (snd (rand_next a)) else Some (rand_seed0 a, snd (rand_next a)))"
  by (simp add: split_beta)

lemma rand_loop_first:
  "rand_loop n bnd a =
     (if \<exists>i < n. outputs a i < bnd
      then (let i = (LEAST i. outputs a i < bnd) in Some (outputs a i, ((\<lambda>a. snd (rand_next a)) ^^ Suc i) a))
      else None)"
proof (induction n arbitrary: a)
  case (Suc n)
  have o0: "outputs a 0 = rand_seed0 a" by (simp add: outputs_def)
  show ?case
  proof (cases "rand_seed0 a < bnd")
    case True
    then have "(LEAST i. outputs a i < bnd) = 0" by (intro Least_equality) (simp_all add: o0)
    then show ?thesis using True o0 by (auto simp: rand_loop_step simp del: rand_loop.simps)
  next
    case False
    have ex: "(\<exists>i < Suc n. outputs a i < bnd) \<longleftrightarrow> (\<exists>i < n. outputs (snd (rand_next a)) i < bnd)"
      unfolding outputs_shift using False o0 by (metis Suc_less_eq less_Suc_eq_0_disj)
    have "(LEAST i. outputs a i < bnd) = Suc (LEAST i. outputs (snd (rand_next a)) i < bnd)"
      if h: "\<exists>i < n. outputs (snd (rand_next a)) i < bnd"
    proof -
      obtain i where "outputs a (Suc i) < bnd" using h by (auto simp: outputs_shift)
      then show ?thesis unfolding outputs_shift using False o0 by (intro Least_Suc) auto
    qed
    moreover have "((\<lambda>a. snd (rand_next a)) ^^ i) (snd (rand_next a)) = snd (rand_next (((\<lambda>a. snd (rand_next a)) ^^ i) a))" for i
      using funpow_swap1 [of "\<lambda>a. snd (rand_next a)" i a] by simp
    moreover have "bnd \<le> rand_seed0 a" using False by simp
    ultimately show ?thesis using Suc.IH ex
      by (auto simp: rand_loop_step outputs_shift [symmetric] Let_def simp del: rand_loop.simps)
  qed
qed simp

lemma reject_from_unat:
  assumes "1 < limit"
  shows "unat (reject_from limit) = (2 ^ 64 - 1) div unat limit * unat limit"
proof -
  have l: "unat (ucast limit :: u64) = unat limit" by (simp add: unsigned_ucast_eq take_bit_nat_eq_self order_less_trans [OF unsigned_less])
  have m: "unat (0xffffffffffffffff :: u64) = 2 ^ 64 - 1" by simp
  have "unat ((0xffffffffffffffff :: u64) mod ucast limit) = (2 ^ 64 - 1) mod unat limit"
    by (simp only: unat_mod_distrib l m)
  moreover have "(0xffffffffffffffff :: u64) mod ucast limit \<le> 0xffffffffffffffff"
    by (simp only: word_le_nat_alt unat_mod_distrib mod_less_eq_dividend)
  ultimately have "unat (reject_from limit) = (2 ^ 64 - 1) - (2 ^ 64 - 1) mod unat limit"
    by (simp only: reject_from_def Let_def unat_sub m)
  then show ?thesis by (simp only: minus_mod_eq_div_mult)
qed

lemma card_residue:
  assumes "r < m"
  shows "card {n :: nat. n < q * m \<and> n mod m = r} = q"
proof -
  have "{n. n < q * m \<and> n mod m = r} = (\<lambda>k. k * m + r) ` {..<q}"
  proof (intro equalityI subsetI)
    fix n assume "n \<in> {n. n < q * m \<and> n mod m = r}"
    then have "n div m < q" "n = n div m * m + r"
      using less_mult_imp_div_less by (auto simp: div_mult_mod_eq [symmetric])
    then show "n \<in> (\<lambda>k. k * m + r) ` {..<q}" by blast
  next
    fix n assume "n \<in> (\<lambda>k. k * m + r) ` {..<q}"
    then obtain k where k: "k < q" "n = k * m + r" by blast
    then have "n < (k + 1) * m" using assms by simp
    also have "\<dots> \<le> q * m" using k(1) by (intro mult_le_mono1) simp
    finally show "n \<in> {n. n < q * m \<and> n mod m = r}" using k(2) assms by simp
  qed
  moreover have "inj_on (\<lambda>k. k * m + r) {..<q}" using assms by (auto simp: inj_on_def)
  ultimately show ?thesis by (simp add: card_image)
qed

lemma card_word_less:
  assumes "B \<le> 2 ^ LENGTH('a::len)"
  shows "card {x :: 'a word. unat x < B \<and> P (unat x)} = card {n. n < B \<and> P n}"
proof (rule bij_betw_same_card)
  show "bij_betw unat {x :: 'a word. unat x < B \<and> P (unat x)} {n. n < B \<and> P n}"
  proof (rule bij_betw_byWitness [where f' = of_nat])
    show "\<forall>n \<in> {n. n < B \<and> P n}. unat (of_nat n :: 'a word) = n"
      using assms by (auto simp: unsigned_of_nat take_bit_nat_eq_self)
    then show "of_nat ` {n. n < B \<and> P n} \<subseteq> {x :: 'a word. unat x < B \<and> P (unat x)}" by auto
  qed auto
qed

lemma unat_mod_limit: "unat (r mod ucast limit :: u64) = unat r mod unat (limit :: u32)"
proof -
  have "unat (ucast limit :: u64) = unat limit"
    by (simp add: unsigned_ucast_eq take_bit_nat_eq_self order_less_trans [OF unsigned_less])
  then show ?thesis by (simp only: unat_mod_distrib)
qed

lemma unat_draw:
  assumes "1 < limit"
  shows "unat (ucast (r mod ucast limit :: u64) :: u32) = unat r mod unat (limit :: u32)"
proof -
  have "0 < unat limit" using assms by (simp add: word_less_nat_alt)
  then have "unat r mod unat limit < unat limit" by simp
  also have "unat limit < 2 ^ 32" using unsigned_less [of limit] by simp
  finally show ?thesis using unat_mod_limit [of r limit] by (simp add: unsigned_ucast_eq take_bit_nat_eq_self)
qed

text \<open>
  The draw of \<open>rand_below\<close> is unbiased: among the 64-bit outputs that the rejection loop
  accepts, every result below the limit comes from the same number of outputs.
\<close>
theorem rand_below_uniform:
  assumes "1 < limit" and "r < limit"
  shows "card {x :: u64. x < reject_from limit \<and> ucast (x mod ucast limit) = r} = (2 ^ 64 - 1) div unat limit"
proof -
  have "{x :: u64. x < reject_from limit \<and> ucast (x mod ucast limit) = r} =
      {x. unat x < unat (reject_from limit) \<and> unat x mod unat limit = unat r}"
    using unat_draw [OF assms(1)] by (auto simp: word_less_nat_alt word_unat_eq_iff [of _ r])
  also have "card \<dots> = card {n. n < unat (reject_from limit) \<and> n mod unat limit = unat r}"
  proof (rule card_word_less)
    have "unat (reject_from limit) < 2 ^ LENGTH(64)" by (rule unsigned_less)
    then show "unat (reject_from limit) \<le> 2 ^ LENGTH(64)" by simp
  qed
  also have "\<dots> = (2 ^ 64 - 1) div unat limit"
    unfolding reject_from_unat [OF assms(1)] using assms(2) by (intro card_residue) (simp add: word_less_nat_alt)
  finally show ?thesis .
qed

theorem rand_below_uniform_witness:
  "card {x :: u64. x < reject_from 10 \<and> ucast (x mod ucast (10 :: u32)) = (7 :: u32)} = (2 ^ 64 - 1) div 10"
  using rand_below_uniform [of 10 7] by simp

lemma rand_below_less:
  assumes "rand_below fuel urandom limit a = Inr (Some (r, a'))" and "0 < limit"
  shows "r < limit"
proof (cases "limit \<le> 1")
  case True
  then show ?thesis using assms by (simp add: rand_below_def)
next
  case False
  then have l: "1 < limit" by simp
  obtain x where "r = ucast (x mod ucast limit :: u64)"
    using assms(1) False by (auto simp: rand_below_def rbind_eq_Inr_iff)
  then have "unat r = unat x mod unat limit" using unat_draw [OF l] by simp
  moreover have "0 < unat limit" using l by (simp add: word_less_nat_alt)
  ultimately show ?thesis by (simp add: word_less_nat_alt)
qed

text \<open>
  C34: \<open>rand_below\<close> without a reseed returns the first output of the generator below the
  rejection bound, reduced modulo the limit, and so a value below the limit; it runs out of fuel
  exactly when none of the first \<open>fuel\<close> outputs is below the bound.
\<close>
theorem rand_below_first_accepted:
  assumes "1 < limit" and "rand_cnt a \<noteq> 0"
  shows "(\<forall>r a'. rand_below fuel urandom limit a = Inr (Some (r, a')) \<longrightarrow> r < limit) \<and>
    rand_below fuel urandom limit a =
      (if \<exists>i < fuel. outputs a i < reject_from limit
       then (let i = (LEAST i. outputs a i < reject_from limit)
             in Inr (Some (ucast (outputs a i mod ucast limit),
                  ((\<lambda>a. snd (rand_next a)) ^^ Suc i) (a\<lparr>rand_cnt := rand_cnt a - 1\<rparr>))))
       else Inr None)"
proof -
  have "((\<lambda>a. snd (rand_next a)) ^^ i) (a\<lparr>rand_cnt := c\<rparr>) = (((\<lambda>a. snd (rand_next a)) ^^ i) a)\<lparr>rand_cnt := c\<rparr>" for i c
    by (induction i) (simp_all add: rand_next_def Let_def)
  then have "outputs (a\<lparr>rand_cnt := c\<rparr>) i = outputs a i" for i c by (simp add: outputs_def)
  moreover have "\<not> limit \<le> 1" using assms(1) by simp
  ultimately have "rand_below fuel urandom limit a =
      (if \<exists>i < fuel. outputs a i < reject_from limit
       then (let i = (LEAST i. outputs a i < reject_from limit)
             in Inr (Some (ucast (outputs a i mod ucast limit),
                  ((\<lambda>a. snd (rand_next a)) ^^ Suc i) (a\<lparr>rand_cnt := rand_cnt a - 1\<rparr>))))
       else Inr None)"
    using assms(2) by (simp add: rand_below_def reseed_def rand_loop_first Let_def del: funpow.simps)
  moreover have "0 < limit" using assms(1) by (rule order.strict_trans [rotated]) simp
  ultimately show ?thesis using rand_below_less by blast
qed

theorem rand_below_first_accepted_witness:
  "\<exists>a'. rand_below 1 (Inl (PFATAL ''urandom'')) 10 (afl_zero\<lparr>rand_cnt := 5, rand_seed0 := 47\<rparr>) = Inr (Some (7, a'))"
proof -
  let ?a = "afl_zero\<lparr>rand_cnt := 5, rand_seed0 := 47\<rparr>"
  have o: "outputs ?a 0 = 47" by (simp add: outputs_def)
  have b: "(47 :: u64) < reject_from 10" by (simp add: reject_from_def)
  then have "(LEAST i. outputs ?a i < reject_from 10) = 0" by (intro Least_equality) (simp_all add: o)
  then show ?thesis using rand_below_first_accepted [of 10 ?a 1 "Inl (PFATAL ''urandom'')"] o b by simp
qed

lemma fl_all_ones: "fl (of_int (uint (0xffffffffffffffff :: u64))) = 2 ^ 64"
proof -
  have u: "uint (0xffffffffffffffff :: u64) = 2 ^ 64 - 1" by simp
  have "fl (of_int (2 ^ 64 - 1)) = 2 ^ 64" by code_simp
  then show ?thesis by (simp only: u)
qed

lemma rand_next_percent_unit:
  "\<exists>p. fst (rand_next_percent a) = Fin p \<and> 0 \<le> p \<and> p \<le> 1 \<and>
     snd (rand_next_percent a) = snd (rand_next a)"
proof -
  let ?x = "fl (of_int (uint (rand_seed0 a)))"
  have x: "0 \<le> ?x" "?x \<le> 2 ^ 64"
    using fl_uint_nonneg [of "rand_seed0 a"] of_int_uint_bound(2) [of "rand_seed0 a"] rep_pow2 [of 64]
    by (simp_all add: fl.le_rep del: of_int_uint)
  then have q: "0 \<le> ?x / 2 ^ 64" "?x / 2 ^ 64 \<le> 1" by simp_all
  have "rep 53 (- 1022) 1" using rep_of_int [of 1] by simp
  then have "0 \<le> fl (?x / 2 ^ 64)" "fl (?x / 2 ^ 64) \<le> 1" using fl.nonneg fl.le_rep q by blast+
  moreover have "mkd (?x / 2 ^ 64) = Fin (fl (?x / 2 ^ 64))" using q by (intro mkd_small) simp
  moreover have "fst (rand_next_percent a) = ddiv (Fin ?x) (Fin (2 ^ 64))"
    unfolding rand_next_percent_def split_beta Let_def fst_conv rand_next_simps d_of_u64 fl_all_ones ..
  moreover have "snd (rand_next_percent a) = snd (rand_next a)" by (simp add: rand_next_percent_def split_beta)
  ultimately show ?thesis by auto
qed

text \<open>
  \<open>rand_next_percent\<close> is a finite double between 0 and 1, both included, and advances the
  generator by one step.
\<close>
theorem rand_next_percent_range:
  "\<exists>p. fst (rand_next_percent a) = Fin p \<and> 0 \<le> p \<and> p \<le> 1 \<and>
     snd (rand_next_percent a) = snd (rand_next a)"
  by (rule rand_next_percent_unit)

text \<open>Draws change nothing but the generator.\<close>

definition rand_core :: "afl_state \<Rightarrow> afl_state" where
  "rand_core a = a\<lparr>rand_cnt := 0, rand_seed0 := 0, rand_seed1 := 0, rand_seed2 := 0\<rparr>"

lemma rand_core_next [simp]: "rand_core (snd (rand_next a)) = rand_core a"
  by (simp add: rand_next_def rand_core_def Let_def)

lemma rand_core_loop: "rand_loop n bnd a = Some (r, b) \<Longrightarrow> rand_core b = rand_core a"
  by (induction n arbitrary: a) (auto simp: split_beta Let_def split: if_splits)

lemma rand_core_reseed: "reseed u a = Inr b \<Longrightarrow> rand_core b = rand_core a"
  by (auto simp: reseed_def rand_core_def Let_def rbind_eq_Inr_iff split: if_splits)

lemma rand_core_below: "rand_below fuel u limit a = Inr (Some (r, b)) \<Longrightarrow> rand_core b = rand_core a"
  by (auto simp: rand_below_def rbind_eq_Inr_iff dest!: rand_core_loop rand_core_reseed split: if_splits)

lemma rand_core_fields:
  assumes "rand_core b = rand_core a"
  shows "queued_items b = queued_items a" "alias_probability b = alias_probability a" "alias_table b = alias_table a"
    "queue_buf b = queue_buf a" "queue_cur b = queue_cur a" "q_testcase_cache b = q_testcase_cache a"
    "q_testcase_cache_size b = q_testcase_cache_size a" "q_testcase_cache_count b = q_testcase_cache_count a"
    "q_testcase_max_cache_count b = q_testcase_max_cache_count a" "q_testcase_max_cache_entries b = q_testcase_max_cache_entries a"
    "q_testcase_max_cache_size b = q_testcase_max_cache_size a" "q_testcase_smallest_free b = q_testcase_smallest_free a"
  using assms by (cases a; cases b; simp add: rand_core_def)+

lemma rand_below_error: "rand_below fuel u limit a = Inl e \<Longrightarrow> u = Inl e"
  by (auto simp: rand_below_def rbind_eq_Inl_iff reseed_def Let_def split: if_splits)

end
