(* ===== verification/Alias.thy ===== *)
theory Alias
  imports Score Rand
begin

text \<open>
  Weighted selection of the next queue entry, \<open>create_alias_table\<close> and \<open>select_next_queue_entry\<close>
  of src/afl-fuzz-queue.c: the weights of the entries, the vector \<open>P\<close>, and Walker's alias method
  on the arrays \<open>Small\<close> and \<open>Large\<close> with their counters. \<open>log\<close>, \<open>log10\<close> and \<open>log2\<close> of libm are
  parameters; allocation succeeds. The second half states the alias method on two stacks over any
  arithmetic, proves that it splits the weights exactly when the arithmetic is exact, and that the
  array code implements it.
\<close>

section \<open>Weights\<close>

definition averages :: "(dbl \<Rightarrow> dbl) \<Rightarrow> afl_state \<Rightarrow> dbl \<times> dbl \<times> dbl" where
  "averages logd a =
     (let (us, bm, ln, active) =
            fold (\<lambda>i (us, bm, ln, active).
              let q = queue_buf a ! i
              in if \<not> q_disabled q
                 then (dadd us (d_of_u (q_exec_us q)), dadd bm (logd (d_of_u (q_bitmap_size q))),
                       dadd ln (d_of_u (q_len q)), active + 1)
                 else (us, bm, ln, active))
              [0..<unat (queued_items a)] (Fin 0, Fin 0, Fin 0, 0 :: u32)
      in (ddiv us (d_of_u active), ddiv bm (d_of_u active), ddiv ln (d_of_u active)))"

definition hits_weight :: "(dbl \<Rightarrow> dbl) \<Rightarrow> afl_state \<Rightarrow> queue_entry \<Rightarrow> dbl \<Rightarrow> dbl" where
  "hits_weight log10 a q w =
     (if FAST \<le> schedule a \<and> schedule a \<le> RARE
      then let hits = n_fuzz a (unat (q_n_fuzz_entry q))
           in if hits \<noteq> 0 then ddiv w (dadd (log10 (d_of_u hits)) (Fin 1)) else w
      else w)"

definition time_weight :: "dbl \<Rightarrow> dbl \<Rightarrow> dbl" where
  "time_weight t w =
     (if dlt t (mkd (1 / 10)) then w
      else if dle t (mkd (1 / 4)) then dmul w (mkd (95 / 100))
      else if dle t (mkd (1 / 2)) then w
      else if dle t (mkd (3 / 4)) then dmul w (mkd (105 / 100))
      else if dle t (Fin 1) then dmul w (mkd (11 / 10))
      else if dlt t (mkd (5 / 4)) then dmul w (mkd (2 / 10))
      else if dle t (mkd (3 / 2)) then w
      else if dle t (Fin 2) then dmul w (mkd (11 / 10))
      else if dle t (mkd (5 / 2)) then w
      else if dle t (Fin 5) then dmul w (mkd (115 / 100))
      else if dle t (Fin 20) then dmul w (mkd (11 / 10))
      else w)"

definition len_weight :: "dbl \<Rightarrow> dbl \<Rightarrow> dbl" where
  "len_weight l w =
     (if dlt l (mkd (1 / 10)) then dmul w (mkd (1 / 2))
      else if dle l (mkd (1 / 2)) then w
      else if dle l (mkd (5 / 4)) then dmul w (mkd (105 / 100))
      else if dle l (mkd (7 / 4)) then w
      else if dle l (Fin 2) then dmul w (mkd (95 / 100))
      else if dle l (Fin 5) then w
      else if dle l (Fin 10) then dmul w (mkd (105 / 100))
      else dmul w (mkd (115 / 100)))"

definition bitmap_weight :: "dbl \<Rightarrow> dbl \<Rightarrow> dbl" where
  "bitmap_weight bms w =
     (if dlt bms (mkd (1 / 10)) then dmul w (mkd (1 / 100))
      else if dle bms (mkd (1 / 4)) then dmul w (mkd (55 / 100))
      else if dle bms (mkd (1 / 2)) then w
      else if dle bms (mkd (3 / 4)) then dmul w (mkd (12 / 10))
      else if dle bms (mkd (5 / 4)) then dmul w (mkd (13 / 10))
      else if dle bms (mkd (7 / 4)) then dmul w (mkd (5 / 4))
      else if dle bms (Fin 2) then w
      else if dle bms (mkd (5 / 2)) then dmul w (mkd (13 / 10))
      else dmul w (mkd (3 / 4)))"

definition entry_weight :: "(dbl \<Rightarrow> dbl) \<Rightarrow> afl_state \<Rightarrow> dbl \<times> dbl \<times> dbl \<Rightarrow> queue_entry \<Rightarrow> dbl" where
  "entry_weight log10 a avgs q =
     (let (avg_exec_us, avg_bitmap_size, avg_len) = avgs;
          w = hits_weight log10 a q (Fin 1);
          w = (if schedule a < RARE then time_weight (ddiv (d_of_u (q_exec_us q)) avg_exec_us) w else w);
          w = len_weight (ddiv (d_of_u (q_len q)) avg_len) w;
          w = bitmap_weight (ddiv (d_of_u (q_bitmap_size q)) avg_bitmap_size) w;
          w = (if \<not> q_was_fuzzed q then dmul w (mkd (5 / 2)) else w)
      in if q_fs_redundant q then dmul w (mkd (3 / 4)) else w)"

definition weigh_entry ::
  "(dbl \<Rightarrow> dbl) \<Rightarrow> (dbl \<Rightarrow> dbl) \<Rightarrow> dbl \<times> dbl \<times> dbl \<Rightarrow> nat \<Rightarrow> dbl \<times> afl_state \<Rightarrow> (dbl \<times> afl_state) res" where
  "weigh_entry log10 log2 avgs i = (\<lambda>(sum, a).
     let q = queue_buf a ! i
     in if \<not> q_disabled q
        then let w = entry_weight log10 a avgs q;
                 a = set_entry i (q_weight_update (\<lambda>_. w)) a
             in rbind (calculate_score log2 i a) (\<lambda>(score, a).
                  Inr (dadd sum w, set_entry i (q_perf_score_update (\<lambda>_. d_of_u score)) a))
        else Inr (sum, a))"

definition double_recent :: "afl_state \<Rightarrow> afl_state" where
  "double_recent a =
     (if schedule a = MMOPT \<and> queued_discovered a \<noteq> 0
      then let n = queued_items a;
               cnt = (if 5 \<le> queued_discovered a then 5 else queued_discovered a)
           in fold (\<lambda>i a. if \<not> q_disabled (queue_buf a ! i)
                           then set_entry i (\<lambda>q. q\<lparr>q_weight := dmul (q_weight q) (Fin 2)\<rparr>) a else a)
                [unat (n - cnt)..<unat n] a
      else a)"

definition P_of :: "(queue_entry \<Rightarrow> dbl) \<Rightarrow> dbl \<Rightarrow> afl_state \<Rightarrow> dbl list" where
  "P_of value sm a =
     map (\<lambda>i. let q = queue_buf a ! i
              in if q_disabled q then Fin 0 else ddiv (dmul (value q) (d_of_u (queued_items a))) sm)
       [0..<unat (queued_items a)]"

definition score_entry ::
  "(dbl \<Rightarrow> dbl) \<Rightarrow> nat \<Rightarrow> dbl \<times> afl_state \<Rightarrow> (dbl \<times> afl_state) res" where
  "score_entry log2 i = (\<lambda>(sum, a).
     if \<not> q_disabled (queue_buf a ! i)
     then rbind (calculate_score log2 i a) (\<lambda>(score, a).
            Inr (dadd sum (d_of_u score), set_entry i (q_perf_score_update (\<lambda>_. d_of_u score)) a))
     else Inr (sum, a))"

definition collect_P ::
  "(dbl \<Rightarrow> dbl) \<Rightarrow> (dbl \<Rightarrow> dbl) \<Rightarrow> (dbl \<Rightarrow> dbl) \<Rightarrow> afl_state \<Rightarrow> (dbl list \<times> afl_state) res" where
  "collect_P logd log10 log2 a =
     (if schedule a < RARE
      then rbind (rfold (weigh_entry log10 log2 (averages logd a)) [0..<unat (queued_items a)] (Fin 0, a)) (\<lambda>(sum, a).
             let a = double_recent a in Inr (P_of q_weight sum a, a))
      else rbind (rfold (score_entry log2) [0..<unat (queued_items a)] (Fin 0, a)) (\<lambda>(sum, a).
             Inr (P_of q_perf_score sum a, a)))"

section \<open>The alias method on arrays\<close>

record vose =
  vP :: "dbl list"
  vSmall :: "u32 list"
  vnSmall :: u32
  vLarge :: "u32 list"
  vnLarge :: u32
  vprob :: "dbl list"
  valias :: "u32 list"

definition vose_init :: "u32 \<Rightarrow> dbl list \<Rightarrow> vose" where
  "vose_init n P = \<lparr>vP = P, vSmall = replicate (unat n) 0, vnSmall = 0, vLarge = replicate (unat n) 0, vnLarge = n - 1,
     vprob = replicate (unat n) (Fin 0), valias = replicate (unat n) 0\<rparr>"

definition push_small :: "u32 \<Rightarrow> vose \<Rightarrow> vose" where
  "push_small j v = v\<lparr>vSmall := (vSmall v)[unat (vnSmall v) := j], vnSmall := vnSmall v + 1\<rparr>"

definition push_large :: "u32 \<Rightarrow> vose \<Rightarrow> vose" where
  "push_large j v = v\<lparr>vLarge := (vLarge v)[unat (vnLarge v) := j], vnLarge := vnLarge v - 1\<rparr>"

definition place :: "u32 \<Rightarrow> vose \<Rightarrow> vose" where
  "place j v = (if dlt (vP v ! unat j) (Fin 1) then push_small j v else push_large j v)"

text \<open>\<open>for (s32 j = (s32)(n - 1); j >= 0; j--)\<close>\<close>

definition split_P :: "u32 \<Rightarrow> vose \<Rightarrow> vose" where
  "split_P n v = fold (\<lambda>j. place (of_nat j)) (rev [0..<nat (sint (n - 1) + 1)]) v"

definition pair_step :: "vose \<Rightarrow> vose" where
  "pair_step v =
     (let nSmall = vnSmall v - 1; small = vSmall v ! unat nSmall;
          nLarge = vnLarge v + 1; large = vLarge v ! unat nLarge;
          v = v\<lparr>vnSmall := nSmall, vnLarge := nLarge,
                vprob := (vprob v)[unat small := vP v ! unat small],
                valias := (valias v)[unat small := large],
                vP := (vP v)[unat large := dsub (vP v ! unat large) (dsub (Fin 1) (vP v ! unat small))]\<rparr>
      in place large v)"

text \<open>The loop on fuel; as many steps as there are entries are enough.\<close>

fun pair_loop :: "nat \<Rightarrow> u32 \<Rightarrow> vose \<Rightarrow> vose option" where
  "pair_loop 0 n v = (if vnSmall v \<noteq> 0 \<and> vnLarge v \<noteq> n - 1 then None else Some v)"
| "pair_loop (Suc k) n v = (if vnSmall v \<noteq> 0 \<and> vnLarge v \<noteq> n - 1 then pair_loop k n (pair_step v) else Some v)"

definition fill_rest :: "u32 \<Rightarrow> vose \<Rightarrow> vose" where
  "fill_rest n v =
     (let v = v\<lparr>vprob := fold (\<lambda>k p. p[unat (vSmall v ! k) := Fin 1]) (rev [0..<unat (vnSmall v)]) (vprob v), vnSmall := 0\<rparr>
      in v\<lparr>vprob := fold (\<lambda>k p. p[unat (vLarge v ! k) := Fin 1]) [unat (vnLarge v + 1)..<unat n] (vprob v), vnLarge := n - 1\<rparr>)"

definition create_alias_table ::
  "(dbl \<Rightarrow> dbl) \<Rightarrow> (dbl \<Rightarrow> dbl) \<Rightarrow> (dbl \<Rightarrow> dbl) \<Rightarrow> afl_state \<Rightarrow> afl_state option res" where
  "create_alias_table logd log10 log2 a =
     rbind (collect_P logd log10 log2 a) (\<lambda>(P, a).
       Inr (map_option (\<lambda>v. let v = fill_rest (queued_items a) v
                            in a\<lparr>alias_probability := vprob v, alias_table := valias v, reinit_table := False\<rparr>)
              (pair_loop (unat (queued_items a)) (queued_items a) (split_P (queued_items a) (vose_init (queued_items a) P)))))"

definition select_next_queue_entry ::
  "nat \<Rightarrow> (u64 \<times> u64 \<times> u64) res \<Rightarrow> afl_state \<Rightarrow> (u32 \<times> afl_state) option res" where
  "select_next_queue_entry fuel urandom a =
     obind (rand_below fuel urandom (queued_items a) a) (\<lambda>s a.
       let (p, a) = rand_next_percent a
       in if length (alias_probability a) \<le> unat s \<or> length (alias_table a) \<le> unat s
          then Inl (UB ''read outside the alias table'')
          else Inr (Some (if dlt p (alias_probability a ! unat s) then s else alias_table a ! unat s, a)))"

section \<open>The alias method on stacks\<close>

text \<open>
  The method over any arithmetic: \<open>lt1 x\<close> stands for \<open>x < 1\<close> and \<open>take_from p q\<close> for
  \<open>p - (1 - q)\<close>. \<open>ss\<close> and \<open>ls\<close> are the indices still to be settled, tops first.
\<close>

type_synonym 'a table = "'a list \<times> 'a list \<times> nat list"

function settle :: "('a \<Rightarrow> bool) \<Rightarrow> ('a \<Rightarrow> 'a \<Rightarrow> 'a) \<Rightarrow> nat list \<Rightarrow> nat list \<Rightarrow> 'a table \<Rightarrow> nat list \<times> nat list \<times> 'a table" where
  "settle lt1 take_from (s # ss) (l # ls) (P, prob, al) =
     (let P' = P[l := take_from (P ! l) (P ! s)]; prob' = prob[s := P ! s]; al' = al[s := l]
      in if lt1 (P' ! l) then settle lt1 take_from (l # ss) ls (P', prob', al')
         else settle lt1 take_from ss (l # ls) (P', prob', al'))"
| "settle lt1 take_from [] ls t = ([], ls, t)"
| "settle lt1 take_from ss [] t = (ss, [], t)"
  by pat_completeness auto

termination
  by (relation "measure (\<lambda>(_, _, ss, ls, _). length ss + length ls)") auto

definition set_all :: "'a \<Rightarrow> nat list \<Rightarrow> 'a list \<Rightarrow> 'a list" where
  "set_all x is p = fold (\<lambda>i p. p[i := x]) is p"

definition alias_method :: "('a \<Rightarrow> bool) \<Rightarrow> ('a \<Rightarrow> 'a \<Rightarrow> 'a) \<Rightarrow> 'a \<Rightarrow> 'a \<Rightarrow> 'a list \<Rightarrow> 'a list \<times> nat list" where
  "alias_method lt1 take_from zero one P =
     (let n = length P;
          ss = filter (\<lambda>j. lt1 (P ! j)) [0..<n]; ls = filter (\<lambda>j. \<not> lt1 (P ! j)) [0..<n];
          (ss, ls, _, prob, al) = settle lt1 take_from ss ls (P, replicate n zero, replicate n 0)
      in (set_all one ls (set_all one ss prob), al))"

lemma length_set_all [simp]: "length (set_all x is p) = length p"
  unfolding set_all_def by (induction "is" arbitrary: p) auto

lemma nth_set_all: "i < length p \<Longrightarrow> set_all x is p ! i = (if i \<in> set is then x else p ! i)"
  unfolding set_all_def by (induction "is" arbitrary: p) auto

text \<open>
  The invariant of the loop, relative to the initial vector \<open>P0\<close>: the stacks are disjoint, their
  entries are on the right side of 1, every settled index has an alias that started out large, and
  an index that started out small keeps its weight.
\<close>

definition settle_inv :: "('a \<Rightarrow> bool) \<Rightarrow> 'a list \<Rightarrow> nat list \<Rightarrow> nat list \<Rightarrow> 'a table \<Rightarrow> bool" where
  "settle_inv lt1 P0 ss ls = (\<lambda>(P, prob, al).
     let n = length P0
     in length P = n \<and> length prob = n \<and> length al = n \<and> (\<forall>j < n. al ! j < n) \<and> distinct (ss @ ls) \<and> set (ss @ ls) \<subseteq> {..<n} \<and>
        (\<forall>s \<in> set ss. lt1 (P ! s)) \<and> (\<forall>l \<in> set ls. \<not> lt1 (P ! l) \<and> \<not> lt1 (P0 ! l)) \<and>
        (\<forall>j < n. j \<notin> set (ss @ ls) \<longrightarrow> lt1 (prob ! j) \<and> al ! j < n \<and> \<not> lt1 (P0 ! (al ! j))) \<and>
        (\<forall>j < n. lt1 (P0 ! j) \<longrightarrow> (if j \<in> set ss then P ! j else prob ! j) = P0 ! j))"

lemma settle_inv_step:
  fixes take_from :: "'a \<Rightarrow> 'a \<Rightarrow> 'a"
  assumes "settle_inv lt1 P0 (s # ss) (l # ls) (P, prob, al)"
  defines "P' \<equiv> P[l := take_from (P ! l) (P ! s)]"
  defines "t' \<equiv> (P', prob[s := P ! s], al[s := l])"
  shows "if lt1 (P' ! l) then settle_inv lt1 P0 (l # ss) ls t' else settle_inv lt1 P0 ss (l # ls) t'"
  using assms by (auto simp: settle_inv_def Let_def nth_list_update)

lemma settle_invariant:
  assumes "settle_inv lt1 P0 ss ls t" and "settle lt1 take_from ss ls t = (ss', ls', t')"
  shows "settle_inv lt1 P0 ss' ls' t' \<and> (ss' = [] \<or> ls' = [])"
  using assms
proof (induction lt1 take_from ss ls t rule: settle.induct)
  case (1 lt1 take_from s ss l ls P prob al)
  then show ?case using settle_inv_step [OF 1(3), of take_from] by (auto simp: Let_def split: if_splits)
qed auto

lemma settle_inv_start:
  "settle_inv lt1 P (filter (\<lambda>j. lt1 (P ! j)) [0..<length P]) (filter (\<lambda>j. \<not> lt1 (P ! j)) [0..<length P])
     (P, replicate (length P) z, replicate (length P) 0)"
  by (auto simp: settle_inv_def Let_def)

text \<open>Every entry of the finished table is certain, or has an alias that started out large.\<close>

lemma alias_method_table:
  assumes "alias_method lt1 take_from zero one P = (prob, al)"
  shows "length prob = length P \<and> length al = length P \<and> (\<forall>i < length P. al ! i < length P) \<and>
    (\<forall>i < length P. prob ! i = one \<or>
       lt1 (prob ! i) \<and> al ! i < length P \<and> \<not> lt1 (P ! (al ! i)) \<and> (lt1 (P ! i) \<longrightarrow> prob ! i = P ! i))"
proof -
  obtain ss ls P' p where st: "settle lt1 take_from (filter (\<lambda>j. lt1 (P ! j)) [0..<length P]) (filter (\<lambda>j. \<not> lt1 (P ! j)) [0..<length P])
      (P, replicate (length P) zero, replicate (length P) 0) = (ss, ls, P', p, al)"
    and prob: "prob = set_all one ls (set_all one ss p)"
    using assms by (auto simp: alias_method_def Let_def split: prod.splits)
  have "settle_inv lt1 P ss ls (P', p, al)" using settle_invariant [OF settle_inv_start st] by blast
  then show ?thesis unfolding prob by (auto simp: settle_inv_def Let_def nth_set_all)
qed


section \<open>Exact arithmetic\<close>

definition donated :: "nat \<Rightarrow> nat set \<Rightarrow> rat list \<Rightarrow> nat list \<Rightarrow> nat \<Rightarrow> rat" where
  "donated n S prob al i = (\<Sum>j \<in> {..<n} - S. if al ! j = i then 1 - prob ! j else 0)"

text \<open>What index \<open>i\<close> holds, settled or not, plus what others donate to it, is its initial weight.\<close>

definition mass_inv :: "rat list \<Rightarrow> nat list \<Rightarrow> nat list \<Rightarrow> rat table \<Rightarrow> bool" where
  "mass_inv P0 ss ls = (\<lambda>(P, prob, al).
     let n = length P0; S = set (ss @ ls)
     in (\<forall>i < n. (if i \<in> S then P ! i else prob ! i) + donated n S prob al i = P0 ! i) \<and>
        (\<Sum>i \<in> S. P ! i) = of_nat (card S))"

abbreviation settle_rat :: "nat list \<Rightarrow> nat list \<Rightarrow> rat table \<Rightarrow> nat list \<times> nat list \<times> rat table" where
  "settle_rat \<equiv> settle (\<lambda>x. x < 1) (\<lambda>p q. p - (1 - q))"

lemma donated_step:
  assumes "s \<in> S" and "s < n" and "s < length prob" "s < length al"
  shows "donated n (S - {s}) (prob[s := p]) (al[s := l]) i = donated n S prob al i + (if l = i then 1 - p else 0)"
proof -
  have neq: "al[s := l] ! x = al ! x" "prob[s := p] ! x = prob ! x" if "x \<notin> S" for x
    using that assms(1) by (metis nth_list_update_neq)+
  have e: "{..<n} - (S - {s}) = insert s ({..<n} - S)" using assms by auto
  have "(\<Sum>j \<in> {..<n} - S. if al[s := l] ! j = i then 1 - prob[s := p] ! j else 0) = donated n S prob al i"
    unfolding donated_def by (rule sum.cong) (auto simp: neq)
  then show ?thesis using assms by (simp add: donated_def e)
qed

lemma mass_step:
  assumes "settle_inv lt1 P0 (s # ss) (l # ls) (P, prob, al)" and "mass_inv P0 (s # ss) (l # ls) (P, prob, al)"
  defines "t' \<equiv> (P[l := P ! l - (1 - P ! s)], prob[s := P ! s], al[s := l])"
  shows "mass_inv P0 (l # ss) ls t' \<and> mass_inv P0 ss (l # ls) t'"
proof -
  let ?n = "length P0" and ?S = "set ((s # ss) @ l # ls)"
  have a: "length P = ?n" "length prob = ?n" "length al = ?n" "s \<noteq> l" "s < ?n" "l < ?n" "s \<notin> set ss" "s \<notin> set ls" "l \<notin> set ss" "l \<notin> set ls"
    using assms(1) by (auto simp: settle_inv_def Let_def)
  have S: "set ((l # ss) @ ls) = ?S - {s}" "set (ss @ l # ls) = ?S - {s}" using a by auto
  have m: "(if i \<in> ?S then P ! i else prob ! i) + donated ?n ?S prob al i = P0 ! i" if "i < ?n" for i
    using assms(2) that by (simp add: mass_inv_def Let_def)
  have sumP: "(\<Sum>i \<in> ?S. P ! i) = of_nat (card ?S)" using assms(2) by (simp add: mass_inv_def Let_def)
  have m': "(if i \<in> ?S - {s} then P[l := P ! l - (1 - P ! s)] ! i else prob[s := P ! s] ! i) +
      donated ?n (?S - {s}) (prob[s := P ! s]) (al[s := l]) i = P0 ! i" if "i < ?n" for i
    using m [OF that] a that donated_step [of s ?S ?n prob al "P ! s" l i]
    by (auto simp: nth_list_update split: if_splits)
  have "(\<Sum>i \<in> ?S - {s}. P[l := P ! l - (1 - P ! s)] ! i) = (\<Sum>i \<in> ?S - {s}. P ! i) - (1 - P ! s)"
  proof -
    have "(\<Sum>i \<in> ?S - {s}. P[l := P ! l - (1 - P ! s)] ! i) = (\<Sum>i \<in> ?S - {s}. P ! i - (if l = i then 1 - P ! s else 0))"
      by (rule sum.cong) (use a in \<open>auto simp: nth_list_update\<close>)
    then show ?thesis using a by (simp add: sum_subtractf)
  qed
  also have "\<dots> = of_nat (card (?S - {s}))"
    using sumP sum.remove [of ?S s "(!) P"] card_Suc_Diff1 [of ?S s] by (simp add: algebra_simps flip: of_nat_Suc)
  finally have "(\<Sum>i \<in> ?S - {s}. P[l := P ! l - (1 - P ! s)] ! i) = of_nat (card (?S - {s}))" .
  then show ?thesis using m' unfolding mass_inv_def t'_def split_conv Let_def S by blast
qed

lemma settle_mass:
  assumes "settle_inv (\<lambda>x. x < 1) P0 ss ls t" and "mass_inv P0 ss ls t" and "settle_rat ss ls t = (ss', ls', t')"
  shows "mass_inv P0 ss' ls' t'"
  using assms
proof (induction "\<lambda>x :: rat. x < 1" "\<lambda>p q :: rat. p - (1 - q)" ss ls t rule: settle.induct)
  case (1 s ss l ls P prob al)
  then show ?case using settle_inv_step [OF 1(3), of "\<lambda>p q. p - (1 - q)"] mass_step [OF 1(3, 4)]
    by (auto simp: Let_def split: if_splits)
qed auto


text \<open>When the loop stops, every index that is not settled holds exactly 1.\<close>

lemma settle_rest:
  assumes "settle_inv (\<lambda>x. x < 1) P0 ss ls (P, prob, al)" and "mass_inv P0 ss ls (P, prob, al)" and "ss = [] \<or> ls = []"
    and "i \<in> set (ss @ ls)"
  shows "P ! i = 1"
proof -
  let ?S = "set (ss @ ls)"
  have "(\<Sum>i \<in> ?S. P ! i) = of_nat (card ?S)" using assms(2) by (simp add: mass_inv_def Let_def)
  then have z: "(\<Sum>i \<in> ?S. P ! i - 1) = 0" by (simp only: sum_subtractf) simp
  show ?thesis
  proof (cases "ss = []")
    case True
    then have "\<forall>i \<in> ?S. 0 \<le> P ! i - 1" using assms(1) by (auto simp: settle_inv_def Let_def not_less)
    then have "P ! i - 1 = 0" using z assms(4) sum_nonneg_eq_0_iff [of ?S "\<lambda>i. P ! i - 1"] by auto
    then show ?thesis by simp
  next
    case False
    then have "ls = []" using assms(3) by blast
    have "(\<Sum>i \<in> ?S. P ! i - 1) < 0"
      by (rule sum_strict_mono [where g = "\<lambda>_. 0", simplified]) (use assms(1) False \<open>ls = []\<close> in \<open>auto simp: settle_inv_def Let_def\<close>)
    then show ?thesis using z by simp
  qed
qed

lemma alias_method_exact:
  fixes P0 :: "rat list"
  assumes "sum_list P0 = of_nat (length P0)" and "alias_method (\<lambda>x. x < 1) (\<lambda>p q. p - (1 - q)) 0 1 P0 = (prob, al)"
    and "i < length P0"
  shows "prob ! i + (\<Sum>j < length P0. if al ! j = i then 1 - prob ! j else 0) = P0 ! i"
proof -
  let ?n = "length P0"
  let ?ss = "filter (\<lambda>j. P0 ! j < 1) [0..<?n]" and ?ls = "filter (\<lambda>j. \<not> P0 ! j < 1) [0..<?n]"
  obtain ss ls P p where st: "settle_rat ?ss ?ls (P0, replicate ?n 0, replicate ?n 0) = (ss, ls, P, p, al)"
    and prob: "prob = set_all 1 ls (set_all 1 ss p)"
    using assms(2) by (auto simp: alias_method_def Let_def split: prod.splits)
  have S: "set (?ss @ ?ls) = {..<?n}" by auto
  have "(\<Sum>i < ?n. P0 ! i) = of_nat ?n" using assms(1) by (simp add: sum_list_sum_nth atLeast0LessThan)
  then have start: "mass_inv P0 ?ss ?ls (P0, replicate ?n 0, replicate ?n 0)"
    unfolding mass_inv_def split_conv Let_def S by (simp add: donated_def)
  have inv: "settle_inv (\<lambda>x. x < 1) P0 ss ls (P, p, al)" "ss = [] \<or> ls = []"
    using settle_invariant [OF settle_inv_start st] by blast+
  have mass: "mass_inv P0 ss ls (P, p, al)" using settle_mass [OF settle_inv_start start st] .
  let ?S = "set (ss @ ls)"
  have len: "length p = ?n" "?S \<subseteq> {..<?n}" using inv(1) by (auto simp: settle_inv_def Let_def)
  have pr: "prob ! j = (if j \<in> ?S then P ! j else p ! j)" if "j < ?n" for j
    using that len settle_rest [OF inv(1) mass inv(2)] by (auto simp: prob nth_set_all)
  have "(\<Sum>j < ?n. if al ! j = i then 1 - prob ! j else 0) = (\<Sum>j \<in> {..<?n} - ?S. if al ! j = i then 1 - prob ! j else 0)"
    using pr settle_rest [OF inv(1) mass inv(2)] len(2) by (intro sum.mono_neutral_right) auto
  also have "\<dots> = donated ?n ?S p al i" unfolding donated_def by (rule sum.cong) (auto simp: pr)
  finally show ?thesis using mass assms(3) pr [OF assms(3)] by (simp add: mass_inv_def Let_def)
qed

section \<open>The arrays implement the stacks\<close>

definition small_stack :: "vose \<Rightarrow> nat list" where
  "small_stack v = map unat (rev (take (unat (vnSmall v)) (vSmall v)))"

definition large_stack :: "vose \<Rightarrow> nat list" where
  "large_stack v = map unat (drop (unat (vnLarge v + 1)) (vLarge v))"

definition vtable :: "vose \<Rightarrow> dbl table" where
  "vtable v = (vP v, vprob v, map unat (valias v))"

definition arrays_ok :: "u32 \<Rightarrow> vose \<Rightarrow> bool" where
  "arrays_ok n v \<longleftrightarrow> unat n \<le> 2 ^ 31 \<and> length (vP v) = unat n \<and> length (vSmall v) = unat n \<and> length (vLarge v) = unat n \<and>
     length (vprob v) = unat n \<and> length (valias v) = unat n \<and> unat (vnSmall v) \<le> unat (vnLarge v + 1) \<and>
     unat (vnLarge v + 1) \<le> unat n \<and> set (small_stack v @ large_stack v) \<subseteq> {..<unat n}"

abbreviation lt1 :: "dbl \<Rightarrow> bool" where
  "lt1 x \<equiv> dlt x (Fin 1)"

abbreviation dtake :: "dbl \<Rightarrow> dbl \<Rightarrow> dbl" where
  "dtake p q \<equiv> dsub p (dsub (Fin 1) q)"

lemma unat_pred: "unat ((w :: u32) + 1) = m \<Longrightarrow> 0 < m \<Longrightarrow> unat w = m - 1"
  by (metis add_diff_cancel_right' unat_eq_0 unat_minus_one gr_implies_not0)

lemma room_small:
  assumes "arrays_ok n v" and "unat (vnSmall v) < unat (vnLarge v + 1)" and "unat j < unat n"
  shows "arrays_ok n (push_small j v)" "small_stack (push_small j v) = unat j # small_stack v"
    "large_stack (push_small j v) = large_stack v"
proof -
  let ?k = "unat (vnSmall v)"
  have "?k < 2 ^ 31" using assms by (auto simp: arrays_ok_def)
  then have k: "unat (vnSmall v + 1) = Suc ?k" by (simp add: unat_word_ariths)
  have len: "?k < length (vSmall v)" using assms by (auto simp: arrays_ok_def)
  show s: "small_stack (push_small j v) = unat j # small_stack v"
    unfolding small_stack_def push_small_def using len by (simp add: k take_Suc_conv_app_nth)
  show l: "large_stack (push_small j v) = large_stack v" by (simp add: large_stack_def push_small_def)
  show "arrays_ok n (push_small j v)" using assms k unfolding arrays_ok_def s l by (simp add: push_small_def)
qed

lemma room_large:
  assumes "arrays_ok n v" and "unat (vnSmall v) < unat (vnLarge v + 1)" and "unat j < unat n"
  shows "arrays_ok n (push_large j v)" "large_stack (push_large j v) = unat j # large_stack v"
    "small_stack (push_large j v) = small_stack v"
proof -
  let ?m = "unat (vnLarge v + 1)"
  have m: "unat (vnLarge v) = ?m - 1" using assms by (intro unat_pred) auto
  have len: "?m - 1 < length (vLarge v)" "Suc (?m - 1) = ?m" using assms by (auto simp: arrays_ok_def)
  show l: "large_stack (push_large j v) = unat j # large_stack v"
    unfolding large_stack_def push_large_def using len by (simp add: m Cons_nth_drop_Suc [symmetric])
  show s: "small_stack (push_large j v) = small_stack v" by (simp add: small_stack_def push_large_def)
  show "arrays_ok n (push_large j v)" using assms m unfolding arrays_ok_def s l by (simp add: push_large_def) linarith
qed

lemma vtable_push [simp]: "vtable (push_small j v) = vtable v" "vtable (push_large j v) = vtable v"
  by (simp_all add: vtable_def push_small_def push_large_def)

lemma stack_sizes:
  assumes "arrays_ok n v"
  shows "length (small_stack v) = unat (vnSmall v)" "length (large_stack v) = unat n - unat (vnLarge v + 1)"
  using assms by (auto simp: arrays_ok_def small_stack_def large_stack_def)

lemma place_stacks:
  assumes "arrays_ok n v" and "unat (vnSmall v) < unat (vnLarge v + 1)" and "unat j < unat n"
  shows "arrays_ok n (place j v)" "vtable (place j v) = vtable v"
    "small_stack (place j v) = (if lt1 (vP v ! unat j) then unat j # small_stack v else small_stack v)"
    "large_stack (place j v) = (if lt1 (vP v ! unat j) then large_stack v else unat j # large_stack v)"
  using room_small [OF assms] room_large [OF assms] by (simp_all add: place_def)

lemma unat_of_index: "j < unat (n :: u32) \<Longrightarrow> unat (of_nat j :: u32) = j"
proof -
  assume "j < unat n"
  moreover have "unat n < 2 ^ 32" using unsigned_less [of n] by simp
  ultimately have "j < 2 ^ 32" by linarith
  then show ?thesis by (simp add: unsigned_of_nat take_bit_nat_eq_self)
qed

text \<open>The partition loop leaves the two kinds of indices in increasing order, smallest on top.\<close>

lemma split_stacks:
  assumes "unat n \<le> 2 ^ 31" and "length P = unat n" and "i \<le> unat n"
  defines "v \<equiv> fold (\<lambda>j. place (of_nat j)) (rev [i..<unat n]) (vose_init n P)"
  shows "arrays_ok n v \<and> vtable v = (P, replicate (unat n) (Fin 0), replicate (unat n) 0) \<and>
    small_stack v = filter (\<lambda>j. lt1 (P ! j)) [i..<unat n] \<and> large_stack v = filter (\<lambda>j. \<not> lt1 (P ! j)) [i..<unat n]"
  using assms(3) unfolding v_def
proof (induction i rule: inc_induct)
  case base
  then show ?case using assms(1, 2)
    by (simp add: vose_init_def arrays_ok_def small_stack_def large_stack_def vtable_def)
next
  case (step i)
  let ?f = "\<lambda>i. fold (\<lambda>j. place (of_nat j)) (rev [i..<unat n]) (vose_init n P)"
  have IH: "arrays_ok n (?f (Suc i))" "vtable (?f (Suc i)) = (P, replicate (unat n) (Fin 0), replicate (unat n) 0)"
    "small_stack (?f (Suc i)) = filter (\<lambda>j. lt1 (P ! j)) [Suc i..<unat n]"
    "large_stack (?f (Suc i)) = filter (\<lambda>j. \<not> lt1 (P ! j)) [Suc i..<unat n]" using step.IH by auto
  have i: "unat (of_nat i :: u32) = i" using unat_of_index [of i n] step.hyps by simp
  have e: "?f i = place (of_nat i) (?f (Suc i))" using step.hyps by (simp add: upt_conv_Cons)
  have "length (small_stack (?f (Suc i))) + length (large_stack (?f (Suc i))) = unat n - Suc i"
    unfolding IH using sum_length_filter_compl [of "\<lambda>j. lt1 (P ! j)" "[Suc i..<unat n]"] by simp
  then have room: "unat (vnSmall (?f (Suc i))) < unat (vnLarge (?f (Suc i)) + 1)"
    using stack_sizes [OF IH(1)] step.hyps IH(1) by (auto simp: arrays_ok_def)
  have P: "vP (?f (Suc i)) = P" using IH(2) by (simp add: vtable_def)
  show ?case unfolding e using place_stacks [OF IH(1) room, of "of_nat i"] IH step.hyps i P
    by (simp add: upt_conv_Cons)
qed


lemma pair_step_stacks:
  assumes ok: "arrays_ok n v" and go: "vnSmall v \<noteq> 0" "vnLarge v \<noteq> n - 1"
  obtains s ss l ls where "small_stack v = s # ss" "large_stack v = l # ls" "arrays_ok n (pair_step v)"
    "settle lt1 dtake (s # ss) (l # ls) (vtable v) =
     settle lt1 dtake (small_stack (pair_step v)) (large_stack (pair_step v)) (vtable (pair_step v))"
    "length (small_stack (pair_step v)) + length (large_stack (pair_step v)) < length (small_stack v) + length (large_stack v)"
proof -
  let ?k = "unat (vnSmall v)" and ?m = "unat (vnLarge v + 1)" and ?N = "unat n"
  have k: "0 < ?k" "unat (vnSmall v - 1) = ?k - 1" using go(1) by (simp_all add: unat_gt_0 unat_minus_one)
  have "vnLarge v + 1 \<noteq> n" using go(2) by auto
  then have m: "?m < ?N" using ok by (simp add: arrays_ok_def word_unat_eq_iff)
  have N: "?N \<le> 2 ^ 31" "?k \<le> ?m" "length (vSmall v) = ?N" "length (vLarge v) = ?N" using ok by (simp_all add: arrays_ok_def)
  have suc: "unat (w + 1) = Suc (unat w)" if "unat w < 2 ^ 31" for w :: u32 using that by (simp add: unat_word_ariths)
  have "unat (vnLarge v + 1 + 1) = Suc ?m" by (rule suc) (use m N in linarith)
  then have m1: "unat (2 + vnLarge v) = Suc ?m" by (simp add: algebra_simps)
  define small large where "small = vSmall v ! (?k - 1)" and "large = vLarge v ! ?m"
  have ss: "small_stack v = unat small # map unat (rev (take (?k - 1) (vSmall v)))"
    unfolding small_stack_def small_def using take_Suc_conv_app_nth [of "?k - 1" "vSmall v"] k N m by simp
  have ls: "large_stack v = unat large # map unat (drop (Suc ?m) (vLarge v))"
    unfolding large_stack_def large_def using Cons_nth_drop_Suc [of ?m "vLarge v"] m N by (simp flip: Cons_nth_drop_Suc)
  define w where "w = v\<lparr>vnSmall := vnSmall v - 1, vnLarge := vnLarge v + 1,
      vprob := (vprob v)[unat small := vP v ! unat small], valias := (valias v)[unat small := large],
      vP := (vP v)[unat large := dtake (vP v ! unat large) (vP v ! unat small)]\<rparr>"
  have step: "pair_step v = place large w"
    unfolding pair_step_def w_def small_def large_def Let_def k(2) ..
  have sw: "small_stack w = map unat (rev (take (?k - 1) (vSmall v)))" "large_stack w = map unat (drop (Suc ?m) (vLarge v))"
    by (simp_all add: w_def small_stack_def large_stack_def k m1)
  have sub: "set (small_stack v @ large_stack v) \<subseteq> {..<?N}" using ok by (simp add: arrays_ok_def)
  then have lN: "unat large < ?N" using ls by simp
  have okw: "arrays_ok n w" using ok sub k m N m1 unfolding arrays_ok_def sw ss ls by (simp add: w_def)
  have room: "unat (vnSmall w) < unat (vnLarge w + 1)" using k N by (simp add: w_def m1)
  note pl = place_stacks [OF okw room lN]
  have tw: "vtable w = ((vP v)[unat large := dtake (vP v ! unat large) (vP v ! unat small)],
      (vprob v)[unat small := vP v ! unat small], (map unat (valias v))[unat small := unat large])"
    by (simp add: w_def vtable_def map_update)
  have vPw: "vP w = (vP v)[unat large := dtake (vP v ! unat large) (vP v ! unat small)]" by (simp add: w_def)
  have "settle lt1 dtake (unat small # small_stack w) (unat large # large_stack w) (vtable v) =
      settle lt1 dtake (small_stack (pair_step v)) (large_stack (pair_step v)) (vtable (pair_step v))"
    unfolding step pl by (simp add: vtable_def [of v] Let_def tw vPw)
  moreover have "length (small_stack (pair_step v)) + length (large_stack (pair_step v)) < length (small_stack v) + length (large_stack v)"
    unfolding step pl ss ls sw by simp
  ultimately show ?thesis using that [OF ss ls] pl(1) unfolding step sw by blast
qed

text \<open>The loop on arrays ends within its fuel and agrees with the loop on stacks.\<close>

lemma pair_loop_settle:
  assumes "arrays_ok n v" and "length (small_stack v) + length (large_stack v) \<le> k"
  shows "\<exists>v'. pair_loop k n v = Some v' \<and> arrays_ok n v' \<and>
    settle lt1 dtake (small_stack v) (large_stack v) (vtable v) = (small_stack v', large_stack v', vtable v')"
  using assms
proof (induction k arbitrary: v)
  case 0
  then have z: "small_stack v = []" by simp
  then have "vnSmall v = 0" using stack_sizes(1) [OF 0(1)] by (simp add: unat_eq_0)
  then show ?case using 0 z by simp
next
  case (Suc k)
  show ?case
  proof (cases "vnSmall v \<noteq> 0 \<and> vnLarge v \<noteq> n - 1")
    case True
    then obtain s ss l ls where st: "small_stack v = s # ss" "large_stack v = l # ls" "arrays_ok n (pair_step v)"
      "settle lt1 dtake (s # ss) (l # ls) (vtable v) =
       settle lt1 dtake (small_stack (pair_step v)) (large_stack (pair_step v)) (vtable (pair_step v))"
      "length (small_stack (pair_step v)) + length (large_stack (pair_step v)) < length (small_stack v) + length (large_stack v)"
      using pair_step_stacks [OF Suc.prems(1)] by metis
    then show ?thesis using Suc.IH [of "pair_step v"] Suc.prems(2) True by auto
  next
    case False
    have "small_stack v = [] \<or> large_stack v = []"
      using False stack_sizes [OF Suc.prems(1)] by (auto simp: unat_eq_0)
    then have "settle lt1 dtake (small_stack v) (large_stack v) (vtable v) = (small_stack v, large_stack v, vtable v)"
      by (cases "small_stack v"; cases "large_stack v") auto
    then show ?thesis using False Suc.prems by auto
  qed
qed

lemma fill_rest_all:
  assumes "arrays_ok n v"
  shows "vprob (fill_rest n v) = set_all (Fin 1) (large_stack v) (set_all (Fin 1) (small_stack v) (vprob v))"
    and "valias (fill_rest n v) = valias v"
proof -
  have fm: "fold (\<lambda>k p. p[f k := x]) ks p = set_all x (map f ks) p" for f :: "nat \<Rightarrow> nat" and x :: dbl and ks p
    unfolding set_all_def by (induction ks arbitrary: p) auto
  have "map (\<lambda>k. unat (vSmall v ! k)) (rev [0..<unat (vnSmall v)]) = small_stack v"
    unfolding small_stack_def using assms
    by (auto simp: arrays_ok_def rev_map [symmetric] intro!: nth_equalityI)
  moreover have "map (\<lambda>k. unat (vLarge v ! k)) [unat (vnLarge v + 1)..<unat n] = large_stack v"
    unfolding large_stack_def using assms by (auto simp: arrays_ok_def intro!: nth_equalityI)
  ultimately show "vprob (fill_rest n v) = set_all (Fin 1) (large_stack v) (set_all (Fin 1) (small_stack v) (vprob v))"
    by (simp add: fill_rest_def Let_def fm [where f = "\<lambda>k. unat (vSmall v ! k)"] fm [where f = "\<lambda>k. unat (vLarge v ! k)"])
  show "valias (fill_rest n v) = valias v" by (simp add: fill_rest_def Let_def)
qed

lemma sint_last:
  assumes "unat n \<le> 2 ^ 31"
  shows "nat (sint ((n :: u32) - 1) + 1) = unat n"
proof (cases "n = 0")
  case True
  then show ?thesis by simp
next
  case False
  then have u: "unat (n - 1) = unat n - 1" "0 < unat n" by (simp_all add: unat_minus_one unat_gt_0)
  have "sint (n - 1) = int (unat (n - 1))"
  proof -
    have "unat (n - 1) < 2 ^ 31" using u assms by linarith
    then have "uint (n - 1) < 2 ^ 31" by (metis of_nat_less_iff of_nat_numeral of_nat_power uint_nat)
    then have "sint (n - 1) = uint (n - 1)" unfolding sint_uint by (intro signed_take_bit_int_eq_self) (simp_all add: order_trans [of _ 0])
    then show ?thesis by (simp only: uint_nat)
  qed
  then show ?thesis using u by simp
qed


section \<open>The table\<close>

lemma alias_arrays_impl:
  assumes "unat n \<le> 2 ^ 31" and "length P = unat n"
  shows "\<exists>v. pair_loop (unat n) n (split_P n (vose_init n P)) = Some v \<and>
    (vprob (fill_rest n v), map unat (valias (fill_rest n v))) = alias_method lt1 dtake (Fin 0) (Fin 1) P"
proof -
  let ?v = "split_P n (vose_init n P)"
  let ?ss = "filter (\<lambda>j. lt1 (P ! j)) [0..<unat n]" and ?ls = "filter (\<lambda>j. \<not> lt1 (P ! j)) [0..<unat n]"
  have v: "arrays_ok n ?v" "vtable ?v = (P, replicate (unat n) (Fin 0), replicate (unat n) 0)"
    "small_stack ?v = ?ss" "large_stack ?v = ?ls"
    using split_stacks [OF assms, of 0] unfolding split_P_def sint_last [OF assms(1)] by auto
  have "length (small_stack ?v) + length (large_stack ?v) \<le> unat n"
    unfolding v using sum_length_filter_compl [of "\<lambda>j. lt1 (P ! j)" "[0..<unat n]"] by simp
  from pair_loop_settle [OF v(1) this] obtain v' where v': "pair_loop (unat n) n ?v = Some v'" "arrays_ok n v'"
    "settle lt1 dtake ?ss ?ls (P, replicate (unat n) (Fin 0), replicate (unat n) 0) = (small_stack v', large_stack v', vtable v')"
    unfolding v by blast
  then have "alias_method lt1 dtake (Fin 0) (Fin 1) P =
      (set_all (Fin 1) (large_stack v') (set_all (Fin 1) (small_stack v') (vprob v')), map unat (valias v'))"
    by (simp add: alias_method_def Let_def assms(2) vtable_def)
  then show ?thesis using v'(1) fill_rest_all [OF v'(2)] by auto
qed

text \<open>
  C30: the array code of \<open>create_alias_table\<close> implements the alias method on stacks: for up to 2^31
  weights the pairing loop ends within its fuel, and the probabilities and aliases it leaves are
  those of the abstract method in double arithmetic.
\<close>

theorem alias_arrays_refine:
  assumes "unat n \<le> 2 ^ 31" and "length P = unat n"
  shows "\<exists>v. pair_loop (unat n) n (split_P n (vose_init n P)) = Some v \<and>
    (vprob (fill_rest n v), map unat (valias (fill_rest n v))) = alias_method lt1 dtake (Fin 0) (Fin 1) P"
  by (rule alias_arrays_impl [OF assms])

theorem alias_arrays_refine_witness:
  "\<exists>v. pair_loop 2 2 (split_P 2 (vose_init 2 [Fin (1 / 2), Fin (3 / 2)])) = Some v \<and>
    (vprob (fill_rest 2 v), map unat (valias (fill_rest 2 v))) =
    alias_method lt1 dtake (Fin 0) (Fin 1) [Fin (1 / 2), Fin (3 / 2)]"
  using alias_arrays_refine [of 2 "[Fin (1 / 2), Fin (3 / 2)]"] by simp

lemma P_of_disabled: "i < unat (queued_items a) \<Longrightarrow> q_disabled (queue_buf a ! i) \<Longrightarrow> P_of f s a ! i = Fin 0"
  by (simp add: P_of_def)

lemma collect_P_shape:
  assumes "collect_P logd log10 log2 a = Inr (P, b)"
  obtains f s where "P = P_of f s b"
  using assms by (auto simp: collect_P_def rbind_eq_Inr_iff Let_def split: if_splits)

definition table_ok :: "afl_state \<Rightarrow> bool" where
  "table_ok a \<longleftrightarrow> length (alias_probability a) = unat (queued_items a) \<and> length (alias_table a) = unat (queued_items a) \<and>
     (\<forall>i < unat (queued_items a). unat (alias_table a ! i) < unat (queued_items a)) \<and>
     (\<forall>i < unat (queued_items a). alias_probability a ! i = Fin 1 \<or> \<not> q_disabled (queue_buf a ! unat (alias_table a ! i)) \<and>
        (q_disabled (queue_buf a ! i) \<longrightarrow> alias_probability a ! i = Fin 0))"

lemma create_alias_table_ok:
  assumes "collect_P logd log10 log2 a = Inr (P, b)" and "unat (queued_items b) \<le> 2 ^ 31"
  shows "\<exists>prob al. create_alias_table logd log10 log2 a =
      Inr (Some (b\<lparr>alias_probability := prob, alias_table := al, reinit_table := False\<rparr>)) \<and>
    table_ok (b\<lparr>alias_probability := prob, alias_table := al, reinit_table := False\<rparr>)"
proof -
  let ?n = "queued_items b"
  obtain f s where P: "P = P_of f s b" using collect_P_shape [OF assms(1)] .
  then have len: "length P = unat ?n" by (simp add: P_of_def)
  obtain v where v: "pair_loop (unat ?n) ?n (split_P ?n (vose_init ?n P)) = Some v"
    "alias_method lt1 dtake (Fin 0) (Fin 1) P = (vprob (fill_rest ?n v), map unat (valias (fill_rest ?n v)))"
    using alias_arrays_impl [OF assms(2) len] by metis
  have t: "length (vprob (fill_rest ?n v)) = unat ?n" "length (valias (fill_rest ?n v)) = unat ?n"
    "i < unat ?n \<Longrightarrow> unat (valias (fill_rest ?n v) ! i) < unat ?n" "i < unat ?n \<Longrightarrow> vprob (fill_rest ?n v) ! i = Fin 1 \<or>
       unat (valias (fill_rest ?n v) ! i) < unat ?n \<and> \<not> lt1 (P ! unat (valias (fill_rest ?n v) ! i)) \<and>
       (lt1 (P ! i) \<longrightarrow> vprob (fill_rest ?n v) ! i = P ! i)" for i
    using alias_method_table [OF v(2)] by (auto simp: len)
  have z: "lt1 (P ! i)" "P ! i = Fin 0" if "i < unat ?n" "q_disabled (queue_buf b ! i)" for i
    using P_of_disabled [OF that, of f s] unfolding P by simp_all
  have "vprob (fill_rest ?n v) ! i = Fin 1 \<or> unat (valias (fill_rest ?n v) ! i) < unat ?n \<and>
      \<not> q_disabled (queue_buf b ! unat (valias (fill_rest ?n v) ! i)) \<and>
      (q_disabled (queue_buf b ! i) \<longrightarrow> vprob (fill_rest ?n v) ! i = Fin 0)" if "i < unat ?n" for i
    using t(4) [OF that] z [of "unat (valias (fill_rest ?n v) ! i)"] z [OF that] by metis
  then have "table_ok (b\<lparr>alias_probability := vprob (fill_rest ?n v), alias_table := valias (fill_rest ?n v), reinit_table := False\<rparr>)"
    using t(1-3) by (simp add: table_ok_def)
  then show ?thesis using assms(1) v(1) by (auto simp: create_alias_table_def Let_def)
qed


section \<open>The weights are always computed\<close>

definition weigh_core :: "queue_entry \<Rightarrow> queue_entry" where
  "weigh_core q = q\<lparr>q_weight := Fin 0, q_perf_score := Fin 0, q_handicap := 0\<rparr>"

definition weigh_frame :: "afl_state \<Rightarrow> afl_state \<Rightarrow> bool" where
  "weigh_frame a b \<longleftrightarrow> b\<lparr>queue_buf := []\<rparr> = a\<lparr>queue_buf := []\<rparr> \<and> map weigh_core (queue_buf b) = map weigh_core (queue_buf a)"

lemma weigh_frame_refl [simp]: "weigh_frame a a"
  by (simp add: weigh_frame_def)

lemma weigh_frame_trans: "weigh_frame a b \<Longrightarrow> weigh_frame b c \<Longrightarrow> weigh_frame a c"
  by (simp add: weigh_frame_def)

lemma weigh_frame_set:
  assumes "\<And>q. weigh_core (f q) = weigh_core q"
  shows "weigh_frame a (set_entry k f a)"
  using assms by (cases "k < length (queue_buf a)") (simp_all add: weigh_frame_def set_entry_def map_update list_update_same_conv list_update_beyond)

lemma weigh_core_fields:
  assumes "weigh_core p = weigh_core q"
  shows "q_disabled p = q_disabled q" "q_fuzz_level p = q_fuzz_level q" "q_n_fuzz_entry p = q_n_fuzz_entry q"
    "q_testcase_buf p = q_testcase_buf q" "q_len p = q_len q" "q_fname p = q_fname q"
  using assms by (cases p; cases q; simp add: weigh_core_def)+

lemma weigh_frameD:
  assumes "weigh_frame a b"
  shows "queued_items b = queued_items a" "schedule b = schedule a" "length (queue_buf b) = length (queue_buf a)"
    "total_cal_cycles b = total_cal_cycles a" "n_fuzz b = n_fuzz a" "fsrv b = fsrv a"
    "k < length (queue_buf a) \<Longrightarrow> weigh_core (queue_buf b ! k) = weigh_core (queue_buf a ! k)"
proof -
  have e: "b\<lparr>queue_buf := []\<rparr> = a\<lparr>queue_buf := []\<rparr>" and m: "map weigh_core (queue_buf b) = map weigh_core (queue_buf a)"
    using assms by (simp_all add: weigh_frame_def)
  show "queued_items b = queued_items a" "schedule b = schedule a" "total_cal_cycles b = total_cal_cycles a" "n_fuzz b = n_fuzz a" "fsrv b = fsrv a"
    using arg_cong [OF e, of queued_items] arg_cong [OF e, of schedule] arg_cong [OF e, of total_cal_cycles]
      arg_cong [OF e, of n_fuzz] arg_cong [OF e, of fsrv] by simp_all
  show len: "length (queue_buf b) = length (queue_buf a)" using arg_cong [OF m, of length] by simp
  show "k < length (queue_buf a) \<Longrightarrow> weigh_core (queue_buf b ! k) = weigh_core (queue_buf a ! k)"
    using arg_cong [OF m, of "\<lambda>l. l ! k"] len by simp
qed

lemma score_defined_frame:
  assumes "weigh_frame a b" and "k < length (queue_buf a)" and "unat (queued_items a) \<le> length (queue_buf a)"
  shows "score_defined b (queue_buf b ! k) = score_defined a (queue_buf a ! k)"
proof -
  note fr = weigh_frameD [OF assms(1)]
  note core = weigh_core_fields [OF fr(7)]
  have d: "(\<exists>i < unat (queued_items a). \<not> q_disabled (queue_buf b ! i)) = (\<exists>i < unat (queued_items a). \<not> q_disabled (queue_buf a ! i))"
    using core(1) assms(3) by (metis order.strict_trans2)
  show ?thesis unfolding score_defined_def fuzz_count_def fr d core(2, 3) [OF assms(2)] ..
qed

text \<open>Both weighting loops run through when every enabled entry has a defined score.\<close>

definition weighable :: "afl_state \<Rightarrow> bool" where
  "weighable a \<longleftrightarrow> unat (queued_items a) \<le> length (queue_buf a) \<and>
     (\<forall>k < unat (queued_items a). q_disabled (queue_buf a ! k) \<or> score_defined a (queue_buf a ! k))"

lemma score_step:
  assumes "log2_contract log2" and "weigh_frame a b" and "weighable a" and "i < unat (queued_items a)"
    and "\<not> q_disabled (queue_buf b ! i)"
  obtains s c where "calculate_score log2 i b = Inr (s, c)" "weigh_frame a c"
proof -
  have i: "i < length (queue_buf a)" using assms(3, 4) by (auto simp: weighable_def)
  have "\<not> q_disabled (queue_buf a ! i)" using assms(5) weigh_core_fields(1) [OF weigh_frameD(7) [OF assms(2) i]] by simp
  then have "score_defined b (queue_buf b ! i)"
    using score_defined_frame [OF assms(2) i] assms(3, 4) by (auto simp: weighable_def)
  then obtain s h where "calculate_score log2 i b = Inr (s, set_entry i (q_handicap_update (\<lambda>_. h)) b)"
    using calculate_score_returns [OF assms(1)] by blast
  moreover have "weigh_frame a (set_entry i (q_handicap_update (\<lambda>_. h)) b)"
    using assms(2) weigh_frame_set [of "q_handicap_update (\<lambda>_. h)" b i] by (rule weigh_frame_trans) (simp add: weigh_core_def)
  ultimately show ?thesis using that by blast
qed

lemma collect_P_returns:
  assumes "log2_contract log2" and "weighable a"
  shows "\<exists>P b. collect_P logd log10 log2 a = Inr (P, b) \<and> weigh_frame a b"
proof -
  let ?I = "\<lambda>(s :: dbl, b). weigh_frame a b"
  have upd: "weigh_frame a b \<Longrightarrow> weigh_frame a (set_entry i (q_weight_update (\<lambda>_. w)) b)"
    "weigh_frame a b \<Longrightarrow> weigh_frame a (set_entry i (q_perf_score_update (\<lambda>_. w)) b)"
    "weigh_frame a b \<Longrightarrow> weigh_frame a (set_entry i (\<lambda>q. q\<lparr>q_weight := g q\<rparr>) b)" for b i w g
    by (erule weigh_frame_trans, rule weigh_frame_set, simp add: weigh_core_def)+
  have w: "\<exists>t. weigh_entry log10 log2 avgs i s = Inr t \<and> ?I t" if "i \<in> set [0..<unat (queued_items a)]" "?I s" for i s avgs
  proof -
    obtain sm b where s: "s = (sm, b)" by (cases s)
    have i: "i < unat (queued_items a)" using that(1) by simp
    show ?thesis
    proof (cases "q_disabled (queue_buf b ! i)")
      case True
      then show ?thesis using that by (simp add: weigh_entry_def s)
    next
      case False
      let ?b = "set_entry i (q_weight_update (\<lambda>_. entry_weight log10 b avgs (queue_buf b ! i))) b"
      have fr: "weigh_frame a ?b" using upd that(2) s by simp
      have nd: "\<not> q_disabled (queue_buf ?b ! i)" using False
        by (cases "i < length (queue_buf b)") (simp_all add: set_entry_def list_update_beyond)
      obtain sc c where "calculate_score log2 i ?b = Inr (sc, c)" "weigh_frame a c"
        using score_step [OF assms(1) fr assms(2) i nd] .
      then show ?thesis using False upd(2) by (simp add: weigh_entry_def s Let_def)
    qed
  qed
  have sc: "\<exists>t. score_entry log2 i s = Inr t \<and> ?I t" if "i \<in> set [0..<unat (queued_items a)]" "?I s" for i s
  proof -
    obtain sm b where s: "s = (sm, b)" by (cases s)
    have i: "i < unat (queued_items a)" using that(1) by simp
    show ?thesis
    proof (cases "q_disabled (queue_buf b ! i)")
      case False
      have fr: "weigh_frame a b" using that(2) s by simp
      obtain sc c where "calculate_score log2 i b = Inr (sc, c)" "weigh_frame a c"
        using score_step [OF assms(1) fr assms(2) i False] .
      then show ?thesis using False upd(2) by (simp add: score_entry_def s)
    qed (use that in \<open>simp add: score_entry_def s\<close>)
  qed
  have dr: "weigh_frame a (double_recent b)" if "weigh_frame a b" for b
    unfolding double_recent_def Let_def using that upd(3)
    by (auto intro!: fold_invariant_on [where P = "weigh_frame a"])
  show ?thesis
    using rfold_total [of ?I "(Fin 0, a)" "[0..<unat (queued_items a)]" "weigh_entry log10 log2 (averages logd a)", OF _ w]
      rfold_total [of ?I "(Fin 0, a)" "[0..<unat (queued_items a)]" "score_entry log2", OF _ sc] dr
    by (auto simp: collect_P_def Let_def)
qed

text \<open>
  C32: \<open>create_alias_table\<close> returns whenever the score of every enabled entry is defined, and the
  table is sound: an entry is certain, or its alias is an enabled entry of the queue, and then a
  disabled entry has probability zero.
\<close>

theorem create_alias_table_sound:
  assumes "log2_contract log2" and "weighable a" and "unat (queued_items a) \<le> 2 ^ 31"
  shows "\<exists>b. create_alias_table logd log10 log2 a = Inr (Some b) \<and> table_ok b \<and> \<not> reinit_table b \<and>
    queued_items b = queued_items a \<and> length (queue_buf b) = length (queue_buf a)"
proof -
  obtain P b where P: "collect_P logd log10 log2 a = Inr (P, b)" and fr: "weigh_frame a b"
    using collect_P_returns [OF assms(1, 2)] by blast
  have "unat (queued_items b) \<le> 2 ^ 31" using assms(3) weigh_frameD(1) [OF fr] by simp
  from create_alias_table_ok [OF P this] show ?thesis using weigh_frameD(1, 3) [OF fr] by auto
qed

theorem create_alias_table_sound_witness:
  "\<exists>b. create_alias_table (\<lambda>x. x) (\<lambda>x. x) (\<lambda>x. x) (small_state\<lparr>total_cal_cycles := 1\<rparr>) = Inr (Some b) \<and> table_ok b \<and>
     \<not> reinit_table b \<and> queued_items b = 2 \<and> length (queue_buf b) = 2"
proof -
  have "weighable (small_state\<lparr>total_cal_cycles := 1\<rparr>)"
    by (simp add: weighable_def score_defined_def small_state_def zero_defs)
  moreover have "queued_items small_state = 2" "length (queue_buf small_state) = 2" by (simp_all add: small_state_def)
  ultimately show ?thesis
    using create_alias_table_sound [OF log2_contract_id, of "small_state\<lparr>total_cal_cycles := 1\<rparr>" "\<lambda>x. x" "\<lambda>x. x"] by simp
qed

lemma select_next_queue_entry_ok:
  assumes "table_ok a" and "queued_items a \<noteq> 0"
  shows "case select_next_queue_entry fuel urandom a of
      Inl e \<Rightarrow> urandom = Inl e
    | Inr None \<Rightarrow> rand_below fuel urandom (queued_items a) a = Inr None
    | Inr (Some (s, b)) \<Rightarrow> s < queued_items a \<and> rand_core b = rand_core a \<and>
        (\<exists>r c. rand_below fuel urandom (queued_items a) a = Inr (Some (r, c)) \<and>
          (dlt (fst (rand_next_percent c)) (Fin 1) \<and> q_disabled (queue_buf a ! unat s) \<longrightarrow> alias_probability a ! unat s = Fin 1))"
proof (cases "rand_below fuel urandom (queued_items a) a")
  case (Inl e)
  then show ?thesis using rand_below_error [OF Inl] by (simp add: select_next_queue_entry_def obind_def)
next
  case (Inr r)
  show ?thesis
  proof (cases r)
    case None
    then show ?thesis using Inr by (simp add: select_next_queue_entry_def obind_def)
  next
    case (Some sb)
    obtain s b where sb: "sb = (s, b)" by (cases sb)
    have d: "rand_below fuel urandom (queued_items a) a = Inr (Some (s, b))" using Inr Some sb by simp
    have s: "s < queued_items a" using rand_below_less [OF d] assms(2) by (simp add: word_neq_0_conv)
    have core: "rand_core b = rand_core a" using rand_core_below [OF d] .
    note f = rand_core_fields [OF core]
    obtain p where p: "fst (rand_next_percent b) = Fin p" "0 \<le> p" "snd (rand_next_percent b) = snd (rand_next b)"
      using rand_next_percent_unit [of b] by blast
    have c2: "rand_core (snd (rand_next b)) = rand_core a" using core by simp
    note f2 = rand_core_fields [OF c2]
    have lens: "length (alias_probability a) = unat (queued_items a)" "length (alias_table a) = unat (queued_items a)"
      using assms(1) by (simp_all add: table_ok_def)
    have i: "unat s < unat (queued_items a)" using s by (simp add: word_less_nat_alt)
    have al: "unat (alias_table a ! unat s) < unat (queued_items a)" using assms(1) i by (simp add: table_ok_def)
    have t: "alias_probability a ! unat s = Fin 1 \<or> \<not> q_disabled (queue_buf a ! unat (alias_table a ! unat s)) \<and>
        (q_disabled (queue_buf a ! unat s) \<longrightarrow> alias_probability a ! unat s = Fin 0)"
      using assms(1) i by (simp add: table_ok_def)
    let ?i = "if dlt (Fin p) (alias_probability a ! unat s) then s else alias_table a ! unat s"
    have e: "select_next_queue_entry fuel urandom a = Inr (Some (?i, snd (rand_next b)))"
      using i by (simp add: select_next_queue_entry_def obind_def d split_beta p f2 lens not_le)
    have "?i < queued_items a" using s al by (simp add: word_less_nat_alt)
    moreover have "q_disabled (queue_buf a ! unat ?i) \<longrightarrow> alias_probability a ! unat ?i = Fin 1" if "dlt (Fin p) (Fin 1)"
      using t that p(2) by auto
    ultimately show ?thesis unfolding e using d c2 p(1) by auto
  qed
qed

text \<open>
  With a sound table \<open>select_next_queue_entry\<close> never reads outside it: it fails only when the
  reseed does, the index it returns is below \<open>queued_items\<close>, nothing but the generator changes,
  and, unless the second draw is exactly 1, a disabled entry is selected only if its probability is 1.
\<close>

theorem select_next_queue_entry_valid:
  assumes "table_ok a" and "queued_items a \<noteq> 0"
  shows "case select_next_queue_entry fuel urandom a of
      Inl e \<Rightarrow> urandom = Inl e
    | Inr None \<Rightarrow> rand_below fuel urandom (queued_items a) a = Inr None
    | Inr (Some (s, b)) \<Rightarrow> s < queued_items a \<and> rand_core b = rand_core a \<and>
        (\<exists>r c. rand_below fuel urandom (queued_items a) a = Inr (Some (r, c)) \<and>
          (dlt (fst (rand_next_percent c)) (Fin 1) \<and> q_disabled (queue_buf a ! unat s) \<longrightarrow> alias_probability a ! unat s = Fin 1))"
  using assms by (rule select_next_queue_entry_ok)

definition alias_example :: afl_state where
  "alias_example = afl_zero\<lparr>queued_items := 2, queue_buf := [entry_zero\<lparr>q_disabled := True\<rparr>, entry_zero], rand_cnt := 5,
     alias_probability := [Fin 0, Fin 1], alias_table := [1, 0]\<rparr>"

theorem select_next_queue_entry_valid_witness:
  "case select_next_queue_entry 3 (Inl (PFATAL ''urandom'')) alias_example of
      Inl e \<Rightarrow> Inl (PFATAL ''urandom'') = (Inl e :: (u64 \<times> u64 \<times> u64) res)
    | Inr None \<Rightarrow> rand_below 3 (Inl (PFATAL ''urandom'')) 2 alias_example = Inr None
    | Inr (Some (s, b)) \<Rightarrow> s < 2 \<and> rand_core b = rand_core alias_example \<and>
        (\<exists>r c. rand_below 3 (Inl (PFATAL ''urandom'')) 2 alias_example = Inr (Some (r, c)) \<and>
          (dlt (fst (rand_next_percent c)) (Fin 1) \<and> q_disabled (queue_buf alias_example ! unat s) \<longrightarrow>
             alias_probability alias_example ! unat s = Fin 1))"
proof -
  have i: "i < 2 \<longleftrightarrow> i = 0 \<or> i = 1" for i :: nat by auto
  have q: "queued_items alias_example = 2" by (simp add: alias_example_def)
  have "table_ok alias_example" by (auto simp: table_ok_def alias_example_def entry_zero_def i)
  then show ?thesis using select_next_queue_entry_valid [of alias_example, where fuel = 3 and urandom = "Inl (PFATAL ''urandom'')"] unfolding q by simp
qed

section \<open>When double arithmetic is exact\<close>

text \<open>
  Multiples of \<open>2 ^ - k\<close> between 0 and \<open>B\<close>, where \<open>B * 2 ^ k\<close> fits the significand: the pairing loop
  never leaves this grid, so that none of its operations rounds.
\<close>

definition on_grid :: "nat \<Rightarrow> rat \<Rightarrow> rat \<Rightarrow> bool" where
  "on_grid k B x \<longleftrightarrow> 0 \<le> x \<and> x \<le> B \<and> x * 2 ^ k \<in> \<int>"

lemma mkd_grid:
  assumes "\<bar>x\<bar> \<le> B" and "x * 2 ^ k \<in> \<int>" and "B * 2 ^ k \<le> 2 ^ 53" and "k \<le> 53"
  shows "mkd x = Fin x"
proof -
  obtain m where m: "x * 2 ^ k = of_int m" using assms(2) by (auto elim: Ints_cases)
  have "of_int \<bar>m\<bar> \<le> B * 2 ^ k" using assms(1) m by (metis abs_mult abs_power2 abs_numeral mult_right_mono of_int_abs power_abs zero_le_numeral zero_le_power)
  then have "of_int \<bar>m\<bar> \<le> (of_int (2 ^ 53) :: rat)" using assms(3) by simp
  then have mb: "\<bar>m\<bar> \<le> 2 ^ 53" by (simp only: of_int_le_iff)
  have x: "x = of_int m * 2 powi (- int k)" using m by (simp add: power_int_minus divide_simps flip: power_int_of_nat)
  have "rep 53 (- 1022) x" unfolding x using mb assms(4) by (intro rep_scaled) simp_all
  moreover have "\<bar>x\<bar> \<le> 2 ^ 200"
  proof -
    have "\<bar>x\<bar> * 1 \<le> \<bar>x\<bar> * 2 ^ k" by (intro mult_left_mono) simp_all
    also have "\<dots> = of_int \<bar>m\<bar>" using m by (metis abs_mult abs_numeral of_int_abs power_abs)
    also have "\<dots> \<le> of_int (2 ^ 53)" using mb by (simp only: of_int_le_iff)
    finally show ?thesis by simp
  qed
  ultimately show ?thesis using le_big by (intro mkd_rep) blast
qed

lemma dtake_grid:
  assumes "on_grid k B p" "on_grid k B q" "q < 1" "1 \<le> p" "1 \<le> B" "B * 2 ^ k \<le> 2 ^ 53" "k \<le> 53"
  shows "dtake (Fin p) (Fin q) = Fin (p - (1 - q))" "on_grid k B (p - (1 - q))"
proof -
  have i: "(1 - q) * 2 ^ k \<in> \<int>" "(p - (1 - q)) * 2 ^ k \<in> \<int>" using assms(1, 2) by (auto simp: on_grid_def algebra_simps)
  have "mkd (1 - q) = Fin (1 - q)"
    using assms by (intro mkd_grid [OF _ i(1)]) (auto simp: on_grid_def)
  moreover have "mkd (p - (1 - q)) = Fin (p - (1 - q))"
    using assms by (intro mkd_grid [OF _ i(2)]) (auto simp: on_grid_def)
  moreover have "p - (1 - q) = p + (q - 1)" by simp
  ultimately show "dtake (Fin p) (Fin q) = Fin (p - (1 - q))" by (simp add: dsub_def)
  show "on_grid k B (p - (1 - q))" using assms i(2) by (auto simp: on_grid_def)
qed

lemma settle_grid:
  assumes "settle_inv (\<lambda>x. x < 1) P0 ss ls (P, prob, al)" and "\<forall>x \<in> set P. on_grid k B x"
    and "1 \<le> B" "B * 2 ^ k \<le> 2 ^ 53" "k \<le> 53"
  shows "settle lt1 dtake ss ls (map Fin P, map Fin prob, al) =
    (case settle_rat ss ls (P, prob, al) of (ss', ls', P', prob', al') \<Rightarrow> (ss', ls', map Fin P', map Fin prob', al'))"
  using assms(1, 2)
proof (induction "\<lambda>x :: rat. x < 1" "\<lambda>p q :: rat. p - (1 - q)" ss ls "(P, prob, al)" arbitrary: P prob al rule: settle.induct)
  case (1 s ss l ls P prob al)
  have r: "s < length P" "l < length P" "s < length prob" "P ! s < 1" "1 \<le> P ! l"
    using 1(3) by (auto simp: settle_inv_def Let_def)
  then have g: "dtake (Fin (P ! l)) (Fin (P ! s)) = Fin (P ! l - (1 - P ! s))" "on_grid k B (P ! l - (1 - P ! s))"
    using dtake_grid [OF _ _ _ _ assms(3-5)] 1(4) by simp_all
  have grid: "\<forall>x \<in> set (P[l := P ! l - (1 - P ! s)]). on_grid k B x"
    using 1(4) g(2) set_update_subset_insert [of P l] by blast
  note inv = settle_inv_step [OF 1(3), of "\<lambda>p q. p - (1 - q)"]
  have m: "(map Fin P)[l := Fin y] = map Fin (P[l := y])" "(map Fin prob)[s := Fin y] = map Fin (prob[s := y])" for y
    by (simp_all add: map_update)
  show ?case
    using 1(1) [OF refl refl refl _ _ grid] 1(2) [OF refl refl refl _ _ grid] inv r g(1)
    by (cases "P ! l - (1 - P ! s) < 1") (simp_all add: Let_def m)
qed auto


lemma member_le_sum_list_rat:
  assumes "x \<in> set xs" and "\<forall>y \<in> set xs. (0 :: rat) \<le> y"
  shows "x \<le> sum_list xs"
  using assms
proof (induction xs)
  case (Cons y ys)
  then have "0 \<le> sum_list ys" by (intro sum_list_nonneg) simp
  then show ?case using Cons by (auto simp: add_increasing)
qed simp

lemma alias_method_grid:
  assumes "\<forall>x \<in> set R. on_grid k B x" and "1 \<le> B" "B * 2 ^ k \<le> 2 ^ 53" "k \<le> 53"
  shows "alias_method lt1 dtake (Fin 0) (Fin 1) (map Fin R) =
    (case alias_method (\<lambda>x. x < 1) (\<lambda>p q. p - (1 - q)) 0 1 R of (prob, al) \<Rightarrow> (map Fin prob, al))"
proof -
  let ?n = "length R"
  have f: "filter (\<lambda>j. lt1 (map Fin R ! j)) [0..<?n] = filter (\<lambda>j. R ! j < 1) [0..<?n]"
    "filter (\<lambda>j. \<not> lt1 (map Fin R ! j)) [0..<?n] = filter (\<lambda>j. \<not> R ! j < 1) [0..<?n]"
    by (auto intro!: filter_cong)
  have s: "map Fin (set_all 1 xs p) = set_all (Fin 1) xs (map Fin p)" for xs p
    unfolding set_all_def by (induction xs arbitrary: p) (simp_all add: map_update)
  have "replicate ?n (Fin 0) = map Fin (replicate ?n 0)" by simp
  then show ?thesis
    using settle_grid [OF settle_inv_start assms, of 0] unfolding alias_method_def Let_def length_map f
    by (simp add: s split: prod.split)
qed

text \<open>
  C31: the alias table is fair: if the weights in \<open>P\<close> are non-negative, sum to their number \<open>n\<close> and
  are multiples of \<open>2 ^ - k\<close> with \<open>n * 2 ^ k\<close> at most \<open>2 ^ 53\<close> (so that the doubles hold them), then
  in the table that the code builds the chance of drawing \<open>i\<close>, which is its own probability plus
  what the entries aliased to it leave over, divided by \<open>n\<close>, is exactly \<open>P[i] / n\<close>.
\<close>

theorem alias_table_fair:
  assumes "unat n \<le> 2 ^ 31" and "length R = unat n" and "sum_list R = of_nat (unat n)"
    and "\<forall>x \<in> set R. 0 \<le> x \<and> x * 2 ^ k \<in> \<int>" and "unat n * 2 ^ k \<le> 2 ^ 53" and "i < unat n"
  shows "\<exists>v prob. pair_loop (unat n) n (split_P n (vose_init n (map Fin R))) = Some v \<and>
    vprob (fill_rest n v) = map Fin prob \<and>
    prob ! i + (\<Sum>j < unat n. if unat (valias (fill_rest n v) ! j) = i then 1 - prob ! j else 0) = R ! i"
proof -
  let ?B = "of_nat (unat n) :: rat"
  have "1 \<le> unat n" using assms(6) by simp
  then have "of_nat 1 \<le> ?B" by (rule of_nat_mono)
  then have B: "1 \<le> ?B" unfolding of_nat_1 .
  have "of_nat (unat n * 2 ^ k) \<le> (of_nat (2 ^ 53) :: rat)" by (rule of_nat_mono) (rule assms(5))
  then have Bk: "?B * 2 ^ k \<le> 2 ^ 53" unfolding of_nat_mult of_nat_power of_nat_numeral .
  have "(2 :: nat) ^ k \<le> unat n * 2 ^ k" using assms(6) by simp
  then have "(2 :: nat) ^ k \<le> 2 ^ 53" using assms(5) by (rule order.trans)
  then have k: "k \<le> 53" by (rule power_le_imp_le_exp [rotated]) simp
  have grid: "\<forall>x \<in> set R. on_grid k ?B x"
  proof
    fix x assume x: "x \<in> set R"
    then have "x \<le> sum_list R" using assms(4) by (intro member_le_sum_list_rat) auto
    then show "on_grid k ?B x" using x assms(3, 4) by (simp add: on_grid_def)
  qed
  obtain v where v: "pair_loop (unat n) n (split_P n (vose_init n (map Fin R))) = Some v"
    "(vprob (fill_rest n v), map unat (valias (fill_rest n v))) = alias_method lt1 dtake (Fin 0) (Fin 1) (map Fin R)"
    using alias_arrays_impl [OF assms(1), of "map Fin R"] assms(2) by auto
  obtain prob al where m: "alias_method (\<lambda>x. x < 1) (\<lambda>p q. p - (1 - q)) 0 1 R = (prob, al)" by fastforce
  have e: "vprob (fill_rest n v) = map Fin prob" "map unat (valias (fill_rest n v)) = al"
    using v(2) alias_method_grid [OF grid B Bk k] m by simp_all
  have len: "length (valias (fill_rest n v)) = unat n"
    using alias_method_table [OF m] e(2) assms(2) by (metis length_map)
  have "prob ! i + (\<Sum>j < unat n. if al ! j = i then 1 - prob ! j else 0) = R ! i"
    using alias_method_exact [OF _ m, of i] assms(2, 3, 6) by simp
  also have "(\<Sum>j < unat n. if al ! j = i then 1 - prob ! j else 0) =
      (\<Sum>j < unat n. if unat (valias (fill_rest n v) ! j) = i then 1 - prob ! j else 0)"
    by (rule sum.cong) (auto simp: e(2) [symmetric] len)
  finally show ?thesis using v(1) e(1) by blast
qed

theorem alias_table_fair_witness:
  "\<exists>v prob. pair_loop 3 3 (split_P 3 (vose_init 3 (map Fin [1 / 2, 2, 1 / 2]))) = Some v \<and>
    vprob (fill_rest 3 v) = map Fin prob \<and>
    prob ! 1 + (\<Sum>j < 3. if unat (valias (fill_rest 3 v) ! j) = 1 then 1 - prob ! j else 0) = 2"
  using alias_table_fair [of 3 "[1 / 2, 2, 1 / 2]" 1 1] by simp

end
