(* ===== verification/Cache.thy ===== *)
theory Cache
  imports Score Rand
begin

text \<open>
  The test case cache of src/afl-fuzz-queue.c: \<open>queue_testcase_get\<close> with its eviction loop,
  \<open>queue_testcase_store_mem\<close>, \<open>queue_testcase_retake\<close> and \<open>queue_testcase_retake_mem\<close>. The file
  system is a parameter \<open>fs\<close> that maps names to contents; allocation succeeds. The two loops that
  depend on random draws run on fuel. \<open>junk\<close> is the indeterminate value of the slot that
  \<open>ck_realloc\<close> may leave at the end of the cache array.
\<close>

section \<open>Loading\<close>

definition load_file :: "(string \<Rightarrow> bytes option) \<Rightarrow> string \<Rightarrow> u32 \<Rightarrow> bytes res" where
  "load_file fs fname len =
     (case fs fname of
        None \<Rightarrow> Inl (PFATAL ''Unable to open'')
      | Some bs \<Rightarrow> if length bs < unat len then Inl (FATAL ''Short read'') else Inr (take (unat len) bs))"

definition overwrite :: "bytes \<Rightarrow> bytes \<Rightarrow> bytes" where
  "overwrite bs buf = bs @ drop (length bs) buf"

definition uncached_get :: "(string \<Rightarrow> bytes option) \<Rightarrow> nat \<Rightarrow> afl_state \<Rightarrow> (bytes \<times> afl_state) res" where
  "uncached_get fs k a =
     (let q = queue_buf a ! k in
      rbind (load_file fs (q_fname q) (q_len q)) (\<lambda>bs.
        Inr (bs, if queue_cur a = Some k then a\<lparr>testcase_buf := overwrite bs (testcase_buf a)\<rparr>
                 else a\<lparr>splicecase_buf := overwrite bs (splicecase_buf a)\<rparr>)))"

section \<open>Eviction\<close>

definition cache_full :: "u32 \<Rightarrow> afl_state \<Rightarrow> bool" where
  "cache_full len a \<longleftrightarrow>
     q_testcase_max_cache_size a \<le> q_testcase_cache_size a + ucast len \<and> 1 < q_testcase_cache_count a \<or>
     q_testcase_max_cache_entries a - 1 \<le> q_testcase_cache_count a"

definition learn_limit :: "nat option \<Rightarrow> u32 \<Rightarrow> afl_state \<Rightarrow> afl_state" where
  "learn_limit junk len a =
     (if q_testcase_max_cache_size a \<le> q_testcase_cache_size a + ucast len \<and>
         q_testcase_cache_count a < q_testcase_max_cache_entries a \<and>
         q_testcase_max_cache_count a < q_testcase_max_cache_entries a \<and> \<not> cache_do_once a
      then let e = (if q_testcase_cache_count a < q_testcase_max_cache_count a
                    then q_testcase_max_cache_count a + 1 else q_testcase_cache_count a + 1);
               n = unat (e + 1)
           in a\<lparr>q_testcase_max_cache_entries := e, cache_do_once := True,
                q_testcase_cache := take n (q_testcase_cache a) @ replicate (n - length (q_testcase_cache a)) junk\<rparr>
      else a)"

fun pick_victim ::
  "nat \<Rightarrow> nat \<Rightarrow> (u64 \<times> u64 \<times> u64) res \<Rightarrow> afl_state \<Rightarrow> (u32 \<times> afl_state) option res" where
  "pick_victim 0 fuel urandom a = Inr None"
| "pick_victim (Suc n) fuel urandom a =
     obind (rand_below fuel urandom (q_testcase_max_cache_count a) a) (\<lambda>tid a.
       if length (q_testcase_cache a) \<le> unat tid then Inl (UB ''read outside the cache'')
       else if q_testcase_cache a ! unat tid = None \<or> q_testcase_cache a ! unat tid = queue_cur a
       then pick_victim n fuel urandom a
       else Inr (Some (tid, a)))"

definition evict :: "u32 \<Rightarrow> afl_state \<Rightarrow> afl_state" where
  "evict tid a =
     (let old = the (q_testcase_cache a ! unat tid);
          a = set_entry old (q_testcase_buf_update (\<lambda>_. None)) a;
          a = a\<lparr>q_testcase_cache_size := q_testcase_cache_size a - ucast (q_len (queue_buf a ! old)),
                q_testcase_cache := (q_testcase_cache a)[unat tid := None],
                q_testcase_cache_count := q_testcase_cache_count a - 1,
                q_testcase_evictions := q_testcase_evictions a + 1\<rparr>
      in if tid < q_testcase_smallest_free a then a\<lparr>q_testcase_smallest_free := tid\<rparr> else a)"

fun evict_loop ::
  "nat \<Rightarrow> nat \<Rightarrow> nat option \<Rightarrow> (u64 \<times> u64 \<times> u64) res \<Rightarrow> u32 \<Rightarrow> u32 \<Rightarrow> afl_state \<Rightarrow> (u32 \<times> afl_state) option res" where
  "evict_loop 0 fuel junk urandom len tid a = (if cache_full len a then Inr None else Inr (Some (tid, a)))"
| "evict_loop (Suc n) fuel junk urandom len tid a =
     (if cache_full len a
      then obind (pick_victim fuel fuel urandom (learn_limit junk len a)) (\<lambda>tid a.
             evict_loop n fuel junk urandom len tid (evict tid a))
      else Inr (Some (tid, a)))"

section \<open>Registering\<close>

text \<open>\<open>while (afl->q_testcase_cache[tid] != NULL) ++tid;\<close>\<close>

function find_slot :: "nat option list \<Rightarrow> nat \<Rightarrow> nat res" where
  "find_slot C tid =
     (if length C \<le> tid then Inl (UB ''read outside the cache'')
      else if C ! tid \<noteq> None then find_slot C (Suc tid) else Inr tid)"
  by pat_completeness auto

termination
  by (relation "measure (\<lambda>(C, tid). length C - tid)") auto

declare find_slot.simps [simp del]

definition register_cached :: "nat \<Rightarrow> nat \<Rightarrow> bytes \<Rightarrow> afl_state \<Rightarrow> afl_state" where
  "register_cached k tid bs a =
     (let a = set_entry k (q_testcase_buf_update (\<lambda>_. Some bs)) a;
          a = a\<lparr>q_testcase_cache := (q_testcase_cache a)[tid := Some k],
                q_testcase_cache_size := q_testcase_cache_size a + ucast (q_len (queue_buf a ! k)),
                q_testcase_cache_count := q_testcase_cache_count a + 1\<rparr>
      in if unat (q_testcase_max_cache_count a) \<le> tid then a\<lparr>q_testcase_max_cache_count := of_nat tid + 1\<rparr>
         else if tid = unat (q_testcase_smallest_free a) then a\<lparr>q_testcase_smallest_free := of_nat tid + 1\<rparr>
         else a)"

definition queue_testcase_get ::
  "(string \<Rightarrow> bytes option) \<Rightarrow> nat \<Rightarrow> nat option \<Rightarrow> (u64 \<times> u64 \<times> u64) res \<Rightarrow> nat \<Rightarrow> afl_state \<Rightarrow> (bytes \<times> afl_state) option res" where
  "queue_testcase_get fs fuel junk urandom k a =
     (let q = queue_buf a ! k; len = q_len q in
      case q_testcase_buf q of
        Some buf \<Rightarrow> Inr (Some (buf, a))
      | None \<Rightarrow>
          if dlt (q_weight q) (Fin 1) \<or> q_testcase_max_cache_size a = 0
          then rbind (uncached_get fs k a) (\<lambda>r. Inr (Some r))
          else obind (evict_loop fuel fuel junk urandom len (q_testcase_max_cache_count a) a) (\<lambda>tid a.
            let tid = (if q_testcase_max_cache_entries a \<le> tid then q_testcase_smallest_free a else tid)
            in rbind (find_slot (q_testcase_cache a) (unat tid)) (\<lambda>t.
                 rbind (load_file fs (q_fname q) len) (\<lambda>bs. Inr (Some (bs, register_cached k t bs a))))))"

definition queue_testcase_store_mem :: "nat \<Rightarrow> bytes \<Rightarrow> afl_state \<Rightarrow> afl_state res" where
  "queue_testcase_store_mem k mem a =
     (let q = queue_buf a ! k; len = q_len q in
      if dlt (q_weight q) (Fin 1) \<or> q_testcase_max_cache_size a \<le> q_testcase_cache_size a + ucast len \<or>
         q_testcase_max_cache_entries a - 1 \<le> q_testcase_cache_count a
      then Inr a
      else let tid = (if q_testcase_max_cache_entries a \<le> q_testcase_max_cache_count a
                      then q_testcase_smallest_free a else q_testcase_max_cache_count a)
           in rbind (find_slot (q_testcase_cache a) (unat tid)) (\<lambda>t.
                if length mem < unat len then Inl (UB ''copy past the end of the test case'')
                else Inr (register_cached k t (take (unat len) mem) a)))"

section \<open>After a trim\<close>

definition queue_testcase_retake ::
  "(string \<Rightarrow> bytes option) \<Rightarrow> nat \<Rightarrow> u32 \<Rightarrow> afl_state \<Rightarrow> afl_state res" where
  "queue_testcase_retake fs k old_len a =
     (let q = queue_buf a ! k; len = q_len q in
      case q_testcase_buf q of
        None \<Rightarrow> Inr a
      | Some buf \<Rightarrow>
          let resize = old_len < len \<or> len + 1024 < old_len;
              a = (if resize then a\<lparr>q_testcase_cache_size := q_testcase_cache_size a + ucast (len - old_len)\<rparr> else a)
          in rbind (load_file fs (q_fname q) len) (\<lambda>bs.
               Inr (set_entry k (q_testcase_buf_update (\<lambda>_. Some (if resize then bs else overwrite bs buf))) a)))"

text \<open>\<open>aliased\<close> says that the new data is the cached buffer itself.\<close>

definition queue_testcase_retake_mem ::
  "nat \<Rightarrow> bool \<Rightarrow> bytes \<Rightarrow> u32 \<Rightarrow> u32 \<Rightarrow> afl_state \<Rightarrow> afl_state res" where
  "queue_testcase_retake_mem k aliased inp len old_len a =
     (case q_testcase_buf (queue_buf a ! k) of
        None \<Rightarrow> Inr a
      | Some buf \<Rightarrow>
          if aliased then Inr a
          else let shrink = len + 1024 < old_len;
                   buf = (if shrink then take (unat len) buf else buf);
                   a = (if shrink then a\<lparr>q_testcase_cache_size := q_testcase_cache_size a + ucast (len - old_len)\<rparr> else a)
               in if length inp < unat len \<or> length buf < unat len then Inl (UB ''copy past the end of a buffer'')
                  else Inr (set_entry k (q_testcase_buf_update (\<lambda>_. Some (overwrite (take (unat len) inp) buf))) a))"

section \<open>The slots of the cache\<close>

text \<open>
  The invariant over natural numbers: \<open>n\<close> usable slots in the array \<open>C\<close>, the high-water mark \<open>m\<close>,
  the number \<open>cnt\<close> and the total length \<open>sz\<close> of the cached test cases, and \<open>sf\<close>, below which
  every slot is taken.
\<close>

definition occ :: "nat \<Rightarrow> nat option list \<Rightarrow> nat set" where
  "occ n C = {t. t < n \<and> C ! t \<noteq> None}"

definition cached_len :: "queue_entry list \<Rightarrow> nat option \<Rightarrow> nat" where
  "cached_len qb s = unat (q_len (qb ! the s))"

definition slots_wf ::
  "(string \<Rightarrow> bytes option) \<Rightarrow> nat \<Rightarrow> nat option list \<Rightarrow> queue_entry list \<Rightarrow> nat \<Rightarrow> nat \<Rightarrow> nat \<Rightarrow> nat \<Rightarrow> bool" where
  "slots_wf fs n C qb m cnt sz sf \<longleftrightarrow>
     0 < n \<and> n \<le> length C \<and> m \<le> n \<and> (\<forall>t. m \<le> t \<and> t < n \<longrightarrow> C ! t = None) \<and>
     (\<forall>t i. t < n \<and> C ! t = Some i \<longrightarrow> i < length qb \<and> q_testcase_buf (qb ! i) \<noteq> None) \<and>
     (\<forall>t u i. t < n \<and> u < n \<and> C ! t = Some i \<and> C ! u = Some i \<longrightarrow> t = u) \<and>
     (\<forall>i < length qb. q_testcase_buf (qb ! i) \<noteq> None \<longrightarrow> (\<exists>t < n. C ! t = Some i)) \<and>
     cnt = card (occ n C) \<and> sz = (\<Sum>t \<in> occ n C. cached_len qb (C ! t)) \<and>
     (\<forall>t < sf. t < n \<and> C ! t \<noteq> None) \<and>
     (\<forall>i b. i < length qb \<and> q_testcase_buf (qb ! i) = Some b \<longrightarrow> load_file fs (q_fname (qb ! i)) (q_len (qb ! i)) = Inr b)"

lemma slotsD:
  assumes "slots_wf fs n C qb m cnt sz sf"
  shows "0 < n" "n \<le> length C" "m \<le> n" "m \<le> t \<Longrightarrow> t < n \<Longrightarrow> C ! t = None"
    "t < n \<Longrightarrow> C ! t = Some i \<Longrightarrow> i < length qb \<and> q_testcase_buf (qb ! i) \<noteq> None"
    "t < n \<Longrightarrow> u < n \<Longrightarrow> C ! t = Some i \<Longrightarrow> C ! u = Some i \<Longrightarrow> t = u"
    "i < length qb \<Longrightarrow> q_testcase_buf (qb ! i) \<noteq> None \<Longrightarrow> \<exists>t < n. C ! t = Some i"
    "cnt = card (occ n C)" "sz = (\<Sum>t \<in> occ n C. cached_len qb (C ! t))" "t < sf \<Longrightarrow> t < n \<and> C ! t \<noteq> None"
    "i < length qb \<Longrightarrow> q_testcase_buf (qb ! i) = Some b \<Longrightarrow> load_file fs (q_fname (qb ! i)) (q_len (qb ! i)) = Inr b"
  using assms unfolding slots_wf_def by blast+

lemma finite_occ [simp]: "finite (occ n C)"
  by (simp add: occ_def)

lemma occ_put: "t < n \<Longrightarrow> n \<le> length C \<Longrightarrow> occ n (C[t := Some k]) = insert t (occ n C)"
  by (auto simp: occ_def nth_list_update)

lemma occ_del: "n \<le> length C \<Longrightarrow> occ n (C[t := None]) = occ n C - {t}"
  by (cases "t < length C") (auto simp: occ_def nth_list_update list_update_beyond split: if_splits)

lemma cached_len_update:
  "k < length qb \<Longrightarrow> cached_len (qb[k := (qb ! k)\<lparr>q_testcase_buf := x\<rparr>]) s = cached_len qb s"
  by (cases "the s = k") (simp_all add: cached_len_def)

lemma slots_put:
  assumes wf: "slots_wf fs n C qb m cnt sz sf" and t: "t < n" "C ! t = None"
    and k: "k < length qb" "q_testcase_buf (qb ! k) = None" "load_file fs (q_fname (qb ! k)) (q_len (qb ! k)) = Inr bs"
  shows "slots_wf fs n (C[t := Some k]) (qb[k := (qb ! k)\<lparr>q_testcase_buf := Some bs\<rparr>]) (if m \<le> t then Suc t else m)
    (Suc cnt) (sz + unat (q_len (qb ! k))) (if m \<le> t then sf else if t = sf then Suc t else sf)"
proof -
  let ?C = "C[t := Some k]" and ?qb = "qb[k := (qb ! k)\<lparr>q_testcase_buf := Some bs\<rparr>]"
  have len: "n \<le> length C" and o: "t \<notin> occ n C" using wf t by (auto simp: slots_wf_def occ_def)
  have fresh: "C ! u \<noteq> Some k" if "u < n" for u using slotsD(5) [OF wf that] k(2) by metis
  have "(\<Sum>u \<in> occ n ?C. cached_len ?qb (?C ! u)) = (\<Sum>u \<in> insert t (occ n C). cached_len qb (?C ! u))"
    using occ_put [OF t(1) len, of k] k by (simp add: cached_len_update)
  also have "\<dots> = cached_len qb (Some k) + (\<Sum>u \<in> occ n C. cached_len qb (?C ! u))"
    using o t len by simp
  also have "(\<Sum>u \<in> occ n C. cached_len qb (?C ! u)) = (\<Sum>u \<in> occ n C. cached_len qb (C ! u))"
    by (rule sum.cong [OF refl], metis o nth_list_update_neq)
  finally have sum: "(\<Sum>u \<in> occ n ?C. cached_len ?qb (?C ! u)) = sz + unat (q_len (qb ! k))"
    using wf by (simp add: slots_wf_def cached_len_def)
  have card: "card (occ n ?C) = Suc cnt" using occ_put [OF t(1) len, of k] o wf by (simp add: slots_wf_def)
  have idx: "?C ! u = (if u = t then Some k else C ! u)" if "u < n" for u using that len by (simp add: nth_list_update)
  have ent: "?qb ! i = (if i = k then (qb ! k)\<lparr>q_testcase_buf := Some bs\<rparr> else qb ! i)" for i
    using k(1) by (simp add: nth_list_update)
  have 1: "0 < n" "n \<le> length ?C" "(if m \<le> t then Suc t else m) \<le> n" "\<forall>u. (if m \<le> t then Suc t else m) \<le> u \<and> u < n \<longrightarrow> ?C ! u = None"
    using slotsD(1-4) [OF wf] t by (auto simp: idx)
  have 2: "\<forall>u i. u < n \<and> ?C ! u = Some i \<longrightarrow> i < length ?qb \<and> q_testcase_buf (?qb ! i) \<noteq> None"
  proof (intro allI impI)
    fix u i assume u: "u < n \<and> ?C ! u = Some i"
    show "i < length ?qb \<and> q_testcase_buf (?qb ! i) \<noteq> None"
      using slotsD(5) [OF wf, of u i] u k(1) idx [of u] by (cases "u = t") (auto simp: ent)
  qed
  have 3: "\<forall>u v i. u < n \<and> v < n \<and> ?C ! u = Some i \<and> ?C ! v = Some i \<longrightarrow> u = v"
    using slotsD(6) [OF wf] fresh by (auto simp: idx split: if_splits)
  have 4: "\<forall>i < length ?qb. q_testcase_buf (?qb ! i) \<noteq> None \<longrightarrow> (\<exists>u < n. ?C ! u = Some i)"
  proof (intro allI impI)
    fix i assume i: "i < length ?qb" "q_testcase_buf (?qb ! i) \<noteq> None"
    show "\<exists>u < n. ?C ! u = Some i"
    proof (cases "i = k")
      case True
      then show ?thesis using t idx by (intro exI [of _ t]) simp
    next
      case False
      then obtain u where "u < n" "C ! u = Some i" using slotsD(7) [OF wf, of i] i ent by auto
      then show ?thesis using t idx by (intro exI [of _ u]) auto
    qed
  qed
  have 5: "\<forall>u < (if m \<le> t then sf else if t = sf then Suc t else sf). u < n \<and> ?C ! u \<noteq> None"
    using slotsD(10) [OF wf] t len by (auto simp: nth_list_update less_Suc_eq)
  have 6: "\<forall>i b. i < length ?qb \<and> q_testcase_buf (?qb ! i) = Some b \<longrightarrow> load_file fs (q_fname (?qb ! i)) (q_len (?qb ! i)) = Inr b"
    using slotsD(11) [OF wf] k(3) by (auto simp: ent)
  show ?thesis unfolding slots_wf_def sum card using 1 2 3 4 5 6 by blast
qed

lemma slots_del:
  assumes wf: "slots_wf fs n C qb m cnt sz sf" and t: "t < n" "C ! t = Some k"
  shows "slots_wf fs n (C[t := None]) (qb[k := (qb ! k)\<lparr>q_testcase_buf := None\<rparr>]) m
    (cnt - 1) (sz - unat (q_len (qb ! k))) (min t sf) \<and> 0 < cnt \<and> unat (q_len (qb ! k)) \<le> sz"
proof -
  let ?C = "C[t := None]" and ?qb = "qb[k := (qb ! k)\<lparr>q_testcase_buf := None\<rparr>]"
  have len: "n \<le> length C" and o: "t \<in> occ n C" and k: "k < length qb" using wf t by (auto simp: slots_wf_def occ_def)
  have only: "C ! u = Some k \<longleftrightarrow> u = t" if "u < n" for u using slotsD(6) [OF wf that t(1) _ t(2)] t(2) by blast
  have sz: "sz = cached_len qb (C ! t) + (\<Sum>u \<in> occ n C - {t}. cached_len qb (C ! u))"
    using wf sum.remove [OF finite_occ o] by (simp add: slots_wf_def)
  have "(\<Sum>u \<in> occ n ?C. cached_len ?qb (?C ! u)) = (\<Sum>u \<in> occ n C - {t}. cached_len qb (C ! u))"
    unfolding occ_del [OF len] by (rule sum.cong) (auto simp: cached_len_update [OF k])
  then have sum: "(\<Sum>u \<in> occ n ?C. cached_len ?qb (?C ! u)) = sz - unat (q_len (qb ! k))"
    using sz t by (simp add: cached_len_def)
  have cnt: "cnt = card (occ n C)" using wf by (simp add: slots_wf_def)
  then have card: "card (occ n ?C) = cnt - 1" using o by (simp add: occ_del [OF len])
  have pos: "0 < cnt" using cnt o card_gt_0_iff [of "occ n C"] by auto
  have idx: "?C ! u = (if u = t then None else C ! u)" if "u < n" for u using that len by (simp add: nth_list_update)
  have ent: "?qb ! i = (if i = k then (qb ! k)\<lparr>q_testcase_buf := None\<rparr> else qb ! i)" for i
    using k by (simp add: nth_list_update)
  have 1: "0 < n" "n \<le> length ?C" "m \<le> n" "\<forall>u. m \<le> u \<and> u < n \<longrightarrow> ?C ! u = None"
    using slotsD(1-4) [OF wf] t by (auto simp: idx)
  have 2: "\<forall>u i. u < n \<and> ?C ! u = Some i \<longrightarrow> i < length ?qb \<and> q_testcase_buf (?qb ! i) \<noteq> None"
    using slotsD(5) [OF wf] only by (auto simp: idx ent split: if_splits)
  have 3: "\<forall>u v i. u < n \<and> v < n \<and> ?C ! u = Some i \<and> ?C ! v = Some i \<longrightarrow> u = v"
    using slotsD(6) [OF wf] by (auto simp: idx split: if_splits)
  have 4: "\<forall>i < length ?qb. q_testcase_buf (?qb ! i) \<noteq> None \<longrightarrow> (\<exists>u < n. ?C ! u = Some i)"
  proof (intro allI impI)
    fix i assume i: "i < length ?qb" "q_testcase_buf (?qb ! i) \<noteq> None"
    then have ne: "i \<noteq> k" by (auto simp: ent)
    then obtain u where "u < n" "C ! u = Some i" using slotsD(7) [OF wf, of i] i ent by auto
    then show "\<exists>u < n. ?C ! u = Some i" using ne t idx by (intro exI [of _ u]) auto
  qed
  have 5: "\<forall>u < min t sf. u < n \<and> ?C ! u \<noteq> None" using slotsD(10) [OF wf] by (auto simp: idx)
  have 6: "\<forall>i b. i < length ?qb \<and> q_testcase_buf (?qb ! i) = Some b \<longrightarrow> load_file fs (q_fname (?qb ! i)) (q_len (?qb ! i)) = Inr b"
    using slotsD(11) [OF wf] by (auto simp: ent)
  have "slots_wf fs n ?C ?qb m (cnt - 1) (sz - unat (q_len (qb ! k))) (min t sf)"
    unfolding slots_wf_def sum card using 1 2 3 4 5 6 by blast
  then show ?thesis using pos sz t by (simp add: cached_len_def)
qed


lemma slots_shrink:
  assumes wf: "slots_wf fs n C qb m cnt sz sf" and e: "m \<le> e" "e \<le> n" "0 < e"
  shows "slots_wf fs e (take (Suc e) C @ replicate (Suc e - length C) junk) qb m cnt sz sf"
proof -
  let ?C = "take (Suc e) C @ replicate (Suc e - length C) junk"
  have idx: "?C ! t = C ! t" if "t < e" for t using that e slotsD(2) [OF wf] by (simp add: nth_append)
  have below: "t < m" if "t < n" "C ! t \<noteq> None" for t using slotsD(4) [OF wf, of t] that by (meson not_le)
  have o: "occ e ?C = occ n C" using e idx below by (fastforce simp: occ_def)
  have "(\<Sum>t \<in> occ n C. cached_len qb (?C ! t)) = (\<Sum>t \<in> occ n C. cached_len qb (C ! t))"
  proof (rule sum.cong [OF refl])
    fix t assume "t \<in> occ n C"
    then have "t < e" using below [of t] e by (auto simp: occ_def)
    then show "cached_len qb (?C ! t) = cached_len qb (C ! t)" using idx by simp
  qed
  moreover have "\<forall>t u i. t < e \<and> u < e \<and> ?C ! t = Some i \<and> ?C ! u = Some i \<longrightarrow> t = u"
    using slotsD(6) [OF wf] e idx by (metis order.strict_trans2)
  moreover have "\<forall>t i. t < e \<and> ?C ! t = Some i \<longrightarrow> i < length qb \<and> q_testcase_buf (qb ! i) \<noteq> None"
    using slotsD(5) [OF wf] e idx by (metis order.strict_trans2)
  moreover have "\<forall>i < length qb. q_testcase_buf (qb ! i) \<noteq> None \<longrightarrow> (\<exists>t < e. ?C ! t = Some i)"
    using slotsD(7) [OF wf] e idx below by (metis option.discI order.strict_trans2)
  moreover have "\<forall>t < sf. t < e \<and> ?C ! t \<noteq> None"
    using slotsD(10) [OF wf] e idx below by (metis order.strict_trans2)
  moreover have "\<forall>t. m \<le> t \<and> t < e \<longrightarrow> ?C ! t = None" using slotsD(4) [OF wf] e idx by (metis order.strict_trans2)
  moreover have "e \<le> length ?C" by simp
  ultimately show ?thesis unfolding slots_wf_def o using slotsD(8, 9, 11) [OF wf] e by simp
qed

lemma slots_size:
  assumes "slots_wf fs n C qb m cnt sz sf"
  shows "sz \<le> cnt * (2 ^ 32 - 1)"
proof -
  have "cached_len qb s \<le> 2 ^ 32 - 1" for s
  proof -
    have "unat (q_len (qb ! the s)) < 2 ^ 32" using unsigned_less [of "q_len (qb ! the s)"] by simp
    then show ?thesis unfolding cached_len_def by linarith
  qed
  then have "(\<Sum>t \<in> occ n C. cached_len qb (C ! t)) \<le> of_nat (card (occ n C)) * (2 ^ 32 - 1)" by (intro sum_bounded_above) blast
  then show ?thesis using slotsD(8, 9) [OF assms] by simp
qed

lemma slots_free:
  assumes wf: "slots_wf fs n C qb m cnt sz sf" and "cnt < n"
  obtains t where "sf \<le> t" "t < n" "C ! t = None"
proof -
  have "\<exists>t < n. C ! t = None"
  proof (rule ccontr)
    assume "\<not> (\<exists>t < n. C ! t = None)"
    then have "occ n C = {..<n}" by (auto simp: occ_def)
    then show False using slotsD(8) [OF wf] assms(2) by simp
  qed
  then show ?thesis using that slotsD(10) [OF wf] by (meson not_le)
qed

lemma find_slot_first:
  assumes "tid \<le> t" and "t < length C" and "C ! t = None"
  shows "\<exists>u. find_slot C tid = Inr u \<and> tid \<le> u \<and> u \<le> t \<and> C ! u = None"
  using assms
proof (induction C tid rule: find_slot.induct)
  case (1 C tid)
  show ?case
  proof (cases "C ! tid = None")
    case True
    then show ?thesis using 1(2, 3) by (subst find_slot.simps) auto
  next
    case False
    then have "Suc tid \<le> t" using 1(2, 4) by (metis Suc_leI le_neq_implies_less)
    then show ?thesis using 1 False by (subst find_slot.simps) fastforce
  qed
qed

section \<open>The invariant of the cache\<close>

definition cache_inv :: "(string \<Rightarrow> bytes option) \<Rightarrow> afl_state \<Rightarrow> bool" where
  "cache_inv fs a \<longleftrightarrow> slots_wf fs (unat (q_testcase_max_cache_entries a)) (q_testcase_cache a) (queue_buf a)
     (unat (q_testcase_max_cache_count a)) (unat (q_testcase_cache_count a)) (unat (q_testcase_cache_size a))
     (unat (q_testcase_smallest_free a)) \<and> unat (q_testcase_max_cache_entries a) < 2 ^ 28"

lemma cache_inv_rand: "rand_core b = rand_core a \<Longrightarrow> cache_inv fs b = cache_inv fs a"
  unfolding cache_inv_def using rand_core_fields [of b a] by simp

text \<open>
  What an operation of the cache may change: the cached buffers, the fields of the cache, the
  scratch buffers and the generator.
\<close>

definition entry_same :: "queue_entry \<Rightarrow> queue_entry \<Rightarrow> bool" where
  "entry_same p q \<longleftrightarrow> p\<lparr>q_testcase_buf := None\<rparr> = q\<lparr>q_testcase_buf := None\<rparr>"

definition cache_rest :: "afl_state \<Rightarrow> afl_state" where
  "cache_rest a = (rand_core a)\<lparr>queue_buf := [], testcase_buf := [], splicecase_buf := [], cache_do_once := False,
     q_testcase_max_cache_entries := 0, q_testcase_cache_size := 0, q_testcase_max_cache_count := 0, q_testcase_cache_count := 0,
     q_testcase_smallest_free := 0, q_testcase_evictions := 0, q_testcase_cache := []\<rparr>"

definition queue_same :: "afl_state \<Rightarrow> afl_state \<Rightarrow> bool" where
  "queue_same a b \<longleftrightarrow> cache_rest b = cache_rest a \<and> list_all2 entry_same (queue_buf b) (queue_buf a)"

definition fewer_cached :: "afl_state \<Rightarrow> afl_state \<Rightarrow> bool" where
  "fewer_cached a b \<longleftrightarrow>
     (\<forall>i < length (queue_buf a). q_testcase_buf (queue_buf a ! i) = None \<longrightarrow> q_testcase_buf (queue_buf b ! i) = None)"

lemma queue_same_refl [simp]: "queue_same a a"
  by (simp add: queue_same_def entry_same_def list.rel_refl)

lemma queue_same_trans: "queue_same a b \<Longrightarrow> queue_same b c \<Longrightarrow> queue_same a c"
  unfolding queue_same_def by (auto intro: list_all2_trans [where ?P1.0 = entry_same and ?P2.0 = entry_same] simp: entry_same_def)

lemma queue_same_rand: "rand_core b = rand_core a \<Longrightarrow> queue_same a b"
  using rand_core_fields(4) [of b a] by (simp add: queue_same_def entry_same_def list.rel_refl cache_rest_def)

lemma queue_same_buf: "cache_rest b = cache_rest a \<Longrightarrow> queue_buf b = (queue_buf a)[k := (queue_buf a ! k)\<lparr>q_testcase_buf := x\<rparr>] \<Longrightarrow> queue_same a b"
  by (cases "k < length (queue_buf a)")
    (auto simp: queue_same_def entry_same_def list_all2_conv_all_nth nth_list_update list_update_beyond)

lemma entry_same_fields:
  assumes "entry_same p q"
  shows "q_fname p = q_fname q" "q_len p = q_len q" "q_weight p = q_weight q" "q_disabled p = q_disabled q" "q_id p = q_id q"
  using assms by (cases p; cases q; simp add: entry_same_def)+

lemma queue_sameD:
  assumes "queue_same a b"
  shows "queue_cur b = queue_cur a" "length (queue_buf b) = length (queue_buf a)"
    "k < length (queue_buf a) \<Longrightarrow> entry_same (queue_buf b ! k) (queue_buf a ! k)"
proof -
  have e: "cache_rest b = cache_rest a" using assms by (simp add: queue_same_def)
  show "queue_cur b = queue_cur a" using arg_cong [OF e, of queue_cur] by (simp add: cache_rest_def rand_core_def)
  show "length (queue_buf b) = length (queue_buf a)" "k < length (queue_buf a) \<Longrightarrow> entry_same (queue_buf b ! k) (queue_buf a ! k)"
    using assms by (auto simp: queue_same_def list_all2_conv_all_nth)
qed

lemma unat_u32: "unat (w :: u32) < 2 ^ 32"
  using unsigned_less [of w] by simp

lemma cache_count_lt: "\<not> q_testcase_max_cache_entries a - 1 \<le> q_testcase_cache_count a \<Longrightarrow> cache_inv fs a \<Longrightarrow>
  unat (q_testcase_cache_count a) + 1 < unat (q_testcase_max_cache_entries a)"
proof -
  assume n: "\<not> q_testcase_max_cache_entries a - 1 \<le> q_testcase_cache_count a" and "cache_inv fs a"
  then have "0 < unat (q_testcase_max_cache_entries a)" using slotsD(1) by (auto simp: cache_inv_def)
  then have "unat (q_testcase_max_cache_entries a - 1) = unat (q_testcase_max_cache_entries a) - 1"
    by (simp add: unat_minus_one unat_gt_0)
  then show ?thesis using n by (simp add: word_le_nat_alt)
qed

lemma register_cached_inv:
  assumes inv: "cache_inv fs a" and t: "t < unat (q_testcase_max_cache_entries a)" "q_testcase_cache a ! t = None"
    and k: "k < length (queue_buf a)" "q_testcase_buf (queue_buf a ! k) = None"
    and ld: "load_file fs (q_fname (queue_buf a ! k)) (q_len (queue_buf a ! k)) = Inr bs"
    and c: "unat (q_testcase_cache_count a) < unat (q_testcase_max_cache_entries a)"
  shows "cache_inv fs (register_cached k t bs a) \<and> queue_same a (register_cached k t bs a) \<and>
    q_testcase_buf (queue_buf (register_cached k t bs a) ! k) = Some bs"
proof -
  let ?q = "queue_buf a ! k"
  note wf = inv [unfolded cache_inv_def, THEN conjunct1]
  have "unat (q_testcase_cache_size a) + unat (q_len ?q) < 2 ^ 64"
  proof -
    have "unat (q_testcase_cache_count a) + 1 \<le> 2 ^ 32" using c unat_u32 [of "q_testcase_max_cache_entries a"] by linarith
    then have "(unat (q_testcase_cache_count a) + 1) * (2 ^ 32 - 1) \<le> 2 ^ 32 * (2 ^ 32 - 1)" by (rule mult_right_mono) simp
    then show ?thesis using slots_size [OF wf] unat_u32 [of "q_len ?q"] by simp
  qed
  then have s: "unat (q_testcase_cache_size a + ucast (q_len ?q)) = unat (q_testcase_cache_size a) + unat (q_len ?q)"
    by (simp add: unat_word_ariths unsigned_ucast_eq take_bit_nat_eq_self order_less_trans [OF unsigned_less])
  have "unat (q_testcase_cache_count a) + 1 < 2 ^ 32" using c unat_u32 [of "q_testcase_max_cache_entries a"] by linarith
  then have cn: "unat (q_testcase_cache_count a + 1) = Suc (unat (q_testcase_cache_count a))" by (simp add: unat_word_ariths)
  have "t + 1 < 2 ^ 32" using t c unat_u32 [of "q_testcase_max_cache_entries a"] by linarith
  then have tn: "unat (of_nat t + 1 :: u32) = Suc t" by (simp add: unat_word_ariths unsigned_of_nat take_bit_nat_eq_self)
  have sfn: "t = unat (q_testcase_smallest_free a) \<longrightarrow> unat (q_testcase_smallest_free a + 1) = Suc t" using tn by auto
  show ?thesis
    using slots_put [OF wf t k ld] k(1) sfn inv unfolding cache_inv_def register_cached_def Let_def set_entry_def
    by (auto simp: s cn tn cache_rest_def rand_core_def intro!: queue_same_buf [where k = k and x = "Some bs"])
qed

lemma evict_inv:
  assumes inv: "cache_inv fs a" and t: "unat tid < unat (q_testcase_max_cache_entries a)" "q_testcase_cache a ! unat tid = Some k"
  shows "cache_inv fs (evict tid a) \<and> queue_same a (evict tid a) \<and>
    unat (q_testcase_cache_count (evict tid a)) < unat (q_testcase_cache_count a) \<and> q_testcase_cache (evict tid a) ! unat tid = None \<and>
    q_testcase_max_cache_entries (evict tid a) = q_testcase_max_cache_entries a"
proof -
  let ?q = "queue_buf a ! k"
  note wf = inv [unfolded cache_inv_def, THEN conjunct1]
  note d = slots_del [OF wf t]
  have k: "k < length (queue_buf a)" and len: "unat tid < length (q_testcase_cache a)"
    using slotsD(5) [OF wf t] slotsD(2) [OF wf] t(1) by auto
  have c: "unat (q_testcase_cache_count a - 1) = unat (q_testcase_cache_count a) - 1" "0 < unat (q_testcase_cache_count a)"
    using d by (simp_all add: unat_minus_one unat_gt_0)
  have l: "unat (ucast (q_len ?q) :: u64) = unat (q_len ?q)"
    by (simp add: unsigned_ucast_eq take_bit_nat_eq_self order_less_trans [OF unsigned_less])
  have s: "unat (q_testcase_cache_size a - ucast (q_len ?q)) = unat (q_testcase_cache_size a) - unat (q_len ?q)"
    using d l by (simp add: unat_sub word_le_nat_alt)
  have m: "min (unat tid) (unat (q_testcase_smallest_free a)) = unat (if tid < q_testcase_smallest_free a then tid else q_testcase_smallest_free a)"
    by (simp add: word_less_nat_alt)
  show ?thesis
    using d c len k inv unfolding cache_inv_def evict_def Let_def set_entry_def m t(2)
    by (auto simp: s cache_rest_def rand_core_def intro!: queue_same_buf [where k = k and x = None])
qed


lemma learn_limit_inv:
  assumes inv: "cache_inv fs a" and "cache_full len a"
  shows "cache_inv fs (learn_limit junk len a) \<and> queue_same a (learn_limit junk len a) \<and>
    q_testcase_cache_count (learn_limit junk len a) = q_testcase_cache_count a \<and>
    q_testcase_max_cache_count (learn_limit junk len a) = q_testcase_max_cache_count a"
proof (cases "q_testcase_max_cache_size a \<le> q_testcase_cache_size a + ucast len \<and>
    q_testcase_cache_count a < q_testcase_max_cache_entries a \<and>
    q_testcase_max_cache_count a < q_testcase_max_cache_entries a \<and> \<not> cache_do_once a")
  case True
  let ?c = "q_testcase_cache_count a" and ?m = "q_testcase_max_cache_count a" and ?n = "q_testcase_max_cache_entries a"
  let ?e = "if ?c < ?m then ?m + 1 else ?c + 1"
  note wf = inv [unfolded cache_inv_def, THEN conjunct1]
  have suc: "unat (w + 1) = Suc (unat w)" if "w < ?n" for w
    using that unat_u32 [of ?n] by (simp add: unat_word_ariths word_less_nat_alt)
  have e: "unat ?m \<le> unat ?e" "unat ?e \<le> unat ?n" "0 < unat ?e"
    using True suc [of ?m] suc [of ?c] by (auto simp: word_less_nat_alt)
  have C: "slots_wf fs (unat ?e) (take (Suc (unat ?e)) (q_testcase_cache a) @ replicate (Suc (unat ?e) - length (q_testcase_cache a)) junk)
      (queue_buf a) (unat ?m) (unat ?c) (unat (q_testcase_cache_size a)) (unat (q_testcase_smallest_free a))"
    using slots_shrink [OF wf e] .
  have "unat (?e + 1) = Suc (unat ?e)"
    using e inv by (simp add: unat_word_ariths cache_inv_def)
  then show ?thesis using True C e inv by (simp add: learn_limit_def Let_def cache_inv_def queue_same_def entry_same_def list.rel_refl cache_rest_def rand_core_def)
next
  case False
  then have "learn_limit junk len a = a" unfolding learn_limit_def by (simp only: if_False)
  then show ?thesis using inv by simp
qed


lemma draw_slot:
  assumes inv: "cache_inv fs a" and d: "rand_below fuel u (q_testcase_max_cache_count a) a = Inr (Some (t, c))"
  shows "rand_core c = rand_core a \<and> cache_inv fs c \<and> unat t < unat (q_testcase_max_cache_entries a) \<and>
    unat t < length (q_testcase_cache c)"
proof -
  have core: "rand_core c = rand_core a" using rand_core_below [OF d] .
  note wf = inv [unfolded cache_inv_def, THEN conjunct1]
  have t: "unat t < unat (q_testcase_max_cache_entries a)"
  proof (cases "q_testcase_max_cache_count a = 0")
    case True
    then have "t = 0" using d by (simp add: rand_below_def)
    then show ?thesis using slotsD(1) [OF wf] by simp
  next
    case False
    then have "t < q_testcase_max_cache_count a" using rand_below_less [OF d] by (simp add: word_neq_0_conv)
    then have "unat t < unat (q_testcase_max_cache_count a)" by (simp add: word_less_nat_alt)
    then show ?thesis using slotsD(3) [OF wf] by (rule order.strict_trans2)
  qed
  then have "unat t < length (q_testcase_cache c)" using slotsD(2) [OF wf] rand_core_fields(6) [OF core] by simp
  then show ?thesis using core t inv cache_inv_rand [OF core] by blast
qed

lemma pick_victim_slot:
  assumes "cache_inv fs a"
  shows "case pick_victim n fuel u a of
      Inl e \<Rightarrow> u = Inl e
    | Inr None \<Rightarrow> True
    | Inr (Some (tid, b)) \<Rightarrow> rand_core b = rand_core a \<and> unat tid < unat (q_testcase_max_cache_entries a) \<and>
        q_testcase_cache a ! unat tid \<noteq> None \<and> q_testcase_cache a ! unat tid \<noteq> queue_cur a"
  using assms
proof (induction n arbitrary: a)
  case (Suc n)
  show ?case
  proof (cases "rand_below fuel u (q_testcase_max_cache_count a) a")
    case (Inl e)
    then show ?thesis using rand_below_error [OF Inl] by (simp add: obind_def)
  next
    case (Inr r)
    show ?thesis
    proof (cases r)
      case None
      then show ?thesis using Inr by (simp add: obind_def)
    next
      case (Some tc)
      obtain t c where d: "rand_below fuel u (q_testcase_max_cache_count a) a = Inr (Some (t, c))" and "tc = (t, c)"
        using Inr Some by (cases tc) simp
      note s = draw_slot [OF Suc.prems d]
      note f = rand_core_fields [OF conjunct1 [OF s]]
      have "pick_victim (Suc n) fuel u a = (if q_testcase_cache a ! unat t = None \<or> q_testcase_cache a ! unat t = queue_cur a
          then pick_victim n fuel u c else Inr (Some (t, c)))"
        using s by (simp add: d obind_def f)
      then show ?thesis using Suc.IH [of c] s by (auto simp: f split: sum.splits option.splits)
    qed
  qed
qed simp

lemma victim_exists:
  assumes inv: "cache_inv fs a" and "1 < unat (q_testcase_cache_count a)"
  shows "\<exists>t < unat (q_testcase_max_cache_count a). q_testcase_cache a ! t \<noteq> None \<and> q_testcase_cache a ! t \<noteq> queue_cur a"
proof (rule ccontr)
  assume n: "\<not> ?thesis"
  let ?n = "unat (q_testcase_max_cache_entries a)" and ?C = "q_testcase_cache a"
  note wf = inv [unfolded cache_inv_def, THEN conjunct1]
  have cur: "?C ! t = queue_cur a" if "t \<in> occ ?n ?C" for t
    using n that slotsD(4) [OF wf, of t] by (auto simp: occ_def not_less) (metis not_le option.discI)
  have "t = u" if "t \<in> occ ?n ?C" "u \<in> occ ?n ?C" for t u
  proof -
    note o = that
    obtain i where "?C ! t = Some i" using o(1) by (auto simp: occ_def)
    then show ?thesis using slotsD(6) [OF wf, of t u i] cur [OF o(1)] cur [OF o(2)] o by (simp add: occ_def)
  qed
  then have "card (occ ?n ?C) \<le> 1" by (metis card_le_Suc0_iff_eq finite_occ One_nat_def)
  then show False using slotsD(8) [OF wf] assms(2) by simp
qed

text \<open>
  The eviction loop keeps the invariant and ends within as many evictions as there are cached
  test cases: only the draws can run out of fuel, and with three or more slots there is a victim
  to be drawn.
\<close>

definition starved :: "(string \<Rightarrow> bytes option) \<Rightarrow> nat \<Rightarrow> (u64 \<times> u64 \<times> u64) res \<Rightarrow> bool" where
  "starved fs fuel u \<longleftrightarrow> (\<exists>b. cache_inv fs b \<and> pick_victim fuel fuel u b = Inr None)"

lemma evict_loop_ok:
  assumes "cache_inv fs a" and "unat (q_testcase_cache_count a) < n"
    and "unat (q_testcase_max_cache_entries a) \<le> unat tid \<or> q_testcase_cache a ! unat tid = None"
  shows "case evict_loop n fuel junk u len tid a of
      Inl e \<Rightarrow> u = Inl e
    | Inr None \<Rightarrow> starved fs fuel u
    | Inr (Some (t, b)) \<Rightarrow> cache_inv fs b \<and> queue_same a b \<and> fewer_cached a b \<and> \<not> cache_full len b \<and>
        (unat (q_testcase_max_cache_entries b) \<le> unat t \<or> q_testcase_cache b ! unat t = None)"
  using assms
proof (induction n arbitrary: tid a)
  case (Suc n)
  show ?case
  proof (cases "cache_full len a")
    case False
    then show ?thesis using Suc.prems by (simp add: fewer_cached_def)
  next
    case True
    let ?a = "learn_limit junk len a"
    have l: "cache_inv fs ?a" "queue_same a ?a" "q_testcase_cache_count ?a = q_testcase_cache_count a"
      using learn_limit_inv [OF Suc.prems(1) True] by auto
    note p = pick_victim_slot [OF l(1), where n = fuel and fuel = fuel and u = u]
    show ?thesis
    proof (cases "pick_victim fuel fuel u ?a")
      case (Inl e)
      then show ?thesis using True p by (simp add: obind_def)
    next
      case (Inr r)
      show ?thesis
      proof (cases r)
        case None
        then show ?thesis using True Inr l(1) by (auto simp: obind_def starved_def)
      next
        case (Some tb)
        obtain t b where tb: "pick_victim fuel fuel u ?a = Inr (Some (t, b))" using Inr Some by (cases tb) simp
        have core: "rand_core b = rand_core ?a" and t: "unat t < unat (q_testcase_max_cache_entries ?a)"
          and C: "q_testcase_cache ?a ! unat t \<noteq> None" using p tb by simp_all
        note f = rand_core_fields [OF core]
        obtain k where k: "q_testcase_cache b ! unat t = Some k" using C f by auto
        have binv: "cache_inv fs b" using l(1) cache_inv_rand [OF core] by simp
        have tb': "unat t < unat (q_testcase_max_cache_entries b)" using t f by simp
        note ev = evict_inv [OF binv tb' k]
        have "queue_same a b" using queue_same_trans [OF l(2) queue_same_rand [OF core]] .
        then have qs: "queue_same a (evict t b)" using ev queue_same_trans by blast
        have fc: "fewer_cached a (evict t b)"
          using f(4) k by (cases "k < length (queue_buf a)")
            (auto simp: fewer_cached_def evict_def learn_limit_def set_entry_def Let_def nth_list_update list_update_beyond)
        have fct: "fewer_cached (evict t b) c \<Longrightarrow> fewer_cached a c" for c
          using fc queue_sameD(2) [OF qs] by (simp add: fewer_cached_def)
        have lt: "unat (q_testcase_cache_count (evict t b)) < n" using ev Suc.prems(2) l(3) f by simp
        have "evict_loop (Suc n) fuel junk u len tid a = evict_loop n fuel junk u len t (evict t b)"
          using True tb by (simp add: obind_def)
        then show ?thesis using Suc.IH [of "evict t b" t] ev lt qs queue_same_trans [OF qs] fct
          by (auto split: sum.splits option.splits)
      qed
    qed
  qed
qed simp


section \<open>The operations\<close>

lemma free_slot:
  assumes inv: "cache_inv fs a" and c: "unat (q_testcase_cache_count a) < unat (q_testcase_max_cache_entries a)"
    and t: "unat (q_testcase_max_cache_entries a) \<le> unat tid \<or> q_testcase_cache a ! unat tid = None"
  obtains u where "find_slot (q_testcase_cache a)
      (unat (if q_testcase_max_cache_entries a \<le> tid then q_testcase_smallest_free a else tid)) = Inr u"
    "u < unat (q_testcase_max_cache_entries a)" "q_testcase_cache a ! u = None"
proof (cases "q_testcase_max_cache_entries a \<le> tid")
  case True
  note wf = inv [unfolded cache_inv_def, THEN conjunct1]
  obtain v where v: "unat (q_testcase_smallest_free a) \<le> v" "v < unat (q_testcase_max_cache_entries a)" "q_testcase_cache a ! v = None"
    using slots_free [OF wf c] .
  then obtain w where "find_slot (q_testcase_cache a) (unat (q_testcase_smallest_free a)) = Inr w" "w \<le> v" "q_testcase_cache a ! w = None"
    using find_slot_first [OF v(1), of "q_testcase_cache a"] slotsD(2) [OF wf] by auto
  then show ?thesis using that True v(2) by simp
next
  case False
  note wf = inv [unfolded cache_inv_def, THEN conjunct1]
  have l: "unat tid < unat (q_testcase_max_cache_entries a)" using False by (simp add: word_le_nat_alt)
  then have n: "q_testcase_cache a ! unat tid = None" using t by simp
  have "find_slot (q_testcase_cache a) (unat tid) = Inr (unat tid)"
    using l n slotsD(2) [OF wf] by (subst find_slot.simps) simp
  then show ?thesis using that [of "unat tid"] False l n by simp
qed

lemma mark_slot:
  assumes "cache_inv fs a"
  shows "unat (q_testcase_max_cache_entries a) \<le> unat (q_testcase_max_cache_count a) \<or>
    q_testcase_cache a ! unat (q_testcase_max_cache_count a) = None"
  using slotsD(4) [OF assms [unfolded cache_inv_def, THEN conjunct1], of "unat (q_testcase_max_cache_count a)"] by (meson not_le order.refl)

lemma queue_testcase_store_mem_ok:
  assumes inv: "cache_inv fs a" and k: "k < length (queue_buf a)" "q_testcase_buf (queue_buf a ! k) = None"
    and ld: "load_file fs (q_fname (queue_buf a ! k)) (q_len (queue_buf a ! k)) = Inr bs"
    and mem: "take (unat (q_len (queue_buf a ! k))) mem = bs"
  shows "\<exists>b. queue_testcase_store_mem k mem a = Inr b \<and> cache_inv fs b \<and> queue_same a b"
proof (cases "dlt (q_weight (queue_buf a ! k)) (Fin 1) \<or>
    q_testcase_max_cache_size a \<le> q_testcase_cache_size a + ucast (q_len (queue_buf a ! k)) \<or>
    q_testcase_max_cache_entries a - 1 \<le> q_testcase_cache_count a")
  case True
  then have "queue_testcase_store_mem k mem a = Inr a" unfolding queue_testcase_store_mem_def Let_def by (simp only: if_True)
  then show ?thesis using inv by simp
next
  case False
  have c: "unat (q_testcase_cache_count a) < unat (q_testcase_max_cache_entries a)" using cache_count_lt [OF _ inv] False by simp
  obtain u where u: "find_slot (q_testcase_cache a) (unat (if q_testcase_max_cache_entries a \<le> q_testcase_max_cache_count a
      then q_testcase_smallest_free a else q_testcase_max_cache_count a)) = Inr u"
    "u < unat (q_testcase_max_cache_entries a)" "q_testcase_cache a ! u = None"
    using free_slot [OF inv c mark_slot [OF inv]] .
  have "length bs = unat (q_len (queue_buf a ! k))" using ld by (auto simp: load_file_def split: option.splits if_splits)
  then have m: "unat (q_len (queue_buf a ! k)) \<le> length mem" using mem by auto
  then have "queue_testcase_store_mem k mem a = Inr (register_cached k u bs a)"
    using False u(1) mem unfolding queue_testcase_store_mem_def Let_def by (simp only: if_False u(1) rbind_simps not_less [symmetric])
  then show ?thesis using register_cached_inv [OF inv u(2, 3) k ld c] by auto
qed

lemma queue_testcase_get_ok:
  assumes inv: "cache_inv fs a" and k: "k < length (queue_buf a)"
    and ld: "load_file fs (q_fname (queue_buf a ! k)) (q_len (queue_buf a ! k)) = Inr bs"
    and fuel: "unat (q_testcase_cache_count a) < fuel"
  shows "case queue_testcase_get fs fuel junk u k a of
      Inl e \<Rightarrow> u = Inl e
    | Inr None \<Rightarrow> starved fs fuel u
    | Inr (Some (r, b)) \<Rightarrow> r = bs \<and> cache_inv fs b \<and> queue_same a b"
proof (cases "q_testcase_buf (queue_buf a ! k)")
  case (Some buf)
  then have "buf = bs" using slotsD(11) [OF inv [unfolded cache_inv_def, THEN conjunct1] k Some] ld by simp
  then show ?thesis using Some inv by (simp add: queue_testcase_get_def Let_def)
next
  case None
  show ?thesis
  proof (cases "dlt (q_weight (queue_buf a ! k)) (Fin 1) \<or> q_testcase_max_cache_size a = 0")
    case True
    obtain b where "uncached_get fs k a = Inr (bs, b)" "cache_inv fs b" "queue_same a b"
      using ld inv by (auto simp: uncached_get_def Let_def cache_inv_def queue_same_def entry_same_def list.rel_refl cache_rest_def rand_core_def)
    then show ?thesis using None True by (simp add: queue_testcase_get_def Let_def)
  next
    case False
    let ?q = "queue_buf a ! k" and ?r = "evict_loop fuel fuel junk u (q_len (queue_buf a ! k)) (q_testcase_max_cache_count a) a"
    note ev = evict_loop_ok [OF inv fuel mark_slot [OF inv], where fuel = fuel and junk = junk and u = u and len = "q_len ?q"]
    have get: "queue_testcase_get fs fuel junk u k a = obind ?r (\<lambda>tid a.
            let tid = (if q_testcase_max_cache_entries a \<le> tid then q_testcase_smallest_free a else tid)
            in rbind (find_slot (q_testcase_cache a) (unat tid)) (\<lambda>t.
                 rbind (load_file fs (q_fname ?q) (q_len ?q)) (\<lambda>bs. Inr (Some (bs, register_cached k t bs a)))))"
      using None False by (simp add: queue_testcase_get_def Let_def)
    show ?thesis
    proof (cases ?r)
      case (Inl e)
      then show ?thesis using ev get by (simp add: obind_def)
    next
      case (Inr r)
      show ?thesis
      proof (cases r)
        case None
        then show ?thesis using ev get Inr by (simp add: obind_def)
      next
        case (Some tb)
        obtain t b where r: "?r = Inr (Some (t, b))" using Inr Some by (cases tb) simp
        have b: "cache_inv fs b" "queue_same a b" "fewer_cached a b" "\<not> cache_full (q_len ?q) b"
          "unat (q_testcase_max_cache_entries b) \<le> unat t \<or> q_testcase_cache b ! unat t = None" using ev r by simp_all
        have c: "unat (q_testcase_cache_count b) < unat (q_testcase_max_cache_entries b)"
          using cache_count_lt [OF _ b(1)] b(4) by (simp add: cache_full_def)
        obtain v where v: "find_slot (q_testcase_cache b) (unat (if q_testcase_max_cache_entries b \<le> t then q_testcase_smallest_free b else t)) = Inr v"
          "v < unat (q_testcase_max_cache_entries b)" "q_testcase_cache b ! v = None" using free_slot [OF b(1) c b(5)] .
        note qs = queue_sameD [OF b(2)]
        note same = entry_same_fields [OF qs(3) [OF k]]
        have get': "queue_testcase_get fs fuel junk u k a = Inr (Some (bs, register_cached k v bs b))"
          unfolding get r by (simp add: obind_def Let_def v(1) ld)
        have kb: "k < length (queue_buf b)" "q_testcase_buf (queue_buf b ! k) = None"
          using b(3) k \<open>q_testcase_buf (queue_buf a ! k) = None\<close> qs(2) by (simp_all add: fewer_cached_def)
        have ldb: "load_file fs (q_fname (queue_buf b ! k)) (q_len (queue_buf b ! k)) = Inr bs" using ld same by simp
        show ?thesis unfolding get'
          using register_cached_inv [OF b(1) v(2, 3) kb ldb c] queue_same_trans [OF b(2)] by simp
      qed
    qed
  qed
qed

section \<open>Reading through the cache\<close>

text \<open>Reading several test cases one after the other.\<close>

fun read_all :: "('k \<Rightarrow> 's \<Rightarrow> ('b \<times> 's) option res) \<Rightarrow> 'k list \<Rightarrow> 's \<Rightarrow> ('b list \<times> 's) option res" where
  "read_all get [] a = Inr (Some ([], a))"
| "read_all get (k # ks) a = rbind (get k a) (\<lambda>r. case r of None \<Rightarrow> Inr None
     | Some (x, a) \<Rightarrow> rbind (read_all get ks a) (\<lambda>r. Inr (map_option (\<lambda>(xs, a). (x # xs, a)) r)))"

text \<open>What a client of a store of test cases relies on, and what it may conclude.\<close>

locale testcase_source =
  fixes inv :: "'s \<Rightarrow> bool" and same :: "'s \<Rightarrow> 's \<Rightarrow> bool" and content :: "'s \<Rightarrow> 'k \<Rightarrow> 'b option"
    and get :: "'k \<Rightarrow> 's \<Rightarrow> ('b \<times> 's) option res"
  assumes same_refl: "same a a"
    and same_trans: "same a b \<Longrightarrow> same b c \<Longrightarrow> same a c"
    and same_content: "same a b \<Longrightarrow> content b k = content a k"
    and get_content: "inv a \<Longrightarrow> content a k = Some x \<Longrightarrow> get k a = Inr (Some (r, b)) \<Longrightarrow> r = x \<and> inv b \<and> same a b"
begin

lemma read_all_content:
  assumes "inv a" and "\<forall>k \<in> set ks. content a k = Some (f k)" and "read_all get ks a = Inr (Some (xs, b))"
  shows "xs = map f ks \<and> inv b \<and> same a b"
  using assms
proof (induction ks arbitrary: a xs)
  case Nil
  then show ?case using same_refl by simp
next
  case (Cons k ks)
  obtain x c ys where g: "get k a = Inr (Some (x, c))" and gs: "read_all get ks c = Inr (Some (ys, b))" and xs: "xs = x # ys"
    using Cons.prems(3) by (auto simp: rbind_eq_Inr_iff split: option.splits)
  have c: "x = f k" "inv c" "same a c" using get_content [OF Cons.prems(1) _ g] Cons.prems(2) by auto
  have "\<forall>k \<in> set ks. content c k = Some (f k)" using Cons.prems(2) same_content [OF c(3)] by simp
  then have "ys = map f ks \<and> inv b \<and> same c b" using Cons.IH [OF c(2) _ gs] by blast
  then show ?case using c xs same_trans by auto
qed

end

definition content_of :: "(string \<Rightarrow> bytes option) \<Rightarrow> afl_state \<Rightarrow> nat \<Rightarrow> bytes option" where
  "content_of fs a k =
     (if k < length (queue_buf a)
      then case load_file fs (q_fname (queue_buf a ! k)) (q_len (queue_buf a ! k)) of Inr bs \<Rightarrow> Some bs | Inl _ \<Rightarrow> None
      else None)"

lemma content_same:
  assumes "queue_same a b"
  shows "content_of fs b k = content_of fs a k"
proof (cases "k < length (queue_buf a)")
  case True
  then show ?thesis using queue_sameD(2) [OF assms] entry_same_fields [OF queue_sameD(3) [OF assms True]] by (simp add: content_of_def)
next
  case False
  then show ?thesis using queue_sameD(2) [OF assms] by (simp add: content_of_def)
qed

lemma cache_count_bound: "cache_inv fs a \<Longrightarrow> unat (q_testcase_cache_count a) < 2 ^ 28"
proof -
  assume inv: "cache_inv fs a"
  note wf = inv [unfolded cache_inv_def, THEN conjunct1]
  have "card (occ (unat (q_testcase_max_cache_entries a)) (q_testcase_cache a)) \<le> card {..<unat (q_testcase_max_cache_entries a)}"
    by (intro card_mono) (auto simp: occ_def)
  then show ?thesis using slotsD(8) [OF wf] inv by (simp add: cache_inv_def)
qed

text \<open>Enough fuel for the evictions of any cache whose array fits its 32-bit size.\<close>

definition cache_fuel :: "nat \<Rightarrow> nat" where
  "cache_fuel extra = 2 ^ 28 + extra"

interpretation tc: testcase_source "cache_inv fs" queue_same "content_of fs" "queue_testcase_get fs (cache_fuel extra) junk urandom"
  for fs extra junk urandom
proof
  fix a b :: afl_state and k c r
  assume inv: "cache_inv fs a" and c: "content_of fs a k = Some c" and g: "queue_testcase_get fs (cache_fuel extra) junk urandom k a = Inr (Some (r, b))"
  have k: "k < length (queue_buf a)" and ld: "load_file fs (q_fname (queue_buf a ! k)) (q_len (queue_buf a ! k)) = Inr c"
    using c by (auto simp: content_of_def split: if_splits sum.splits)
  have "unat (q_testcase_cache_count a) < cache_fuel extra" using cache_count_bound [OF inv] by (simp add: cache_fuel_def)
  from queue_testcase_get_ok [OF inv k ld this, where junk = junk and u = urandom] show "r = c \<and> cache_inv fs b \<and> queue_same a b" using g by simp
qed (auto intro: queue_same_trans content_same)

text \<open>
  C28: \<open>queue_testcase_get\<close> on a consistent cache returns the bytes of the entry's file, cached or
  not, and leaves the cache consistent and everything of the queue but the cached buffers alone.
  It fails only when the generator cannot be reseeded, and its eviction loop needs no more
  rounds than there are cached test cases: running out of fuel means that the draws for a victim did.
\<close>

theorem queue_testcase_get_correct:
  assumes "cache_inv fs a" and "k < length (queue_buf a)"
    and "load_file fs (q_fname (queue_buf a ! k)) (q_len (queue_buf a ! k)) = Inr bs"
    and "unat (q_testcase_cache_count a) < fuel"
  shows "case queue_testcase_get fs fuel junk urandom k a of
      Inl e \<Rightarrow> urandom = Inl e
    | Inr None \<Rightarrow> \<exists>b. cache_inv fs b \<and> pick_victim fuel fuel urandom b = Inr None
    | Inr (Some (r, b)) \<Rightarrow> r = bs \<and> cache_inv fs b \<and> queue_same a b"
  using queue_testcase_get_ok [OF assms] unfolding starved_def .

definition cache_example :: afl_state where
  "cache_example = afl_zero\<lparr>queue_buf := [entry_zero\<lparr>q_len := 2, q_weight := Fin 1\<rparr>, entry_zero\<lparr>q_len := 1, q_weight := Fin 1\<rparr>],
     q_testcase_max_cache_size := 100, q_testcase_max_cache_entries := 4, q_testcase_cache := [None, None, None, None]\<rparr>"

lemma nat4: "(t :: nat) < 4 \<longleftrightarrow> t = 0 \<or> t = 1 \<or> t = 2 \<or> t = 3"
  by auto

lemma cache_example_inv: "cache_inv fs cache_example"
proof -
  have "[None, None, None, None] ! t = (None :: nat option)" if "t < 4" for t using that by (auto simp: nat4 numeral_3_eq_3 numeral_2_eq_2)
  then have "occ 4 [None, None, None, None] = {}" by (auto simp: occ_def)
  then show ?thesis unfolding cache_inv_def slots_wf_def
    by (auto simp: cache_example_def zero_defs nat4 numeral_3_eq_3 nth_Cons' less_Suc_eq)
qed

theorem queue_testcase_get_correct_witness:
  "\<exists>b. queue_testcase_get (\<lambda>_. Some [7, 8, 9]) 1 None (Inl (PFATAL ''urandom'')) 0 cache_example = Inr (Some ([7, 8], b)) \<and>
     cache_inv (\<lambda>_. Some [7, 8, 9]) b"
proof -
  let ?fs = "\<lambda>_ :: string. Some [7, 8, 9 :: u8]"
  have "\<exists>b. queue_testcase_get ?fs 1 None (Inl (PFATAL ''urandom'')) 0 cache_example = Inr (Some ([7, 8], b))"
    by (simp add: queue_testcase_get_def cache_example_def zero_defs cache_full_def obind_def find_slot.simps load_file_def)
  moreover have "load_file ?fs (q_fname (queue_buf cache_example ! 0)) (q_len (queue_buf cache_example ! 0)) = Inr [7, 8]"
    by (simp add: cache_example_def load_file_def)
  ultimately show ?thesis
    using queue_testcase_get_correct [OF cache_example_inv, where fs = ?fs and k = 0 and fuel = 1 and bs = "[7, 8]" and junk = None and
        urandom = "Inl (PFATAL ''urandom'')"]
    by (auto simp: cache_example_def zero_defs)
qed

text \<open>
  C29: the cache is transparent: whatever is evicted in between, reading a sequence of entries
  through it yields their files in order.
\<close>

theorem cache_transparent:
  assumes "cache_inv fs a" and "\<forall>k \<in> set ks. content_of fs a k = Some (f k)"
    and "read_all (queue_testcase_get fs (cache_fuel extra) junk urandom) ks a = Inr (Some (xs, b))"
  shows "xs = map f ks \<and> cache_inv fs b \<and> queue_same a b"
  using assms by (rule tc.read_all_content)

theorem cache_transparent_witness:
  "\<exists>b. read_all (queue_testcase_get (\<lambda>_. Some [7, 8, 9]) (cache_fuel 0) None (Inl (PFATAL ''urandom''))) [0, 0] cache_example =
     Inr (Some ([[7, 8], [7, 8]], b)) \<and> cache_inv (\<lambda>_. Some [7, 8, 9]) b"
proof -
  let ?fs = "\<lambda>_ :: string. Some [7, 8, 9 :: u8]" and ?u = "Inl (PFATAL ''urandom'') :: (u64 \<times> u64 \<times> u64) res"
  have nf: "\<not> cache_full len a \<Longrightarrow> evict_loop n fuel junk u len tid a = Inr (Some (tid, a))" for n fuel junk u len tid a
    by (cases n) simp_all
  obtain xs b where r: "read_all (queue_testcase_get ?fs (cache_fuel 0) None ?u) [0, 0] cache_example = Inr (Some (xs, b))"
    by (simp add: queue_testcase_get_def cache_example_def zero_defs nf cache_full_def obind_def find_slot.simps load_file_def
        register_cached_def set_entry_def Let_def)
  let ?f = "\<lambda>k. if k = 0 then [7, 8] else [7 :: u8]"
  have "\<forall>k \<in> set [0, 0]. content_of ?fs cache_example k = Some (?f k)"
    by (simp add: content_of_def cache_example_def load_file_def)
  from cache_transparent [OF cache_example_inv this r] show ?thesis using r by auto
qed

lemma store_entry_cached:
  assumes "cache_inv fs a" and "k < length (queue_buf a)" "q_testcase_buf (queue_buf a ! k) = None"
    and "load_file fs (q_fname (queue_buf a ! k)) (q_len (queue_buf a ! k)) = Inr (take (unat (q_len (queue_buf a ! k))) mem)"
  shows "\<exists>b. queue_testcase_store_mem k mem a = Inr b \<and> cache_inv fs b \<and> queue_same a b"
  using queue_testcase_store_mem_ok [OF assms refl] .

text \<open>
  Storing a new test case whose memory holds what its file holds never fails and keeps the
  cache consistent.
\<close>

theorem queue_testcase_store_mem_inv:
  assumes "cache_inv fs a" and "k < length (queue_buf a)" "q_testcase_buf (queue_buf a ! k) = None"
    and "load_file fs (q_fname (queue_buf a ! k)) (q_len (queue_buf a ! k)) = Inr (take (unat (q_len (queue_buf a ! k))) mem)"
  shows "\<exists>b. queue_testcase_store_mem k mem a = Inr b \<and> cache_inv fs b \<and> queue_same a b"
  using assms by (rule store_entry_cached)

theorem queue_testcase_store_mem_inv_witness:
  "\<exists>b. queue_testcase_store_mem 1 [7] cache_example = Inr b \<and> cache_inv (\<lambda>_. Some [7, 8, 9]) b \<and> queue_same cache_example b"
  using queue_testcase_store_mem_inv [OF cache_example_inv, where fs = "\<lambda>_. Some [7, 8, 9]" and k = 1 and mem = "[7]"]
  by (simp add: cache_example_def zero_defs load_file_def)

text \<open>
  When a trim shortens a cached test case by more than a kilobyte, the cache is charged, not
  credited: the difference is taken in 32 bits, so that \<open>q_testcase_cache_size\<close> grows by 2^32
  minus the bytes that were freed, both after a custom trim and after a normal one.
\<close>

theorem retake_charges_shrink:
  assumes "q_testcase_buf (queue_buf a ! k) = Some buf" and "unat len + 1024 < unat old_len"
  shows "(queue_testcase_retake_mem k False inp len old_len a = Inr b \<longrightarrow>
      q_testcase_cache_size b = q_testcase_cache_size a + (2 ^ 32 - of_nat (unat old_len - unat len))) \<and>
    (q_len (queue_buf a ! k) = len \<and> queue_testcase_retake fs k old_len a = Inr b \<longrightarrow>
      q_testcase_cache_size b = q_testcase_cache_size a + (2 ^ 32 - of_nat (unat old_len - unat len)))"
proof -
  have lt: "len + 1024 < old_len"
  proof -
    have "unat (len + 1024) = unat len + 1024" using assms(2) unat_u32 [of old_len] by (simp add: unat_word_ariths)
    then show ?thesis using assms(2) by (simp add: word_less_nat_alt)
  qed
  have u: "unat (len - old_len) = 2 ^ 32 - (unat old_len - unat len)"
    using assms(2) by (simp add: unat_sub_if')
  have "(of_nat (unat (len - old_len)) :: u64) = of_nat (2 ^ 32) - of_nat (unat old_len - unat len)"
    unfolding u by (rule of_nat_diff) (use unat_u32 [of old_len] in linarith)
  then have d: "(ucast (len - old_len) :: u64) = 2 ^ 32 - of_nat (unat old_len - unat len)" by simp
  show ?thesis
  proof (intro conjI impI)
    assume "queue_testcase_retake_mem k False inp len old_len a = Inr b"
    then show "q_testcase_cache_size b = q_testcase_cache_size a + (2 ^ 32 - of_nat (unat old_len - unat len))"
      using assms(1) lt d by (auto simp: queue_testcase_retake_mem_def Let_def set_entry_def split: if_splits)
  next
    assume "q_len (queue_buf a ! k) = len \<and> queue_testcase_retake fs k old_len a = Inr b"
    then show "q_testcase_cache_size b = q_testcase_cache_size a + (2 ^ 32 - of_nat (unat old_len - unat len))"
      using assms(1) lt d by (auto simp: queue_testcase_retake_def Let_def rbind_eq_Inr_iff set_entry_def)
  qed
qed

theorem retake_charges_shrink_witness:
  "\<exists>b. queue_testcase_retake_mem 0 False [1] 1 2000 (cache_example\<lparr>queue_buf := [entry_zero\<lparr>q_testcase_buf := Some (replicate 2000 0)\<rparr>],
       q_testcase_cache_size := 2000\<rparr>) = Inr b \<and> q_testcase_cache_size b = 2000 + (2 ^ 32 - 1999)"
proof -
  let ?a = "cache_example\<lparr>queue_buf := [entry_zero\<lparr>q_testcase_buf := Some (replicate 2000 0)\<rparr>], q_testcase_cache_size := 2000\<rparr>"
  obtain b where b: "queue_testcase_retake_mem 0 False [1] 1 2000 ?a = Inr b"
    by (simp add: queue_testcase_retake_mem_def Let_def)
  then show ?thesis
    using retake_charges_shrink [of ?a 0 "replicate 2000 0" 1 2000 "[1]" b] by simp
qed

end
