(* ===== verification/Queue_Ops.thy ===== *)
theory Queue_Ops
  imports Text Alias Cache
begin

text \<open>
  The queue as a container: \<open>add_to_queue\<close>, \<open>mark_as_det_done\<close> and \<open>recalculate_all_scores\<close> of
  src/afl-fuzz-queue.c, and \<open>run_afl_custom_queue_new_entry\<close> of src/afl-fuzz-mutators.c. The clock,
  the file system, the callbacks of custom mutators and the execution of the target are
  parameters; allocation succeeds.
\<close>

section \<open>New entries\<close>

definition run_afl_custom_queue_new_entry ::
  "(string \<Rightarrow> string \<Rightarrow> bool) list \<Rightarrow> (string \<Rightarrow> u64 option) \<Rightarrow> nat \<Rightarrow> string \<Rightarrow> string \<Rightarrow> afl_state \<Rightarrow> afl_state res" where
  "run_afl_custom_queue_new_entry hooks stat_size k fname mother a =
     (if custom_mutators_count a \<noteq> 0
      then let updated = fold (\<lambda>hook updated. if hook fname mother then True else updated) hooks False
           in if updated
              then case stat_size fname of
                     None \<Rightarrow> Inl (PFATAL ''File is gone!'')
                   | Some st_size \<Rightarrow> if st_size = 0 then Inl (FATAL ''File became empty in custom mutator!'')
                                  else Inr (set_entry k (q_len_update (\<lambda>_. ucast st_size)) a)
              else Inr a
      else Inr a)"

definition new_entry :: "string \<Rightarrow> u32 \<Rightarrow> bool \<Rightarrow> afl_state \<Rightarrow> queue_entry" where
  "new_entry fname len passed_det a =
     entry_zero\<lparr>q_fname := fname, q_len := len, q_depth := ucast (cur_depth a + 1), q_passed_det := passed_det,
       q_trace_mini := None, q_testcase_buf := None, q_mother := queue_cur a, q_weight := Fin 1, q_perf_score := Fin 100\<rparr>"

text \<open>The array after \<open>afl_realloc\<close> and the store at index \<open>k\<close>.\<close>

definition store_at :: "nat \<Rightarrow> 'a \<Rightarrow> 'a list \<Rightarrow> 'a list" where
  "store_at k x xs = take k xs @ [x] @ drop (Suc k) xs"

definition link_entry :: "queue_entry \<Rightarrow> afl_state \<Rightarrow> afl_state" where
  "link_entry q a =
     (let k = unat (queued_items a);
          a = (if ucast (max_depth a) < q_depth q then a\<lparr>max_depth := ucast (q_depth q)\<rparr> else a);
          a = (if queue_top a \<noteq> None then a\<lparr>queue_top := Some k\<rparr> else a\<lparr>queue := Some k, queue_top := Some k\<rparr>);
          a = (if 4 < q_len q then a\<lparr>ready_for_splicing_count := ready_for_splicing_count a + 1\<rparr> else a);
          a = a\<lparr>queued_items := queued_items a + 1, active_items := active_items a + 1,
                pending_not_fuzzed := pending_not_fuzzed a + 1, cycles_wo_finds := 0\<rparr>
      in a\<lparr>queue_buf := store_at (unat (queued_items a - 1)) (q\<lparr>q_id := queued_items a - 1\<rparr>) (queue_buf a)\<rparr>)"

definition note_find :: "u64 \<Rightarrow> afl_state \<Rightarrow> afl_state" where
  "note_find cur_time a =
     (let a = (if start_time a \<noteq> 0 \<and> longest_find_time a < cur_time - last_find_time a
               then if last_find_time a = 0 then a\<lparr>longest_find_time := cur_time - start_time a\<rparr>
                    else a\<lparr>longest_find_time := cur_time - last_find_time a\<rparr>
               else a)
      in a\<lparr>last_find_time := cur_time\<rparr>)"

definition add_to_queue ::
  "u64 \<Rightarrow> (string \<Rightarrow> string \<Rightarrow> bool) list \<Rightarrow> (string \<Rightarrow> u64 option) \<Rightarrow> (string \<Rightarrow> nat \<Rightarrow> bytes option) \<Rightarrow>
     string \<Rightarrow> u32 \<Rightarrow> bool \<Rightarrow> afl_state \<Rightarrow> afl_state res" where
  "add_to_queue cur_time hooks stat_size read_file fname len passed_det a =
     (let k = unat (queued_items a);
          a = note_find cur_time (link_entry (new_entry fname len passed_det a) a)
      in rbind (if custom_mutators_count a \<noteq> 0
                then case queue_cur a of
                       Some c \<Rightarrow> if syncing_party a = None
                                 then run_afl_custom_queue_new_entry hooks stat_size k fname (q_fname (queue_buf a ! c)) a
                                 else Inr a
                     | None \<Rightarrow> Inr a
                else Inr a) (\<lambda>a.
           rbind (if cmplog_mode a \<and> \<not> q_is_ascii (queue_buf a ! k)
                  then rbind (check_if_text read_file (queue_buf a ! k)) (\<lambda>t.
                         Inr (set_entry k (q_is_ascii_update (\<lambda>_. t \<noteq> 0)) a))
                  else Inr a) (\<lambda>a.
             Inr (set_entry k (q_skipdet_e_update (\<lambda>_. Some skipdet_zero)) a))))"

text \<open>
  \<open>mark_as_det_done\<close>: \<open>created\<close> and \<open>owned\<close> are the outcomes of creating the marker file and, when
  \<open>chown_needed\<close>, of changing its group.
\<close>

definition mark_as_det_done :: "bool \<Rightarrow> bool \<Rightarrow> bool \<Rightarrow> nat \<Rightarrow> afl_state \<Rightarrow> afl_state res" where
  "mark_as_det_done created chown_needed owned k a =
     (if CHR ''/'' \<notin> set (q_fname (queue_buf a ! k)) then Inl (UB ''null pointer'')
      else if \<not> created then Inl (PFATAL ''Unable to create'')
      else if chown_needed \<and> \<not> owned then Inl (PFATAL ''fchown() failed'')
      else Inr (set_entry k (q_passed_det_update (\<lambda>_. True)) a))"

section \<open>Candidates for the slots\<close>

text \<open>A candidate list is stored as \<open>[count, id, id, ...]\<close>.\<close>

definition enroll :: "u32 \<Rightarrow> u32 list option \<Rightarrow> u32 list" where
  "enroll eid c =
     (case c of
        None \<Rightarrow> [1, eid]
      | Some ids \<Rightarrow> let count = hd ids; ids = take (unat (count + 2)) ids @ replicate (unat (count + 2) - length ids) 0
                    in ids[0 := count + 1, unat (count + 1) := eid])"

definition enroll_hits :: "u32 \<Rightarrow> afl_state \<Rightarrow> afl_state" where
  "enroll_hits eid a =
     a\<lparr>top_rated_candidates := fold (\<lambda>j cs. if trace_bits (fsrv a) ! j \<noteq> 0 then cs[j := Some (enroll eid (cs ! j))] else cs)
         [0..<unat (map_size (fsrv a))] (top_rated_candidates a)\<rparr>"

text \<open>
  The first loop: run every entry that was not scored yet. \<open>get\<close> reads the test case through the
  cache, \<open>deliver\<close> hands it to the target (\<open>write_to_testcase\<close>) and \<open>run\<close> executes it.
\<close>

fun score_new ::
  "(nat \<Rightarrow> afl_state \<Rightarrow> (bytes \<times> afl_state) option res) \<Rightarrow> (bytes \<Rightarrow> afl_state \<Rightarrow> afl_state) \<Rightarrow> target_run \<Rightarrow>
     nat list \<Rightarrow> afl_state \<Rightarrow> afl_state option res" where
  "score_new get deliver run [] a = Inr (Some a)"
| "score_new get deliver run (i # is) a =
     rbind (if \<not> q_disabled (queue_buf a ! i)
            then rbind (get i a) (\<lambda>r. case r of
                   None \<Rightarrow> Inr None
                 | Some (buf, a) \<Rightarrow>
                     let a = snd (fuzz_run_target run (deliver buf a) (exec_tmout (fsrv a)))
                     in Inr (Some (enroll_hits (q_id (queue_buf a ! i)) a)))
            else Inr (Some a))
       (\<lambda>r. case r of None \<Rightarrow> Inr None | Some a \<Rightarrow> score_new get deliver run is (a\<lparr>last_scored_idx := int i\<rparr>))"

definition rescore_slot :: "(dbl \<Rightarrow> dbl) \<Rightarrow> nat \<Rightarrow> afl_state \<Rightarrow> afl_state res" where
  "rescore_slot log1p i a =
     (case top_rated_candidates a ! i of
        None \<Rightarrow> Inr a
      | Some ids \<Rightarrow> rfold (\<lambda>k a. update_bitmap_rescore log1p (unat (ids ! Suc k)) i a) [0..<unat (hd ids)] a)"

definition recalculate_all_scores ::
  "(dbl \<Rightarrow> dbl) \<Rightarrow> (nat \<Rightarrow> afl_state \<Rightarrow> (bytes \<times> afl_state) option res) \<Rightarrow> (bytes \<Rightarrow> afl_state \<Rightarrow> afl_state) \<Rightarrow> target_run \<Rightarrow>
     afl_state \<Rightarrow> afl_state option res" where
  "recalculate_all_scores log1p get deliver run a =
     rbind (score_new get deliver run [nat (last_scored_idx a + 1)..<unat (queued_items a)] a) (\<lambda>r.
       case r of
         None \<Rightarrow> Inr None
       | Some a \<Rightarrow> rbind (rfold (rescore_slot log1p) [0..<unat (map_size (fsrv a))] a) (\<lambda>a. Inr (Some a)))"

section \<open>The shape of the queue\<close>

definition enabled_count :: "afl_state \<Rightarrow> nat" where
  "enabled_count a = length (filter (\<lambda>q. \<not> q_disabled q) (queue_buf a))"

text \<open>
  Well-formedness of the queue. \<open>mark_as_redundant\<close> disables entries without counting them out
  of \<open>active_items\<close>, so under \<open>AFL_DISABLE_REDUNDANT\<close> that field is only an upper bound.
\<close>

definition queue_wf :: "afl_state \<Rightarrow> bool" where
  "queue_wf a \<longleftrightarrow> length (queue_buf a) = unat (queued_items a) \<and>
     (\<forall>k < length (queue_buf a). unat (q_id (queue_buf a ! k)) = k \<and> q_depth (queue_buf a ! k) \<le> ucast (max_depth a) \<and>
        (\<forall>m. q_mother (queue_buf a ! k) = Some m \<longrightarrow> m < k)) \<and>
     queue a = (if queue_buf a = [] then None else Some 0) \<and>
     queue_top a = (if queue_buf a = [] then None else Some (length (queue_buf a) - 1)) \<and>
     (if afl_disable_redundant a then enabled_count a \<le> unat (active_items a) else unat (active_items a) = enabled_count a) \<and>
     unat (active_items a) \<le> length (queue_buf a) \<and> (\<forall>c. queue_cur a = Some c \<longrightarrow> c < length (queue_buf a))"

lemma queue_wfD:
  assumes "queue_wf a"
  shows "length (queue_buf a) = unat (queued_items a)"
    "k < length (queue_buf a) \<Longrightarrow> unat (q_id (queue_buf a ! k)) = k"
    "k < length (queue_buf a) \<Longrightarrow> q_depth (queue_buf a ! k) \<le> ucast (max_depth a)"
    "k < length (queue_buf a) \<Longrightarrow> q_mother (queue_buf a ! k) = Some m \<Longrightarrow> m < k"
    "queue a = (if queue_buf a = [] then None else Some 0)"
    "queue_top a = (if queue_buf a = [] then None else Some (length (queue_buf a) - 1))"
    "if afl_disable_redundant a then enabled_count a \<le> unat (active_items a) else unat (active_items a) = enabled_count a"
    "queue_cur a = Some c \<Longrightarrow> c < length (queue_buf a)"
    "unat (active_items a) \<le> length (queue_buf a)"
  using assms unfolding queue_wf_def by blast+

lemma store_at_end: "store_at (length xs) x xs = xs @ [x]"
  by (simp add: store_at_def)

lemma link_entry_buf:
  assumes "queue_wf a"
  shows "queue_buf (link_entry q a) = queue_buf a @ [q\<lparr>q_id := queued_items a\<rparr>]"
    "queued_items (link_entry q a) = queued_items a + 1"
    "queue_cur (link_entry q a) = queue_cur a" "custom_mutators_count (link_entry q a) = custom_mutators_count a"
  using queue_wfD(1) [OF assms] by (simp_all add: link_entry_def Let_def store_at_end [symmetric])

lemma unat_widen: "unat (ucast (w :: u32) :: u64) = unat w"
  by (simp add: unsigned_ucast_eq take_bit_nat_eq_self order_less_trans [OF unsigned_less])

lemma widen_le: "(ucast (x :: u32) :: u64) \<le> ucast y \<longleftrightarrow> x \<le> y"
  by (simp add: word_le_nat_alt unat_widen)

lemma narrow_widen: "(ucast (ucast (w :: u32) :: u64) :: u32) = w"
  by (rule bit_word_eqI) (auto simp: bit_simps)

lemma link_entry_depth:
  assumes "q_depth q = ucast (d :: u32)"
  shows "max_depth (link_entry q a) = max (max_depth a) d"
  using assms by (auto simp: link_entry_def Let_def max_def widen_le narrow_widen not_le [symmetric])

lemma link_entry_fields:
  assumes "queue_wf a"
  shows "queue (link_entry q a) = Some 0" "queue_top (link_entry q a) = Some (length (queue_buf a))"
    "active_items (link_entry q a) = active_items a + 1" "afl_disable_redundant (link_entry q a) = afl_disable_redundant a"
  using queue_wfD(1, 5, 6) [OF assms] by (auto simp: link_entry_def Let_def)

lemma link_entry_wf:
  assumes wf: "queue_wf a" and room: "unat (queued_items a) + 1 < 2 ^ 32"
    and q: "q_mother q = queue_cur a" "\<not> q_disabled q" "q_depth q = ucast (d :: u32)"
  shows "queue_wf (link_entry q a)"
proof -
  let ?b = "link_entry q a" and ?n = "length (queue_buf a)"
  note D = queue_wfD [OF wf]
  note buf = link_entry_buf [OF wf, of q]
  have n: "unat (queued_items a + 1) = Suc ?n" using room D(1) by (simp add: unat_word_ariths)
  have md: "ucast (max_depth a) \<le> (ucast (max_depth ?b) :: u64)" "q_depth q \<le> ucast (max_depth ?b)"
    unfolding link_entry_depth [OF q(3)] by (simp_all add: q(3) widen_le)
  have "unat (q_id (queue_buf ?b ! k)) = k \<and> q_depth (queue_buf ?b ! k) \<le> ucast (max_depth ?b) \<and>
      (\<forall>m. q_mother (queue_buf ?b ! k) = Some m \<longrightarrow> m < k)" if "k < length (queue_buf ?b)" for k
  proof (cases "k = ?n")
    case True
    then show ?thesis using q(1) md(2) D(1, 8) by (simp add: buf nth_append)
  next
    case False
    then have k: "k < ?n" using that by (simp add: buf)
    then show ?thesis using D(2-4) [OF k] order.trans [OF D(3) [OF k] md(1)] by (simp add: buf nth_append)
  qed
  moreover have act: "unat (active_items ?b) = Suc (unat (active_items a))"
    using D(1, 9) room by (simp add: link_entry_fields [OF wf] unat_word_ariths)
  moreover have "enabled_count ?b = Suc (enabled_count a)" using q(2) by (simp add: enabled_count_def buf)
  ultimately show ?thesis unfolding queue_wf_def using link_entry_fields [OF wf, of q] D(7, 8, 9) n
    by (auto simp: buf less_Suc_eq)
qed

text \<open>Fields that the shape of the queue does not depend on.\<close>

definition ident :: "queue_entry \<Rightarrow> u32 \<times> u64 \<times> nat option \<times> bool" where
  "ident q = (q_id q, q_depth q, q_mother q, q_disabled q)"

definition queue_frame :: "afl_state \<Rightarrow> afl_state \<Rightarrow> bool" where
  "queue_frame a b \<longleftrightarrow> map ident (queue_buf b) = map ident (queue_buf a) \<and> queued_items b = queued_items a \<and>
     max_depth b = max_depth a \<and> queue b = queue a \<and> queue_top b = queue_top a \<and> active_items b = active_items a \<and>
     queue_cur b = queue_cur a \<and> afl_disable_redundant b = afl_disable_redundant a"

lemma queue_frame_trans: "queue_frame a b \<Longrightarrow> queue_frame b c \<Longrightarrow> queue_frame a c"
  by (simp add: queue_frame_def)

lemma queue_frame_set_entry:
  assumes "\<And>q. ident (f q) = ident q"
  shows "queue_frame a (set_entry k f a)"
  using assms by (cases "k < length (queue_buf a)")
    (simp_all add: queue_frame_def set_entry_def map_update list_update_same_conv list_update_beyond)

lemma queue_frame_wf:
  assumes "queue_frame a b"
  shows "queue_wf b = queue_wf a"
proof -
  have m: "map ident (queue_buf b) = map ident (queue_buf a)" using assms by (simp add: queue_frame_def)
  have len: "length (queue_buf b) = length (queue_buf a)" using arg_cong [OF m, of length] by simp
  then have nil: "queue_buf b = [] \<longleftrightarrow> queue_buf a = []" by auto
  have e: "q_id (queue_buf b ! k) = q_id (queue_buf a ! k)" "q_depth (queue_buf b ! k) = q_depth (queue_buf a ! k)"
    "q_mother (queue_buf b ! k) = q_mother (queue_buf a ! k)" if "k < length (queue_buf a)" for k
    using arg_cong [OF m, of "\<lambda>l. l ! k"] that len by (simp_all add: ident_def)
  have "map q_disabled qs = map (\<lambda>(_, _, _, d). d) (map ident qs)" for qs by (simp add: ident_def)
  then have "map q_disabled (queue_buf b) = map q_disabled (queue_buf a)" using m by metis
  moreover have "length (filter (\<lambda>q. \<not> q_disabled q) qs) = length (filter Not (map q_disabled qs))" for qs
    by (simp add: filter_map o_def)
  ultimately have "enabled_count b = enabled_count a" unfolding enabled_count_def by metis
  then show ?thesis using assms e len nil unfolding queue_wf_def queue_frame_def by simp
qed


section \<open>Adding an entry\<close>

lemma note_find_frame: "queue_frame a (note_find t a)" "queue_buf (note_find t a) = queue_buf a"
  "queue_cur (note_find t a) = queue_cur a" "custom_mutators_count (note_find t a) = custom_mutators_count a"
  by (simp_all add: note_find_def queue_frame_def Let_def)

text \<open>The stages after linking change the new entry only, and leave its identity alone.\<close>

definition only_entry :: "nat \<Rightarrow> afl_state \<Rightarrow> afl_state \<Rightarrow> bool" where
  "only_entry k a b \<longleftrightarrow> queue_frame a b \<and> length (queue_buf b) = length (queue_buf a) \<and>
     (\<forall>i < length (queue_buf a). i \<noteq> k \<longrightarrow> queue_buf b ! i = queue_buf a ! i) \<and>
     q_fname (queue_buf b ! k) = q_fname (queue_buf a ! k) \<and> q_passed_det (queue_buf b ! k) = q_passed_det (queue_buf a ! k) \<and>
     q_weight (queue_buf b ! k) = q_weight (queue_buf a ! k) \<and> q_testcase_buf (queue_buf b ! k) = q_testcase_buf (queue_buf a ! k) \<and>
     q_tc_ref (queue_buf b ! k) = q_tc_ref (queue_buf a ! k) \<and> q_trace_mini (queue_buf b ! k) = q_trace_mini (queue_buf a ! k) \<and>
     fsrv b = fsrv a \<and> top_rated b = top_rated a \<and> map_tmp_buf b = map_tmp_buf a"

lemma only_entry_refl [simp]: "only_entry k a a"
  by (simp add: only_entry_def queue_frame_def)

lemma only_entry_trans: "only_entry k a b \<Longrightarrow> only_entry k b c \<Longrightarrow> only_entry k a c"
  unfolding only_entry_def using queue_frame_trans by auto

lemma only_entry_set:
  assumes "\<And>q. ident (f q) = ident q \<and> q_fname (f q) = q_fname q \<and> q_passed_det (f q) = q_passed_det q \<and> q_weight (f q) = q_weight q \<and>
    q_testcase_buf (f q) = q_testcase_buf q \<and> q_tc_ref (f q) = q_tc_ref q \<and> q_trace_mini (f q) = q_trace_mini q"
  shows "only_entry k a (set_entry k f a)"
  using assms queue_frame_set_entry [of f a k] by (cases "k < length (queue_buf a)")
    (simp_all add: only_entry_def set_entry_def list_update_beyond)

lemma hook_only_entry:
  assumes "run_afl_custom_queue_new_entry hooks stat_size k fname mother a = Inr b"
  shows "only_entry k a b"
  using assms by (auto simp: run_afl_custom_queue_new_entry_def Let_def ident_def split: if_splits option.splits intro!: only_entry_set)

lemma text_only_entry:
  assumes "(if c then rbind t (\<lambda>t. Inr (set_entry k (q_is_ascii_update (\<lambda>_. t \<noteq> (0 :: u8))) a)) else Inr a) = Inr b"
  shows "only_entry k a b"
  using assms by (auto simp: rbind_eq_Inr_iff ident_def split: if_splits intro!: only_entry_set)

lemma add_stages:
  assumes "add_to_queue t hooks stat_size read_file fname len pd a = Inr b"
  shows "only_entry (unat (queued_items a)) (note_find t (link_entry (new_entry fname len pd a) a)) b"
proof -
  let ?k = "unat (queued_items a)" and ?c = "note_find t (link_entry (new_entry fname len pd a) a)"
  obtain d e where d: "(if custom_mutators_count ?c \<noteq> 0
                then case queue_cur ?c of
                       Some c \<Rightarrow> if syncing_party ?c = None
                                 then run_afl_custom_queue_new_entry hooks stat_size ?k fname (q_fname (queue_buf ?c ! c)) ?c
                                 else Inr ?c
                     | None \<Rightarrow> Inr ?c
                else Inr ?c) = Inr d"
    and e: "(if cmplog_mode d \<and> \<not> q_is_ascii (queue_buf d ! ?k)
                  then rbind (check_if_text read_file (queue_buf d ! ?k)) (\<lambda>t.
                         Inr (set_entry ?k (q_is_ascii_update (\<lambda>_. t \<noteq> 0)) d))
                  else Inr d) = Inr e"
    and b: "b = set_entry ?k (q_skipdet_e_update (\<lambda>_. Some skipdet_zero)) e"
    using assms unfolding add_to_queue_def Let_def rbind_eq_Inr_iff by blast
  have "only_entry ?k ?c d" using d by (auto split: if_splits option.splits intro: hook_only_entry)
  moreover have "only_entry ?k d e" by (rule text_only_entry [OF e])
  moreover have "only_entry ?k e b" unfolding b by (rule only_entry_set) (simp add: ident_def)
  ultimately show ?thesis using only_entry_trans by blast
qed

lemma hook_fails:
  assumes "run_afl_custom_queue_new_entry hooks stat_size k fname mother a = Inl e"
  shows "custom_mutators_count a \<noteq> 0" "stat_size fname = None \<or> stat_size fname = Some 0"
  using assms by (auto simp: run_afl_custom_queue_new_entry_def Let_def split: if_splits option.splits)

lemma text_never_fails: "check_if_text read_file q \<noteq> Inl e"
  using check_if_text_returns [of read_file q] by auto

lemma add_fails:
  assumes "queue_wf a" "add_to_queue t hooks stat_size read_file fname len pd a = Inl e"
  shows "custom_mutators_count a \<noteq> 0 \<and> queue_cur a \<noteq> None \<and> syncing_party a = None \<and>
    (stat_size fname = None \<or> stat_size fname = Some 0)"
proof -
  have [simp]: "syncing_party (note_find t (link_entry q a)) = syncing_party a" for q
    by (simp add: note_find_def link_entry_def Let_def)
  show ?thesis using assms(2) hook_fails unfolding add_to_queue_def Let_def rbind_eq_Inl_iff
    by (auto simp: rbind_eq_Inl_iff text_never_fails note_find_frame link_entry_buf [OF assms(1)]
        split: if_splits option.splits)
qed

lemma new_entry_fields [simp]:
  "q_fname (new_entry fname len pd a) = fname" "q_passed_det (new_entry fname len pd a) = pd"
  "q_tc_ref (new_entry fname len pd a) = 0" "q_trace_mini (new_entry fname len pd a) = None"
  "q_testcase_buf (new_entry fname len pd a) = None" "q_mother (new_entry fname len pd a) = queue_cur a"
  "q_depth (new_entry fname len pd a) = ucast (cur_depth a + 1)" "\<not> q_disabled (new_entry fname len pd a)"
  by (simp_all add: new_entry_def entry_zero_def)

lemma add_succeeds:
  assumes wf: "queue_wf a" and room: "unat (queued_items a) + 1 < 2 ^ 32"
    and b: "add_to_queue t hooks stat_size read_file fname len pd a = Inr b"
  shows "queue_wf b" "take (length (queue_buf a)) (queue_buf b) = queue_buf a"
    "length (queue_buf b) = Suc (length (queue_buf a))" "queued_items b = queued_items a + 1"
    "q_fname (last (queue_buf b)) = fname" "q_mother (last (queue_buf b)) = queue_cur a"
    "q_depth (last (queue_buf b)) = ucast (cur_depth a + 1)" "q_passed_det (last (queue_buf b)) = pd"
    "q_tc_ref (last (queue_buf b)) = 0" "q_trace_mini (last (queue_buf b)) = None"
    "q_testcase_buf (last (queue_buf b)) = None"
    "fsrv b = fsrv a" "top_rated b = top_rated a" "map_tmp_buf b = map_tmp_buf a"
proof -
  let ?q = "new_entry fname len pd a" and ?n = "length (queue_buf a)"
  let ?c = "note_find t (link_entry ?q a)"
  have k: "unat (queued_items a) = ?n" using queue_wfD(1) [OF wf] by simp
  have only: "only_entry ?n ?c b" using add_stages [OF b] by (simp add: k)
  have buf: "queue_buf ?c = queue_buf a @ [?q\<lparr>q_id := queued_items a\<rparr>]"
    by (simp add: note_find_frame link_entry_buf [OF wf])
  have fr: "queue_frame ?c b" using only by (simp add: only_entry_def)
  have "queue_wf (link_entry ?q a)"
    by (rule link_entry_wf [OF wf room, where d = "cur_depth a + 1"]) simp_all
  then have "queue_wf ?c" by (simp add: queue_frame_wf [OF note_find_frame(1)])
  then show "queue_wf b" by (simp add: queue_frame_wf [OF fr])
  show len: "length (queue_buf b) = Suc ?n" using only by (simp add: only_entry_def buf)
  show "take ?n (queue_buf b) = queue_buf a"
    using only by (intro nth_equalityI) (simp_all add: len only_entry_def buf nth_append)
  show "queued_items b = queued_items a + 1"
    using fr by (simp add: queue_frame_def note_find_def link_entry_buf [OF wf] Let_def)
  have last: "last (queue_buf b) = queue_buf b ! ?n" using len by (simp add: last_conv_nth flip: length_0_conv)
  have id: "ident (queue_buf b ! ?n) = ident (queue_buf ?c ! ?n)"
  proof -
    have "map ident (queue_buf b) ! ?n = map ident (queue_buf ?c) ! ?n" using fr unfolding queue_frame_def by metis
    then show ?thesis using len buf by (simp add: nth_append)
  qed
  show "q_fname (last (queue_buf b)) = fname" "q_passed_det (last (queue_buf b)) = pd" "q_tc_ref (last (queue_buf b)) = 0"
    "q_trace_mini (last (queue_buf b)) = None" "q_testcase_buf (last (queue_buf b)) = None"
    using only by (simp_all add: last only_entry_def buf)
  show "q_mother (last (queue_buf b)) = queue_cur a" "q_depth (last (queue_buf b)) = ucast (cur_depth a + 1)"
    using id by (simp_all add: last ident_def buf)
  have "fsrv (link_entry ?q a) = fsrv a \<and> top_rated (link_entry ?q a) = top_rated a \<and> map_tmp_buf (link_entry ?q a) = map_tmp_buf a"
    by (simp add: link_entry_def Let_def)
  then have "fsrv ?c = fsrv a \<and> top_rated ?c = top_rated a \<and> map_tmp_buf ?c = map_tmp_buf a"
    by (simp add: note_find_def Let_def)
  then show "fsrv b = fsrv a" "top_rated b = top_rated a" "map_tmp_buf b = map_tmp_buf a"
    using only by (simp_all add: only_entry_def)
qed

text \<open>
  \<open>add_to_queue\<close> on a well-formed queue with room for one more entry fails only when a hook of
  a custom mutator claims to have changed the new file and the file is then missing or empty. It
  otherwise appends one entry with the given name, the current entry as mother and depth one more
  than the current depth, leaves every earlier entry as it was, and keeps the queue well formed:
  the array has \<open>queued_items\<close> entries, ids are positions, mothers come before their children,
  no depth exceeds \<open>max_depth\<close>, and \<open>active_items\<close> counts the enabled entries (or bounds their
  number, when redundant entries are being disabled).
\<close>

theorem add_to_queue_correct:
  assumes "queue_wf a" and "unat (queued_items a) + 1 < 2 ^ 32"
  shows "case add_to_queue t hooks stat_size read_file fname len pd a of
      Inl e \<Rightarrow> custom_mutators_count a \<noteq> 0 \<and> queue_cur a \<noteq> None \<and> syncing_party a = None \<and>
        (stat_size fname = None \<or> stat_size fname = Some 0)
    | Inr b \<Rightarrow> queue_wf b \<and> length (queue_buf b) = Suc (length (queue_buf a)) \<and>
        take (length (queue_buf a)) (queue_buf b) = queue_buf a \<and>
        q_fname (last (queue_buf b)) = fname \<and> q_mother (last (queue_buf b)) = queue_cur a \<and>
        q_depth (last (queue_buf b)) = ucast (cur_depth a + 1) \<and> q_passed_det (last (queue_buf b)) = pd"
  using add_fails [OF assms(1)] add_succeeds [OF assms] by (auto split: sum.splits)

theorem add_to_queue_correct_witness:
  "case add_to_queue 5 [] (\<lambda>_. None) (\<lambda>_ _. None) ''id:0'' 7 False afl_zero of
     Inl e \<Rightarrow> False
   | Inr b \<Rightarrow> queue_wf b \<and> length (queue_buf b) = 1 \<and> q_fname (last (queue_buf b)) = ''id:0''"
proof -
  have "queue_wf afl_zero" by (simp add: queue_wf_def enabled_count_def zero_defs)
  moreover have "unat (queued_items afl_zero) + 1 < 2 ^ 32" by (simp add: zero_defs)
  ultimately show ?thesis
    using add_to_queue_correct [where a = afl_zero and t = 5 and hooks = "[]" and stat_size = "\<lambda>_. None" and read_file = "\<lambda>_ _. None"
        and fname = "''id:0''" and len = 7 and pd = False]
    by (simp add: afl_zero_def split: sum.splits)
qed

section \<open>Candidate lists\<close>

definition cand_wf :: "u32 list option \<Rightarrow> bool" where
  "cand_wf c = (case c of None \<Rightarrow> True | Some l \<Rightarrow> l \<noteq> [] \<and> unat (hd l) = length (tl l))"

definition ids_of :: "u32 list option \<Rightarrow> u32 list" where
  "ids_of c = (case c of None \<Rightarrow> [] | Some l \<Rightarrow> tl l)"

lemma enroll_appends:
  assumes "cand_wf c" and "length (ids_of c) + 2 < 2 ^ 32"
  shows "cand_wf (Some (enroll eid c))" "ids_of (Some (enroll eid c)) = ids_of c @ [eid]"
proof -
  have "cand_wf (Some (enroll eid c)) \<and> ids_of (Some (enroll eid c)) = ids_of c @ [eid]"
  proof (cases c)
    case None
    then show ?thesis by (simp add: enroll_def cand_wf_def ids_of_def)
  next
    case (Some l)
    then obtain n ids where l: "l = n # ids" and n: "unat n = length ids" and lt: "length ids + 2 < 2 ^ 32"
      using assms by (cases l) (auto simp: cand_wf_def ids_of_def)
    have n1: "unat (n + 1) = Suc (length ids)" and n2: "unat (n + 2) = length ids + 2"
      using n lt by (simp_all add: unat_word_ariths)
    have "enroll eid c = (n + 1) # ids @ [eid]"
      by (simp add: Some l enroll_def Let_def n1 n2 list_update_append)
    then show ?thesis using n1 by (simp add: cand_wf_def ids_of_def Some l)
  qed
  then show "cand_wf (Some (enroll eid c))" "ids_of (Some (enroll eid c)) = ids_of c @ [eid]" by auto
qed

lemma fold_update_nth:
  assumes "n \<le> length xs" and "j < length xs"
  shows "fold (\<lambda>j xs. if p j then xs[j := f (xs ! j)] else xs) [0..<n] xs ! j = (if j < n \<and> p j then f (xs ! j) else xs ! j) \<and>
    length (fold (\<lambda>j xs. if p j then xs[j := f (xs ! j)] else xs) [0..<n] xs) = length xs"
  using assms by (induction n) (auto simp: nth_list_update less_Suc_eq)

text \<open>
  \<open>enroll_hits\<close>, the body of \<open>recalculate_all_scores\<close> after a run, keeps every candidate list in
  the form \<open>[count, id, ...]\<close> with the count right, appends the id of the entry to the lists of
  exactly those bytes of the map that the trace hits, and leaves the other lists alone.
\<close>

theorem enroll_hits_appends:
  assumes "unat (map_size (fsrv a)) \<le> length (top_rated_candidates a)" and "j < length (top_rated_candidates a)"
    and "cand_wf (top_rated_candidates a ! j)" and "length (ids_of (top_rated_candidates a ! j)) + 2 < 2 ^ 32"
  shows "cand_wf (top_rated_candidates (enroll_hits eid a) ! j) \<and>
    ids_of (top_rated_candidates (enroll_hits eid a) ! j) =
      ids_of (top_rated_candidates a ! j) @ (if j < unat (map_size (fsrv a)) \<and> trace_bits (fsrv a) ! j \<noteq> 0 then [eid] else [])"
  using fold_update_nth [OF assms(1, 2), of "\<lambda>j. trace_bits (fsrv a) ! j \<noteq> 0" "\<lambda>c. Some (enroll eid c)"]
    enroll_appends [OF assms(3, 4), of eid] assms(3)
  by (simp add: enroll_hits_def)

theorem enroll_hits_appends_witness:
  "ids_of (top_rated_candidates (enroll_hits 7 (afl_zero\<lparr>fsrv := fsrv_zero\<lparr>trace_bits := [0, 1], map_size := 2\<rparr>,
     top_rated_candidates := [None, Some [1, 3]]\<rparr>)) ! Suc 0) = [3, 7]"
  using enroll_hits_appends [where a = "afl_zero\<lparr>fsrv := fsrv_zero\<lparr>trace_bits := [0, 1], map_size := 2\<rparr>,
     top_rated_candidates := [None, Some [1, 3]]\<rparr>" and j = "Suc 0" and eid = 7]
  by (simp add: cand_wf_def ids_of_def)

end
