(* ===== verification/Campaign.thy ===== *)
theory Campaign
  imports Queue_Ops
begin

text \<open>
  The scheduling loop: the choice of the next entry in \<open>main\<close> of src/afl-fuzz.c, the bookkeeping at
  the end of \<open>fuzz_one_original\<close> (src/afl-fuzz-one.c), and the campaign as a step relation over the
  operations of the queue, the slots, the cache and the alias table, with the invariant that
  holds in every reachable state.
\<close>

section \<open>The initial state\<close>

definition HAVOC_MAX_MULT :: u8 where
  "HAVOC_MAX_MULT = 64"

definition EXEC_TIMEOUT :: u32 where
  "EXEC_TIMEOUT = 1000"

definition MEM_LIMIT :: u64 where
  "MEM_LIMIT = 0"

definition STRATEGY_SWITCH_TIME :: u64 where
  "STRATEGY_SWITCH_TIME = 1000"

definition TESTCASE_CACHE_SIZE :: u64 where
  "TESTCASE_CACHE_SIZE = 50"

definition afl_state_init :: "u32 \<Rightarrow> afl_state" where
  "afl_state_init n =
     afl_zero\<lparr>smallest_favored := - 1, schedule := EXPLORE, havoc_max_mult := HAVOC_MAX_MULT, splicing_with := - 1,
       hang_tmout := EXEC_TIMEOUT, min_length := 1, max_length := MAX_FILE, switch_fuzz_mode := STRATEGY_SWITCH_TIME * 1000,
       q_testcase_max_cache_size := TESTCASE_CACHE_SIZE * 1048576, q_testcase_max_cache_entries := 64 * 1024,
       last_scored_idx := - 1, virgin_bits := replicate (unat n) 0, virgin_tmout := replicate (unat n) 0,
       virgin_crash := replicate (unat n) 0, var_bytes := replicate (unat n) 0, top_rated := replicate (unat n) None,
       clean_trace := replicate (unat n) 0, first_trace := replicate (unat n) 0, map_tmp_buf := replicate (unat n) 0,
       fsrv := fsrv_zero\<lparr>map_size := n, exec_tmout := EXEC_TIMEOUT, mem_limit := MEM_LIMIT\<rparr>\<rparr>"

text \<open>The array of the test case cache, which \<open>main\<close> allocates before fuzzing starts.\<close>

definition alloc_cache :: "afl_state \<Rightarrow> afl_state" where
  "alloc_cache a =
     (if q_testcase_max_cache_entries a \<noteq> 0
      then a\<lparr>q_testcase_cache := replicate (unat (q_testcase_max_cache_entries a)) None\<rparr> else a)"

section \<open>Choosing and leaving an entry\<close>

text \<open>
  The inner loop repeats the draw while it lies outside the queue; \<open>tries\<close> bounds the repetitions.
\<close>

fun select_loop :: "nat \<Rightarrow> nat \<Rightarrow> (u64 \<times> u64 \<times> u64) res \<Rightarrow> afl_state \<Rightarrow> (u32 \<times> afl_state) option res" where
  "select_loop 0 fuel urandom a = Inr None"
| "select_loop (Suc tries) fuel urandom a =
     obind (select_next_queue_entry fuel urandom a) (\<lambda>s a.
       let a = a\<lparr>current_entry := s\<rparr>
       in if queued_items a \<le> s then select_loop tries fuel urandom a else Inr (Some (s, a)))"

definition enter_current :: "afl_state \<Rightarrow> afl_state res" where
  "enter_current a =
     (if length (queue_buf a) \<le> unat (current_entry a) then Inl (UB ''read outside queue_buf'')
      else Inr (a\<lparr>queue_cur := Some (unat (current_entry a))\<rparr>))"

text \<open>
  \<open>choose_entry\<close> is the body of the loop before \<open>fuzz_one\<close> (with \<open>old_seed_selection\<close> off);
  \<open>prev\<close> is the local \<open>prev_queued_items\<close>.
\<close>

definition choose_entry ::
  "(dbl \<Rightarrow> dbl) \<Rightarrow> (dbl \<Rightarrow> dbl) \<Rightarrow> (dbl \<Rightarrow> dbl) \<Rightarrow> nat \<Rightarrow> nat \<Rightarrow> (u64 \<times> u64 \<times> u64) res \<Rightarrow> u32 \<Rightarrow> afl_state \<Rightarrow>
     (u32 \<times> afl_state) option res" where
  "choose_entry logd log10 log2 tries fuel urandom prev a =
     (if pending_favored a \<noteq> 0 \<and> smallest_favored a \<noteq> - 1
      then rbind (enter_current (a\<lparr>current_entry := of_int (smallest_favored a)\<rparr>)) (\<lambda>a. Inr (Some (prev, a)))
      else rbind (if prev < queued_items a \<or> reinit_table a
                  then rbind (create_alias_table logd log10 log2 a) (\<lambda>r. Inr (map_option (Pair (queued_items a)) r))
                  else Inr (Some (prev, a)))
             (\<lambda>r. case r of
                None \<Rightarrow> Inr None
              | Some (prev, a) \<Rightarrow> obind (select_loop tries fuel urandom a) (\<lambda>s a.
                  rbind (enter_current a) (\<lambda>a. Inr (Some (prev, a))))))"

definition abandon_entry :: "nat \<Rightarrow> afl_state \<Rightarrow> afl_state" where
  "abandon_entry c a =
     (let a = a\<lparr>splicing_with := - 1\<rparr>; q = queue_buf a ! c;
          a = (if stop_soon a = 0 \<and> q_cal_failed q = 0 \<and> \<not> q_was_fuzzed q \<and> \<not> q_disabled q
               then let a = set_entry c (q_was_fuzzed_update (\<lambda>_. True)) (a\<lparr>pending_not_fuzzed := pending_not_fuzzed a - 1\<rparr>);
                        a = a\<lparr>reinit_table := True\<rparr>
                    in if q_favored q then a\<lparr>pending_favored := pending_favored a - 1, smallest_favored := - 1\<rparr> else a
               else a)
      in set_entry c (\<lambda>q. q\<lparr>q_fuzz_level := q_fuzz_level q + 1\<rparr>) a)"

section \<open>The campaign\<close>

text \<open>
  A state of the campaign is the local \<open>prev_queued_items\<close> of \<open>main\<close> and the fuzzer state. A target
  may do anything to its trace but cannot change the size of the map.
\<close>

type_synonym campaign = "u32 \<times> afl_state"

definition keeps_map :: "target_run \<Rightarrow> bool" where
  "keeps_map run \<longleftrightarrow> (\<forall>f t. map_size (fst (snd (run f t))) = map_size f)"

inductive campaign_step ::
  "(string \<Rightarrow> bytes option) \<Rightarrow> (dbl \<Rightarrow> dbl) \<Rightarrow> (dbl \<Rightarrow> dbl) \<Rightarrow> (dbl \<Rightarrow> dbl) \<Rightarrow> (dbl \<Rightarrow> dbl) \<Rightarrow> campaign \<Rightarrow> campaign \<Rightarrow> bool"
  for fs logd log10 log2 log1p where
  cull: "campaign_step fs logd log10 log2 log1p (p, a) (p, cull_queue a)"
| choose: "choose_entry logd log10 log2 tries fuel urandom p a = Inr (Some (p', b)) \<Longrightarrow>
    campaign_step fs logd log10 log2 log1p (p, a) (p', b)"
| read: "k < length (queue_buf a) \<Longrightarrow> load_file fs (q_fname (queue_buf a ! k)) (q_len (queue_buf a ! k)) = Inr bs \<Longrightarrow>
    unat (q_testcase_cache_count a) < fuel \<Longrightarrow> queue_testcase_get fs fuel junk urandom k a = Inr (Some (r, b)) \<Longrightarrow>
    campaign_step fs logd log10 log2 log1p (p, a) (p, b)"
| execute: "keeps_map run \<Longrightarrow> campaign_step fs logd log10 log2 log1p (p, a) (p, snd (fuzz_run_target run a t))"
| find: "unat (queued_items a) < 2 ^ 31 \<Longrightarrow> add_to_queue t hooks stat_size read_file fname len pd a = Inr b \<Longrightarrow>
    campaign_step fs logd log10 log2 log1p (p, a) (p, b)"
| score: "k < length (queue_buf a) \<Longrightarrow> update_bitmap_score log1p k have_trace a = Inr b \<Longrightarrow>
    campaign_step fs logd log10 log2 log1p (p, a) (p, b)"
| rescore: "k < length (queue_buf a) \<Longrightarrow> i < length (top_rated a) \<Longrightarrow> update_bitmap_rescore log1p k i a = Inr b \<Longrightarrow>
    campaign_step fs logd log10 log2 log1p (p, a) (p, b)"
| det_done: "k < length (queue_buf a) \<Longrightarrow> mark_as_det_done created chown_needed owned k a = Inr b \<Longrightarrow>
    campaign_step fs logd log10 log2 log1p (p, a) (p, b)"
| abandon: "queue_cur a = Some c \<Longrightarrow> campaign_step fs logd log10 log2 log1p (p, a) (p, abandon_entry c a)"

inductive_cases campaign_stepE: "campaign_step fs logd log10 log2 log1p (p, a) (p', b)"

definition campaign_inv :: "(string \<Rightarrow> bytes option) \<Rightarrow> campaign \<Rightarrow> bool" where
  "campaign_inv fs = (\<lambda>(p, a). queue_wf a \<and> slots_inv a \<and> cache_inv fs a \<and>
     8 dvd unat (map_size (fsrv a)) \<and> unat (map_size (fsrv a)) div 8 \<le> length (map_tmp_buf a) \<and>
     unat (queued_items a) \<le> 2 ^ 31 \<and> p \<le> queued_items a \<and> (p < queued_items a \<or> reinit_table a \<or> table_ok a) \<and>
     - 1 \<le> smallest_favored a \<and> smallest_favored a < int (length (queue_buf a)))"

section \<open>Frames\<close>

text \<open>
  What the invariants of queue and cache read: the identity, file and buffer of the entries, and
  the fields of the state below. What the slots read beyond that: the reference counts and
  compact traces.
\<close>

definition file_view :: "queue_entry \<Rightarrow> string \<times> u32 \<times> bytes option" where
  "file_view q = (q_fname q, q_len q, q_testcase_buf q)"

definition entry_view :: "queue_entry \<Rightarrow> (u32 \<times> u64 \<times> nat option \<times> bool) \<times> string \<times> u32 \<times> bytes option" where
  "entry_view q = (ident q, file_view q)"

lemmas view_defs = entry_view_def ident_def file_view_def

definition slot_view :: "queue_entry \<Rightarrow> u32 \<times> bytes option" where
  "slot_view q = (q_tc_ref q, q_trace_mini q)"

definition queue_view :: "afl_state \<Rightarrow> u32 \<times> u32 \<times> nat option \<times> nat option \<times> u32 \<times> bool" where
  "queue_view a = (queued_items a, max_depth a, queue a, queue_top a, active_items a, afl_disable_redundant a)"

definition cache_view :: "afl_state \<Rightarrow> u32 \<times> nat option list \<times> u32 \<times> u32 \<times> u64 \<times> u32" where
  "cache_view a = (q_testcase_max_cache_entries a, q_testcase_cache a, q_testcase_max_cache_count a,
     q_testcase_cache_count a, q_testcase_cache_size a, q_testcase_smallest_free a)"

definition sched_frame :: "afl_state \<Rightarrow> afl_state \<Rightarrow> bool" where
  "sched_frame a b \<longleftrightarrow> map entry_view (queue_buf b) = map entry_view (queue_buf a) \<and> queue_view b = queue_view a \<and>
     cache_view b = cache_view a \<and> map_size (fsrv b) = map_size (fsrv a) \<and> length (map_tmp_buf b) = length (map_tmp_buf a)"

lemma sched_frame_refl [simp]: "sched_frame a a"
  by (simp add: sched_frame_def)

lemma sched_frame_trans: "sched_frame a b \<Longrightarrow> sched_frame b c \<Longrightarrow> sched_frame a c"
  by (simp add: sched_frame_def)

lemma map_set_entry:
  assumes "\<And>q. v (f q) = v q"
  shows "map v (queue_buf (set_entry k f a)) = map v (queue_buf a)"
  using assms by (cases "k < length (queue_buf a)")
    (simp_all add: set_entry_def map_update list_update_same_conv list_update_beyond)

lemma sched_frame_set_entry:
  assumes "\<And>q. entry_view (f q) = entry_view q"
  shows "sched_frame a (set_entry k f a)"
  using map_set_entry [of entry_view, OF assms] by (simp add: sched_frame_def queue_view_def cache_view_def set_entry_def)

lemma sched_frameD:
  assumes "sched_frame a b"
  shows "length (queue_buf b) = length (queue_buf a)" "queued_items b = queued_items a"
    "map_size (fsrv b) = map_size (fsrv a)" "length (map_tmp_buf b) = length (map_tmp_buf a)"
    "k < length (queue_buf a) \<Longrightarrow> entry_view (queue_buf b ! k) = entry_view (queue_buf a ! k)"
proof -
  have m: "map entry_view (queue_buf b) = map entry_view (queue_buf a)" using assms by (simp add: sched_frame_def)
  show len: "length (queue_buf b) = length (queue_buf a)" using arg_cong [OF m, of length] by simp
  show "queued_items b = queued_items a" "map_size (fsrv b) = map_size (fsrv a)" "length (map_tmp_buf b) = length (map_tmp_buf a)"
    using assms by (simp_all add: sched_frame_def queue_view_def)
  show "entry_view (queue_buf b ! k) = entry_view (queue_buf a ! k)" if "k < length (queue_buf a)"
    using arg_cong [OF m, of "\<lambda>l. l ! k"] that len by simp
qed

lemma sched_frame_queue:
  assumes "sched_frame a b" and "queue_wf a" and "\<And>c. queue_cur b = Some c \<Longrightarrow> c < length (queue_buf a)"
  shows "queue_wf b"
proof -
  have m: "map ident (queue_buf b) = map ident (queue_buf a)"
  proof -
    have "map ident qs = map fst (map entry_view qs)" for qs by (simp add: entry_view_def o_def)
    then show ?thesis using assms(1) unfolding sched_frame_def by metis
  qed
  have "queue_frame (a\<lparr>queue_cur := queue_cur b\<rparr>) b" using assms(1) m by (simp add: queue_frame_def sched_frame_def queue_view_def)
  moreover have "enabled_count (a\<lparr>queue_cur := x\<rparr>) = enabled_count a" for x by (simp add: enabled_count_def)
  then have "queue_wf (a\<lparr>queue_cur := queue_cur b\<rparr>)" using assms(2, 3) by (simp add: queue_wf_def)
  ultimately show ?thesis using queue_frame_wf by blast
qed

lemma cached_len_view:
  assumes "\<And>k. k < length qa \<Longrightarrow> file_view (qb ! k) = file_view (qa ! k)" and "the s < length qa"
  shows "cached_len qb s = cached_len qa s"
  using assms(1) [OF assms(2)] by (simp add: cached_len_def file_view_def)

text \<open>
  The cache is untouched by changes to entries that keep their view and by new entries without a
  buffer.
\<close>

lemma slots_wf_extend:
  assumes wf: "slots_wf fs n C qa m cnt sz sf" and le: "length qa \<le> length qb"
    and old: "\<And>k. k < length qa \<Longrightarrow> file_view (qb ! k) = file_view (qa ! k)"
    and new: "\<And>k. length qa \<le> k \<Longrightarrow> k < length qb \<Longrightarrow> q_testcase_buf (qb ! k) = None"
  shows "slots_wf fs n C qb m cnt sz sf"
proof -
  note D = slotsD [OF wf]
  have e: "q_testcase_buf (qb ! k) = q_testcase_buf (qa ! k)" "q_fname (qb ! k) = q_fname (qa ! k)" "q_len (qb ! k) = q_len (qa ! k)"
    if "k < length qa" for k using old [OF that] by (simp_all add: file_view_def)
  have old_k: "k < length qa" if "k < length qb" "q_testcase_buf (qb ! k) \<noteq> None" for k
    using new [of k] that by (cases "k < length qa") auto
  have "cached_len qb (C ! t) = cached_len qa (C ! t)" if "t \<in> occ n C" for t
    using that D(5) [of t] by (intro cached_len_view [OF old]) (auto simp: occ_def)
  then have sz: "sz = (\<Sum>t \<in> occ n C. cached_len qb (C ! t))" using D(9) by simp
  have 1: "\<forall>t i. t < n \<and> C ! t = Some i \<longrightarrow> i < length qb \<and> q_testcase_buf (qb ! i) \<noteq> None"
    using D(5) e(1) le by (metis order.strict_trans2)
  have 2: "\<forall>i < length qb. q_testcase_buf (qb ! i) \<noteq> None \<longrightarrow> (\<exists>t < n. C ! t = Some i)"
    using D(7) e(1) old_k by metis
  have 3: "\<forall>i b. i < length qb \<and> q_testcase_buf (qb ! i) = Some b \<longrightarrow> load_file fs (q_fname (qb ! i)) (q_len (qb ! i)) = Inr b"
    using D(11) e old_k by (metis option.distinct(1))
  show ?thesis using wf sz 1 2 3 unfolding slots_wf_def by blast
qed

lemma cache_inv_extend:
  assumes "cache_inv fs a" and "cache_view b = cache_view a" and "length (queue_buf a) \<le> length (queue_buf b)"
    and "\<And>k. k < length (queue_buf a) \<Longrightarrow> file_view (queue_buf b ! k) = file_view (queue_buf a ! k)"
    and "\<And>k. length (queue_buf a) \<le> k \<Longrightarrow> k < length (queue_buf b) \<Longrightarrow> q_testcase_buf (queue_buf b ! k) = None"
  shows "cache_inv fs b"
  using assms(1, 2) slots_wf_extend [OF _ assms(3, 4, 5)] by (auto simp: cache_inv_def cache_view_def)

lemma sched_frame_cache:
  assumes "sched_frame a b" and "cache_inv fs a"
  shows "cache_inv fs b"
  by (rule cache_inv_extend [OF assms(2)]) (use sched_frameD [OF assms(1)] assms(1) in \<open>simp_all add: sched_frame_def entry_view_def\<close>)

lemma slots_inv_view:
  assumes "slots_inv a" and "map slot_view (queue_buf b) = map slot_view (queue_buf a)" and "top_rated b = top_rated a"
    and "map_size (fsrv b) = map_size (fsrv a)"
  shows "slots_inv b"
proof -
  have len: "length (queue_buf b) = length (queue_buf a)" using arg_cong [OF assms(2), of length] by simp
  have e: "slot_view (queue_buf b ! k) = slot_view (queue_buf a ! k)" if "k < length (queue_buf a)" for k
    using arg_cong [OF assms(2), of "\<lambda>l. l ! k"] that len by simp
  have "entry_owns n tr k (queue_buf b ! k) = entry_owns n tr k (queue_buf a ! k)" if "k < length (queue_buf a)" for n tr k
    using e [OF that] by (simp add: entry_owns_def slot_view_def)
  then show ?thesis using assms(1) by (simp add: slots_inv_def slots_ok_def refs_ok_def len assms(3, 4) mini_len_def)
qed

lemma table_ok_view:
  assumes "table_ok a" and "sched_frame a b" and "alias_probability b = alias_probability a" and "alias_table b = alias_table a"
    and "queue_wf a"
  shows "table_ok b"
proof -
  note D = sched_frameD [OF assms(2)]
  have d: "q_disabled (queue_buf b ! k) = q_disabled (queue_buf a ! k)" if "k < unat (queued_items a)" for k
    using D(5) [of k] queue_wfD(1) [OF assms(5)] that by (simp add: view_defs)
  show ?thesis using assms(1) d unfolding table_ok_def assms(3, 4) D(2) by simp
qed

section \<open>Every step keeps the invariant\<close>

lemma campaign_invD:
  assumes "campaign_inv fs (p, a)"
  shows "queue_wf a" "slots_inv a" "cache_inv fs a" "8 dvd unat (map_size (fsrv a))"
    "unat (map_size (fsrv a)) div 8 \<le> length (map_tmp_buf a)" "unat (queued_items a) \<le> 2 ^ 31" "p \<le> queued_items a"
    "p < queued_items a \<or> reinit_table a \<or> table_ok a" "- 1 \<le> smallest_favored a" "smallest_favored a < int (length (queue_buf a))"
    "cull_ready a" "slots_ok a"
  using assms by (auto simp: campaign_inv_def cull_ready_def slots_inv_def queue_wf_def)

lemma campaign_inv_frame:
  assumes inv: "campaign_inv fs (p, a)" and fr: "sched_frame a b" and slots: "slots_inv b"
    and cur: "\<And>c. queue_cur b = Some c \<Longrightarrow> c < length (queue_buf a)"
    and table: "reinit_table b \<or> (reinit_table b = reinit_table a \<and> alias_probability b = alias_probability a \<and> alias_table b = alias_table a)"
    and small: "smallest_favored b = smallest_favored a \<or> - 1 \<le> smallest_favored b \<and> smallest_favored b < int (length (queue_buf b))"
  shows "campaign_inv fs (p, b)"
proof -
  note I = campaign_invD [OF inv] and D = sched_frameD [OF fr]
  have "p < queued_items b \<or> reinit_table b \<or> table_ok b"
    using I(8) table table_ok_view [OF _ fr _ _ I(1)] D(2) by metis
  then show ?thesis using I slots small D sched_frame_queue [OF fr I(1) cur] sched_frame_cache [OF fr I(3)]
    by (auto simp: campaign_inv_def)
qed

lemma campaign_inv_light:
  assumes "campaign_inv fs (p, a)" and "sched_frame a b" and "map slot_view (queue_buf b) = map slot_view (queue_buf a)"
    and "top_rated b = top_rated a" and "queue_cur b = queue_cur a"
    and "reinit_table b \<or> (reinit_table b = reinit_table a \<and> alias_probability b = alias_probability a \<and> alias_table b = alias_table a)"
    and "smallest_favored b = smallest_favored a \<or> smallest_favored b = - 1"
  shows "campaign_inv fs (p, b)"
proof (rule campaign_inv_frame [OF assms(1, 2) _ _ assms(6)])
  note I = campaign_invD [OF assms(1)]
  show "slots_inv b" using slots_inv_view [OF I(2) assms(3, 4)] sched_frameD(3) [OF assms(2)] by simp
  show "c < length (queue_buf a)" if "queue_cur b = Some c" for c using queue_wfD(8) [OF I(1)] that assms(5) by simp
  show "smallest_favored b = smallest_favored a \<or> - 1 \<le> smallest_favored b \<and> smallest_favored b < int (length (queue_buf b))"
    using assms(7) by auto
qed

lemma score_frame_view:
  assumes "score_frame a b"
  shows "sched_frame a b" "queue_cur b = queue_cur a" "reinit_table b = reinit_table a" "alias_probability b = alias_probability a"
    "alias_table b = alias_table a" "smallest_favored b = smallest_favored a"
proof -
  have c: "state_core b = state_core a" using assms by (simp add: score_frame_def)
  have "entry_view (entry_core q) = entry_view q" for q by (simp add: view_defs entry_core_def)
  then have "map entry_view qs = map entry_view (map entry_core qs)" for qs by (simp add: o_def)
  then have m: "map entry_view (queue_buf b) = map entry_view (queue_buf a)" using assms unfolding score_frame_def by metis
  have "queue_view (state_core d) = queue_view d" "cache_view (state_core d) = cache_view d" "fsrv (state_core d) = fsrv d"
    "map_tmp_buf (state_core d) = map_tmp_buf d" "queue_cur (state_core d) = queue_cur d" "reinit_table (state_core d) = reinit_table d"
    "alias_probability (state_core d) = alias_probability d" "alias_table (state_core d) = alias_table d"
    "smallest_favored (state_core d) = smallest_favored d" for d
    by (simp_all add: state_core_def queue_view_def cache_view_def)
  note e = this [of a] this [of b]
  then show "sched_frame a b" "queue_cur b = queue_cur a" "reinit_table b = reinit_table a" "alias_probability b = alias_probability a"
    "alias_table b = alias_table a" "smallest_favored b = smallest_favored a"
    using m c unfolding sched_frame_def by metis+
qed

lemma scoring_keeps:
  assumes "campaign_inv fs (p, a)" and "score_frame a b" and "slots_inv b"
  shows "campaign_inv fs (p, b)"
proof -
  note v = score_frame_view [OF assms(2)] and I = campaign_invD [OF assms(1)]
  show ?thesis using queue_wfD(8) [OF I(1)] by (intro campaign_inv_frame [OF assms(1) v(1) assms(3)]) (simp_all add: v)
qed

lemma take_over_frame: "score_frame a (take_over i k a)"
  using score_frame_trans [OF score_frame_drop_ref score_frame_insert_winner] score_frame_insert_winner
  by (auto simp: take_over_def split: option.splits)

lemma score_keeps:
  assumes "campaign_inv fs (p, a)" and "k < length (queue_buf a)" and "update_bitmap_score log1p k have_trace a = Inr b"
  shows "campaign_inv fs (p, b)"
  using scoring_keeps [OF assms(1) update_bitmap_score_frame [OF assms(3)]]
    update_bitmap_score_inv [OF assms(3) campaign_invD(2) [OF assms(1)] assms(2)] by blast

lemma rescore_keeps:
  assumes "campaign_inv fs (p, a)" and "k < length (queue_buf a)" "i < length (top_rated a)" and "update_bitmap_rescore log1p k i a = Inr b"
  shows "campaign_inv fs (p, b)"
  using update_bitmap_rescore_multiple [OF campaign_invD(4) [OF assms(1)] assms(4)] scoring_keeps [OF assms(1) take_over_frame, of i k]
    slots_inv_take_over [of a i k] campaign_invD(2) [OF assms(1)] assms by auto

lemma det_done_keeps:
  assumes "campaign_inv fs (p, a)" and "mark_as_det_done created chown_needed owned k a = Inr b"
  shows "campaign_inv fs (p, b)"
proof -
  have b: "b = set_entry k (q_passed_det_update (\<lambda>_. True)) a" using assms(2) by (simp add: mark_as_det_done_def split: if_splits)
  have "sched_frame a b" unfolding b by (rule sched_frame_set_entry) (simp add: view_defs)
  moreover have "map slot_view (queue_buf b) = map slot_view (queue_buf a)" unfolding b by (rule map_set_entry) (simp add: slot_view_def)
  ultimately show ?thesis by (rule campaign_inv_light [OF assms(1)]) (simp_all add: b set_entry_def)
qed

text \<open>Changes that no invariant notices, but for a request to rebuild the table and a reset of \<open>smallest_favored\<close>.\<close>

definition sched_light :: "afl_state \<Rightarrow> afl_state \<Rightarrow> bool" where
  "sched_light a b \<longleftrightarrow> sched_frame a b \<and> map slot_view (queue_buf b) = map slot_view (queue_buf a) \<and>
     top_rated b = top_rated a \<and> queue_cur b = queue_cur a \<and>
     (reinit_table b \<or> (reinit_table b = reinit_table a \<and> alias_probability b = alias_probability a \<and> alias_table b = alias_table a)) \<and>
     (smallest_favored b = smallest_favored a \<or> smallest_favored b = - 1)"

lemma sched_light_keeps: "campaign_inv fs (p, a) \<Longrightarrow> sched_light a b \<Longrightarrow> campaign_inv fs (p, b)"
  unfolding sched_light_def by (elim conjE) (rule campaign_inv_light)

lemma sched_light_trans: "sched_light a b \<Longrightarrow> sched_light b c \<Longrightarrow> sched_light a c"
proof -
  assume "sched_light a b" "sched_light b c"
  moreover from this have "sched_frame a c" unfolding sched_light_def using sched_frame_trans by blast
  ultimately show "sched_light a c" unfolding sched_light_def by (elim conjE disjE; simp)
qed

lemma sched_light_refl [simp]: "sched_light a a"
  by (simp add: sched_light_def)

lemma sched_light_set:
  assumes "\<And>q. entry_view (f q) = entry_view q \<and> slot_view (f q) = slot_view q"
  shows "sched_light a (set_entry k f a)"
  using assms sched_frame_set_entry [of f a k] map_set_entry [of slot_view f k a] by (simp add: sched_light_def set_entry_def)

lemma abandon_light: "sched_light a (abandon_entry c a)"
proof -
  let ?s = "a\<lparr>splicing_with := - 1\<rparr>"
  let ?w = "set_entry c (q_was_fuzzed_update (\<lambda>_. True)) (?s\<lparr>pending_not_fuzzed := pending_not_fuzzed a - 1\<rparr>)"
  have s: "sched_light a (?s\<lparr>pending_not_fuzzed := n\<rparr>)" "sched_light a ?s" for n
    by (simp_all add: sched_light_def sched_frame_def queue_view_def cache_view_def)
  have "sched_light a ?w"
    by (rule sched_light_trans [OF s(1) sched_light_set]) (simp add: view_defs slot_view_def)
  moreover have "sched_light b (b\<lparr>reinit_table := True\<rparr>)"
    "sched_light b (b\<lparr>reinit_table := True, pending_favored := n, smallest_favored := - 1\<rparr>)" for b n
    by (simp_all add: sched_light_def sched_frame_def queue_view_def cache_view_def)
  moreover have l: "sched_light b (set_entry c (\<lambda>q. q\<lparr>q_fuzz_level := q_fuzz_level q + 1\<rparr>) b)" for b
    by (rule sched_light_set) (simp add: view_defs slot_view_def)
  ultimately show ?thesis unfolding abandon_entry_def Let_def using s(2)
    by (auto intro!: sched_light_trans [OF _ l] intro: sched_light_trans)
qed

lemma execute_light:
  assumes "keeps_map run"
  shows "sched_light a (snd (fuzz_run_target run a t))"
proof -
  obtain r f c m where run: "run (fsrv a) t = (r, f, c, m)" by (cases "run (fsrv a) t") auto
  have "map_size f = map_size (fsrv a)" using assms run unfolding keeps_map_def by (metis fst_conv snd_conv)
  then have s: "sched_light a (a\<lparr>fsrv := f, cpu_energy_map := x, mem_energy_map := y\<rparr>)" for x y
    by (simp add: sched_light_def sched_frame_def queue_view_def cache_view_def)
  have m: "sched_light b (b\<lparr>cpu_energy_map := x\<rparr>)" "sched_light b (b\<lparr>mem_energy_map := x\<rparr>)" for b x
    by (simp_all add: sched_light_def sched_frame_def queue_view_def cache_view_def)
  have e: "sched_light b (set_entry k (q_cpu_energy_cost_update f) b)" "sched_light b (set_entry k (q_mem_energy_cost_update f) b)" for b k f
    by (rule sched_light_set, simp add: view_defs slot_view_def)+
  have "sched_light b (cpu_hook b)" "sched_light b (mem_hook b)" for b
    unfolding cpu_hook_def mem_hook_def Let_def by (auto split: option.splits intro: sched_light_trans m e)
  then have "sched_light b (energy_hook b)" for b
    unfolding energy_hook_def by (auto split: option.splits intro: sched_light_trans)
  from sched_light_trans [OF s this] show ?thesis by (simp add: fuzz_run_target_def run Let_def)
qed

lemma cull_pass_frame:
  "sched_frame a (note_pending t a) \<and> queue_cur (note_pending t a) = queue_cur a"
  "sched_frame a (make_favored t a) \<and> queue_cur (make_favored t a) = queue_cur a"
  "sched_frame a (cull_slot i a) \<and> queue_cur (cull_slot i a) = queue_cur a"
proof -
  have n: "sched_frame b (note_pending t b) \<and> queue_cur (note_pending t b) = queue_cur b" for b t
    by (simp add: note_pending_def Let_def sched_frame_def queue_view_def cache_view_def)
  have f: "sched_frame b ((set_entry t (q_favored_update (\<lambda>_. True)) b)\<lparr>queued_favored := m\<rparr>)" for b t m
    using sched_frame_set_entry [of "q_favored_update (\<lambda>_. True)" b t]
    by (simp add: sched_frame_def queue_view_def cache_view_def view_defs)
  have m: "sched_frame b (make_favored t b) \<and> queue_cur (make_favored t b) = queue_cur b" for b t
  proof (cases "\<not> q_favored (queue_buf b ! t) \<and> \<not> q_disabled (queue_buf b ! t)")
    case True
    let ?c = "(set_entry t (q_favored_update (\<lambda>_. True)) b)\<lparr>queued_favored := queued_favored b + 1\<rparr>"
    have e: "make_favored t b = note_pending t ?c" using True by (simp add: make_favored_def)
    have "queue_cur ?c = queue_cur b" by (simp add: set_entry_def)
    then show ?thesis using n [of ?c t] sched_frame_trans [OF f] unfolding e by metis
  qed (auto simp: make_favored_def)
  have "sched_frame b (b\<lparr>map_tmp_buf := clear_covered l mini (map_tmp_buf b)\<rparr>)" for b l mini
    by (simp add: sched_frame_def queue_view_def cache_view_def)
  then have "sched_frame b (make_favored t (b\<lparr>map_tmp_buf := clear_covered l mini (map_tmp_buf b)\<rparr>))" for b t l mini
    using m sched_frame_trans by blast
  then have "sched_frame b (cull_slot i b) \<and> queue_cur (cull_slot i b) = queue_cur b" for b i
    unfolding cull_slot_def using m by (auto split: option.splits)
  then show "sched_frame a (cull_slot i a) \<and> queue_cur (cull_slot i a) = queue_cur a"
    "sched_frame a (note_pending t a) \<and> queue_cur (note_pending t a) = queue_cur a"
    "sched_frame a (make_favored t a) \<and> queue_cur (make_favored t a) = queue_cur a" using n m by auto
qed

lemma culled_frame:
  assumes "cull_ready a"
  shows "sched_frame a (culled a)" "queue_cur (culled a) = queue_cur a"
proof -
  have m: "map entry_view (map fav_core qs) = map entry_view qs" for qs by (simp add: view_defs fav_core_def)
  have "sched_frame a (cull_start a) \<and> queue_cur (cull_start a) = queue_cur a"
    using assms m by (simp add: cull_start_eq [OF assms] sched_frame_def queue_view_def cache_view_def cull_ready_def)
  then have "sched_frame a (culled a) \<and> queue_cur (culled a) = queue_cur a"
    unfolding culled_def using cull_pass_frame(3) sched_frame_trans
    by (intro fold_invariant_on [where P = "\<lambda>b. sched_frame a b \<and> queue_cur b = queue_cur a"]) (blast, metis)
  then show "sched_frame a (culled a)" "queue_cur (culled a) = queue_cur a" by auto
qed

lemma marked_view:
  "file_view (mark_entry dr q) = file_view q" "q_depth (mark_entry dr q) = q_depth q" "q_mother (mark_entry dr q) = q_mother q"
  "q_disabled q \<Longrightarrow> q_disabled (mark_entry dr q)" "\<not> dr \<Longrightarrow> q_disabled (mark_entry dr q) = q_disabled q"
  by (simp_all add: mark_entry_def file_view_def)

lemma enabled_marked:
  "length (filter (\<lambda>q. \<not> q_disabled q) (map (mark_entry dr) qs)) \<le> length (filter (\<lambda>q. \<not> q_disabled q) qs)"
  "\<not> dr \<Longrightarrow> length (filter (\<lambda>q. \<not> q_disabled q) (map (mark_entry dr) qs)) = length (filter (\<lambda>q. \<not> q_disabled q) qs)"
  by (induction qs) (auto simp: marked_view)

lemma marked_wf:
  assumes "queue_wf a"
  shows "queue_wf (a\<lparr>queue_buf := map (mark_entry (afl_disable_redundant a)) (queue_buf a), reinit_table := True\<rparr>)"
proof -
  let ?b = "a\<lparr>queue_buf := map (mark_entry (afl_disable_redundant a)) (queue_buf a), reinit_table := True\<rparr>"
  have "enabled_count ?b \<le> enabled_count a" "\<not> afl_disable_redundant a \<Longrightarrow> enabled_count ?b = enabled_count a"
    using enabled_marked by (simp_all add: enabled_count_def)
  moreover have "q_id (queue_buf ?b ! k) = q_id (queue_buf a ! k)" "q_depth (queue_buf ?b ! k) = q_depth (queue_buf a ! k)"
    "q_mother (queue_buf ?b ! k) = q_mother (queue_buf a ! k)" if "k < length (queue_buf a)" for k
    using that by (simp_all add: marked_view)
  ultimately show ?thesis using queue_wfD [OF assms] unfolding queue_wf_def by (auto split: if_splits)
qed

lemma smallest_of_range:
  assumes "\<And>k. k < length qs \<Longrightarrow> unat (q_id (qs ! k)) = k"
  shows "- 1 \<le> smallest_of qs \<and> smallest_of qs < int (length qs)"
proof (cases "\<exists>q \<in> set qs. pending q")
  case True
  let ?S = "(\<lambda>q. uint (q_id q)) ` {q \<in> set qs. pending q}"
  have "Min ?S \<in> ?S" using True by (intro Min_in) auto
  then obtain k where "k < length qs" "Min ?S = uint (q_id (qs ! k))" by (auto simp: in_set_conv_nth)
  then have "Min ?S = int k" using assms [of k] by (metis uint_nat)
  then show ?thesis using True \<open>k < length qs\<close> by (simp add: smallest_of_def)
next
  case False
  then show ?thesis by (simp add: smallest_of_def)
qed

lemma cull_keeps:
  assumes inv: "campaign_inv fs (p, a)"
  shows "campaign_inv fs (p, cull_queue a)"
proof (cases "score_changed a \<and> \<not> non_instrumented_mode a")
  case False
  then show ?thesis using inv by (auto simp: cull_queue_def)
next
  case True
  note I = campaign_invD [OF inv] and fr = culled_frame [OF campaign_invD(11) [OF inv]]
  let ?c = "cull_queue a"
  have c: "?c = (culled a)\<lparr>queue_buf := map (mark_entry (afl_disable_redundant (culled a))) (queue_buf (culled a)), reinit_table := True\<rparr>"
    using cull_queue_eq [of a] True I(11) fr(1) by (simp add: sched_frame_def queue_view_def)
  have "queue_wf (culled a)" using sched_frame_queue [OF fr(1) I(1)] queue_wfD(8) [OF I(1)] fr(2) by simp
  then have wf: "queue_wf ?c" unfolding c by (rule marked_wf)
  note D = sched_frameD [OF fr(1)]
  have cache: "cache_inv fs ?c"
    by (rule cache_inv_extend [OF sched_frame_cache [OF fr(1) I(3)]]) (simp_all add: c marked_view cache_view_def)
  have "stats_ok ?c" unfolding c by (rule stats_ok_marked [OF cull_loop_invD(2) [OF culled_inv [OF I(11)] cull_start_inv(1) [OF I(11)]]])
  then have small: "- 1 \<le> smallest_favored ?c \<and> smallest_favored ?c < int (length (queue_buf ?c))"
    using smallest_of_range [OF queue_wfD(2) [OF wf]] by (simp add: stats_ok_def)
  have "reinit_table ?c" "queued_items ?c = queued_items a" "map_size (fsrv ?c) = map_size (fsrv a)"
    "length (map_tmp_buf ?c) = length (map_tmp_buf a)" by (simp_all add: c D)
  then show ?thesis using wf cache small slots_inv_cull_queue [OF I(2, 11)] I by (simp add: campaign_inv_def)
qed

lemma calculate_score_frame:
  assumes "calculate_score log2 k a = Inr (s, b)"
  shows "weigh_frame a b"
proof -
  have "\<exists>h. b = set_entry k (q_handicap_update (\<lambda>_. h)) a"
    using assms by (auto simp: calculate_score_def Let_def rbind_eq_Inr_iff split_beta)
  then show ?thesis using weigh_frame_set by (auto simp: weigh_core_def)
qed

lemma collect_P_frame:
  assumes "collect_P logd log10 log2 a = Inr (P, b)"
  shows "weigh_frame a b"
proof -
  let ?I = "\<lambda>(s :: dbl, b). weigh_frame a b"
  have upd: "weigh_frame a b \<Longrightarrow> weigh_frame a (set_entry i (q_weight_update (\<lambda>_. w)) b)"
    "weigh_frame a b \<Longrightarrow> weigh_frame a (set_entry i (q_perf_score_update (\<lambda>_. w)) b)"
    "weigh_frame a b \<Longrightarrow> weigh_frame a (set_entry i (\<lambda>q. q\<lparr>q_weight := g q\<rparr>) b)" for b i w g
    by (erule weigh_frame_trans, rule weigh_frame_set, simp add: weigh_core_def)+
  have sc: "weigh_frame a c" if "weigh_frame a b" "calculate_score log2 i b = Inr (s, c)" for b i s c
    using weigh_frame_trans [OF that(1) calculate_score_frame [OF that(2)]] .
  have w: "?I t" if "?I s" "weigh_entry log10 log2 avgs i s = Inr t" for avgs i s t
    using that by (cases s) (auto simp: weigh_entry_def Let_def rbind_eq_Inr_iff intro!: upd(2) intro: sc [OF upd(1)] split: if_splits)
  have s: "?I t" if "?I s" "score_entry log2 i s = Inr t" for i s t
    using that by (cases s) (auto simp: score_entry_def Let_def rbind_eq_Inr_iff intro!: upd(2) intro: sc split: if_splits)
  have dr: "weigh_frame a (double_recent c)" if "weigh_frame a c" for c
    unfolding double_recent_def Let_def using that upd(3)
    by (auto intro!: fold_invariant_on [where P = "weigh_frame a"])
  have 1: "?I t" if "rfold (weigh_entry log10 log2 avgs) is (Fin 0, a) = Inr t" for avgs "is" t
    by (rule rfold_invariant [OF that, where P = ?I]) (simp, rule w)
  have 2: "?I t" if "rfold (score_entry log2) is (Fin 0, a) = Inr t" for "is" t
    by (rule rfold_invariant [OF that, where P = ?I]) (simp, rule s)
  show ?thesis using assms by (auto simp: collect_P_def Let_def rbind_eq_Inr_iff split: if_splits dest!: 1 2 intro: dr)
qed

lemma weigh_frame_sched:
  assumes "weigh_frame a b"
  shows "sched_frame a b" "map slot_view (queue_buf b) = map slot_view (queue_buf a)" "top_rated b = top_rated a"
    "queue_cur b = queue_cur a" "smallest_favored b = smallest_favored a"
proof -
  have e: "b\<lparr>queue_buf := []\<rparr> = a\<lparr>queue_buf := []\<rparr>" and m: "map weigh_core (queue_buf b) = map weigh_core (queue_buf a)"
    using assms by (simp_all add: weigh_frame_def)
  have "map entry_view qs = map entry_view (map weigh_core qs)" "map slot_view qs = map slot_view (map weigh_core qs)" for qs
    by (simp_all add: view_defs slot_view_def weigh_core_def)
  then have v: "map entry_view (queue_buf b) = map entry_view (queue_buf a)" "map slot_view (queue_buf b) = map slot_view (queue_buf a)"
    using m by metis+
  have f: "queue_view (d\<lparr>queue_buf := []\<rparr>) = queue_view d" "cache_view (d\<lparr>queue_buf := []\<rparr>) = cache_view d"
    "fsrv (d\<lparr>queue_buf := []\<rparr>) = fsrv d" "map_tmp_buf (d\<lparr>queue_buf := []\<rparr>) = map_tmp_buf d" "top_rated (d\<lparr>queue_buf := []\<rparr>) = top_rated d"
    "queue_cur (d\<lparr>queue_buf := []\<rparr>) = queue_cur d" "smallest_favored (d\<lparr>queue_buf := []\<rparr>) = smallest_favored d" for d
    by (simp_all add: queue_view_def cache_view_def)
  show "sched_frame a b" using v(1) e f unfolding sched_frame_def by metis
  show "map slot_view (queue_buf b) = map slot_view (queue_buf a)" by (fact v(2))
  show "top_rated b = top_rated a" "queue_cur b = queue_cur a" "smallest_favored b = smallest_favored a" using e f by metis+
qed

text \<open>Rebuilding the table.\<close>

lemma table_keeps:
  assumes inv: "campaign_inv fs (p, a)" and c: "create_alias_table logd log10 log2 a = Inr (Some b)"
  shows "campaign_inv fs (queued_items a, b)" "table_ok b" "queued_items b = queued_items a"
proof -
  note I = campaign_invD [OF inv]
  obtain P d where P: "collect_P logd log10 log2 a = Inr (P, d)"
    using c by (auto simp: create_alias_table_def rbind_eq_Inr_iff)
  note w = weigh_frame_sched [OF collect_P_frame [OF P]]
  note q = sched_frameD [OF w(1)]
  obtain prob al where b: "b = d\<lparr>alias_probability := prob, alias_table := al, reinit_table := False\<rparr>" and t: "table_ok b"
    using create_alias_table_ok [OF P] q(2) I(6) c by auto
  show "table_ok b" by (fact t)
  show n: "queued_items b = queued_items a" using q(2) b by simp
  have "campaign_inv fs (p, d\<lparr>reinit_table := True\<rparr>)"
    by (rule campaign_inv_light [OF inv]) (use w in \<open>simp_all add: sched_frame_def queue_view_def cache_view_def\<close>)
  note J = campaign_invD [OF this]
  have fr: "sched_frame (d\<lparr>reinit_table := True\<rparr>) b" by (simp add: b sched_frame_def queue_view_def cache_view_def)
  have "queue_wf b" using sched_frame_queue [OF fr J(1)] queue_wfD(8) [OF J(1)] by (simp add: b)
  moreover have "slots_inv b" by (rule slots_inv_view [OF J(2)]) (simp_all add: b)
  moreover have "cache_inv fs b" by (rule sched_frame_cache [OF fr J(3)])
  ultimately show "campaign_inv fs (queued_items a, b)" using t n J(4-6, 9, 10) by (simp add: campaign_inv_def b)
qed

lemma rand_light:
  assumes "rand_core b = rand_core a"
  shows "sched_light a b"
proof -
  have f: "queue_buf (rand_core d) = queue_buf d" "queue_view (rand_core d) = queue_view d" "cache_view (rand_core d) = cache_view d"
    "fsrv (rand_core d) = fsrv d" "map_tmp_buf (rand_core d) = map_tmp_buf d" "top_rated (rand_core d) = top_rated d"
    "queue_cur (rand_core d) = queue_cur d" "reinit_table (rand_core d) = reinit_table d"
    "alias_probability (rand_core d) = alias_probability d" "alias_table (rand_core d) = alias_table d"
    "smallest_favored (rand_core d) = smallest_favored d" for d
    by (simp_all add: rand_core_def queue_view_def cache_view_def)
  show ?thesis unfolding sched_light_def sched_frame_def using assms f by metis
qed

lemma current_light [simp]: "sched_light a (a\<lparr>current_entry := s\<rparr>)"
  by (simp add: sched_light_def sched_frame_def queue_view_def cache_view_def)

lemma obind_eq_Some_iff: "obind m f = Inr (Some y) \<longleftrightarrow> (\<exists>x a. m = Inr (Some (x, a)) \<and> f x a = Inr (Some y))"
  by (auto simp: obind_def rbind_eq_Inr_iff split: option.splits)

lemma select_core:
  assumes "select_next_queue_entry fuel urandom a = Inr (Some (s, b))"
  shows "rand_core b = rand_core a"
proof -
  obtain r c where "rand_below fuel urandom (queued_items a) a = Inr (Some (r, c))" and "b = snd (rand_next c)"
    using assms by (auto simp: select_next_queue_entry_def obind_eq_Some_iff rand_next_percent_def Let_def split_beta split: if_splits)
  then show ?thesis using rand_core_below by simp
qed

lemma select_loop_light:
  assumes "select_loop tries fuel urandom a = Inr (Some (s, b))"
  shows "sched_light a b \<and> current_entry b = s \<and> s < queued_items b"
  using assms
proof (induction tries arbitrary: a)
  case (Suc tries)
  obtain r c where r: "select_next_queue_entry fuel urandom a = Inr (Some (r, c))"
    and l: "(if queued_items c \<le> r then select_loop tries fuel urandom (c\<lparr>current_entry := r\<rparr>) else Inr (Some (r, c\<lparr>current_entry := r\<rparr>))) = Inr (Some (s, b))"
    using Suc.prems by (auto simp: obind_eq_Some_iff Let_def)
  have "sched_light a (c\<lparr>current_entry := r\<rparr>)" using sched_light_trans [OF rand_light [OF select_core [OF r]] current_light] .
  then show ?case using l Suc.IH [of "c\<lparr>current_entry := r\<rparr>"] sched_light_trans by (auto simp: not_le split: if_splits)
qed simp

lemma enter_keeps:
  assumes inv: "campaign_inv fs (p, a)" and b: "enter_current a = Inr b"
  shows "campaign_inv fs (p, b)" "queue_cur b = Some (unat (current_entry b))" "queued_items b = queued_items a"
    "current_entry b = current_entry a"
proof -
  have e: "b = a\<lparr>queue_cur := Some (unat (current_entry a))\<rparr>" and lt: "unat (current_entry a) < length (queue_buf a)"
    using b by (simp_all add: enter_current_def split: if_splits)
  have "slots_inv b" by (rule slots_inv_view [OF campaign_invD(2) [OF inv]]) (simp_all add: e)
  moreover have "sched_frame a b" by (simp add: e sched_frame_def queue_view_def cache_view_def)
  ultimately show "campaign_inv fs (p, b)"
    using lt by (intro campaign_inv_frame [OF inv]) (auto simp: e)
  show "queue_cur b = Some (unat (current_entry b))" "queued_items b = queued_items a" "current_entry b = current_entry a" by (simp_all add: e)
qed

lemma choose_keeps:
  assumes inv: "campaign_inv fs (p, a)" and c: "choose_entry logd log10 log2 tries fuel urandom p a = Inr (Some (p', b))"
  shows "campaign_inv fs (p', b)"
proof (cases "pending_favored a \<noteq> 0 \<and> smallest_favored a \<noteq> - 1")
  case True
  then obtain "enter_current (a\<lparr>current_entry := of_int (smallest_favored a)\<rparr>) = Inr b" "p' = p"
    using c by (auto simp: choose_entry_def rbind_eq_Inr_iff)
  then show ?thesis using enter_keeps(1) [OF sched_light_keeps [OF inv current_light]] by simp
next
  case False
  then obtain d s e where t: "(if p < queued_items a \<or> reinit_table a
        then rbind (create_alias_table logd log10 log2 a) (\<lambda>r. Inr (map_option (Pair (queued_items a)) r)) else Inr (Some (p, a))) = Inr (Some (p', d))"
    and s: "select_loop tries fuel urandom d = Inr (Some (s, e))" and b: "enter_current e = Inr b"
    using c by (simp only: choose_entry_def if_False) (auto simp: obind_eq_Some_iff rbind_eq_Inr_iff split: option.splits)
  have "campaign_inv fs (p', d)" using t table_keeps(1) [OF inv] inv by (auto simp: rbind_eq_Inr_iff split: if_splits)
  then have "campaign_inv fs (p', e)" using sched_light_keeps select_loop_light [OF s] by blast
  then show ?thesis using enter_keeps(1) b by blast
qed

lemma read_keeps:
  assumes inv: "campaign_inv fs (p, a)" and "k < length (queue_buf a)"
    and "load_file fs (q_fname (queue_buf a ! k)) (q_len (queue_buf a ! k)) = Inr bs"
    and "unat (q_testcase_cache_count a) < fuel" and "queue_testcase_get fs fuel junk urandom k a = Inr (Some (r, b))"
  shows "campaign_inv fs (p, b)"
proof -
  note I = campaign_invD [OF inv]
  have cache: "cache_inv fs b" and same: "queue_same a b"
    using queue_testcase_get_ok [OF I(3) assms(2-4), where junk = junk and u = urandom] assms(5) by simp_all
  have rest: "cache_rest b = cache_rest a" using same by (simp add: queue_same_def)
  have f: "queue_view (cache_rest d) = queue_view d" "fsrv (cache_rest d) = fsrv d" "map_tmp_buf (cache_rest d) = map_tmp_buf d"
    "top_rated (cache_rest d) = top_rated d" "queue_cur (cache_rest d) = queue_cur d" "reinit_table (cache_rest d) = reinit_table d"
    "alias_probability (cache_rest d) = alias_probability d" "alias_table (cache_rest d) = alias_table d"
    "smallest_favored (cache_rest d) = smallest_favored d" for d
    by (simp_all add: cache_rest_def rand_core_def queue_view_def)
  have g: "queue_view b = queue_view a" "fsrv b = fsrv a" "map_tmp_buf b = map_tmp_buf a" "top_rated b = top_rated a" "queue_cur b = queue_cur a"
    "reinit_table b = reinit_table a" "alias_probability b = alias_probability a" "alias_table b = alias_table a"
    "smallest_favored b = smallest_favored a" using rest f by metis+
  have len: "length (queue_buf b) = length (queue_buf a)" using queue_sameD(2) [OF same] .
  have "ident x = ident y \<and> slot_view x = slot_view y" if "entry_same x y" for x y
    using that by (cases x; cases y) (simp add: entry_same_def ident_def slot_view_def)
  then have m: "map ident (queue_buf b) = map ident (queue_buf a)" "map slot_view (queue_buf b) = map slot_view (queue_buf a)"
    using queue_sameD(3) [OF same] len by (auto intro!: nth_equalityI)
  have "queue_frame a b" using m(1) g by (simp add: queue_frame_def queue_view_def)
  then have wf: "queue_wf b" using queue_frame_wf I(1) by blast
  have slots: "slots_inv b" by (rule slots_inv_view [OF I(2) m(2)]) (simp_all add: g)
  have "q_disabled (queue_buf b ! j) = q_disabled (queue_buf a ! j)" if "j < length (queue_buf a)" for j
    using entry_same_fields(4) [OF queue_sameD(3) [OF same that]] .
  then have "table_ok b = table_ok a" using queue_wfD(1) [OF I(1)] g by (auto simp: table_ok_def queue_view_def)
  then show ?thesis using wf slots cache I g len by (simp add: campaign_inv_def queue_view_def)
qed

lemma add_cache:
  assumes "add_to_queue t hooks stat_size read_file fname len pd a = Inr b"
  shows "cache_view b = cache_view a \<and> smallest_favored b = smallest_favored a \<and> schedule b = schedule a"
proof -
  have e: "cache_view (set_entry k f c) = cache_view c \<and> smallest_favored (set_entry k f c) = smallest_favored c \<and>
      schedule (set_entry k f c) = schedule c" for k f c
    by (simp add: cache_view_def set_entry_def)
  have h: "cache_view d = cache_view c \<and> smallest_favored d = smallest_favored c \<and> schedule d = schedule c"
    if "run_afl_custom_queue_new_entry hooks stat_size k fname mother c = Inr d" for k mother c d
    using that e by (auto simp: run_afl_custom_queue_new_entry_def Let_def split: if_splits option.splits)
  have l: "cache_view (note_find t (link_entry q a)) = cache_view a \<and> smallest_favored (note_find t (link_entry q a)) = smallest_favored a \<and>
      schedule (note_find t (link_entry q a)) = schedule a" for q
    by (simp add: note_find_def link_entry_def Let_def cache_view_def)
  show ?thesis using assms unfolding add_to_queue_def Let_def rbind_eq_Inr_iff
    by (auto simp: rbind_eq_Inr_iff e l split: if_splits option.splits dest!: h)
qed

lemma find_keeps:
  assumes inv: "campaign_inv fs (p, a)" and room: "unat (queued_items a) < 2 ^ 31"
    and b: "add_to_queue t hooks stat_size read_file fname len pd a = Inr b"
  shows "campaign_inv fs (p, b)"
proof -
  note I = campaign_invD [OF inv]
  let ?n = "length (queue_buf a)"
  have "unat (queued_items a) + 1 < 2 ^ 32" using room by simp
  note A = add_succeeds [OF I(1) this b]
  have old: "queue_buf b ! k = queue_buf a ! k" if "k < ?n" for k using arg_cong [OF A(2), of "\<lambda>l. l ! k"] that by simp
  have new: "queue_buf b ! ?n = last (queue_buf b)" using A(3) by (simp add: last_conv_nth flip: length_0_conv)
  have c: "cache_view b = cache_view a" and sf: "smallest_favored b = smallest_favored a"
    using add_cache [OF b] by simp_all
  have cache: "cache_inv fs b"
    by (rule cache_inv_extend [OF I(3) c]) (use A(3) old new A(11) in \<open>auto simp: less_Suc_eq\<close>)
  have "count_list (top_rated a) (Some ?n) = 0"
    using I(12) by (auto simp: slots_ok_def count_list_0_iff)
  then have "entry_owns (mini_len a) (top_rated a) k (queue_buf b ! k)" if "k < Suc ?n" for k
    using that old new A(9, 10) I(2) by (auto simp: less_Suc_eq entry_owns_def slots_inv_def refs_ok_def)
  then have slots: "slots_inv b" using I(12) A(3) by (auto simp: slots_inv_def slots_ok_def refs_ok_def A(12, 13) mini_len_def)
  have n: "unat (queued_items b) = Suc (unat (queued_items a))" using A(4) room by (simp add: unat_word_ariths)
  then have "p < queued_items b" using I(7) by (simp add: word_less_nat_alt word_le_nat_alt)
  then show ?thesis using A(1, 3, 12, 14) slots cache I room n sf by (simp add: campaign_inv_def)
qed

lemma campaign_step_keeps:
  assumes "campaign_step fs logd log10 log2 log1p s t" and "campaign_inv fs s"
  shows "campaign_inv fs t"
  using assms by (cases rule: campaign_step.cases)
    (auto intro: cull_keeps choose_keeps read_keeps find_keeps score_keeps rescore_keeps det_done_keeps
      sched_light_keeps [OF _ execute_light] sched_light_keeps [OF _ abandon_light])

lemma campaign_start_inv:
  assumes "8 dvd unat n"
  shows "campaign_inv fs (0, alloc_cache (afl_state_init n))"
proof -
  let ?a = "alloc_cache (afl_state_init n)"
  have f: "queue_buf ?a = []" "queued_items ?a = 0" "queue ?a = None" "queue_top ?a = None" "queue_cur ?a = None" "active_items ?a = 0"
    "fsrv ?a = fsrv_zero\<lparr>map_size := n, exec_tmout := EXEC_TIMEOUT, mem_limit := MEM_LIMIT\<rparr>" "top_rated ?a = replicate (unat n) None" "map_tmp_buf ?a = replicate (unat n) 0"
    "alias_probability ?a = []" "alias_table ?a = []" "smallest_favored ?a = - 1" "q_testcase_max_cache_entries ?a = 65536"
    "q_testcase_cache ?a = replicate 65536 None" "q_testcase_max_cache_count ?a = 0" "q_testcase_cache_count ?a = 0"
    "q_testcase_cache_size ?a = 0" "q_testcase_smallest_free ?a = 0"
    by (simp_all only: alloc_cache_def afl_state_init_def) (simp_all add: zero_defs)
  have "queue_wf ?a" by (simp add: queue_wf_def enabled_count_def f)
  moreover have "slots_inv ?a" by (simp add: slots_inv_def slots_ok_def refs_ok_def f)
  moreover have "cache_inv fs ?a" by (auto simp: cache_inv_def slots_wf_def f occ_def)
  moreover have "table_ok ?a" by (simp add: table_ok_def f)
  ultimately show ?thesis using assms by (simp add: campaign_inv_def f)
qed

text \<open>
  C1: in every state a campaign can reach from the freshly initialised fuzzer (on a map whose size is
  a multiple of eight, with a queue of at most \<open>2 ^ 31\<close> entries), however additions, choices, runs,
  scoring, rescoring, culling, cached reads and the end of a fuzzing round are interleaved, with files that
  do not change (so without trimming and without storing finds in the cache): the
  queue is well formed, reference counts and compact traces agree with the slots, the cache agrees
  with its slots and with the files, the alias table is sound or marked for a rebuild, and
  \<open>smallest_favored\<close> is -1 or the id of an entry.
\<close>

theorem campaign_invariant:
  assumes "8 dvd unat n" and "(campaign_step fs logd log10 log2 log1p)\<^sup>*\<^sup>* (0, alloc_cache (afl_state_init n)) s"
  shows "campaign_inv fs s"
  using assms(2) by (induction rule: rtranclp_induct) (auto intro: campaign_start_inv [OF assms(1)] campaign_step_keeps)

lemma one_entry:
  obtains b where "add_to_queue 1 [] (\<lambda>_. None) (\<lambda>_ _. None) ''id:0'' 4 False (alloc_cache (afl_state_init 8)) = Inr b"
    "queue_buf b \<noteq> []" "campaign_inv fs (0, b)" "queued_items b = 1" "schedule b = EXPLORE"
proof -
  let ?a = "alloc_cache (afl_state_init 8)"
  have z: "queued_items ?a = 0" "custom_mutators_count ?a = 0" "schedule ?a = EXPLORE" by (simp_all add: alloc_cache_def afl_state_init_def zero_defs)
  have inv: "campaign_inv fs (0, ?a)" by (rule campaign_start_inv) simp
  note wf = campaign_invD(1) [OF inv]
  obtain b where b: "add_to_queue 1 [] (\<lambda>_. None) (\<lambda>_ _. None) ''id:0'' 4 False ?a = Inr b"
    using add_fails [OF wf, of 1 "[]" "\<lambda>_. None" "\<lambda>_ _. None" "''id:0''" 4 False] z(2) by (meson sum.exhaust)
  have "queue_buf b \<noteq> []" "queued_items b = 1" using add_succeeds(3, 4) [OF wf _ b] z by auto
  moreover have "schedule b = EXPLORE" using add_cache [OF b] z(3) by simp
  ultimately show ?thesis using that [OF b] find_keeps [OF inv _ b] z by simp
qed

theorem campaign_invariant_witness:
  "\<exists>s. (campaign_step (\<lambda>_. None) (\<lambda>x. x) (\<lambda>x. x) (\<lambda>x. x) (\<lambda>x. x))\<^sup>*\<^sup>* (0, alloc_cache (afl_state_init 8)) s \<and>
     queue_buf (snd s) \<noteq> [] \<and> campaign_inv (\<lambda>_. None) s"
proof -
  let ?a = "alloc_cache (afl_state_init 8)" and ?step = "campaign_step (\<lambda>_. None) (\<lambda>x. x) (\<lambda>x. x) (\<lambda>x. x) (\<lambda>x. x)"
  obtain b where b: "add_to_queue 1 [] (\<lambda>_. None) (\<lambda>_ _. None) ''id:0'' 4 False ?a = Inr b" "queue_buf b \<noteq> []" using one_entry .
  have "queued_items ?a = 0" by (simp add: alloc_cache_def afl_state_init_def zero_defs)
  then have "?step\<^sup>*\<^sup>* (0, ?a) (0, b)" using b(1) by (intro r_into_rtranclp campaign_step.find) simp_all
  then show ?thesis using b(2) campaign_invariant [of 8 "\<lambda>_. None" "\<lambda>x. x" "\<lambda>x. x" "\<lambda>x. x" "\<lambda>x. x" "(0, b)"]
    by (intro exI [of _ "(0, b)"]) simp
qed

lemma choose_table:
  assumes "log2_contract log2" "campaign_inv fs (p, a)" "weighable a"
  obtains p' d where "(if p < queued_items a \<or> reinit_table a
        then rbind (create_alias_table logd log10 log2 a) (\<lambda>r. Inr (map_option (Pair (queued_items a)) r)) else Inr (Some (p, a))) = Inr (Some (p', d))"
    "campaign_inv fs (p', d)" "table_ok d" "queued_items d = queued_items a"
proof (cases "p < queued_items a \<or> reinit_table a")
  case True
  note I = campaign_invD [OF assms(2)]
  obtain P e where P: "collect_P logd log10 log2 a = Inr (P, e)" "weigh_frame a e" using collect_P_returns [OF assms(1, 3)] by blast
  have "unat (queued_items e) \<le> 2 ^ 31" using I(6) weigh_frameD(1) [OF P(2)] by simp
  then obtain d where "create_alias_table logd log10 log2 a = Inr (Some d)" using create_alias_table_ok [OF P(1)] by blast
  then show ?thesis using that True table_keeps [OF assms(2)] by simp
next
  case False
  then show ?thesis using that assms(2) campaign_invD(8) [OF assms(2)] by simp
qed

text \<open>
  C2: choosing the next entry is safe. When the campaign invariant holds, the queue is not empty and
  the score of every enabled entry is defined, \<open>choose_entry\<close> never reads outside the alias table or
  the queue: it fails only if \<open>/dev/urandom\<close> does, stays without a result only if a bounded draw
  finds no accepted value, and otherwise makes \<open>current_entry\<close> an id of the queue, points
  \<open>queue_cur\<close> at it and keeps the invariant.
\<close>

theorem choose_entry_safe:
  assumes "log2_contract log2" and "campaign_inv fs (p, a)" and "weighable a" and "queued_items a \<noteq> 0" and "0 < tries"
  shows "case choose_entry logd log10 log2 tries fuel urandom p a of
      Inl e \<Rightarrow> urandom = Inl e
    | Inr None \<Rightarrow> \<exists>d. rand_below fuel urandom (queued_items a) d = Inr None
    | Inr (Some (p', b)) \<Rightarrow> campaign_inv fs (p', b) \<and> current_entry b < queued_items a \<and>
        queue_cur b = Some (unat (current_entry b))"
proof (cases "pending_favored a \<noteq> 0 \<and> smallest_favored a \<noteq> - 1")
  case True
  note I = campaign_invD [OF assms(2)]
  let ?b = "a\<lparr>current_entry := of_int (smallest_favored a)\<rparr>"
  obtain m where m: "smallest_favored a = int m" using I(9) True by (cases "smallest_favored a") auto
  have lt: "m < unat (queued_items a)" using I(10) m queue_wfD(1) [OF I(1)] by (metis of_nat_less_iff)
  have u: "unat (of_int (int m) :: u32) = m" using lt by (simp add: unat_of_index)
  then obtain b where b: "enter_current ?b = Inr b" using I(10) m by (simp add: enter_current_def)
  note E = enter_keeps [OF sched_light_keeps [OF assms(2) current_light] b]
  have "current_entry b < queued_items a" using E(4) u m lt by (simp add: word_less_nat_alt)
  then show ?thesis using True b E(1, 2) by (simp add: choose_entry_def)
next
  case False
  obtain p' d where t: "(if p < queued_items a \<or> reinit_table a
        then rbind (create_alias_table logd log10 log2 a) (\<lambda>r. Inr (map_option (Pair (queued_items a)) r)) else Inr (Some (p, a))) = Inr (Some (p', d))"
    and d: "campaign_inv fs (p', d)" "table_ok d" "queued_items d = queued_items a" using choose_table [OF assms(1-3)] .
  have c: "choose_entry logd log10 log2 tries fuel urandom p a =
      obind (select_loop tries fuel urandom d) (\<lambda>s a. rbind (enter_current a) (\<lambda>a. Inr (Some (p', a))))"
    unfolding choose_entry_def t using False by auto
  obtain n where n: "tries = Suc n" using assms(5) by (cases tries) auto
  note S = select_next_queue_entry_ok [OF d(2), where fuel = fuel and urandom = urandom, unfolded d(3), OF assms(4)]
  show ?thesis
  proof (cases "select_next_queue_entry fuel urandom d")
    case (Inl e)
    then show ?thesis unfolding c unfolding n using S by (simp add: obind_def)
  next
    case (Inr r)
    show ?thesis
    proof (cases r)
      case None
      then show ?thesis unfolding c unfolding n using S Inr by (auto simp: obind_def)
    next
      case (Some se)
      obtain s e where se: "se = (s, e)" by (cases se)
      have s: "s < queued_items a" "rand_core e = rand_core d" using S Inr Some se by simp_all
      let ?e = "e\<lparr>current_entry := s\<rparr>"
      have inv: "campaign_inv fs (p', ?e)" using sched_light_keeps [OF d(1) sched_light_trans [OF rand_light [OF s(2)] current_light]] .
      have q: "queued_items ?e = queued_items a" using rand_core_fields [OF s(2)] d(3) by simp
      then obtain b where b: "enter_current ?e = Inr b"
        using s(1) queue_wfD(1) [OF campaign_invD(1) [OF inv]] by (simp add: enter_current_def word_less_nat_alt)
      show ?thesis unfolding c unfolding n using enter_keeps [OF inv b] b s(1) q Inr Some se by (simp add: obind_def not_le [symmetric])
    qed
  qed
qed


theorem choose_entry_safe_witness:
  "\<exists>a. queued_items a = 1 \<and>
     (case choose_entry (\<lambda>x. x) (\<lambda>x. x) (\<lambda>x. x) 1 1 (Inr (1, 2, 3)) 0 a of
        Inl e \<Rightarrow> False
      | Inr None \<Rightarrow> \<exists>d. rand_below 1 (Inr (1, 2, 3)) 1 d = Inr None
      | Inr (Some (p', b)) \<Rightarrow> campaign_inv (\<lambda>_. None) (p', b) \<and> current_entry b < 1)"
proof -
  obtain b where b: "queue_buf b \<noteq> []" "campaign_inv (\<lambda>_. None) (0, b)" "queued_items b = 1" "schedule b = EXPLORE"
    using one_entry [where fs = "\<lambda>_. None"] .
  let ?a = "b\<lparr>total_cal_cycles := 1\<rparr>"
  have "sched_light b ?a" by (simp add: sched_light_def sched_frame_def queue_view_def cache_view_def)
  then have "campaign_inv (\<lambda>_. None) (0, ?a)" using sched_light_keeps b(2) by blast
  moreover have "weighable ?a" using b queue_wfD(1) [OF campaign_invD(1) [OF b(2)]] by (simp add: weighable_def score_defined_def)
  ultimately show ?thesis
    using choose_entry_safe [where logd = "\<lambda>x. x" and ?log10.0 = "\<lambda>x. x" and ?log2.0 = "\<lambda>x. x" and fs = "\<lambda>_. None" and p = 0 and a = ?a
        and tries = 1 and fuel = 1 and urandom = "Inr (1, 2, 3)", OF log2_contract_id] b(3)
    by (intro exI [of _ ?a]) (auto split: sum.splits option.splits)
qed

end
