(* ===== verification/Sha1.thy ===== *)
theory Sha1
  imports Afl_Prelude
begin

text \<open>
  The SHA-1 and HMAC-SHA-1 implementation of src/afl-performance.c: a byte-wise absorber with a
  circular message schedule of 16 words, on a little-endian machine. The second half states the
  hash as FIPS 180 does (padding, 80-word schedule, compression of 64-byte blocks) and proves
  that the streaming code computes it.
\<close>

section \<open>The implementation\<close>

record sha1nfo =
  buffer :: "u32 list"
  state :: "u32 list"
  byteCount :: u32
  bufferOffset :: u8
  keyBuffer :: bytes
  innerHash :: bytes

definition sha1_init :: "sha1nfo \<Rightarrow> sha1nfo" where
  "sha1_init s = s\<lparr>state := [0x67452301, 0xefcdab89, 0x98badcfe, 0x10325476, 0xc3d2e1f0],
     byteCount := 0, bufferOffset := 0\<rparr>"

definition sha1_rol32 :: "u32 \<Rightarrow> nat \<Rightarrow> u32" where
  "sha1_rol32 number bits = push_bit bits number OR drop_bit (32 - bits) number"

type_synonym regs = "u32 \<times> u32 \<times> u32 \<times> u32 \<times> u32"

definition extend_buffer :: "nat \<Rightarrow> u32 list \<Rightarrow> u32 list" where
  "extend_buffer i buf =
     (if 16 \<le> i
      then buf[i mod 16 := sha1_rol32
             (buf ! ((i + 13) mod 16) XOR buf ! ((i + 8) mod 16) XOR buf ! ((i + 2) mod 16) XOR buf ! (i mod 16)) 1]
      else buf)"

definition round_fun :: "nat \<Rightarrow> u32 \<Rightarrow> u32 \<Rightarrow> u32 \<Rightarrow> u32" where
  "round_fun i b c d =
     (if i < 20 then (d XOR (b AND (c XOR d))) + 0x5a827999
      else if i < 40 then (b XOR c XOR d) + 0x6ed9eba1
      else if i < 60 then ((b AND c) OR (d AND (b OR c))) + 0x8f1bbcdc
      else (b XOR c XOR d) + 0xca62c1d6)"

definition sha1_round :: "nat \<Rightarrow> u32 list \<times> regs \<Rightarrow> u32 list \<times> regs" where
  "sha1_round i = (\<lambda>(buf, (a, b, c, d, e)).
     let buf = extend_buffer i buf;
         t = round_fun i b c d + (sha1_rol32 a 5 + e + buf ! (i mod 16))
     in (buf, (t, a, sha1_rol32 b 30, c, d)))"

definition sha1_hashBlock :: "sha1nfo \<Rightarrow> sha1nfo" where
  "sha1_hashBlock s =
     (let (buf, (a, b, c, d, e)) =
            fold sha1_round [0..<80] (buffer s, (state s ! 0, state s ! 1, state s ! 2, state s ! 3, state s ! 4))
      in s\<lparr>buffer := buf, state := [state s ! 0 + a, state s ! 1 + b, state s ! 2 + c, state s ! 3 + d, state s ! 4 + e]\<rparr>)"

text \<open>The buffer seen as bytes: byte \<open>j\<close> of memory is byte \<open>j mod 4\<close> of word \<open>j div 4\<close>.\<close>

definition set_byte :: "nat \<Rightarrow> u8 \<Rightarrow> u32 \<Rightarrow> u32" where
  "set_byte j x w = (w AND NOT (push_bit (8 * j) 0xff)) OR push_bit (8 * j) (ucast x)"

definition put_byte :: "nat \<Rightarrow> u8 \<Rightarrow> u32 list \<Rightarrow> u32 list" where
  "put_byte j x buf = buf[j div 4 := set_byte (j mod 4) x (buf ! (j div 4))]"

definition sha1_addUncounted :: "u8 \<Rightarrow> sha1nfo \<Rightarrow> sha1nfo" where
  "sha1_addUncounted x s =
     (let s = s\<lparr>buffer := put_byte (unat (bufferOffset s XOR 3)) x (buffer s),
                bufferOffset := bufferOffset s + 1\<rparr>
      in if bufferOffset s = 64 then (sha1_hashBlock s)\<lparr>bufferOffset := 0\<rparr> else s)"

definition sha1_writebyte :: "u8 \<Rightarrow> sha1nfo \<Rightarrow> sha1nfo" where
  "sha1_writebyte x s = sha1_addUncounted x (s\<lparr>byteCount := byteCount s + 1\<rparr>)"

definition sha1_write :: "bytes \<Rightarrow> sha1nfo \<Rightarrow> sha1nfo" where
  "sha1_write data s = fold sha1_writebyte data s"

text \<open>\<open>while (s->bufferOffset != 56)\<close> on fuel; 64 steps are enough.\<close>

fun pad_loop :: "nat \<Rightarrow> sha1nfo \<Rightarrow> sha1nfo option" where
  "pad_loop 0 s = (if bufferOffset s \<noteq> 56 then None else Some s)"
| "pad_loop (Suc n) s = (if bufferOffset s \<noteq> 56 then pad_loop n (sha1_addUncounted 0 s) else Some s)"

definition pad_length :: "sha1nfo \<Rightarrow> sha1nfo" where
  "pad_length s =
     (let n = byteCount s
      in fold sha1_addUncounted
           [0, 0, 0, ucast (drop_bit 29 n), ucast (drop_bit 21 n), ucast (drop_bit 13 n), ucast (drop_bit 5 n), ucast (push_bit 3 n)] s)"

definition sha1_pad :: "sha1nfo \<Rightarrow> sha1nfo option" where
  "sha1_pad s = map_option pad_length (pad_loop 64 (sha1_addUncounted 0x80 s))"

definition swap_word :: "u32 \<Rightarrow> u32" where
  "swap_word w = (push_bit 24 w AND 0xff000000) OR (push_bit 8 w AND 0x00ff0000) OR
     (drop_bit 8 w AND 0x0000ff00) OR (drop_bit 24 w AND 0x000000ff)"

definition sha1_result :: "sha1nfo \<Rightarrow> (bytes \<times> sha1nfo) option" where
  "sha1_result s =
     map_option (\<lambda>s. let s = s\<lparr>state := map swap_word (state s)\<rparr> in (concat (map (store_le 4) (state s)), s)) (sha1_pad s)"

definition sha1_initHmac :: "bytes \<Rightarrow> sha1nfo \<Rightarrow> sha1nfo option" where
  "sha1_initHmac key s =
     (let s = s\<lparr>keyBuffer := replicate 64 0\<rparr>;
          keyed = (if 64 < length key
                   then map_option (\<lambda>(h, s). s\<lparr>keyBuffer := h @ drop 20 (keyBuffer s)\<rparr>)
                          (sha1_result (fold sha1_writebyte key (sha1_init s)))
                   else Some (s\<lparr>keyBuffer := key @ drop (length key) (keyBuffer s)\<rparr>))
      in map_option (\<lambda>s. fold sha1_writebyte (map (\<lambda>x. x XOR 0x36) (keyBuffer s)) (sha1_init s)) keyed)"

definition sha1_resultHmac :: "sha1nfo \<Rightarrow> (bytes \<times> sha1nfo) option" where
  "sha1_resultHmac s =
     Option.bind (sha1_result s) (\<lambda>(h, s).
       let s = sha1_init (s\<lparr>innerHash := h\<rparr>);
           s = fold sha1_writebyte (map (\<lambda>x. x XOR 0x5c) (keyBuffer s)) s
       in sha1_result (fold sha1_writebyte (innerHash s) s))"

definition sha1 :: "sha1nfo \<Rightarrow> bytes \<Rightarrow> bytes option" where
  "sha1 junk data = map_option fst (sha1_result (sha1_write data (sha1_init junk)))"

definition hex_digit :: "nat \<Rightarrow> char" where
  "hex_digit n = ''0123456789abcdef'' ! n"

definition sha1_hex :: "sha1nfo \<Rightarrow> bytes \<Rightarrow> string option" where
  "sha1_hex junk data =
     map_option (\<lambda>d. concat (map (\<lambda>x. [hex_digit (unat x div 16), hex_digit (unat x mod 16)]) d)) (sha1 junk data)"

section \<open>FIPS 180\<close>

definition f_t :: "nat \<Rightarrow> u32 \<Rightarrow> u32 \<Rightarrow> u32 \<Rightarrow> u32" where
  "f_t t x y z =
     (if t < 20 then (x AND y) XOR (NOT x AND z)
      else if t < 40 then x XOR y XOR z
      else if t < 60 then (x AND y) XOR (x AND z) XOR (y AND z)
      else x XOR y XOR z)"

definition K_t :: "nat \<Rightarrow> u32" where
  "K_t t = (if t < 20 then 0x5a827999 else if t < 40 then 0x6ed9eba1 else if t < 60 then 0x8f1bbcdc else 0xca62c1d6)"

definition rotl32 :: "nat \<Rightarrow> u32 \<Rightarrow> u32" where
  "rotl32 n w = push_bit n w OR drop_bit (32 - n) w"

fun W_t :: "u32 list \<Rightarrow> nat \<Rightarrow> u32" where
  "W_t M t = (if t < 16 then M ! t else rotl32 1 (W_t M (t - 3) XOR W_t M (t - 8) XOR W_t M (t - 14) XOR W_t M (t - 16)))"

declare W_t.simps [simp del]

fun round_t :: "u32 list \<Rightarrow> nat \<Rightarrow> regs \<Rightarrow> regs" where
  "round_t M t (a, b, c, d, e) = (rotl32 5 a + f_t t b c d + e + K_t t + W_t M t, a, rotl32 30 b, c, d)"

definition compress :: "u32 list \<Rightarrow> u32 list \<Rightarrow> u32 list" where
  "compress M H =
     (case fold (round_t M) [0..<80] (H ! 0, H ! 1, H ! 2, H ! 3, H ! 4) of
        (a, b, c, d, e) \<Rightarrow> [H ! 0 + a, H ! 1 + b, H ! 2 + c, H ! 3 + d, H ! 4 + e])"

definition be32 :: "bytes \<Rightarrow> u32" where
  "be32 bs = load_le (rev bs)"

definition block_words :: "bytes \<Rightarrow> u32 list" where
  "block_words bs = map (\<lambda>i. be32 (take 4 (drop (4 * i) bs))) [0..<16]"

function absorb :: "bytes \<Rightarrow> u32 list \<Rightarrow> u32 list" where
  "absorb bs H = (if length bs < 64 then H else absorb (drop 64 bs) (compress (block_words (take 64 bs)) H))"
  by pat_completeness auto

termination
  by (relation "measure (\<lambda>(bs, H). length bs)") auto

declare absorb.simps [simp del]

definition H0 :: "u32 list" where
  "H0 = [0x67452301, 0xefcdab89, 0x98badcfe, 0x10325476, 0xc3d2e1f0]"

definition be64 :: "u64 \<Rightarrow> bytes" where
  "be64 w = rev (store_le 8 w)"

definition fips_pad :: "bytes \<Rightarrow> bytes" where
  "fips_pad m = m @ [0x80] @ replicate (63 - (length m + 8) mod 64) 0 @ be64 (of_nat (8 * length m))"

definition fips_sha1 :: "bytes \<Rightarrow> bytes" where
  "fips_sha1 m = concat (map (\<lambda>w. rev (store_le 4 w)) (absorb (fips_pad m) H0))"

section \<open>One block\<close>

lemma rotl32_eq: "sha1_rol32 w n = rotl32 n w"
  by (simp add: sha1_rol32_def rotl32_def)

lemma round_fun_eq: "round_fun i b c d = f_t i b c d + K_t i"
proof -
  have "d XOR (b AND (c XOR d)) = (b AND c) XOR (NOT b AND d)" by (rule bit_word_eqI) (auto simp: bit_simps)
  moreover have "(b AND c) OR (d AND (b OR c)) = (b AND c) XOR (b AND d) XOR (c AND d)"
    by (rule bit_word_eqI) (auto simp: bit_simps)
  ultimately show ?thesis by (simp add: round_fun_def f_t_def K_t_def)
qed

text \<open>Before round \<open>i\<close> the circular buffer holds the last sixteen words of the schedule.\<close>

definition sched_inv :: "u32 list \<Rightarrow> nat \<Rightarrow> u32 list \<Rightarrow> bool" where
  "sched_inv M i buf \<longleftrightarrow> length buf = 16 \<and> (\<forall>k < max 16 i. max 16 i \<le> k + 16 \<longrightarrow> buf ! (k mod 16) = W_t M k)"

lemma sched_inv_start: "length M = 16 \<Longrightarrow> sched_inv M 0 M"
  by (simp add: sched_inv_def W_t.simps)

lemma mod16_back:
  assumes "16 \<le> (i :: nat)" and "m + n = 16" and "n \<le> i"
  shows "(i + m) mod 16 = (i - n) mod 16"
proof -
  have "i + m = (i - n) + 16" using assms by simp
  then show ?thesis by (metis mod_add_self2)
qed

lemma mod16_ne:
  assumes "k < i" and "i < k + 16"
  shows "i mod 16 \<noteq> k mod (16 :: nat)"
proof
  assume "i mod 16 = k mod 16"
  then have "16 dvd i - k" using assms by (simp add: mod_eq_dvd_iff_nat)
  then show False using assms by (auto dest: dvd_imp_le)
qed

lemma sched_inv_extend:
  assumes "sched_inv M i buf"
  shows "extend_buffer i buf ! (i mod 16) = W_t M i" and "sched_inv M (Suc i) (extend_buffer i buf)"
proof -
  have len: "length buf = 16" using assms by (simp add: sched_inv_def)
  show w: "extend_buffer i buf ! (i mod 16) = W_t M i"
  proof (cases "16 \<le> i")
    case True
    have old: "buf ! (k mod 16) = W_t M k" if "k < i" "i \<le> k + 16" for k
      using assms that True by (simp add: sched_inv_def)
    have "extend_buffer i buf ! (i mod 16) = rotl32 1 (W_t M (i - 3) XOR W_t M (i - 8) XOR W_t M (i - 14) XOR W_t M (i - 16))"
      using True len old [of "i - 3"] old [of "i - 8"] old [of "i - 14"] old [of "i - 16"]
        mod16_back [OF True, of 13 3] mod16_back [OF True, of 8 8] mod16_back [OF True, of 2 14] mod16_back [OF True, of 0 16]
      by (simp add: extend_buffer_def rotl32_eq)
    then show ?thesis using True by (simp add: W_t.simps [of M i])
  next
    case False
    then show ?thesis using assms by (simp add: extend_buffer_def sched_inv_def)
  qed
  have "extend_buffer i buf ! (k mod 16) = W_t M k" if k: "k < max 16 (Suc i)" "max 16 (Suc i) \<le> k + 16" for k
  proof (cases "k = i")
    case True
    then show ?thesis using w by simp
  next
    case False
    have ne: "16 \<le> i \<Longrightarrow> i mod 16 \<noteq> k mod 16" using k False by (intro mod16_ne) auto
    have "buf ! (k mod 16) = W_t M k" using assms k False by (simp add: sched_inv_def max_def split: if_splits)
    then show ?thesis using ne by (simp add: extend_buffer_def)
  qed
  then show "sched_inv M (Suc i) (extend_buffer i buf)" using len by (simp add: sched_inv_def extend_buffer_def)
qed

lemma sha1_rounds:
  assumes "length M = 16"
  shows "sched_inv M n (fst (fold sha1_round [0..<n] (M, r))) \<and>
    snd (fold sha1_round [0..<n] (M, r)) = fold (round_t M) [0..<n] r"
proof (induction n)
  case 0
  then show ?case using sched_inv_start [OF assms] by simp
next
  case (Suc n)
  obtain buf a b c d e where p: "fold sha1_round [0..<n] (M, r) = (buf, (a, b, c, d, e))"
    by (cases "fold sha1_round [0..<n] (M, r)") auto
  have inv: "sched_inv M n buf" and regs: "fold (round_t M) [0..<n] r = (a, b, c, d, e)" using Suc p by simp_all
  then show ?case
  proof -
    have "sha1_round n (buf, (a, b, c, d, e)) = (extend_buffer n buf, round_t M n (a, b, c, d, e))"
      by (simp add: sha1_round_def Let_def rotl32_eq round_fun_eq sched_inv_extend(1) [OF inv] algebra_simps)
    then show ?thesis using sched_inv_extend(2) [OF inv] by (simp add: p regs)
  qed
qed

lemma sha1_hashBlock_compress:
  assumes "length (buffer s) = 16"
  shows "state (sha1_hashBlock s) = compress (buffer s) (state s)" and "length (buffer (sha1_hashBlock s)) = 16"
    and "byteCount (sha1_hashBlock s) = byteCount s" and "keyBuffer (sha1_hashBlock s) = keyBuffer s"
    and "innerHash (sha1_hashBlock s) = innerHash s"
proof -
  let ?r = "(state s ! 0, state s ! 1, state s ! 2, state s ! 3, state s ! 4)"
  obtain buf a b c d e where p: "fold sha1_round [0..<80] (buffer s, ?r) = (buf, (a, b, c, d, e))"
    by (cases "fold sha1_round [0..<80] (buffer s, ?r)") auto
  have "fold (round_t (buffer s)) [0..<80] ?r = (a, b, c, d, e)" "length buf = 16"
    using sha1_rounds [OF assms, of 80 ?r] p by (simp_all add: sched_inv_def)
  then show "state (sha1_hashBlock s) = compress (buffer s) (state s)" "length (buffer (sha1_hashBlock s)) = 16"
    "byteCount (sha1_hashBlock s) = byteCount s" "keyBuffer (sha1_hashBlock s) = keyBuffer s"
    "innerHash (sha1_hashBlock s) = innerHash s"
    by (simp_all only: sha1_hashBlock_def p compress_def Let_def split_conv prod.case) simp_all
qed

section \<open>The buffer as bytes\<close>

definition view :: "u32 list \<Rightarrow> bytes" where
  "view buf = map (\<lambda>j. byte_of (buf ! (j div 4)) (3 - j mod 4)) [0..<64]"

lemma length_view [simp]: "length (view buf) = 64"
  by (simp add: view_def)

lemma nth_view: "j < 64 \<Longrightarrow> view buf ! j = byte_of (buf ! (j div 4)) (3 - j mod 4)"
  by (simp add: view_def)

lemma byte_of_set_byte:
  assumes "i < 4" and "j < 4"
  shows "byte_of (set_byte j x w) i = (if i = j then x else byte_of w i)"
proof (rule bit_word_eqI)
  fix b assume "b < LENGTH(8)"
  then have b: "b < 8" by simp
  have m: "(0xff :: u32) = mask 8" by (simp add: mask_eq_decr_exp)
  have x: "bit x n \<Longrightarrow> n < 8" for n using bit_imp_le_length [of x n] by simp
  show "bit (byte_of (set_byte j x w) i) b \<longleftrightarrow> bit (if i = j then x else byte_of w i) b"
    using assms b x unfolding set_byte_def m by (cases "i = j") (auto simp: bytes_simps bit_simps dest!: x)
qed

lemma xor3: "off < 64 \<Longrightarrow> unat ((off :: u8) XOR 3) = 4 * (unat off div 4) + (3 - unat off mod 4)"
proof -
  assume off: "off < 64"
  have all: "list_all (\<lambda>n. unat ((of_nat n :: u8) XOR 3) = 4 * (n div 4) + (3 - n mod 4)) [0..<64]" by code_simp
  have "unat off < 64" using off by (simp add: word_less_nat_alt)
  then have "unat off \<in> set [0..<64]" by simp
  then have "unat ((of_nat (unat off) :: u8) XOR 3) = 4 * (unat off div 4) + (3 - unat off mod 4)"
    using all unfolding list_all_iff by blast
  moreover have "(of_nat (unat off) :: u8) = off" by simp
  ultimately show ?thesis by (simp only:)
qed

lemma div4_pair: "(3 - r + 4 * q) div 4 = (q :: nat)"
  by (simp add: div_mult_self2)

lemma mod4_pair: "(3 - r + 4 * q) mod 4 = (3 - r :: nat)"
  by (simp add: mod_mult_self2)

lemma view_put_byte:
  fixes off :: u8
  assumes "length buf = 16" and "off < 64"
  shows "view (put_byte (unat (off XOR 3)) x buf) = (view buf)[unat off := x]"
proof (rule nth_equalityI)
  fix i assume "i < length (view (put_byte (unat (off XOR 3)) x buf))"
  then have i: "i < 64" by simp
  have o: "unat off < 64" using assms(2) by (simp add: word_less_nat_alt)
  have d: "unat (off XOR 3) div 4 = unat off div 4" "unat (off XOR 3) mod 4 = 3 - unat off mod 4"
    by (simp_all only: xor3 [OF assms(2)] add.commute [of "4 * _"] mod4_pair div4_pair)
  have c: "i = unat off \<longleftrightarrow> i div 4 = unat off div 4 \<and> 3 - i mod 4 = 3 - unat off mod 4"
  proof
    assume e: "i div 4 = unat off div 4 \<and> 3 - i mod 4 = 3 - unat off mod 4"
    have "i mod 4 < 4" "unat off mod 4 < 4" by simp_all
    then have "i mod 4 = unat off mod 4" using e by linarith
    then show "i = unat off" using e by (metis div_mult_mod_eq)
  qed simp
  show "view (put_byte (unat (off XOR 3)) x buf) ! i = (view buf)[unat off := x] ! i"
    using i o assms(1) c by (auto simp: nth_view put_byte_def d nth_list_update byte_of_set_byte)
qed simp

lemma be32_bytes: "length bs = 4 \<Longrightarrow> k < 4 \<Longrightarrow> byte_of (be32 bs) k = bs ! (3 - k)"
  by (simp add: be32_def rev_nth)

lemma block_words_view:
  assumes "length buf = 16"
  shows "block_words (view buf) = buf"
proof (rule nth_equalityI)
  fix i assume "i < length (block_words (view buf))"
  then have i: "i < 16" by (simp add: block_words_def)
  have "be32 (take 4 (drop (4 * i) (view buf))) = buf ! i"
  proof (subst word_eq_bytes [of 4], simp, intro allI impI)
    fix k :: nat assume k: "k < 4"
    have "take 4 (drop (4 * i) (view buf)) ! (3 - k) = byte_of (buf ! i) k"
    proof -
      have j: "(4 * i + (3 - k)) div 4 = i" "(4 * i + (3 - k)) mod 4 = 3 - k"
        by (simp_all only: add.commute [of "4 * _"] mod4_pair div4_pair)
      have "take 4 (drop (4 * i) (view buf)) ! (3 - k) = view buf ! (4 * i + (3 - k))" using i k by simp
      also have "\<dots> = byte_of (buf ! ((4 * i + (3 - k)) div 4)) (3 - (4 * i + (3 - k)) mod 4)"
        by (rule nth_view) (use i k in linarith)
      also have "\<dots> = byte_of (buf ! i) k" unfolding j using k by simp
      finally show ?thesis .
    qed
    then show "byte_of (be32 (take 4 (drop (4 * i) (view buf)))) k = byte_of (buf ! i) k"
      using i k by (simp add: be32_bytes)
  qed
  then show "block_words (view buf) ! i = buf ! i" using i by (simp add: block_words_def)
qed (simp add: block_words_def assms)

section \<open>Absorbing a message\<close>

lemma absorb_short: "length bs < 64 \<Longrightarrow> absorb bs H = H"
  by (simp add: absorb.simps)

lemma absorb_block: "length b = 64 \<Longrightarrow> absorb (b @ bs) H = absorb bs (compress (block_words b) H)"
  by (subst absorb.simps) simp

lemma absorb_append:
  assumes "64 dvd length m"
  shows "absorb (m @ m') H = absorb m' (absorb m H)"
  using assms
proof (induction m H rule: absorb.induct)
  case (1 bs H)
  show ?case
  proof (cases "length bs < 64")
    case True
    then have "bs = []" using 1(2) by (auto dest: dvd_imp_le)
    then show ?thesis by (simp add: absorb_short)
  next
    case False
    have "absorb (bs @ m') H = absorb (take 64 bs @ drop 64 bs @ m') H"
      by (simp only: append_assoc [symmetric] append_take_drop_id)
    also have "\<dots> = absorb (drop 64 bs @ m') (compress (block_words (take 64 bs)) H)"
      using False by (subst absorb_block) simp_all
    also have "\<dots> = absorb m' (absorb (drop 64 bs) (compress (block_words (take 64 bs)) H))"
      using 1 False by (simp add: dvd_diff_nat)
    also have "absorb (drop 64 bs) (compress (block_words (take 64 bs)) H) = absorb bs H"
      using False by (subst (2) absorb.simps) simp
    finally show ?thesis .
  qed
qed

lemma absorb_split:
  assumes "64 dvd q" and "q \<le> length m"
  shows "absorb (m @ t) H = absorb (drop q m @ t) (absorb (take q m) H)"
proof -
  have "absorb (take q m @ (drop q m @ t)) H = absorb (drop q m @ t) (absorb (take q m) H)"
    by (rule absorb_append) (use assms in simp)
  then show ?thesis by (simp only: append_assoc [symmetric] append_take_drop_id)
qed

text \<open>What the state says about the bytes consumed since \<open>sha1_init\<close>.\<close>

definition absorbed :: "bytes \<Rightarrow> sha1nfo \<Rightarrow> bool" where
  "absorbed m s \<longleftrightarrow> length (buffer s) = 16 \<and> unat (bufferOffset s) = length m mod 64 \<and> state s = absorb m H0 \<and>
     take (length m mod 64) (view (buffer s)) = drop (64 * (length m div 64)) m"

lemma absorbed_init: "length (buffer s) = 16 \<Longrightarrow> absorbed [] (sha1_init s)"
  by (simp add: absorbed_def sha1_init_def H0_def absorb_short)

lemma tail_snoc:
  "drop (64 * (length m div 64)) (m @ [x]) = drop (64 * (length m div 64)) m @ [x]"
  by simp

lemma absorbed_step:
  assumes "absorbed m s"
  shows "absorbed (m @ [x]) (sha1_addUncounted x s)"
proof -
  define q where "q = 64 * (length m div 64)"
  define r where "r = length m mod 64"
  have m: "length m = q + r" "r < 64" by (simp_all add: q_def r_def)
  have split: "absorb (m @ t) H0 = absorb (drop q m @ t) (absorb (take q m) H0)" for t
    by (rule absorb_split) (simp_all add: q_def)
  have len: "length (buffer s) = 16" and off: "unat (bufferOffset s) = r" and st: "state s = absorb m H0"
    and buf: "take r (view (buffer s)) = drop q m" using assms by (simp_all add: absorbed_def q_def r_def)
  let ?b = "put_byte (unat (bufferOffset s XOR 3)) x (buffer s)"
  have "bufferOffset s < 64" using m off by (simp add: word_less_nat_alt)
  then have v: "view ?b = (view (buffer s))[r := x]" using view_put_byte [OF len] off by simp
  have v': "take (Suc r) (view ?b) = drop q m @ [x]"
    using m buf unfolding v by (simp add: take_Suc_conv_app_nth take_update_cancel)
  have lenb: "length ?b = 16" using len by (simp add: put_byte_def)
  have suc: "unat (bufferOffset s + 1) = Suc r" using m off by (simp add: unat_word_ariths)
  show ?thesis
  proof (cases "r = 63")
    case True
    have "unat (bufferOffset s + 1) = unat (64 :: u8)" using suc True by simp
    then have "bufferOffset s + 1 = 64" by (simp only: word_unat_eq_iff)
    moreover have "absorb (m @ [x]) H0 = compress ?b (state s)"
    proof -
      have "view ?b = drop q m @ [x]" using v' True by simp
      then have b: "?b = block_words (drop q m @ [x])" using block_words_view [OF lenb] by simp
      have "state s = absorb (take q m) H0" using m st True split [of "[]"] by (simp add: absorb_short)
      moreover have "absorb ((drop q m @ [x]) @ []) (absorb (take q m) H0) = compress (block_words (drop q m @ [x])) (absorb (take q m) H0)"
        using m True by (subst absorb_block) (simp_all add: absorb_short)
      ultimately show ?thesis unfolding b using split [of "[x]"] by simp
    qed
    moreover have "length (m @ [x]) mod 64 = 0" "64 * (length (m @ [x]) div 64) = length (m @ [x])"
      using r_def True by (simp_all add: mod_Suc div_Suc) (metis add.commute div_mult_mod_eq mult.commute)
    ultimately show ?thesis using True lenb sha1_hashBlock_compress [of "s\<lparr>buffer := ?b, bufferOffset := 64\<rparr>"]
      by (simp add: absorbed_def sha1_addUncounted_def Let_def)
  next
    case False
    then have r: "Suc r < 64" using m by simp
    have "unat (bufferOffset s + 1) \<noteq> unat (64 :: u8)" using suc r by simp
    then have ne: "bufferOffset s + 1 \<noteq> 64" by (simp add: word_unat_eq_iff)
    have dm: "Suc (length m) mod 64 = Suc r" "64 * (Suc (length m) div 64) = q"
      using r by (simp_all add: r_def q_def mod_Suc div_Suc)
    have tl: "drop q (m @ [x]) = drop q m @ [x]" using m(1) by simp
    have "absorb (m @ [x]) H0 = absorb m H0"
      using split [of "[]"] split [of "[x]"] m r by (simp add: absorb_short)
    then show ?thesis using ne suc lenb v' st tl
      by (simp add: absorbed_def sha1_addUncounted_def Let_def dm)
  qed
qed

lemma absorbed_steps: "absorbed m s \<Longrightarrow> absorbed (m @ xs) (fold sha1_addUncounted xs s)"
proof (induction xs arbitrary: m s)
  case (Cons x xs)
  then show ?case using Cons.IH [OF absorbed_step [OF Cons.prems]] by simp
qed simp


text \<open>The padding loop reaches offset 56: after \<open>(120 - length m mod 64) mod 64\<close> zero bytes.\<close>

lemma pad_loop_runs:
  assumes "absorbed m s" and "(length m + k) mod 64 = 56" and "k < 64" and "k \<le> n"
  shows "pad_loop n s = Some (fold sha1_addUncounted (replicate k 0) s)"
  using assms
proof (induction n arbitrary: k m s)
  case 0
  then have "unat (bufferOffset s) = unat (56 :: u8)" by (simp add: absorbed_def)
  then show ?case using 0 by (simp add: word_unat_eq_iff)
next
  case (Suc n)
  show ?case
  proof (cases k)
    case 0
    then have "unat (bufferOffset s) = unat (56 :: u8)" using Suc.prems by (simp add: absorbed_def)
    then show ?thesis using 0 by (simp add: word_unat_eq_iff)
  next
    case (Suc k')
    have "length m mod 64 \<noteq> 56"
    proof
      assume "length m mod 64 = 56"
      then have "(length m + k) mod 64 = length m mod 64" using Suc.prems by simp
      then have "64 dvd k" by (metis add_diff_cancel_left' le_add1 mod_eq_dvd_iff_nat)
      then show False using Suc \<open>k < 64\<close> by (auto dest: dvd_imp_le)
    qed
    then have "unat (bufferOffset s) \<noteq> unat (56 :: u8)" using Suc.prems by (simp add: absorbed_def)
    then have "bufferOffset s \<noteq> 56" by auto
    then show ?thesis using Suc.IH [OF absorbed_step [OF Suc.prems(1)], of 0 k'] Suc.prems Suc by simp
  qed
qed

lemma byteCount_addUncounted [simp]: "length (buffer s) = 16 \<Longrightarrow> byteCount (sha1_addUncounted x s) = byteCount s"
  by (simp add: sha1_addUncounted_def Let_def sha1_hashBlock_compress put_byte_def)

lemma keyBuffer_addUncounted [simp]: "length (buffer s) = 16 \<Longrightarrow> keyBuffer (sha1_addUncounted x s) = keyBuffer s"
  by (simp add: sha1_addUncounted_def Let_def sha1_hashBlock_compress put_byte_def)

lemma absorbed_fields:
  assumes "absorbed m s"
  shows "byteCount (fold sha1_addUncounted xs s) = byteCount s" "keyBuffer (fold sha1_addUncounted xs s) = keyBuffer s"
  using assms
proof (induction xs arbitrary: m s)
  case (Cons x xs)
  { case 1 then show ?case using Cons.IH(1) [OF absorbed_step [OF 1]] by (simp add: absorbed_def) }
  { case 2 then show ?case using Cons.IH(2) [OF absorbed_step [OF 2]] by (simp add: absorbed_def) }
qed simp_all

definition zeros :: "nat \<Rightarrow> nat" where
  "zeros n = 63 - (n + 8) mod 64"

lemma zeros_pad: "(n + 1 + zeros n) mod 64 = 56"
proof -
  have "n + 1 + zeros n + 8 = 64 * ((n + 8) div 64) + 64"
    using div_mult_mod_eq [of "n + 8" 64] mod_less_divisor [of 64 "n + 8"] unfolding zeros_def by linarith
  then have "n + 1 + zeros n = 56 + 64 * ((n + 8) div 64)" by simp
  then have "(n + 1 + zeros n) mod 64 = 56 mod 64" by (simp only: mod_mult_self2)
  then show ?thesis by simp
qed

lemma zeros_less: "zeros n < 64"
  by (simp add: zeros_def)

lemma length_bytes_be64:
  assumes "n < 2 ^ 32"
  shows "[0, 0, 0, ucast (drop_bit 29 (of_nat n :: u32)), ucast (drop_bit 21 (of_nat n :: u32)),
     ucast (drop_bit 13 (of_nat n :: u32)), ucast (drop_bit 5 (of_nat n :: u32)), ucast (push_bit 3 (of_nat n :: u32))] =
     be64 (of_nat (8 * n))"
proof -
  let ?w = "of_nat n :: u32"
  have w: "(of_nat (8 * n) :: u64) = push_bit 3 (ucast ?w)"
    using assms by (simp add: push_bit_eq_mult unsigned_of_nat take_bit_nat_eq_self)
  have hi: "bit ?w b \<Longrightarrow> b < 32" for b using bit_imp_le_length [of ?w b] by simp
  have e: "be64 v = [byte_of v 7, byte_of v 6, byte_of v 5, byte_of v 4, byte_of v 3, byte_of v 2, byte_of v 1, byte_of v 0]" for v
    by (simp add: be64_def store_le_def upt_rec eval_nat_numeral)
  show ?thesis unfolding w e
    by (intro list.inject [THEN iffD2] conjI refl bit_word_eqI) (auto simp: bytes_simps bit_simps dest!: hi)
qed

section \<open>The digest\<close>

lemma absorbed_byteCount: "absorbed m (s\<lparr>byteCount := n\<rparr>) \<longleftrightarrow> absorbed m s"
  by (simp add: absorbed_def)

lemma innerHash_addUncounted [simp]: "length (buffer s) = 16 \<Longrightarrow> innerHash (sha1_addUncounted x s) = innerHash s"
  by (simp add: sha1_addUncounted_def Let_def sha1_hashBlock_compress put_byte_def)

lemma absorbed_write:
  assumes "absorbed m s"
  shows "absorbed (m @ xs) (fold sha1_writebyte xs s)"
    and "byteCount (fold sha1_writebyte xs s) = byteCount s + of_nat (length xs)"
    and "keyBuffer (fold sha1_writebyte xs s) = keyBuffer s"
    and "innerHash (fold sha1_writebyte xs s) = innerHash s"
  using assms
proof (induction xs arbitrary: m s)
  case (Cons x xs)
  have step: "absorbed (m @ [x]) (sha1_writebyte x s)" "length (buffer s) = 16" if "absorbed m s" for m s
    using that absorbed_step [of m "s\<lparr>byteCount := byteCount s + 1\<rparr>" x] by (simp_all add: sha1_writebyte_def absorbed_byteCount absorbed_def)
  { case 1 then show ?case using Cons.IH(1) [OF step(1) [OF 1]] by simp }
  { case 2 then show ?case using Cons.IH(2) [OF step(1) [OF 2]] step(2) [OF 2] by (simp add: sha1_writebyte_def) }
  { case 4 then show ?case using Cons.IH(4) [OF step(1) [OF 4]] step(2) [OF 4] by (simp add: sha1_writebyte_def) }
  { case 3 then show ?case using Cons.IH(3) [OF step(1) [OF 3]] step(2) [OF 3] by (simp add: sha1_writebyte_def) }
qed simp_all

lemma sha1_pad_fips:
  assumes "absorbed m s" and "byteCount s = of_nat (length m)" and "length m < 2 ^ 32"
  obtains s' where "sha1_pad s = Some s'" and "absorbed (fips_pad m) s'" and "keyBuffer s' = keyBuffer s"
proof -
  let ?z = "replicate (zeros (length m)) (0 :: u8)"
  let ?t = "be64 (of_nat (8 * length m))"
  let ?s1 = "sha1_addUncounted 0x80 s"
  let ?s2 = "fold sha1_addUncounted ?z ?s1"
  have a1: "absorbed (m @ [0x80]) ?s1" using absorbed_step [OF assms(1)] .
  have a2: "absorbed ((m @ [0x80]) @ ?z) ?s2" using absorbed_steps [OF a1] .
  have len: "length (buffer s) = 16" using assms(1) by (simp add: absorbed_def)
  have l: "pad_loop 64 ?s1 = Some ?s2"
    using zeros_pad [of "length m"] zeros_less [of "length m"] by (intro pad_loop_runs [OF a1]) simp_all
  have bc: "byteCount ?s2 = of_nat (length m)" and kb: "keyBuffer ?s2 = keyBuffer s"
    using absorbed_fields [OF a1, of ?z] assms(2) len by simp_all
  have "pad_length ?s2 = fold sha1_addUncounted ?t ?s2"
    by (simp only: pad_length_def Let_def bc length_bytes_be64 [OF assms(3)])
  then have "sha1_pad s = Some (fold sha1_addUncounted ?t ?s2)" by (simp add: sha1_pad_def l)
  moreover have "absorbed (fips_pad m) (fold sha1_addUncounted ?t ?s2)"
    using absorbed_steps [OF a2, of ?t] by (simp add: fips_pad_def zeros_def)
  moreover have "keyBuffer (fold sha1_addUncounted ?t ?s2) = keyBuffer s"
    using absorbed_fields(2) [OF a2, of ?t] kb by simp
  ultimately show ?thesis using that by blast
qed

lemma swap_word_rev: "store_le 4 (swap_word w) = rev (store_le 4 w)"
proof -
  have m: "(0xff000000 :: u32) = push_bit 24 (mask 8)" "(0x00ff0000 :: u32) = push_bit 16 (mask 8)"
    "(0x0000ff00 :: u32) = push_bit 8 (mask 8)" "(0x000000ff :: u32) = mask 8"
    by (simp_all add: mask_eq_decr_exp push_bit_eq_mult)
  have e: "store_le 4 v = [byte_of v 0, byte_of v 1, byte_of v 2, byte_of v 3]" for v :: u32
    by (simp add: store_le_def upt_rec eval_nat_numeral)
  have hi: "bit w b \<Longrightarrow> b < 32" for b using bit_imp_le_length [of w b] by simp
  have b: "byte_of (swap_word w) 0 = byte_of w 3" "byte_of (swap_word w) 1 = byte_of w 2"
    "byte_of (swap_word w) 2 = byte_of w 1" "byte_of (swap_word w) 3 = byte_of w 0"
    unfolding swap_word_def m by (rule bit_word_eqI, auto simp: bytes_simps bit_simps dest!: hi)+
  show ?thesis unfolding e b by simp
qed

lemma length_fips_sha1 [simp]: "length (fips_sha1 m) = 20"
proof -
  have "length (absorb bs H) = 5" if "length H = 5" for bs H
    using that
  proof (induction bs H rule: absorb.induct)
    case (1 bs H)
    then show ?case by (subst absorb.simps) (simp add: compress_def split: prod.split)
  qed
  then have "length (absorb (fips_pad m) H0) = 5" by (simp add: H0_def)
  then have "length (concat (map (\<lambda>w. rev (store_le 4 w)) (absorb (fips_pad m) H0))) = 20"
    by (simp add: length_concat o_def sum_list_triv)
  then show ?thesis by (simp add: fips_sha1_def)
qed

lemma sha1_result_fips:
  assumes "absorbed m s" and "byteCount s = of_nat (length m)" and "length m < 2 ^ 32"
  obtains s' where "sha1_result s = Some (fips_sha1 m, s')" and "length (buffer s') = 16" and "keyBuffer s' = keyBuffer s"
proof -
  obtain s' where s': "sha1_pad s = Some s'" "absorbed (fips_pad m) s'" "keyBuffer s' = keyBuffer s"
    using sha1_pad_fips [OF assms] .
  have "concat (map (store_le 4) (map swap_word (state s'))) = fips_sha1 m"
    using s'(2) by (simp add: fips_sha1_def absorbed_def swap_word_rev o_def)
  then show ?thesis using that [of "s'\<lparr>state := map swap_word (state s')\<rparr>"] s'
    by (simp add: sha1_result_def Let_def absorbed_def)
qed

lemma digest_from_init:
  assumes "length (buffer s) = 16" and "length m < 2 ^ 32"
  obtains s' where "sha1_result (fold sha1_writebyte m (sha1_init s)) = Some (fips_sha1 m, s')"
    and "length (buffer s') = 16" and "keyBuffer s' = keyBuffer s"
proof -
  have i: "absorbed [] (sha1_init s)" using absorbed_init [OF assms(1)] .
  have "byteCount (sha1_init s) = 0" "keyBuffer (sha1_init s) = keyBuffer s" by (simp_all add: sha1_init_def)
  then show ?thesis
    using sha1_result_fips [of m "fold sha1_writebyte m (sha1_init s)"] absorbed_write [OF i, of m] assms(2) that by auto
qed

text \<open>
  C33: the streaming code of afl-performance.c computes FIPS 180 SHA-1. For every message shorter
  than 2^32 bytes and whatever the context held before, \<open>sha1\<close> returns (its padding loop ends)
  and the 20 bytes it returns are the SHA-1 digest as the standard defines it.
\<close>

theorem sha1_is_fips180:
  assumes "length (buffer junk) = 16" and "length data < 2 ^ 32"
  shows "sha1 junk data = Some (fips_sha1 data)"
  using digest_from_init [OF assms] by (metis fst_conv map_option_eq_Some sha1_def sha1_write_def)

definition blank :: sha1nfo where
  "blank = \<lparr>buffer = replicate 16 0, state = [], byteCount = 0, bufferOffset = 0, keyBuffer = [], innerHash = []\<rparr>"

theorem sha1_is_fips180_witness: "sha1 blank [97, 98, 99] = Some (fips_sha1 [97, 98, 99])"
  using sha1_is_fips180 [of blank "[97, 98, 99]"] by (simp add: blank_def)

section \<open>HMAC\<close>

text \<open>RFC 2104 over the hash above: keys longer than a block are hashed first, then padded to 64 bytes.\<close>

definition hmac_key :: "bytes \<Rightarrow> bytes" where
  "hmac_key key = (let k = if 64 < length key then fips_sha1 key else key in k @ replicate (64 - length k) 0)"

definition rfc2104 :: "bytes \<Rightarrow> bytes \<Rightarrow> bytes" where
  "rfc2104 key m =
     fips_sha1 (map (\<lambda>x. x XOR 0x5c) (hmac_key key) @ fips_sha1 (map (\<lambda>x. x XOR 0x36) (hmac_key key) @ m))"

lemma length_hmac_key [simp]: "length (hmac_key key) = 64"
  by (simp add: hmac_key_def Let_def)

lemma sha1_initHmac_key:
  assumes "length (buffer s) = 16" and "length key < 2 ^ 32"
  obtains s' where "sha1_initHmac key s = Some s'" and "absorbed (map (\<lambda>x. x XOR 0x36) (hmac_key key)) s'"
    and "byteCount s' = 64" and "keyBuffer s' = hmac_key key"
proof -
  have k: "\<exists>t. sha1_initHmac key s = Some (fold sha1_writebyte (map (\<lambda>x. x XOR 0x36) (keyBuffer t)) (sha1_init t)) \<and>
      keyBuffer t = hmac_key key \<and> length (buffer t) = 16"
  proof (cases "64 < length key")
    case True
    obtain t where "sha1_result (fold sha1_writebyte key (sha1_init (s\<lparr>keyBuffer := replicate 64 0\<rparr>))) = Some (fips_sha1 key, t)"
      "length (buffer t) = 16" "keyBuffer t = replicate 64 0"
      using digest_from_init [of "s\<lparr>keyBuffer := replicate 64 0\<rparr>" key] assms by auto
    then show ?thesis using True
      by (intro exI [of _ "t\<lparr>keyBuffer := fips_sha1 key @ drop 20 (keyBuffer t)\<rparr>"])
        (simp add: sha1_initHmac_def Let_def hmac_key_def)
  next
    case False
    then show ?thesis using assms
      by (intro exI [of _ "s\<lparr>keyBuffer := key @ drop (length key) (replicate 64 0)\<rparr>"])
        (simp add: sha1_initHmac_def Let_def hmac_key_def)
  qed
  then obtain t where t: "sha1_initHmac key s = Some (fold sha1_writebyte (map (\<lambda>x. x XOR 0x36) (keyBuffer t)) (sha1_init t))"
    "keyBuffer t = hmac_key key" "length (buffer t) = 16" by blast
  have i: "absorbed [] (sha1_init t)" using absorbed_init [OF t(3)] .
  have "byteCount (sha1_init t) = 0" "keyBuffer (sha1_init t) = keyBuffer t" by (simp_all add: sha1_init_def)
  then show ?thesis using absorbed_write [OF i, of "map (\<lambda>x. x XOR 0x36) (keyBuffer t)"] t that by auto
qed

text \<open>
  The keyed interface (\<open>sha1_initHmac\<close>, \<open>sha1_write\<close>, \<open>sha1_resultHmac\<close>) computes HMAC as
  RFC 2104 specifies it, for every key, the ones longer than a block included.
\<close>

theorem sha1_hmac_is_rfc2104:
  assumes "length (buffer s) = 16" and "length key < 2 ^ 32" and "length m + 64 < 2 ^ 32"
  shows "map_option fst (Option.bind (map_option (sha1_write m) (sha1_initHmac key s)) sha1_resultHmac) = Some (rfc2104 key m)"
proof -
  let ?i = "map (\<lambda>x. x XOR 0x36) (hmac_key key)"
  let ?o = "map (\<lambda>x. x XOR 0x5c) (hmac_key key)"
  obtain t where t: "sha1_initHmac key s = Some t" "absorbed ?i t" "byteCount t = 64" "keyBuffer t = hmac_key key"
    using sha1_initHmac_key [OF assms(1, 2)] .
  obtain u where u: "sha1_result (sha1_write m t) = Some (fips_sha1 (?i @ m), u)" "length (buffer u) = 16" "keyBuffer u = hmac_key key"
    using sha1_result_fips [of "?i @ m" "sha1_write m t"] absorbed_write [OF t(2), of m] assms(3) t(3, 4)
    by (auto simp: sha1_write_def)
  let ?h = "fips_sha1 (?i @ m)"
  let ?u = "u\<lparr>innerHash := ?h\<rparr>"
  obtain v where v: "sha1_result (fold sha1_writebyte (?o @ ?h) (sha1_init ?u)) = Some (fips_sha1 (?o @ ?h), v)"
    using digest_from_init [of ?u "?o @ ?h"] u by auto
  have i: "absorbed [] (sha1_init ?u)" using absorbed_init [of ?u] u(2) by simp
  have "innerHash (fold sha1_writebyte ?o (sha1_init ?u)) = ?h" "keyBuffer (sha1_init ?u) = hmac_key key"
    using absorbed_write(4) [OF i, of ?o] u(3) by (simp_all add: sha1_init_def)
  then have "sha1_resultHmac (sha1_write m t) = Some (rfc2104 key m, v)"
    using u(1) v by (simp add: sha1_resultHmac_def Let_def rfc2104_def)
  then show ?thesis by (simp add: t(1))
qed

theorem sha1_hmac_is_rfc2104_witness:
  "map_option fst (Option.bind (map_option (sha1_write [1, 2]) (sha1_initHmac (replicate 65 7) blank)) sha1_resultHmac) =
     Some (rfc2104 (replicate 65 7) [1, 2])"
  using sha1_hmac_is_rfc2104 [of blank "replicate 65 7" "[1, 2]"] by (simp add: blank_def)

section \<open>Hexadecimal\<close>

definition hex_value :: "char \<Rightarrow> nat" where
  "hex_value c = (let n = of_char c in if n \<le> 57 then n - 48 else n - 87)"

fun unhex :: "string \<Rightarrow> bytes" where
  "unhex (h # l # cs) = of_nat (16 * hex_value h + hex_value l) # unhex cs"
| "unhex _ = []"

lemma hex_value_digit: "n < 16 \<Longrightarrow> hex_value (hex_digit n) = n"
proof -
  have "list_all (\<lambda>n. hex_value (hex_digit n) = n) [0..<16]" by code_simp
  then show "n < 16 \<Longrightarrow> hex_value (hex_digit n) = n" by (simp add: list_all_iff)
qed

lemma unhex_concat: "unhex (concat (map (\<lambda>x. [hex_digit (unat x div 16), hex_digit (unat x mod 16)]) d)) = d"
proof (induction d)
  case (Cons x d)
  have "unat x < 256" using unsigned_less [of x] by simp
  then have "16 * hex_value (hex_digit (unat x div 16)) + hex_value (hex_digit (unat x mod 16)) = unat x"
    by (simp add: hex_value_digit)
  then show ?case using Cons by simp
qed simp

text \<open>
  \<open>sha1_hex\<close> prints the digest reversibly: it returns a string that reads back, two
  hexadecimal digits a byte, as the SHA-1 digest of the data.
\<close>

theorem sha1_hex_roundtrip:
  assumes "length (buffer junk) = 16" and "length data < 2 ^ 32"
  shows "map_option unhex (sha1_hex junk data) = Some (fips_sha1 data)"
proof -
  obtain s' where "sha1_result (fold sha1_writebyte data (sha1_init junk)) = Some (fips_sha1 data, s')"
    using digest_from_init [OF assms] .
  then have "sha1 junk data = Some (fips_sha1 data)" by (simp add: sha1_def sha1_write_def)
  then show ?thesis by (simp add: sha1_hex_def unhex_concat)
qed

theorem sha1_hex_roundtrip_witness: "map_option unhex (sha1_hex blank []) = Some (fips_sha1 [])"
  using sha1_hex_roundtrip [of blank "[]"] by (simp add: blank_def)

end
