(* ===== verification/Execution.thy ===== *)
theory Execution
  imports Text Energy Bitmap Sha1
begin

text \<open>
  Handing a test case to the target: \<open>write_to_testcase\<close> and \<open>write_with_gap\<close> of src/afl-fuzz-run.c,
  \<open>afl_fsrv_write_to_testcase\<close> of src/afl-forkserver.c and the \<open>ck_write\<close> macro of include/debug.h.
  Everything outside the program is collected in one record of parameters: the target, signals,
  the clock, the hash function XXH3, the results of system calls and the callbacks of custom
  mutators.
\<close>

section \<open>The outside world\<close>

text \<open>
  \<open>o_signal\<close> gives the value of \<open>stop_soon\<close> that is seen after a run. \<open>o_post\<close> are the post-processing
  callbacks: \<open>None\<close> is a null buffer together with a size of at most zero. \<open>o_write\<close> are the results of the
  successive \<open>write\<close> calls when a buffer of the given length is written to a file. \<open>o_create\<close> says whether a file can be
  created; when it cannot, \<open>o_exists\<close> says whether that is because it exists. \<open>o_chown\<close> is \<open>None\<close> when the
  group of new files need not be changed, and otherwise says whether changing it succeeds. \<open>o_stdio\<close> is \<open>None\<close>
  when \<open>fdopen\<close> fails for a file, and otherwise how many bytes \<open>fprintf\<close> and \<open>fclose\<close> get onto the disk. \<open>o_san\<close> are
  the binaries instrumented with sanitizers, \<open>o_describe\<close> is the naming callback of the custom mutator
  that is active, and \<open>o_stack\<close> is what an uninitialised \<open>sha1nfo\<close> on the stack contains.
\<close>

record outside =
  o_run :: target_run
  o_san :: "nat \<Rightarrow> target_run"
  o_signal :: "afl_state \<Rightarrow> u8"
  o_time :: "afl_state \<Rightarrow> u64"
  o_time_us :: "afl_state \<Rightarrow> u64"
  o_hash64 :: "bytes \<Rightarrow> u64"
  o_log1p :: "dbl \<Rightarrow> dbl"
  o_post :: "(bytes \<Rightarrow> bytes option) list"
  o_write :: "string \<Rightarrow> nat \<Rightarrow> int list"
  o_create :: "string \<Rightarrow> bool"
  o_exists :: "string \<Rightarrow> bool"
  o_chown :: "bool option"
  o_stdio :: "string \<Rightarrow> nat option"
  o_new_entry :: "(string \<Rightarrow> string \<Rightarrow> bool) list"
  o_stat :: "string \<Rightarrow> u64 option"
  o_read :: "string \<Rightarrow> nat \<Rightarrow> bytes option"
  o_describe :: "(int \<Rightarrow> string option) option"
  o_stack :: sha1nfo

definition exec_target :: "outside \<Rightarrow> u32 \<Rightarrow> afl_state \<Rightarrow> u8 \<times> afl_state" where
  "exec_target w timeout a =
     (let (fault, a) = fuzz_run_target (o_run w) a timeout in (fault, a\<lparr>stop_soon := o_signal w a\<rparr>))"

text \<open>The results of a run (\<open>fsrv_run_result_t\<close>).\<close>

definition FSRV_RUN_OK :: u8 where
  "FSRV_RUN_OK = 0"

definition FSRV_RUN_TMOUT :: u8 where
  "FSRV_RUN_TMOUT = 1"

definition FSRV_RUN_CRASH :: u8 where
  "FSRV_RUN_CRASH = 2"

definition FSRV_RUN_ERROR :: u8 where
  "FSRV_RUN_ERROR = 3"

definition FSRV_RUN_NOINST :: u8 where
  "FSRV_RUN_NOINST = 4"

definition FSRV_RUN_NOBITS :: u8 where
  "FSRV_RUN_NOBITS = 5"

lemmas fsrv_results = FSRV_RUN_OK_def FSRV_RUN_TMOUT_def FSRV_RUN_CRASH_def FSRV_RUN_ERROR_def FSRV_RUN_NOINST_def FSRV_RUN_NOBITS_def

section \<open>Writing a buffer to a file\<close>

text \<open>
  The loop of \<open>ck_write\<close>: \<open>rs\<close> are the results of the calls of \<open>write\<close> still to come, \<open>off\<close> is the number
  of bytes written so far (\<open>_off\<close>, which equals \<open>_written\<close>) and \<open>len\<close> the number still to write
  (\<open>_len\<close>). The value is the contents of the file; \<open>None\<close> if the list of results is too short.
\<close>

fun ck_write_loop :: "int list \<Rightarrow> nat \<Rightarrow> nat \<Rightarrow> bytes \<Rightarrow> bytes option" where
  "ck_write_loop [] off len buf = None"
| "ck_write_loop (r # rs) off len buf =
     (if r \<noteq> int len \<and> 0 < r \<and> int off + r \<noteq> int len
      then map_option (\<lambda>rest. take (nat r) (drop off buf) @ rest) (ck_write_loop rs (off + nat r) (len - nat r) buf)
      else Some (take (nat r) (drop off buf)))"

definition ck_write :: "int list \<Rightarrow> bytes \<Rightarrow> bytes option" where
  "ck_write rs buf = (if buf = [] then Some [] else ck_write_loop rs 0 (length buf) buf)"

text \<open>
  \<open>shmem_fuzz\<close> is what the target will read: the shared memory, or the input file, which is taken to be
  created and written in full. The nyx mode and the recording of test cases for replay are left out.
\<close>

definition afl_fsrv_write_to_testcase :: "bytes \<Rightarrow> afl_forkserver \<Rightarrow> afl_forkserver" where
  "afl_fsrv_write_to_testcase buf f =
     f\<lparr>shmem_fuzz := if use_shmem_fuzz f then take (unat MAX_FILE) buf else buf\<rparr>"

section \<open>Handing over a test case\<close>

text \<open>
  The loop over the post-processing callbacks: the current buffer, the current size, and whether the
  buffer is still the original one.
\<close>

fun post_process :: "(bytes \<Rightarrow> bytes option) list \<Rightarrow> bytes \<times> nat \<times> bool \<Rightarrow> bytes \<times> nat \<times> bool" where
  "post_process [] s = s"
| "post_process (h # hs) (mem, sz, orig) =
     (case h (take sz mem) of
        None \<Rightarrow> post_process hs (mem, 0, orig)
      | Some buf \<Rightarrow> if buf = [] then post_process hs (mem, 0, orig) else post_process hs (buf, length buf, False))"

definition fit_length :: "bool \<Rightarrow> nat \<Rightarrow> afl_state \<Rightarrow> nat" where
  "fit_length fix_len n a =
     (if n < unat (min_length a) \<and> \<not> fix_len then unat (min_length a)
      else if unat (max_length a) < n then unat (max_length a) else n)"

text \<open>
  The result is the buffer \<open>*mem\<close> points to afterwards, the length returned and the state. Custom
  mutators that send the test case themselves (\<open>afl_custom_fuzz_send\<close>) are left out.
\<close>

definition write_to_testcase :: "outside \<Rightarrow> bytes \<Rightarrow> u32 \<Rightarrow> bool \<Rightarrow> afl_state \<Rightarrow> (bytes \<times> u32 \<times> afl_state) res" where
  "write_to_testcase w mem len fix_len a =
     (if custom_mutators_count a \<noteq> 0
      then let (new_mem, sz, orig) = post_process (o_post w) (mem, unat len, True)
           in if sz = 0 \<and> \<not> fix_len then Inr (mem, 0, a)
              else let sz = fit_length fix_len (if sz = 0 then unat len else sz) a;
                       copied = (\<not> orig \<and> 0 < sz)
                   in if length (if copied then new_mem else mem) < sz then Inl (UB ''read past the test case'')
                      else let out = (if copied then take sz new_mem else mem);
                               a = a\<lparr>fsrv := afl_fsrv_write_to_testcase (take sz out) (fsrv a)\<rparr>
                           in if afl_post_process_keep_original (afl_env a) then Inr (mem, len, a)
                              else Inr (out, of_nat sz, a)
      else let n = fit_length fix_len (unat len) a
           in if length mem < n then Inl (UB ''read past the test case'')
              else Inr (mem, of_nat n, a\<lparr>fsrv := afl_fsrv_write_to_testcase (take n mem) (fsrv a)\<rparr>))"

text \<open>
  The same loop in \<open>write_with_gap\<close>, on the bytes of the current buffer that count: only a null buffer together with a
  size of at most zero is an error, and an empty buffer replaces the current one.
\<close>

fun post_process_gap :: "(bytes \<Rightarrow> bytes option) list \<Rightarrow> bytes \<Rightarrow> bytes" where
  "post_process_gap [] buf = buf"
| "post_process_gap (h # hs) buf = (case h buf of None \<Rightarrow> post_process_gap hs [] | Some new_buf \<Rightarrow> post_process_gap hs new_buf)"

definition write_with_gap :: "outside \<Rightarrow> bytes \<Rightarrow> u32 \<Rightarrow> u32 \<Rightarrow> u32 \<Rightarrow> afl_state \<Rightarrow> afl_state" where
  "write_with_gap w mem len skip_at skip_len a =
     (let tail_len = len - skip_at - skip_len;
          mem_trimmed = take (unat skip_at) mem @ take (unat tail_len) (drop (unat skip_at + unat skip_len) mem);
          out = (if custom_mutators_count a \<noteq> 0
                 then post_process_gap (o_post w) mem_trimmed
                 else mem_trimmed)
      in a\<lparr>fsrv := (fsrv a)\<lparr>shmem_fuzz := out\<rparr>\<rparr>)"

section \<open>What reaches the target\<close>

lemma ck_write_full: "rs \<noteq> [] \<Longrightarrow> hd rs = int (length buf) \<Longrightarrow> ck_write rs buf = Some buf"
  by (cases rs) (simp_all add: ck_write_def)

text \<open>
  \<open>ck_write\<close> writes the whole buffer when the first \<open>write\<close> does. But it notices neither a failing
  \<open>write\<close> nor, after a first short one, a second that ends where the number of bytes written equals
  the number that was left: the file is cut short and no error is reported.
\<close>

theorem ck_write_truncates:
  "ck_write [int (length buf)] buf = Some buf \<and>
   (0 < n \<and> n < length buf \<and> 2 * n < length buf \<longrightarrow>
      ck_write [int n, int (length buf - 2 * n)] buf = Some (take (length buf - n) buf)) \<and>
   (0 < length buf \<longrightarrow> ck_write [- 1] buf = Some [])"
proof (intro conjI impI)
  show "ck_write [int (length buf)] buf = Some buf" by (rule ck_write_full) simp_all
  show "ck_write [int n, int (length buf - 2 * n)] buf = Some (take (length buf - n) buf)"
    if n: "0 < n \<and> n < length buf \<and> 2 * n < length buf"
  proof -
    have "length buf - n = n + (length buf - 2 * n)" using n by simp
    then have "take (length buf - n) buf = take n buf @ take (length buf - 2 * n) (drop n buf)" by (simp only: take_add)
    moreover have "nat (int (length buf) - 2 * int n) = length buf - 2 * n" using n by linarith
    ultimately show ?thesis using n by (auto simp: ck_write_def)
  qed
qed (simp add: ck_write_def)

theorem ck_write_truncates_witness:
  "ck_write [3, 4] [1, 2, 3, 4, 5, 6, 7, 8, 9, 10] = Some [1, 2, 3, 4, 5, 6, 7]"
  using ck_write_truncates [of "[1, 2, 3, 4, 5, 6, 7, 8, 9, 10]" 3] by simp

section \<open>What a run changes\<close>

definition energy_core :: "queue_entry \<Rightarrow> queue_entry" where
  "energy_core q = q\<lparr>q_cpu_energy_cost := 0, q_mem_energy_cost := 0\<rparr>"

definition run_core :: "afl_state \<Rightarrow> afl_state" where
  "run_core a = a\<lparr>fsrv := fsrv_zero, cpu_energy_map := None, mem_energy_map := None, stop_soon := 0, queue_buf := []\<rparr>"

definition run_frame :: "afl_state \<Rightarrow> afl_state \<Rightarrow> bool" where
  "run_frame a b \<longleftrightarrow> run_core b = run_core a \<and> map energy_core (queue_buf b) = map energy_core (queue_buf a)"

lemma run_frame_refl [simp]: "run_frame a a"
  by (simp add: run_frame_def)

lemma run_frame_trans: "run_frame a b \<Longrightarrow> run_frame b c \<Longrightarrow> run_frame a c"
  by (simp add: run_frame_def)

lemma run_frame_upd [simp]:
  "run_frame a (a\<lparr>fsrv := f\<rparr>)" "run_frame a (a\<lparr>cpu_energy_map := c\<rparr>)" "run_frame a (a\<lparr>mem_energy_map := c\<rparr>)"
  "run_frame a (a\<lparr>stop_soon := s\<rparr>)"
  by (simp_all add: run_frame_def run_core_def)

lemma run_frame_set:
  assumes "\<And>q. energy_core (f q) = energy_core q"
  shows "run_frame a (set_entry k f a)"
  using assms by (cases "k < length (queue_buf a)")
    (simp_all add: run_frame_def run_core_def set_entry_def map_update list_update_same_conv list_update_beyond)

lemma run_frame_hook: "run_frame a (energy_hook a)"
proof -
  have e: "run_frame b (set_entry k (q_cpu_energy_cost_update f) b)" "run_frame b (set_entry k (q_mem_energy_cost_update f) b)" for b k f
    by (rule run_frame_set, simp add: energy_core_def)+
  have "run_frame b (cpu_hook b)" "run_frame b (mem_hook b)" for b
    unfolding cpu_hook_def mem_hook_def Let_def
    by (auto split: option.splits intro: run_frame_trans [OF e(1) run_frame_upd(2)] run_frame_trans [OF e(2) run_frame_upd(3)])
  then show ?thesis unfolding energy_hook_def using run_frame_trans by blast
qed

lemma exec_target_frame:
  assumes "exec_target w t a = (fault, b)"
  shows "run_frame a b" "fault = fst (o_run w (fsrv a) t)" "fsrv b = fst (snd (o_run w (fsrv a) t))" "\<exists>c. stop_soon b = o_signal w c"
proof -
  obtain r f c m where run: "o_run w (fsrv a) t = (r, f, c, m)" by (cases "o_run w (fsrv a) t") auto
  let ?d = "a\<lparr>fsrv := f, cpu_energy_map := store_reading (cpu_energy_map a) c, mem_energy_map := store_reading (mem_energy_map a) m\<rparr>"
  have e: "b = (energy_hook ?d)\<lparr>stop_soon := o_signal w (energy_hook ?d)\<rparr>" "fault = r"
    using assms by (simp_all add: exec_target_def fuzz_run_target_def run Let_def)
  have "run_frame a ?d" using run_frame_trans [OF run_frame_trans [OF run_frame_upd(1) run_frame_upd(2)] run_frame_upd(3)] by simp
  then show "run_frame a b" unfolding e using run_frame_trans [OF run_frame_trans [OF _ run_frame_hook] run_frame_upd(4)] by blast
  show "fault = fst (o_run w (fsrv a) t)" using e run by simp
  have "fsrv (energy_hook ?d) = fsrv ?d" by (simp add: energy_hook_def afl_frame)
  then show "fsrv b = fst (snd (o_run w (fsrv a) t))" using e run by simp
  show "\<exists>c. stop_soon b = o_signal w c" using e by auto
qed

lemma energy_core_fields:
  assumes "energy_core p = energy_core q"
  shows "q_len p = q_len q" "q_exec_cksum p = q_exec_cksum q" "q_fname p = q_fname q" "q_testcase_buf p = q_testcase_buf q"
  using assms by (cases p; cases q; simp add: energy_core_def)+

lemma run_frameD:
  assumes "run_frame a b"
  shows "length (queue_buf b) = length (queue_buf a)"
    "k < length (queue_buf a) \<Longrightarrow> energy_core (queue_buf b ! k) = energy_core (queue_buf a ! k)"
    "custom_mutators_count b = custom_mutators_count a" "no_unlink b = no_unlink a" "disk b = disk a" "clean_trace b = clean_trace a"
proof -
  have c: "run_core b = run_core a" and m: "map energy_core (queue_buf b) = map energy_core (queue_buf a)"
    using assms by (simp_all add: run_frame_def)
  show len: "length (queue_buf b) = length (queue_buf a)" using arg_cong [OF m, of length] by simp
  show "energy_core (queue_buf b ! k) = energy_core (queue_buf a ! k)" if "k < length (queue_buf a)"
    using arg_cong [OF m, of "\<lambda>l. l ! k"] that len by simp
  show "custom_mutators_count b = custom_mutators_count a" "no_unlink b = no_unlink a" "disk b = disk a" "clean_trace b = clean_trace a"
    using arg_cong [OF c, of custom_mutators_count] arg_cong [OF c, of no_unlink] arg_cong [OF c, of disk] arg_cong [OF c, of clean_trace]
    by (simp_all add: run_core_def)
qed

section \<open>Targets that replay\<close>

text \<open>
  A target that replays: its trace depends on the test case only, it can always be executed, and no
  signal arrives. \<open>path_hash\<close> is the checksum the fuzzer computes for a test case.
\<close>

definition replays :: "outside \<Rightarrow> (bytes \<Rightarrow> bytes) \<Rightarrow> bool" where
  "replays w T \<longleftrightarrow> (\<forall>f t. fst (o_run w f t) \<noteq> FSRV_RUN_ERROR \<and> trace_bits (fst (snd (o_run w f t))) = T (shmem_fuzz f) \<and>
     map_size (fst (snd (o_run w f t))) = map_size f) \<and> (\<forall>a. o_signal w a = 0)"

definition classified :: "u32 \<Rightarrow> bytes \<Rightarrow> bytes" where
  "classified n tr = trace_bits (classify_counts (fsrv_zero\<lparr>map_size := n, trace_bits := tr\<rparr>))"

lemma classified_eq: "trace_bits (classify_counts f) = classified (map_size f) (trace_bits f)" "map_size (classify_counts f) = map_size f"
  by (simp_all add: classified_def classify_counts_def)

definition path_hash :: "outside \<Rightarrow> (bytes \<Rightarrow> bytes) \<Rightarrow> u32 \<Rightarrow> bytes \<Rightarrow> u64" where
  "path_hash w T n test = o_hash64 w (take (unat n) (classified n (T test)))"

end
