(* ===== verification/Trim.thy ===== *)
theory Trim
  imports Execution Cache "HOL-Library.Sublist"
begin

text \<open>
  Trimming of test cases: \<open>trim_case\<close> of src/afl-fuzz-run.c with its two loops, the write-back of
  the trimmed test case and the update of cache and slots. The trimming callbacks of custom
  mutators (\<open>trim_case_custom\<close>) are a parameter; timing statistics and the display are left out.
\<close>

section \<open>The loops\<close>

definition TRIM_MIN_BYTES :: u32 where
  "TRIM_MIN_BYTES = 4"

definition TRIM_START_STEPS :: u32 where
  "TRIM_START_STEPS = 16"

definition TRIM_END_STEPS :: u32 where
  "TRIM_END_STEPS = 1024"

definition len_pow2 :: "u32 \<Rightarrow> u32" where
  "len_pow2 len = ucast (next_pow2 (ucast len))"

text \<open>
  The locals of the loops: \<open>in_buf\<close>, \<open>remove_pos\<close>, \<open>len_p2\<close>, \<open>needs_write\<close> and \<open>fault\<close>. When the buffer
  is the cached one (\<open>aliased\<close>), moving its tail changes the cache entry too.
\<close>

record trim =
  t_buf :: bytes
  t_pos :: u32
  t_p2 :: u32
  t_needs :: bool
  t_fault :: u8
  t_afl :: afl_state

definition memmove_down :: "nat \<Rightarrow> nat \<Rightarrow> nat \<Rightarrow> bytes \<Rightarrow> bytes" where
  "memmove_down dst src n buf = take dst buf @ take n (drop src buf) @ drop (dst + n) buf"

definition trim_accept :: "bool \<Rightarrow> nat \<Rightarrow> u32 \<Rightarrow> trim \<Rightarrow> trim" where
  "trim_accept aliased k avail s =
     (let a = t_afl s; len = q_len (queue_buf a ! k); pos = t_pos s;
          move_tail = len - pos - avail;
          a = set_entry k (q_len_update (\<lambda>_. len - avail)) a;
          buf = memmove_down (unat pos) (unat pos + unat avail) (unat move_tail) (t_buf s);
          a = (if aliased then set_entry k (q_testcase_buf_update (\<lambda>_. Some buf)) a else a);
          a = (if \<not> t_needs s
               then a\<lparr>clean_trace := overwrite (take (unat (map_size (fsrv a))) (trace_bits (fsrv a))) (clean_trace a)\<rparr>
               else a)
      in s\<lparr>t_buf := buf, t_p2 := len_pow2 (len - avail), t_needs := True, t_afl := a\<rparr>)"

definition trim_step :: "outside \<Rightarrow> bool \<Rightarrow> nat \<Rightarrow> u32 \<Rightarrow> trim \<Rightarrow> bool \<times> trim" where
  "trim_step w aliased k remove_len s =
     (let len = q_len (queue_buf (t_afl s) ! k);
          avail = (if remove_len < len - t_pos s then remove_len else len - t_pos s);
          (fault, a) = exec_target w (exec_tmout (fsrv (t_afl s))) (write_with_gap w (t_buf s) len (t_pos s) avail (t_afl s));
          s = s\<lparr>t_fault := fault, t_afl := a\<rparr>
      in if stop_soon a \<noteq> 0 \<or> fault = FSRV_RUN_ERROR then (True, s)
         else let a = a\<lparr>trim_execs := trim_execs a + 1, fsrv := classify_counts (fsrv a)\<rparr>;
                  cksum = o_hash64 w (take (unat (map_size (fsrv a))) (trace_bits (fsrv a)));
                  s = s\<lparr>t_afl := a\<rparr>;
                  s = (if cksum = q_exec_cksum (queue_buf a ! k) then trim_accept aliased k avail s
                       else s\<lparr>t_pos := t_pos s + remove_len\<rparr>)
              in (False, s\<lparr>t_afl := (t_afl s)\<lparr>stage_cur := stage_cur (t_afl s) + 1\<rparr>\<rparr>))"

text \<open>The inner loop over positions and the outer loop over chunk lengths; the flag reports an abort.\<close>

fun trim_inner :: "nat \<Rightarrow> outside \<Rightarrow> bool \<Rightarrow> nat \<Rightarrow> u32 \<Rightarrow> trim \<Rightarrow> (bool \<times> trim) option" where
  "trim_inner 0 w aliased k remove_len s =
     (if t_pos s < q_len (queue_buf (t_afl s) ! k) then None else Some (False, s))"
| "trim_inner (Suc n) w aliased k remove_len s =
     (if t_pos s < q_len (queue_buf (t_afl s) ! k)
      then let (abort, s) = trim_step w aliased k remove_len s
           in if abort then Some (True, s) else trim_inner n w aliased k remove_len s
      else Some (False, s))"

definition trim_more :: "u32 \<Rightarrow> trim \<Rightarrow> bool" where
  "trim_more remove_len s \<longleftrightarrow> max (t_p2 s div TRIM_END_STEPS) TRIM_MIN_BYTES \<le> remove_len"

definition trim_pass :: "nat \<Rightarrow> outside \<Rightarrow> bool \<Rightarrow> nat \<Rightarrow> u32 \<Rightarrow> trim \<Rightarrow> (bool \<times> trim) option" where
  "trim_pass fuel w aliased k remove_len s =
     (let a = (t_afl s)\<lparr>stage_cur := 0, stage_max := q_len (queue_buf (t_afl s) ! k) div remove_len\<rparr>
      in trim_inner fuel w aliased k remove_len (s\<lparr>t_pos := remove_len, t_afl := a\<rparr>))"

fun trim_outer :: "nat \<Rightarrow> nat \<Rightarrow> outside \<Rightarrow> bool \<Rightarrow> nat \<Rightarrow> u32 \<Rightarrow> trim \<Rightarrow> (bool \<times> trim) option" where
  "trim_outer 0 fuel w aliased k remove_len s = (if trim_more remove_len s then None else Some (False, s))"
| "trim_outer (Suc n) fuel w aliased k remove_len s =
     (if trim_more remove_len s
      then case trim_pass fuel w aliased k remove_len s of
             None \<Rightarrow> None
           | Some (True, s) \<Rightarrow> Some (True, s)
           | Some (False, s) \<Rightarrow> trim_outer n fuel w aliased k (drop_bit 1 remove_len) s
      else Some (False, s))"

section \<open>Writing the result back\<close>

text \<open>
  The loop used with \<open>AFL_NO_UNLINK\<close>: every call of \<open>write\<close> starts at the beginning of the buffer.
\<close>

fun write_again :: "int list \<Rightarrow> nat \<Rightarrow> bytes \<Rightarrow> bytes option" where
  "write_again [] written buf = (if written < length buf then None else Some [])"
| "write_again (r # rs) written buf =
     (if written < length buf
      then map_option ((@) (take (nat r) (take (length buf - written) buf))) (write_again rs (written + nat r) buf)
      else Some [])"

definition trim_file :: "outside \<Rightarrow> string \<Rightarrow> bytes \<Rightarrow> afl_state \<Rightarrow> afl_state option res" where
  "trim_file w fname buf a =
     (if \<not> o_create w fname then Inl (PFATAL ''Unable to create'')
      else case (if no_unlink a then write_again (o_write w fname (length buf)) 0 buf else ck_write (o_write w fname (length buf)) buf) of
             None \<Rightarrow> Inr None
           | Some bs \<Rightarrow> if o_chown w = Some False then Inl (PFATAL ''fchown() failed'')
                        else Inr (Some (a\<lparr>disk := disk a @ [(fname, bs)]\<rparr>)))"

text \<open>Post-processing of the trimmed buffer: the new buffer, whether it is still \<open>in_buf\<close>, and the state.\<close>

definition trim_post :: "outside \<Rightarrow> nat \<Rightarrow> bytes \<Rightarrow> afl_state \<Rightarrow> (bytes \<times> bool \<times> afl_state) res" where
  "trim_post w k buf a =
     (if custom_mutators_count a \<noteq> 0 \<and> \<not> afl_post_process_keep_original (afl_env a)
      then let len = unat (q_len (queue_buf a ! k));
               (m, sz, orig) = post_process (o_post w) (buf, len, True);
               (m, sz, orig) = (if sz = 0 then (buf, len, True) else (m, sz, orig));
               sz = fit_length False sz a;
               a = set_entry k (q_len_update (\<lambda>_. of_nat sz)) a
           in if \<not> orig
              then if length m < sz then Inl (UB ''copy past the post-processed test case'') else Inr (take sz m, False, a)
              else Inr (buf, True, a)
      else Inr (buf, True, a))"

definition trim_write :: "outside \<Rightarrow> bool \<Rightarrow> nat \<Rightarrow> u32 \<Rightarrow> bytes \<Rightarrow> afl_state \<Rightarrow> afl_state option res" where
  "trim_write w aliased k orig_len buf a =
     rbind (trim_post w k buf a) (\<lambda>(buf, orig, a).
       let q = queue_buf a ! k; len = unat (q_len q)
       in if length buf < len then Inl (UB ''read past the test case'')
          else rbind (trim_file w (q_fname q) (take len buf) a) (\<lambda>r. case r of
                 None \<Rightarrow> Inr None
               | Some a \<Rightarrow>
                   rbind (queue_testcase_retake_mem k (aliased \<and> orig) buf (q_len q) orig_len a) (\<lambda>a.
                     let n = unat (map_size (fsrv a));
                         a = a\<lparr>fsrv := (fsrv a)\<lparr>trace_bits := overwrite (take n (clean_trace a)) (trace_bits (fsrv a))\<rparr>\<rparr>
                     in rbind (update_bitmap_score (o_log1p w) k True a) (\<lambda>a. Inr (Some a)))))"

definition trim_end :: "nat \<Rightarrow> u8 \<Rightarrow> afl_state \<Rightarrow> u8 \<times> afl_state" where
  "trim_end k fault a = (fault, a\<lparr>bytes_trim_out := bytes_trim_out a + ucast (q_len (queue_buf a ! k))\<rparr>)"

text \<open>
  \<open>trim_case\<close>: \<open>trim_custom\<close> runs the trimmers of the custom mutators and returns their fault and
  whether there was one; \<open>fs\<close> are the files on disk.
\<close>

definition trim_case ::
  "(afl_state \<Rightarrow> (u8 \<times> bool \<times> afl_state) res) \<Rightarrow> (string \<Rightarrow> bytes option) \<Rightarrow> outside \<Rightarrow> nat \<Rightarrow> bool \<Rightarrow> nat \<Rightarrow> bytes \<Rightarrow> afl_state \<Rightarrow>
     (u8 \<times> afl_state) option res" where
  "trim_case trim_custom fs w fuel aliased k in_buf a =
     (let orig_len = q_len (queue_buf a ! k)
      in rbind (if custom_mutators_count a \<noteq> 0
                then rbind (trim_custom a) (\<lambda>(fault, custom_trimmed, a).
                       rbind (if orig_len \<noteq> q_len (queue_buf a ! k) \<or> custom_trimmed then queue_testcase_retake fs k orig_len a else Inr a)
                         (\<lambda>a. Inr (fault, custom_trimmed, a)))
                else Inr (0, False, a)) (\<lambda>(fault, custom_trimmed, a).
         let len = q_len (queue_buf a ! k)
         in if custom_trimmed then Inr (Some (trim_end k fault a))
            else if len < 5 then Inr (Some (trim_end k 0 a))
            else let a = a\<lparr>bytes_trim_in := bytes_trim_in a + ucast len\<rparr>; p2 = len_pow2 len
                 in case trim_outer fuel fuel w aliased k (max (p2 div TRIM_START_STEPS) TRIM_MIN_BYTES)
                           \<lparr>t_buf = in_buf, t_pos = 0, t_p2 = p2, t_needs = False, t_fault = 0, t_afl = a\<rparr> of
                      None \<Rightarrow> Inr None
                    | Some (abort, s) \<Rightarrow>
                        if abort \<or> \<not> t_needs s then Inr (Some (trim_end k (t_fault s) (t_afl s)))
                        else rbind (trim_write w aliased k orig_len (t_buf s) (t_afl s)) (\<lambda>r.
                               Inr (map_option (trim_end k (t_fault s)) r))))"

section \<open>Trimming keeps the path\<close>

definition t_entry :: "nat \<Rightarrow> trim \<Rightarrow> queue_entry" where
  "t_entry k s = queue_buf (t_afl s) ! k"

definition t_content :: "nat \<Rightarrow> trim \<Rightarrow> bytes" where
  "t_content k s = take (unat (q_len (t_entry k s))) (t_buf s)"

definition trim_inv :: "outside \<Rightarrow> bool \<Rightarrow> (bytes \<Rightarrow> bytes) \<Rightarrow> nat \<Rightarrow> afl_state \<Rightarrow> bytes \<Rightarrow> trim \<Rightarrow> bool" where
  "trim_inv w aliased T k a0 orig s \<longleftrightarrow>
     k < length (queue_buf (t_afl s)) \<and> length (queue_buf (t_afl s)) = length (queue_buf a0) \<and>
     unat (q_len (t_entry k s)) \<le> length (t_buf s) \<and> unat (q_len (t_entry k s)) \<le> 2 ^ 30 \<and>
     map_size (fsrv (t_afl s)) = map_size (fsrv a0) \<and>
     q_exec_cksum (t_entry k s) = q_exec_cksum (queue_buf a0 ! k) \<and> q_fname (t_entry k s) = q_fname (queue_buf a0 ! k) \<and>
     custom_mutators_count (t_afl s) = 0 \<and> no_unlink (t_afl s) = no_unlink a0 \<and> disk (t_afl s) = disk a0 \<and>
     path_hash w T (map_size (fsrv a0)) (t_content k s) = q_exec_cksum (queue_buf a0 ! k) \<and>
     (aliased \<or> q_testcase_buf (t_entry k s) = None) \<and>
     subseq (t_content k s) orig \<and> (\<not> t_needs s \<longrightarrow> t_content k s = orig)"

lemma trim_invD:
  assumes "trim_inv w aliased T k a0 orig s"
  shows "k < length (queue_buf (t_afl s))" "unat (q_len (t_entry k s)) \<le> length (t_buf s)" "unat (q_len (t_entry k s)) \<le> 2 ^ 30"
    "q_exec_cksum (t_entry k s) = q_exec_cksum (queue_buf a0 ! k)" "map_size (fsrv (t_afl s)) = map_size (fsrv a0)"
    "custom_mutators_count (t_afl s) = 0"
  using assms by (auto simp: trim_inv_def)

lemma subseq_gap: "subseq (take p c @ drop (p + v) c) c"
proof -
  have "subseq (drop v (drop p c)) (drop p c)" by (intro suffix_imp_subseq suffix_drop)
  then have "subseq (take p c @ drop (p + v) c) (take p c @ drop p c)" by (simp only: subseq_append' drop_drop add.commute)
  then show ?thesis by (simp only: append_take_drop_id)
qed

text \<open>The test case with the gap is what remains in the buffer when the tail is moved down.\<close>

lemma gap_content:
  assumes "unat pos < unat len" "unat avail \<le> unat len - unat pos" "unat len \<le> length buf" "unat len \<le> 2 ^ 30"
  shows "unat (len - pos - avail) = unat len - unat pos - unat avail" "unat (len - avail) = unat len - unat avail"
    "take (unat (len - avail)) (memmove_down (unat pos) (unat pos + unat avail) (unat (len - pos - avail)) buf) =
      take (unat pos) (take (unat len) buf) @ drop (unat pos + unat avail) (take (unat len) buf)"
    "take (unat pos) buf @ take (unat (len - pos - avail)) (drop (unat pos + unat avail) buf) =
      take (unat pos) (take (unat len) buf) @ drop (unat pos + unat avail) (take (unat len) buf)"
    "unat (len - avail) \<le> length (memmove_down (unat pos) (unat pos + unat avail) (unat (len - pos - avail)) buf)"
proof -
  let ?p = "unat pos" and ?l = "unat len" and ?v = "unat avail"
  have "pos \<le> len" "avail \<le> len - pos" using assms(1, 2) by (simp_all add: word_le_nat_alt unat_sub)
  then show m: "unat (len - pos - avail) = ?l - ?p - ?v" by (simp add: unat_sub)
  have "avail \<le> len" using assms(1, 2) by (simp add: word_le_nat_alt)
  then show n: "unat (len - avail) = ?l - ?v" by (simp add: unat_sub)
  have sum: "?p + ?v \<le> ?l" using assms(1, 2) by simp
  then have d: "take (?l - ?p - ?v) (drop (?p + ?v) buf) = drop (?p + ?v) (take ?l buf)" by (simp add: drop_take)
  have t: "take ?p (take ?l buf) = take ?p buf" using assms(1) by (simp add: min_def)
  show "take ?p buf @ take (unat (len - pos - avail)) (drop (?p + ?v) buf) = take ?p (take ?l buf) @ drop (?p + ?v) (take ?l buf)"
    by (simp only: m d t)
  have l: "length (take ?p buf @ take (?l - ?p - ?v) (drop (?p + ?v) buf)) = ?l - ?v" using sum assms(3) by simp
  have e: "memmove_down ?p (?p + ?v) (?l - ?p - ?v) buf = (take ?p buf @ take (?l - ?p - ?v) (drop (?p + ?v) buf)) @ drop (?p + (?l - ?p - ?v)) buf"
    by (simp add: memmove_down_def)
  show "take (unat (len - avail)) (memmove_down ?p (?p + ?v) (unat (len - pos - avail)) buf) =
      take ?p (take ?l buf) @ drop (?p + ?v) (take ?l buf)"
    unfolding m n e by (metis append_eq_conv_conj l d t)
  show "unat (len - avail) \<le> length (memmove_down ?p (?p + ?v) (unat (len - pos - avail)) buf)"
    unfolding m n e using l by (metis length_append le_add1)
qed

lemma overwrite_len: "length bs \<le> length buf \<Longrightarrow> length (overwrite bs buf) = length buf"
  by (simp add: overwrite_def)

text \<open>One execution of the inner loop.\<close>

lemma trim_step_inv:
  assumes inv: "trim_inv w aliased T k a0 orig s" and det: "replays w T" and pos: "t_pos s < q_len (t_entry k s)"
    and rl: "0 < remove_len" "unat remove_len \<le> 2 ^ 28"
  shows "\<exists>s'. trim_step w aliased k remove_len s = (False, s') \<and> trim_inv w aliased T k a0 orig s' \<and>
    unat (q_len (t_entry k s')) - unat (t_pos s') < unat (q_len (t_entry k s)) - unat (t_pos s)"
proof -
  note I = trim_invD [OF inv]
  let ?a = "t_afl s" and ?q = "t_entry k s" and ?len = "q_len (t_entry k s)" and ?p = "t_pos s" and ?n = "map_size (fsrv a0)"
  define avail where "avail = (if remove_len < ?len - ?p then remove_len else ?len - ?p)"
  have p: "unat ?p < unat ?len" using pos by (simp add: word_less_nat_alt)
  have dl: "unat (?len - ?p) = unat ?len - unat ?p" using p by (simp add: unat_sub word_le_nat_alt)
  have av: "unat avail \<le> unat ?len - unat ?p" "0 < unat avail"
    using p rl dl by (auto simp: avail_def word_less_nat_alt)
  note g = gap_content [OF p av(1) I(2, 3)]
  define test where "test = take (unat ?p) (t_content k s) @ drop (unat ?p + unat avail) (t_content k s)"
  define d where "d = write_with_gap w (t_buf s) ?len ?p avail ?a"
  have d: "d = ?a\<lparr>fsrv := (fsrv ?a)\<lparr>shmem_fuzz := test\<rparr>\<rparr>"
    using g(4) I(6) by (simp add: d_def write_with_gap_def Let_def test_def t_content_def)
  obtain fault b where run: "exec_target w (exec_tmout (fsrv ?a)) d = (fault, b)" by (cases "exec_target w (exec_tmout (fsrv ?a)) d")
  note R = exec_target_frame [OF run]
  have fr: "run_frame ?a b" using run_frame_trans [OF _ R(1), of ?a] by (simp add: d)
  note F = run_frameD [OF fr]
  have k: "k < length (queue_buf b)" using F(1) I(1) by simp
  note E = energy_core_fields [OF F(2) [OF I(1)]]
  have fs: "stop_soon b = 0" "fault \<noteq> FSRV_RUN_ERROR" "trace_bits (fsrv b) = T test" "map_size (fsrv b) = ?n"
    using det R(2-4) I(5) unfolding replays_def d by auto
  define c where "c = b\<lparr>trim_execs := trim_execs b + 1, fsrv := classify_counts (fsrv b)\<rparr>"
  have ck: "o_hash64 w (take (unat (map_size (fsrv c))) (trace_bits (fsrv c))) = path_hash w T ?n test"
    by (simp add: c_def classified_eq fs path_hash_def)
  define s1 where "s1 = s\<lparr>t_fault := fault, t_afl := c\<rparr>"
  have ent: "t_entry k s1 = queue_buf b ! k" by (simp add: s1_def t_entry_def c_def)
  have le: "q_len (queue_buf b ! k) = ?len" "q_exec_cksum (queue_buf b ! k) = q_exec_cksum (queue_buf a0 ! k)"
    "q_fname (queue_buf b ! k) = q_fname ?q" "q_testcase_buf (queue_buf b ! k) = q_testcase_buf ?q" using E I(4) by (simp_all add: t_entry_def)
  define s2 where "s2 = (if path_hash w T ?n test = q_exec_cksum (queue_buf a0 ! k) then trim_accept aliased k avail s1
      else s1\<lparr>t_pos := ?p + remove_len\<rparr>)"
  have qb: "queue_buf c = queue_buf b" by (simp add: c_def)
  have step: "trim_step w aliased k remove_len s = (False, s2\<lparr>t_afl := (t_afl s2)\<lparr>stage_cur := stage_cur (t_afl s2) + 1\<rparr>\<rparr>)"
    using run fs ck le(2) unfolding trim_step_def Let_def
    by (simp add: avail_def [unfolded t_entry_def, symmetric] d_def [unfolded t_entry_def, symmetric] c_def [symmetric] s2_def s1_def qb)
  let ?s' = "s2\<lparr>t_afl := (t_afl s2)\<lparr>stage_cur := stage_cur (t_afl s2) + 1\<rparr>\<rparr>"
  have keep: "custom_mutators_count b = 0" "no_unlink b = no_unlink a0" "disk b = disk a0" "length (queue_buf b) = length (queue_buf a0)"
    using F inv by (simp_all add: trim_inv_def)
  have "trim_inv w aliased T k a0 orig ?s' \<and> unat (q_len (t_entry k ?s')) - unat (t_pos ?s') < unat ?len - unat ?p"
  proof (cases "path_hash w T ?n test = q_exec_cksum (queue_buf a0 ! k)")
    case False
    then have s2: "s2 = s1\<lparr>t_pos := ?p + remove_len\<rparr>" by (simp add: s2_def)
    have "t_content k ?s' = t_content k s" by (simp add: s2 s1_def t_content_def t_entry_def qb le)
    moreover have "unat (?p + remove_len) = unat ?p + unat remove_len"
      using p I(3) rl(2) by (intro unat_add_lem [THEN iffD1]) simp
    moreover have "t_entry k ?s' = queue_buf b ! k" by (simp add: s2 s1_def t_entry_def qb)
    moreover have "unat ?len - (unat ?p + unat remove_len) < unat ?len - unat ?p" using p rl(1) by (simp add: word_less_nat_alt)
    ultimately show ?thesis using inv k keep le fs(4) by (simp add: trim_inv_def s2 s1_def c_def classified_eq)
  next
    case True
    then have s2: "s2 = trim_accept aliased k avail s1" by (simp add: s2_def)
    let ?buf = "memmove_down (unat ?p) (unat ?p + unat avail) (unat (?len - ?p - avail)) (t_buf s)"
    have b: "t_buf ?s' = ?buf" "t_needs ?s'" "t_pos ?s' = ?p"
      by (simp_all add: s2 trim_accept_def Let_def s1_def qb le)
    have q: "q_len (t_entry k ?s') = ?len - avail" "q_exec_cksum (t_entry k ?s') = q_exec_cksum (queue_buf a0 ! k)"
      "q_fname (t_entry k ?s') = q_fname ?q" "\<not> aliased \<Longrightarrow> q_testcase_buf (t_entry k ?s') = q_testcase_buf ?q"
      using k le by (simp_all add: s2 trim_accept_def Let_def s1_def t_entry_def qb)
    have r: "length (queue_buf (t_afl ?s')) = length (queue_buf b)" "map_size (fsrv (t_afl ?s')) = ?n"
      "custom_mutators_count (t_afl ?s') = 0" "no_unlink (t_afl ?s') = no_unlink a0" "disk (t_afl ?s') = disk a0"
      using keep fs(4) by (simp_all add: s2 trim_accept_def Let_def s1_def set_entry_def c_def classified_eq)
    have t: "t_content k ?s' = test" unfolding t_content_def q(1) b(1) g(3) test_def by (simp add: t_content_def)
    have "subseq test (t_content k s)" unfolding test_def by (rule subseq_gap)
    then have "subseq test orig" using inv subseq_order.trans unfolding trim_inv_def by blast
    moreover have "unat (?len - avail) \<le> length ?buf" by (rule g(5))
    moreover have "unat (?len - avail) \<le> 2 ^ 30" using g(2) I(3) by simp
    moreover have "unat (?len - avail) - unat ?p < unat ?len - unat ?p" using g(2) av p by simp
    ultimately show ?thesis using inv k keep True b q r t by (cases aliased) (simp_all add: trim_inv_def)
  qed
  then show ?thesis using step by blast
qed

text \<open>The inner loop ends after at most as many executions as there are bytes behind the position.\<close>

lemma trim_inner_inv:
  assumes "trim_inv w aliased T k a0 orig s" and "replays w T" and "0 < remove_len" "unat remove_len \<le> 2 ^ 28"
    and "unat (q_len (t_entry k s)) - unat (t_pos s) \<le> fuel"
  shows "\<exists>s'. trim_inner fuel w aliased k remove_len s = Some (False, s') \<and> trim_inv w aliased T k a0 orig s'"
  using assms
proof (induction fuel arbitrary: s)
  case 0
  then show ?case by (auto simp: word_less_nat_alt t_entry_def)
next
  case (Suc fuel)
  show ?case
  proof (cases "t_pos s < q_len (t_entry k s)")
    case True
    obtain s' where s': "trim_step w aliased k remove_len s = (False, s')" "trim_inv w aliased T k a0 orig s'"
      "unat (q_len (t_entry k s')) - unat (t_pos s') < unat (q_len (t_entry k s)) - unat (t_pos s)"
      using trim_step_inv [OF Suc.prems(1, 2) True Suc.prems(3, 4)] by blast
    then show ?thesis using Suc.IH [OF s'(2) Suc.prems(2-4)] Suc.prems(5) True by (simp add: t_entry_def)
  next
    case False
    then show ?thesis using Suc.prems(1) by (simp add: t_entry_def)
  qed
qed

lemma trim_outer_inv:
  assumes "trim_inv w aliased T k a0 orig s" and "replays w T" and "unat remove_len \<le> 2 ^ 28" and "unat remove_len < 2 ^ n"
    and "length orig \<le> fuel" "unat (q_len (t_entry k s)) \<le> length orig"
  shows "\<exists>s'. trim_outer n fuel w aliased k remove_len s = Some (False, s') \<and> trim_inv w aliased T k a0 orig s'"
  using assms
proof (induction n arbitrary: s remove_len)
  case 0
  then have "remove_len = 0" by (simp add: unat_eq_zero)
  then show ?case using 0 by (auto simp: trim_more_def TRIM_MIN_BYTES_def max_def)
next
  case (Suc n)
  show ?case
  proof (cases "trim_more remove_len s")
    case True
    then have "TRIM_MIN_BYTES \<le> remove_len" by (simp add: trim_more_def)
    then have pos: "0 < remove_len" by (simp add: TRIM_MIN_BYTES_def word_le_nat_alt word_less_nat_alt)
    define s0 where "s0 = s\<lparr>t_pos := remove_len, t_afl := (t_afl s)\<lparr>stage_cur := 0, stage_max := q_len (queue_buf (t_afl s) ! k) div remove_len\<rparr>\<rparr>"
    have i0: "trim_inv w aliased T k a0 orig s0" "unat (q_len (t_entry k s0)) - unat (t_pos s0) \<le> fuel"
      using Suc.prems(1, 5, 6) by (simp_all add: s0_def trim_inv_def t_entry_def t_content_def)
    obtain s1 where s1: "trim_inner fuel w aliased k remove_len s0 = Some (False, s1)" "trim_inv w aliased T k a0 orig s1"
      using trim_inner_inv [OF i0(1) Suc.prems(2) pos Suc.prems(3) i0(2)] by blast
    have h: "unat (drop_bit 1 remove_len) = unat remove_len div 2" by (simp only: unat_shiftr) simp
    have "length (t_content k s1) \<le> length orig" using s1(2) list_emb_length unfolding trim_inv_def by blast
    moreover have "length (t_content k s1) = unat (q_len (t_entry k s1))" using trim_invD(2) [OF s1(2)] by (simp add: t_content_def)
    ultimately show ?thesis
      using Suc.IH [OF s1(2) Suc.prems(2), of "drop_bit 1 remove_len"] Suc.prems(3-5) True s1(1) h
      by (simp add: trim_pass_def s0_def)
  next
    case False
    then show ?thesis using Suc.prems(1) by simp
  qed
qed

lemma trim_write_plain:
  assumes "custom_mutators_count a = 0" "\<not> no_unlink a" "k < length (queue_buf a)" "unat (q_len (queue_buf a ! k)) \<le> length buf"
    and "aliased \<or> q_testcase_buf (queue_buf a ! k) = None"
    and "o_create w (q_fname (queue_buf a ! k))" "o_chown w \<noteq> Some False" "\<And>n. o_write w (q_fname (queue_buf a ! k)) n = [int n]"
  shows "case trim_write w aliased k orig_len buf a of
      Inl e \<Rightarrow> \<exists>c. update_bitmap_score (o_log1p w) k True c = Inl e
    | Inr None \<Rightarrow> False
    | Inr (Some b) \<Rightarrow> q_len (queue_buf b ! k) = q_len (queue_buf a ! k) \<and>
        disk b = disk a @ [(q_fname (queue_buf a ! k), take (unat (q_len (queue_buf a ! k))) buf)]"
proof -
  let ?q = "queue_buf a ! k" and ?bs = "take (unat (q_len (queue_buf a ! k))) buf"
  have ck: "ck_write [int (length ?bs)] ?bs = Some ?bs" by (rule ck_write_full) simp_all
  have f: "trim_file w (q_fname ?q) ?bs a = Inr (Some (a\<lparr>disk := disk a @ [(q_fname ?q, ?bs)]\<rparr>))"
    using assms(2, 6-8) ck by (simp add: trim_file_def)
  have r: "queue_testcase_retake_mem k aliased buf (q_len ?q) orig_len (a\<lparr>disk := disk a @ [(q_fname ?q, ?bs)]\<rparr>) =
      Inr (a\<lparr>disk := disk a @ [(q_fname ?q, ?bs)]\<rparr>)"
    using assms(5) by (auto simp: queue_testcase_retake_mem_def split: option.splits)
  define c where "c = a\<lparr>disk := disk a @ [(q_fname ?q, ?bs)],
      fsrv := (fsrv a)\<lparr>trace_bits := overwrite (take (unat (map_size (fsrv a))) (clean_trace a)) (trace_bits (fsrv a))\<rparr>\<rparr>"
  have w: "trim_write w aliased k orig_len buf a = rbind (update_bitmap_score (o_log1p w) k True c) (\<lambda>a. Inr (Some a))"
    using assms(1, 4) f r by (simp add: trim_write_def trim_post_def Let_def c_def)
  show ?thesis
  proof (cases "update_bitmap_score (o_log1p w) k True c")
    case (Inl e)
    then show ?thesis using w by auto
  next
    case (Inr b)
    have fr: "score_frame c b" using update_bitmap_score_frame [OF Inr] .
    have "map entry_core (queue_buf b) = map entry_core (queue_buf c)" "state_core b = state_core c" using fr by (simp_all add: score_frame_def)
    note m = this
    have "queue_buf c = queue_buf a" by (simp add: c_def)
    then have "entry_core (queue_buf b ! k) = entry_core (queue_buf a ! k)"
      using m(1) assms(3) score_frame_simps(2) [OF fr] by (metis nth_map)
    then have l: "q_len (queue_buf b ! k) = q_len ?q" using core_fields(4) by metis
    have "disk (state_core d) = disk d" for d by (simp add: state_core_def)
    then have "disk b = disk c" using m(2) by metis
    then show ?thesis using w Inr l by (simp add: c_def)
  qed
qed

lemma trim_loops:
  assumes det: "replays w T" and a: "custom_mutators_count a = 0" "k < length (queue_buf a)"
    and len: "unat (q_len (queue_buf a ! k)) \<le> length in_buf" "unat (q_len (queue_buf a ! k)) \<le> 2 ^ 30"
    and ck: "path_hash w T (map_size (fsrv a)) (take (unat (q_len (queue_buf a ! k))) in_buf) = q_exec_cksum (queue_buf a ! k)"
    and al: "aliased \<or> q_testcase_buf (queue_buf a ! k) = None" and fuel: "unat (q_len (queue_buf a ! k)) + 29 \<le> fuel"
  shows "\<exists>s. trim_outer fuel fuel w aliased k (max (p2 div TRIM_START_STEPS) TRIM_MIN_BYTES)
      \<lparr>t_buf = in_buf, t_pos = 0, t_p2 = p2, t_needs = False, t_fault = 0, t_afl = a\<lparr>bytes_trim_in := n\<rparr>\<rparr> = Some (False, s) \<and>
    trim_inv w aliased T k a (take (unat (q_len (queue_buf a ! k))) in_buf) s"
proof -
  let ?s = "\<lparr>t_buf = in_buf, t_pos = 0, t_p2 = p2, t_needs = False, t_fault = 0, t_afl = a\<lparr>bytes_trim_in := n\<rparr>\<rparr>"
  let ?orig = "take (unat (q_len (queue_buf a ! k))) in_buf"
  have inv: "trim_inv w aliased T k a ?orig ?s" using a len ck al by (simp add: trim_inv_def t_entry_def t_content_def)
  have "unat (p2 div TRIM_START_STEPS) = unat p2 div 16" by (simp add: TRIM_START_STEPS_def unat_div)
  moreover have "unat p2 < 2 ^ 32" using unsigned_less [of p2] by simp
  ultimately have "unat (p2 div TRIM_START_STEPS) \<le> 2 ^ 28" by simp
  then have rl: "unat (max (p2 div TRIM_START_STEPS) TRIM_MIN_BYTES) \<le> 2 ^ 28"
    by (simp add: max_def TRIM_MIN_BYTES_def)
  have "2 ^ 29 \<le> (2 :: nat) ^ fuel" using fuel by (intro power_increasing) simp_all
  then have "unat (max (p2 div TRIM_START_STEPS) TRIM_MIN_BYTES) < 2 ^ fuel" using rl by simp
  then show ?thesis using trim_outer_inv [OF inv det rl, of fuel fuel] len fuel by (simp add: t_entry_def)
qed

text \<open>
  C5: trimming ends and keeps the path. For a target that replays, and a test case whose checksum is
  the recorded one, \<open>trim_case\<close> returns (given fuel for every byte); the trimmed test case is a
  subsequence of the original with the same checksum, its length is the new length of the entry,
  and it is what the file on disk contains afterwards, unless nothing was trimmed and the file
  was left alone. The only failure left is one of \<open>update_bitmap_score\<close>.
\<close>

theorem trim_case_keeps_path:
  assumes "replays w T" and "custom_mutators_count a = 0" and "\<not> no_unlink a" and "k < length (queue_buf a)"
    and "unat (q_len (queue_buf a ! k)) \<le> length in_buf" and "unat (q_len (queue_buf a ! k)) \<le> 2 ^ 30"
    and "path_hash w T (map_size (fsrv a)) (take (unat (q_len (queue_buf a ! k))) in_buf) = q_exec_cksum (queue_buf a ! k)"
    and "aliased \<or> q_testcase_buf (queue_buf a ! k) = None" and "unat (q_len (queue_buf a ! k)) + 29 \<le> fuel"
    and "o_create w (q_fname (queue_buf a ! k))" and "o_chown w \<noteq> Some False"
    and "\<And>n. o_write w (q_fname (queue_buf a ! k)) n = [int n]"
  shows "case trim_case trim_custom fs w fuel aliased k in_buf a of
      Inl e \<Rightarrow> \<exists>c. update_bitmap_score (o_log1p w) k True c = Inl e
    | Inr None \<Rightarrow> False
    | Inr (Some (fault, b)) \<Rightarrow> \<exists>test. subseq test (take (unat (q_len (queue_buf a ! k))) in_buf) \<and>
        length test = unat (q_len (queue_buf b ! k)) \<and>
        path_hash w T (map_size (fsrv a)) test = q_exec_cksum (queue_buf a ! k) \<and>
        (disk b = disk a \<and> test = take (unat (q_len (queue_buf a ! k))) in_buf \<or>
         disk b = disk a @ [(q_fname (queue_buf a ! k), test)])"
proof (cases "q_len (queue_buf a ! k) < 5")
  case True
  then show ?thesis using assms(2, 5, 7) by (auto simp: trim_case_def Let_def trim_end_def)
next
  case False
  let ?len = "q_len (queue_buf a ! k)" and ?orig = "take (unat (q_len (queue_buf a ! k))) in_buf"
  obtain s where s: "trim_outer fuel fuel w aliased k (max (len_pow2 ?len div TRIM_START_STEPS) TRIM_MIN_BYTES)
      \<lparr>t_buf = in_buf, t_pos = 0, t_p2 = len_pow2 ?len, t_needs = False, t_fault = 0,
       t_afl = a\<lparr>bytes_trim_in := bytes_trim_in a + ucast ?len\<rparr>\<rparr> = Some (False, s)"
    and inv: "trim_inv w aliased T k a ?orig s"
    using trim_loops [OF assms(1, 2, 4-9)] by blast
  have c: "trim_case trim_custom fs w fuel aliased k in_buf a =
      (if \<not> t_needs s then Inr (Some (trim_end k (t_fault s) (t_afl s)))
       else rbind (trim_write w aliased k ?len (t_buf s) (t_afl s)) (\<lambda>r. Inr (map_option (trim_end k (t_fault s)) r)))"
    using False assms(2) s by (simp add: trim_case_def Let_def)
  have l: "length (t_content k s) = unat (q_len (t_entry k s))" using trim_invD(2) [OF inv] by (simp add: t_content_def)
  show ?thesis
  proof (cases "t_needs s")
    case False
    then show ?thesis using c inv l assms(5)
      by (auto simp: trim_inv_def trim_end_def t_entry_def intro!: exI [of _ ?orig])
  next
    case True
    have W: "case trim_write w aliased k ?len (t_buf s) (t_afl s) of
        Inl e \<Rightarrow> \<exists>c. update_bitmap_score (o_log1p w) k True c = Inl e
      | Inr None \<Rightarrow> False
      | Inr (Some b) \<Rightarrow> q_len (queue_buf b ! k) = q_len (t_entry k s) \<and>
          disk b = disk a @ [(q_fname (queue_buf a ! k), t_content k s)]"
      using trim_write_plain [where w = w and aliased = aliased and k = k and a = "t_afl s" and buf = "t_buf s" and orig_len = ?len]
        inv assms(3, 10-12) by (auto simp: trim_inv_def t_entry_def t_content_def split: sum.splits option.splits)
    have p: "subseq (t_content k s) ?orig" "path_hash w T (map_size (fsrv a)) (t_content k s) = q_exec_cksum (queue_buf a ! k)"
      using inv by (simp_all add: trim_inv_def)
    show ?thesis
    proof (cases "trim_write w aliased k ?len (t_buf s) (t_afl s)")
      case (Inl e)
      then show ?thesis using W True c by simp
    next
      case (Inr r)
      then obtain b where b: "r = Some b" using W by (cases r) auto
      then show ?thesis using W True c Inr p l by (auto simp: trim_end_def intro!: exI [of _ "t_content k s"])
    qed
  qed
qed

text \<open>A target whose trace records whether the test case contains a marker byte.\<close>

definition marker_world :: outside where
  "marker_world = \<lparr>o_run = (\<lambda>f t. (0, f\<lparr>trace_bits := [if 42 \<in> set (shmem_fuzz f) then 1 else 0]\<rparr>, None, None)), o_san = (\<lambda>_ f t. (0, f, None, None)),
     o_signal = (\<lambda>_. 0), o_time = (\<lambda>_. 0), o_time_us = (\<lambda>_. 0), o_hash64 = (\<lambda>bs. if bs = [] then 7 else ucast (hd bs)),
     o_log1p = (\<lambda>x. x), o_post = [], o_write = (\<lambda>_ n. [int n]), o_create = (\<lambda>_. True), o_exists = (\<lambda>_. False), o_chown = None, o_stdio = (\<lambda>_. Some 4096),
     o_new_entry = [], o_stat = (\<lambda>_. None), o_read = (\<lambda>_ _. None), o_describe = None, o_stack = blank\<rparr>"

definition marker_state :: afl_state where
  "marker_state = afl_zero\<lparr>fsrv := fsrv_zero\<lparr>map_size := 1\<rparr>, queue_buf := [entry_zero\<lparr>q_len := 8, q_exec_cksum := 1\<rparr>], top_rated := [None]\<rparr>"

lemma marker_state_fields:
  "custom_mutators_count marker_state = 0" "\<not> no_unlink marker_state" "queue_buf marker_state = [entry_zero\<lparr>q_len := 8, q_exec_cksum := 1\<rparr>]"
  "map_size (fsrv marker_state) = 1"
  by (simp_all add: marker_state_def afl_zero_def)

theorem trim_case_keeps_path_witness:
  "case trim_case (\<lambda>a. Inr (0, False, a)) (\<lambda>_. None) marker_world 40 True 0 [1, 2, 3, 4, 42, 6, 7, 8] marker_state of
     Inl e \<Rightarrow> \<exists>c. update_bitmap_score (o_log1p marker_world) 0 True c = Inl e
   | Inr None \<Rightarrow> False
   | Inr (Some (fault, b)) \<Rightarrow> \<exists>test. subseq test [1 :: u8, 2, 3, 4, 42, 6, 7, 8] \<and> length test = unat (q_len (queue_buf b ! 0))"
proof -
  let ?T = "\<lambda>i :: bytes. [if 42 \<in> set i then 1 else 0 :: u8]"
  have r: "replays marker_world ?T" by (simp add: replays_def marker_world_def fsrv_results)
  have h: "path_hash marker_world ?T 1 [1, 2, 3, 4, 42, 6, 7, 8] = 1"
    by (simp add: path_hash_def classified_def classify_counts_def marker_world_def)
  have w: "o_create marker_world f" "o_chown marker_world = None" "o_write marker_world f n = [int n]" for f n
    by (simp_all add: marker_world_def)
  show ?thesis
    using trim_case_keeps_path [OF r, where a = marker_state
        and k = 0 and in_buf = "[1, 2, 3, 4, 42, 6, 7, 8]" and aliased = True and fuel = 40 and trim_custom = "\<lambda>a. Inr (0, False, a)" and fs = "\<lambda>_. None"]
    by (auto simp: marker_state_fields h w split: sum.splits option.splits)
qed

text \<open>
  With \<open>AFL_NO_UNLINK\<close> a short write is continued with the beginning of the buffer, so the file gets
  the right length and the wrong contents.
\<close>

lemma write_again_repeats:
  assumes "0 < n" and "n < length buf"
  shows "write_again [int n, int (length buf - n)] 0 buf = Some (take n buf @ take (length buf - n) buf)"
  using assms by (simp add: min_def nat_minus_as_int)

text \<open>
  When the trimmed buffer is the cached one, the entry becomes shorter and the size of the cache is
  left as it was.
\<close>

lemma retake_mem_aliased: "queue_testcase_retake_mem k True buf len old_len a = Inr a"
  by (simp add: queue_testcase_retake_mem_def split: option.splits)

end
