(* ===== verification/Calibrate.thy ===== *)
theory Calibrate
  imports Execution Cache
begin

text \<open>
  Calibration of a new queue entry: \<open>calibrate_case\<close> of src/afl-fuzz-run.c. The entry is run several
  times; bytes of the coverage map that differ between the runs are marked as variable, and the
  run time, the energy and the bitmap size of the entry are recorded. The fork server is assumed to
  be up; the display, the warnings and the time spent calibrating are left out.
\<close>

section \<open>The operations\<close>

definition CAL_CYCLES_FAST :: u32 where
  "CAL_CYCLES_FAST = 3"

definition CAL_CYCLES :: u32 where
  "CAL_CYCLES = 7"

definition CAL_CYCLES_LONG :: u32 where
  "CAL_CYCLES_LONG = 12"

definition CAL_TMOUT_PERC :: u32 where
  "CAL_TMOUT_PERC = 125"

definition CAL_TMOUT_ADD :: u32 where
  "CAL_TMOUT_ADD = 50"

lemmas cal_consts = CAL_CYCLES_FAST_def CAL_CYCLES_def CAL_CYCLES_LONG_def

text \<open>The locals that the runs change: \<open>use_mem\<close>, \<open>fault\<close>, \<open>new_bits\<close>, \<open>var_detected\<close>, and the state.\<close>

record cal =
  c_mem :: bytes
  c_fault :: u8
  c_new_bits :: u8
  c_var :: bool
  c_afl :: afl_state

definition use_tmout :: "bool \<Rightarrow> afl_state \<Rightarrow> u32" where
  "use_tmout from_queue a =
     (let t = exec_tmout (fsrv a)
      in if \<not> from_queue \<or> resuming_fuzz a then max (t + CAL_TMOUT_ADD) (t * CAL_TMOUT_PERC div 100) else t)"

definition keep_original :: "bool \<Rightarrow> afl_state \<Rightarrow> afl_state" where
  "keep_original v a = a\<lparr>afl_env := (afl_env a)\<lparr>afl_post_process_keep_original := v\<rparr>\<rparr>"

definition mark_var_byte :: "nat \<Rightarrow> afl_state \<Rightarrow> afl_state" where
  "mark_var_byte i a =
     (if var_bytes a ! i = 0 \<and> first_trace a ! i \<noteq> trace_bits (fsrv a) ! i
      then a\<lparr>var_bytes := (var_bytes a)[i := 1], virgin_bits := (virgin_bits a)[i := 0]\<rparr> else a)"

definition mark_variable :: "afl_state \<Rightarrow> afl_state" where
  "mark_variable a = fold mark_var_byte [0..<unat (map_size (fsrv a))] a"

definition save_first_trace :: "afl_state \<Rightarrow> afl_state" where
  "save_first_trace a = a\<lparr>first_trace := overwrite (take (unat (map_size (fsrv a))) (trace_bits (fsrv a))) (first_trace a)\<rparr>"

definition merge_new_bits :: "cal \<Rightarrow> cal" where
  "merge_new_bits s =
     (let (hnb, a) = has_new_bits VirginBits (c_afl s)
      in s\<lparr>c_new_bits := if c_new_bits s < hnb then hnb else c_new_bits s, c_afl := a\<rparr>)"

text \<open>What happens when the checksum of the trace is not the one of the entry.\<close>

definition other_trace :: "nat \<Rightarrow> u64 \<Rightarrow> cal \<Rightarrow> cal" where
  "other_trace k cksum s =
     (let s = merge_new_bits s; a = c_afl s
      in if q_exec_cksum (queue_buf a ! k) \<noteq> 0
         then s\<lparr>c_var := True,
                c_afl := (mark_variable a)\<lparr>stage_max := if afl_cal_fast (afl_env a) then CAL_CYCLES else CAL_CYCLES_LONG\<rparr>\<rparr>
         else s\<lparr>c_afl := save_first_trace (set_entry k (q_exec_cksum_update (\<lambda>_. cksum)) a)\<rparr>)"

text \<open>One run of the loop; the flag reports the jump to \<open>abort_calibration\<close>.\<close>

definition calibrate_run :: "outside \<Rightarrow> u32 \<Rightarrow> nat \<Rightarrow> cal \<Rightarrow> (bool \<times> cal) res" where
  "calibrate_run w tmout k s =
     rbind (write_to_testcase w (c_mem s) (q_len (queue_buf (c_afl s) ! k)) True (c_afl s)) (\<lambda>(mem, _, a).
       let (fault, a) = exec_target w tmout a; s = s\<lparr>c_mem := mem, c_fault := fault, c_afl := a\<rparr>
       in if stop_soon a \<noteq> 0 \<or> fault \<noteq> crash_mode a then Inr (True, s)
          else if \<not> non_instrumented_mode a \<and> count_bytes (real_map_size (fsrv a)) (trace_bits (fsrv a)) = 0
          then Inr (True, s\<lparr>c_fault := FSRV_RUN_NOINST\<rparr>)
          else let a = a\<lparr>fsrv := classify_counts (fsrv a)\<rparr>;
                   cksum = o_hash64 w (take (unat (map_size (fsrv a))) (trace_bits (fsrv a)));
                   s = s\<lparr>c_afl := a\<rparr>
               in Inr (False, if q_exec_cksum (queue_buf a ! k) \<noteq> cksum then other_trace k cksum s else s))"

fun calibrate_loop :: "nat \<Rightarrow> outside \<Rightarrow> u32 \<Rightarrow> nat \<Rightarrow> cal \<Rightarrow> (bool \<times> cal) option res" where
  "calibrate_loop 0 w tmout k s = (if stage_cur (c_afl s) < stage_max (c_afl s) then Inr None else Inr (Some (False, s)))"
| "calibrate_loop (Suc n) w tmout k s =
     (if stage_cur (c_afl s) < stage_max (c_afl s)
      then rbind (calibrate_run w tmout k s) (\<lambda>(abort, s).
             if abort then Inr (Some (True, s))
             else calibrate_loop n w tmout k (s\<lparr>c_afl := (c_afl s)\<lparr>stage_cur := stage_cur (c_afl s) + 1\<rparr>\<rparr>))
      else Inr (Some (False, s)))"

definition elapsed_us :: "u64 \<Rightarrow> u64 \<Rightarrow> afl_state \<Rightarrow> u64" where
  "elapsed_us start_us stop_us a =
     (if fixed_seed a then ucast (exec_tmout (fsrv a) - 1) * ucast (stage_max a)
      else if stop_us - start_us = 0 then 1 else stop_us - start_us)"

definition record_stats :: "u64 \<Rightarrow> u32 \<Rightarrow> nat \<Rightarrow> afl_state \<Rightarrow> afl_state res" where
  "record_stats diff_us handicap k a =
     (let a = a\<lparr>total_cal_us := total_cal_us a + diff_us, total_cal_cycles := total_cal_cycles a + ucast (stage_max a)\<rparr>;
          a = account_energy (queue_buf a ! k) a
      in if stage_max a = 0 then Inl (FATAL ''BUG: stage_max should not be 0 here!'')
         else let us = diff_us div ucast (stage_max a);
                  bitmap = count_bytes (real_map_size (fsrv a)) (trace_bits (fsrv a));
                  a = set_entry k (\<lambda>q. q\<lparr>q_exec_us := if us = 0 then 1 else us, q_bitmap_size := bitmap,
                                         q_handicap := ucast handicap, q_cal_failed := 0\<rparr>) a
              in Inr (a\<lparr>total_bitmap_size := total_bitmap_size a + ucast bitmap, total_bitmap_entries := total_bitmap_entries a + 1\<rparr>))"

text \<open>The part between the loop and the label \<open>abort_calibration\<close>.\<close>

definition calibrate_finish :: "outside \<Rightarrow> u64 \<Rightarrow> u32 \<Rightarrow> bool \<Rightarrow> nat \<Rightarrow> cal \<Rightarrow> cal res" where
  "calibrate_finish w start_us handicap first_run k s =
     rbind (record_stats (elapsed_us start_us (o_time_us w (c_afl s)) (c_afl s)) handicap k (c_afl s)) (\<lambda>a.
     rbind (update_bitmap_score (o_log1p w) k True a) (\<lambda>a.
       Inr (s\<lparr>c_fault := if \<not> non_instrumented_mode a \<and> first_run \<and> c_fault s = 0 \<and> c_new_bits s = 0 then FSRV_RUN_NOBITS else c_fault s,
              c_afl := a\<rparr>)))"

text \<open>The part after the label; the field \<open>var_behavior\<close> is read here and assigned nowhere.\<close>

definition calibrate_tail :: "bool \<Rightarrow> u32 \<Rightarrow> u32 \<Rightarrow> nat \<Rightarrow> cal \<Rightarrow> u8 \<times> afl_state" where
  "calibrate_tail saved old_sc old_sm k s =
     (let a = keep_original saved (c_afl s);
          a = (if c_new_bits s = 2 \<and> \<not> q_has_new_cov (queue_buf a ! k)
               then (set_entry k (q_has_new_cov_update (\<lambda>_. True)) a)\<lparr>queued_with_cov := queued_with_cov a + 1\<rparr> else a);
          a = (if c_var s
               then let a = a\<lparr>var_byte_count := count_bytes (real_map_size (fsrv a)) (var_bytes a)\<rparr>
                    in if q_var_behavior (queue_buf a ! k) then a else a\<lparr>queued_variable := queued_variable a + 1\<rparr>
               else a)
      in (c_fault s, a\<lparr>stage_cur := old_sc, stage_max := old_sm\<rparr>))"

definition calibrate_start :: "nat \<Rightarrow> afl_state \<Rightarrow> afl_state" where
  "calibrate_start k a =
     (let a = (if cmplog_mode a then set_entry k (q_exec_cksum_update (\<lambda>_. 0)) a else a);
          a = set_entry k (\<lambda>q. q\<lparr>q_cal_failed := q_cal_failed q + 1\<rparr>) a;
          a = a\<lparr>stage_max := if afl_cal_fast (afl_env a) then CAL_CYCLES_FAST else CAL_CYCLES\<rparr>
      in keep_original True a)"

definition calibrate_case ::
  "outside \<Rightarrow> nat \<Rightarrow> nat \<Rightarrow> bytes \<Rightarrow> u32 \<Rightarrow> bool \<Rightarrow> afl_state \<Rightarrow> (u8 \<times> afl_state) option res" where
  "calibrate_case w fuel k use_mem handicap from_queue a =
     (let first_run = (q_exec_cksum (queue_buf a ! k) = 0);
          tail = calibrate_tail (afl_post_process_keep_original (afl_env a)) (stage_cur a) (stage_max a) k;
          b = calibrate_start k a;
          s = \<lparr>c_mem = use_mem, c_fault = 0, c_new_bits = 0, c_var = False, c_afl = b\<rparr>;
          s = (if q_exec_cksum (queue_buf b ! k) \<noteq> 0 then merge_new_bits (s\<lparr>c_afl := save_first_trace b\<rparr>) else s);
          start_us = o_time_us w (c_afl s)
      in rbind (calibrate_loop fuel w (use_tmout from_queue a) k (s\<lparr>c_afl := (c_afl s)\<lparr>stage_cur := 0\<rparr>\<rparr>)) (\<lambda>r. case r of
           None \<Rightarrow> Inr None
         | Some (True, s) \<Rightarrow> Inr (Some (tail s))
         | Some (False, s) \<Rightarrow> rbind (calibrate_finish w start_us handicap first_run k s) (\<lambda>s. Inr (Some (tail s)))))"

section \<open>What the runs change\<close>

definition cal_entry :: "queue_entry \<Rightarrow> queue_entry" where
  "cal_entry q = q\<lparr>q_cpu_energy_cost := 0, q_mem_energy_cost := 0, q_exec_cksum := 0\<rparr>"

definition cal_core :: "afl_state \<Rightarrow> afl_state" where
  "cal_core a = a\<lparr>fsrv := fsrv_zero, cpu_energy_map := None, mem_energy_map := None, stop_soon := 0, queue_buf := [],
     virgin_bits := [], bitmap_changed := False, var_bytes := [], stage_cur := 0, stage_max := 0, first_trace := []\<rparr>"

definition cal_frame :: "afl_state \<Rightarrow> afl_state \<Rightarrow> bool" where
  "cal_frame a b \<longleftrightarrow> cal_core b = cal_core a \<and> map cal_entry (queue_buf b) = map cal_entry (queue_buf a)"

lemma cal_frame_refl [simp]: "cal_frame a a"
  by (simp add: cal_frame_def)

lemma cal_frame_trans: "cal_frame a b \<Longrightarrow> cal_frame b c \<Longrightarrow> cal_frame a c"
  by (simp add: cal_frame_def)

lemma cal_frame_upd [simp]:
  "cal_frame a (b\<lparr>fsrv := f\<rparr>) = cal_frame a b" "cal_frame a (b\<lparr>virgin_bits := v\<rparr>) = cal_frame a b" "cal_frame a (b\<lparr>bitmap_changed := c\<rparr>) = cal_frame a b"
  "cal_frame a (b\<lparr>var_bytes := v\<rparr>) = cal_frame a b" "cal_frame a (b\<lparr>stage_cur := n\<rparr>) = cal_frame a b"
  "cal_frame a (b\<lparr>stage_max := n\<rparr>) = cal_frame a b" "cal_frame a (b\<lparr>first_trace := v\<rparr>) = cal_frame a b"
  by (simp_all add: cal_frame_def cal_core_def)

lemma cal_frame_set:
  assumes "\<And>q. cal_entry (f q) = cal_entry q"
  shows "cal_frame a (set_entry k f b) = cal_frame a b"
proof -
  have "map cal_entry (queue_buf (set_entry k f b)) = map cal_entry (queue_buf b)"
    using assms by (cases "k < length (queue_buf b)") (simp_all add: map_update list_update_same_conv list_update_beyond)
  moreover have "cal_core (set_entry k f b) = cal_core b" by (simp add: cal_core_def set_entry_def)
  ultimately show ?thesis by (simp add: cal_frame_def)
qed

lemma run_cal_frame:
  assumes "run_frame a b"
  shows "cal_frame a b"
proof -
  have "cal_core (run_core c) = cal_core c" for c by (simp add: cal_core_def run_core_def)
  then have "cal_core b = cal_core a" using assms by (metis run_frame_def)
  moreover have "cal_entry (energy_core q) = cal_entry q" for q by (simp add: cal_entry_def energy_core_def)
  then have "map cal_entry l = map cal_entry (map energy_core l)" for l by simp
  then have "map cal_entry (queue_buf b) = map cal_entry (queue_buf a)" using assms by (metis run_frame_def)
  ultimately show ?thesis by (simp add: cal_frame_def)
qed

lemma cal_frameD:
  assumes "cal_frame a b"
  shows "length (queue_buf b) = length (queue_buf a)"
    "k < length (queue_buf a) \<Longrightarrow> cal_entry (queue_buf b ! k) = cal_entry (queue_buf a ! k)"
    "afl_env b = afl_env a" "crash_mode b = crash_mode a" "non_instrumented_mode b = non_instrumented_mode a"
    "custom_mutators_count b = custom_mutators_count a" "max_length b = max_length a" "min_length b = min_length a"
    "total_cal_cycles b = total_cal_cycles a" "total_bitmap_entries b = total_bitmap_entries a" "queued_variable b = queued_variable a"
proof -
  have c: "cal_core b = cal_core a" and m: "map cal_entry (queue_buf b) = map cal_entry (queue_buf a)"
    using assms by (simp_all add: cal_frame_def)
  show len: "length (queue_buf b) = length (queue_buf a)" using arg_cong [OF m, of length] by simp
  show "cal_entry (queue_buf b ! k) = cal_entry (queue_buf a ! k)" if "k < length (queue_buf a)"
    using arg_cong [OF m, of "\<lambda>l. l ! k"] that len by simp
  show "afl_env b = afl_env a" "crash_mode b = crash_mode a" "non_instrumented_mode b = non_instrumented_mode a"
    using arg_cong [OF c, of afl_env] arg_cong [OF c, of crash_mode] arg_cong [OF c, of non_instrumented_mode]
    by (simp_all add: cal_core_def)
  show "custom_mutators_count b = custom_mutators_count a" "max_length b = max_length a" "min_length b = min_length a"
    using arg_cong [OF c, of custom_mutators_count] arg_cong [OF c, of max_length] arg_cong [OF c, of min_length]
    by (simp_all add: cal_core_def)
  show "total_cal_cycles b = total_cal_cycles a" "total_bitmap_entries b = total_bitmap_entries a" "queued_variable b = queued_variable a"
    using arg_cong [OF c, of total_cal_cycles] arg_cong [OF c, of total_bitmap_entries] arg_cong [OF c, of queued_variable]
    by (simp_all add: cal_core_def)
qed

lemma cal_entry_fields:
  assumes "cal_entry p = cal_entry q"
  shows "q_len p = q_len q" "q_cal_failed p = q_cal_failed q" "q_has_new_cov p = q_has_new_cov q" "q_var_behavior p = q_var_behavior q"
  using assms by (cases p; cases q; simp add: cal_entry_def)+

lemma has_new_bits_frame:
  "has_new_bits VirginBits a = (r, b) \<Longrightarrow> cal_frame a b \<and> stage_max b = stage_max a \<and> stage_cur b = stage_cur a \<and> queue_buf b = queue_buf a \<and>
     fsrv b = fsrv a \<and> var_bytes b = var_bytes a \<and> first_trace b = first_trace a"
  by (auto simp: has_new_bits_def Let_def split: prod.splits if_splits)

lemma maps_id: "a\<lparr>var_bytes := var_bytes a, virgin_bits := virgin_bits a\<rparr> = a"
  by (rule afl_state.equality) simp_all

lemma mark_fold:
  assumes "n \<le> length (var_bytes a)" "n \<le> length (virgin_bits a)"
  shows "\<exists>v g. fold mark_var_byte [0..<n] a = a\<lparr>var_bytes := v, virgin_bits := g\<rparr> \<and> length v = length (var_bytes a) \<and> length g = length (virgin_bits a) \<and>
    (\<forall>i. v ! i = (if i < n \<and> var_bytes a ! i = 0 \<and> first_trace a ! i \<noteq> trace_bits (fsrv a) ! i then 1 else var_bytes a ! i) \<and>
         g ! i = (if i < n \<and> var_bytes a ! i = 0 \<and> first_trace a ! i \<noteq> trace_bits (fsrv a) ! i then 0 else virgin_bits a ! i))"
  using assms
proof (induction n)
  case 0
  show ?case by (rule exI [of _ "var_bytes a"], rule exI [of _ "virgin_bits a"]) (simp add: maps_id)
next
  case (Suc n)
  let ?hit = "var_bytes a ! n = 0 \<and> first_trace a ! n \<noteq> trace_bits (fsrv a) ! n"
  obtain v g where vg: "fold mark_var_byte [0..<n] a = a\<lparr>var_bytes := v, virgin_bits := g\<rparr>" "length v = length (var_bytes a)" "length g = length (virgin_bits a)"
    "\<And>i. v ! i = (if i < n \<and> var_bytes a ! i = 0 \<and> first_trace a ! i \<noteq> trace_bits (fsrv a) ! i then 1 else var_bytes a ! i)"
    "\<And>i. g ! i = (if i < n \<and> var_bytes a ! i = 0 \<and> first_trace a ! i \<noteq> trace_bits (fsrv a) ! i then 0 else virgin_bits a ! i)"
    using Suc by auto
  have "v ! n = var_bytes a ! n" by (simp add: vg(4))
  then have e: "fold mark_var_byte [0..<Suc n] a =
      (if ?hit then a\<lparr>var_bytes := v[n := 1], virgin_bits := g[n := 0]\<rparr> else a\<lparr>var_bytes := v, virgin_bits := g\<rparr>)"
    by (simp add: vg(1) mark_var_byte_def)
  show ?case
  proof (cases ?hit)
    case True
    show ?thesis
      by (rule exI [of _ "v[n := 1]"], rule exI [of _ "g[n := 0]"])
        (use True e Suc.prems vg(2, 3) in \<open>auto simp: nth_list_update vg(4, 5) less_Suc_eq\<close>)
  next
    case False
    show ?thesis
      by (rule exI [of _ v], rule exI [of _ g]) (use False e vg(2, 3) in \<open>auto simp: vg(4, 5) less_Suc_eq\<close>)
  qed
qed

lemma mark_variable_frame: "\<exists>v g. mark_variable a = a\<lparr>var_bytes := v, virgin_bits := g\<rparr>"
proof -
  have "\<exists>v g. fold mark_var_byte is a = a\<lparr>var_bytes := v, virgin_bits := g\<rparr>" for "is"
  proof (induction "is" rule: rev_induct)
    case Nil
    have "fold mark_var_byte [] a = a\<lparr>var_bytes := var_bytes a, virgin_bits := virgin_bits a\<rparr>" by (simp add: maps_id)
    then show ?case by blast
  next
    case (snoc i "is")
    then obtain v g where vg: "fold mark_var_byte is a = a\<lparr>var_bytes := v, virgin_bits := g\<rparr>" by blast
    have "mark_var_byte i (a\<lparr>var_bytes := v, virgin_bits := g\<rparr>) = a\<lparr>var_bytes := v[i := 1], virgin_bits := g[i := 0]\<rparr> \<or>
        mark_var_byte i (a\<lparr>var_bytes := v, virgin_bits := g\<rparr>) = a\<lparr>var_bytes := v, virgin_bits := g\<rparr>"
      by (simp add: mark_var_byte_def)
    then show ?case using vg by auto
  qed
  then show ?thesis by (simp add: mark_variable_def)
qed

section \<open>Calibration ends\<close>

definition cal_limit :: "afl_state \<Rightarrow> u32 set" where
  "cal_limit a = (if afl_cal_fast (afl_env a) then {CAL_CYCLES_FAST, CAL_CYCLES} else {CAL_CYCLES, CAL_CYCLES_LONG})"

definition cal_inv :: "afl_state \<Rightarrow> afl_state \<Rightarrow> bool" where
  "cal_inv a0 a \<longleftrightarrow> cal_frame a0 a \<and> stage_max a \<in> cal_limit a0"

lemma write_frame:
  assumes "write_to_testcase w mem len fix_len a = Inr (mem', n, b)"
  shows "\<exists>f. b = a \<or> b = a\<lparr>fsrv := f\<rparr>"
  using assms by (auto simp: write_to_testcase_def Let_def split: if_splits prod.splits)

lemma write_error: "write_to_testcase w mem len fix_len a = Inl e \<Longrightarrow> e = UB ''read past the test case''"
  by (auto simp: write_to_testcase_def Let_def split: if_splits prod.splits)

lemma run_frame_stage:
  assumes "run_frame a b"
  shows "stage_max b = stage_max a" "stage_cur b = stage_cur a" "var_bytes b = var_bytes a" "virgin_bits b = virgin_bits a"
    "first_trace b = first_trace a"
proof -
  have c: "run_core b = run_core a" using assms by (simp add: run_frame_def)
  show "stage_max b = stage_max a" "stage_cur b = stage_cur a" "var_bytes b = var_bytes a" "virgin_bits b = virgin_bits a"
    "first_trace b = first_trace a"
    using arg_cong [OF c, of stage_max] arg_cong [OF c, of stage_cur] arg_cong [OF c, of var_bytes] arg_cong [OF c, of virgin_bits]
      arg_cong [OF c, of first_trace]
    by (simp_all add: run_core_def)
qed

lemma merge_new_bits_frame:
  "cal_frame (c_afl s) (c_afl (merge_new_bits s))" "stage_max (c_afl (merge_new_bits s)) = stage_max (c_afl s)"
  "stage_cur (c_afl (merge_new_bits s)) = stage_cur (c_afl s)"
  by (simp_all add: merge_new_bits_def split_beta has_new_bits_frame [OF prod.collapse [symmetric]])

lemma set_entry_stage [simp]: "stage_max (set_entry k f a) = stage_max a" "stage_cur (set_entry k f a) = stage_cur a"
  by (simp_all add: set_entry_def)

lemma other_trace_inv:
  assumes "cal_inv a0 (c_afl s)"
  shows "cal_inv a0 (c_afl (other_trace k cksum s)) \<and> stage_cur (c_afl (other_trace k cksum s)) = stage_cur (c_afl s)"
proof -
  let ?b = "c_afl (merge_new_bits s)"
  have f: "cal_frame a0 ?b" using assms cal_frame_trans merge_new_bits_frame(1) unfolding cal_inv_def by blast
  then have e: "afl_env ?b = afl_env a0" by (rule cal_frameD)
  obtain v g where m: "mark_variable ?b = ?b\<lparr>var_bytes := v, virgin_bits := g\<rparr>" using mark_variable_frame by blast
  show ?thesis
    using assms f e by (auto simp: other_trace_def Let_def m cal_inv_def merge_new_bits_frame save_first_trace_def cal_frame_set cal_entry_def cal_limit_def split: if_splits)
qed

lemma calibrate_run_inv:
  assumes "cal_inv a0 (c_afl s)"
  shows "case calibrate_run w tmout k s of
      Inl e \<Rightarrow> e = UB ''read past the test case''
    | Inr (abort, s') \<Rightarrow> cal_inv a0 (c_afl s') \<and> stage_cur (c_afl s') = stage_cur (c_afl s)"
proof (cases "write_to_testcase w (c_mem s) (q_len (queue_buf (c_afl s) ! k)) True (c_afl s)")
  case (Inl e)
  then show ?thesis by (simp add: calibrate_run_def write_error)
next
  case (Inr r)
  then obtain mem n b where b: "write_to_testcase w (c_mem s) (q_len (queue_buf (c_afl s) ! k)) True (c_afl s) = Inr (mem, n, b)"
    by (cases r) auto
  obtain fault c where c: "exec_target w tmout b = (fault, c)" by (cases "exec_target w tmout b") auto
  have "run_frame (c_afl s) b" using write_frame [OF b] by auto
  then have r: "run_frame (c_afl s) c" using exec_target_frame(1) [OF c] run_frame_trans by blast
  then have i: "cal_inv a0 c" "stage_cur c = stage_cur (c_afl s)"
    using assms run_cal_frame [OF r] run_frame_stage [OF r] cal_frame_trans unfolding cal_inv_def by auto
  define d where "d = s\<lparr>c_mem := mem, c_fault := fault, c_afl := c\<lparr>fsrv := classify_counts (fsrv c)\<rparr>\<rparr>"
  have d: "cal_inv a0 (c_afl d)" "stage_cur (c_afl d) = stage_cur (c_afl s)" using i by (simp_all add: d_def cal_inv_def)
  show ?thesis using i d other_trace_inv [OF d(1)] by (auto simp: calibrate_run_def b c Let_def d_def)
qed

lemma cal_limit_small: "n \<in> cal_limit a \<Longrightarrow> 0 < unat n \<and> unat n \<le> 12"
  by (auto simp: cal_limit_def cal_consts split: if_splits)

lemma calibrate_loop_ends:
  assumes "cal_inv a0 (c_afl s)" and "12 \<le> fuel + unat (stage_cur (c_afl s))"
  shows "case calibrate_loop fuel w tmout k s of
      Inl e \<Rightarrow> e = UB ''read past the test case''
    | Inr None \<Rightarrow> False
    | Inr (Some (abort, s')) \<Rightarrow> cal_inv a0 (c_afl s')"
  using assms
proof (induction fuel arbitrary: s)
  case 0
  then have "unat (stage_max (c_afl s)) \<le> unat (stage_cur (c_afl s))" using cal_limit_small unfolding cal_inv_def by force
  then show ?case using 0 by (simp add: word_less_nat_alt)
next
  case (Suc n)
  show ?case
  proof (cases "stage_cur (c_afl s) < stage_max (c_afl s)")
    case True
    show ?thesis
    proof (cases "calibrate_run w tmout k s")
      case (Inl e)
      then show ?thesis using calibrate_run_inv [OF Suc.prems(1), of w tmout k] True by simp
    next
      case (Inr r)
      then obtain abort t where t: "calibrate_run w tmout k s = Inr (abort, t)" by (cases r) auto
      then have i: "cal_inv a0 (c_afl t)" "stage_cur (c_afl t) = stage_cur (c_afl s)"
        using calibrate_run_inv [OF Suc.prems(1), of w tmout k] by simp_all
      have "unat (stage_cur (c_afl s)) < 12" using True Suc.prems(1) cal_limit_small unfolding cal_inv_def word_less_nat_alt by force
      then have "unat (stage_cur (c_afl s) + 1) = unat (stage_cur (c_afl s)) + 1" by (simp add: unat_word_ariths)
      then show ?thesis
        using Suc.IH [of "t\<lparr>c_afl := (c_afl t)\<lparr>stage_cur := stage_cur (c_afl t) + 1\<rparr>\<rparr>"] i t True Suc.prems
        by (auto simp: cal_inv_def)
    qed
  next
    case False
    then show ?thesis using Suc.prems(1) by simp
  qed
qed

lemma account_energy_frame [simp]:
  "queue_buf (account_energy q a) = queue_buf a" "stage_max (account_energy q a) = stage_max a" "fsrv (account_energy q a) = fsrv a"
  "afl_env (account_energy q a) = afl_env a" "total_cal_cycles (account_energy q a) = total_cal_cycles a"
  "total_bitmap_entries (account_energy q a) = total_bitmap_entries a" "var_bytes (account_energy q a) = var_bytes a"
  "virgin_bits (account_energy q a) = virgin_bits a" "queued_variable (account_energy q a) = queued_variable a"
  "total_bitmap_size (account_energy q a) = total_bitmap_size a" "non_instrumented_mode (account_energy q a) = non_instrumented_mode a"
  by (simp_all add: account_energy_def Let_def)

lemma set_entry_counters [simp]:
  "afl_env (set_entry k f a) = afl_env a" "total_cal_cycles (set_entry k f a) = total_cal_cycles a"
  "total_bitmap_entries (set_entry k f a) = total_bitmap_entries a" "var_bytes (set_entry k f a) = var_bytes a"
  "virgin_bits (set_entry k f a) = virgin_bits a" "queued_variable (set_entry k f a) = queued_variable a"
  "non_instrumented_mode (set_entry k f a) = non_instrumented_mode a"
  by (simp_all add: set_entry_def)

text \<open>What the statistics say after a completed calibration.\<close>

definition cal_done :: "nat \<Rightarrow> u32 \<Rightarrow> afl_state \<Rightarrow> afl_state \<Rightarrow> bool" where
  "cal_done k n a b \<longleftrightarrow> q_cal_failed (queue_buf b ! k) = 0 \<and> q_exec_us (queue_buf b ! k) \<noteq> 0 \<and>
     total_cal_cycles b = total_cal_cycles a + ucast n \<and> total_bitmap_entries b = total_bitmap_entries a + 1"

definition cal_same :: "nat \<Rightarrow> afl_state \<Rightarrow> afl_state \<Rightarrow> bool" where
  "cal_same k a b \<longleftrightarrow> length (queue_buf b) = length (queue_buf a) \<and> afl_env b = afl_env a \<and> fsrv b = fsrv a \<and> var_bytes b = var_bytes a \<and>
     virgin_bits b = virgin_bits a \<and> queued_variable b = queued_variable a \<and> non_instrumented_mode b = non_instrumented_mode a \<and>
     q_exec_cksum (queue_buf b ! k) = q_exec_cksum (queue_buf a ! k)"

lemma record_stats_done:
  assumes "stage_max a \<noteq> 0" and "k < length (queue_buf a)"
  shows "\<exists>b. record_stats us handicap k a = Inr b \<and> cal_done k (stage_max a) a b \<and> cal_same k a b"
  using assms by (simp add: record_stats_def Let_def cal_done_def cal_same_def)

lemma score_frame_cal:
  assumes "score_frame b c" and "k < length (queue_buf b)"
  shows "cal_done k n a c = cal_done k n a b" "cal_same k a c = cal_same k a b"
proof -
  have s: "state_core c = state_core b" and m: "map entry_core (queue_buf c) = map entry_core (queue_buf b)"
    using assms(1) by (simp_all add: score_frame_def)
  have l: "length (queue_buf c) = length (queue_buf b)" using arg_cong [OF m, of length] by simp
  have e: "entry_core (queue_buf c ! k) = entry_core (queue_buf b ! k)" using arg_cong [OF m, of "\<lambda>l. l ! k"] assms(2) l by simp
  show "cal_done k n a c = cal_done k n a b"
    using arg_cong [OF s, of total_cal_cycles] arg_cong [OF s, of total_bitmap_entries] arg_cong [OF e, of q_cal_failed] arg_cong [OF e, of q_exec_us]
    by (simp add: cal_done_def state_core_def entry_core_def)
  show "cal_same k a c = cal_same k a b"
    using arg_cong [OF s, of afl_env] arg_cong [OF s, of fsrv] arg_cong [OF s, of var_bytes] arg_cong [OF s, of virgin_bits] l
      arg_cong [OF s, of queued_variable] arg_cong [OF s, of non_instrumented_mode] arg_cong [OF e, of q_exec_cksum]
    by (simp add: cal_same_def state_core_def entry_core_def)
qed

lemma calibrate_finish_done:
  assumes "stage_max (c_afl s) \<noteq> 0" and "k < length (queue_buf (c_afl s))"
  shows "case calibrate_finish w start_us handicap first_run k s of
      Inl e \<Rightarrow> \<exists>c. update_bitmap_score (o_log1p w) k True c = Inl e
    | Inr t \<Rightarrow> cal_done k (stage_max (c_afl s)) (c_afl s) (c_afl t) \<and> cal_same k (c_afl s) (c_afl t) \<and>
        c_new_bits t = c_new_bits s \<and> c_var t = c_var s \<and>
        c_fault t = (if \<not> non_instrumented_mode (c_afl s) \<and> first_run \<and> c_fault s = 0 \<and> c_new_bits s = 0 then FSRV_RUN_NOBITS else c_fault s)"
proof -
  obtain b where b: "record_stats (elapsed_us start_us (o_time_us w (c_afl s)) (c_afl s)) handicap k (c_afl s) = Inr b"
    "cal_done k (stage_max (c_afl s)) (c_afl s) b" "cal_same k (c_afl s) b"
    using record_stats_done [OF assms] by blast
  show ?thesis
  proof (cases "update_bitmap_score (o_log1p w) k True b")
    case (Inl e)
    then show ?thesis using b(1) by (auto simp: calibrate_finish_def)
  next
    case (Inr c)
    have k: "k < length (queue_buf b)" using b(3) assms(2) by (simp add: cal_same_def)
    note f = score_frame_cal [OF update_bitmap_score_frame [OF Inr] k]
    have "cal_same k (c_afl s) c" using b(3) f(2) by simp
    then have "non_instrumented_mode c = non_instrumented_mode (c_afl s)" by (simp add: cal_same_def)
    then show ?thesis using b f Inr by (simp add: calibrate_finish_def)
  qed
qed

lemma calibrate_tail_keeps:
  assumes "k < length (queue_buf (c_afl s))"
    and r: "r = calibrate_tail saved sc sm k s"
  shows "fst r = c_fault s" "stage_cur (snd r) = sc" "stage_max (snd r) = sm"
    "afl_env (snd r) = (afl_env (c_afl s))\<lparr>afl_post_process_keep_original := saved\<rparr>"
    "q_cal_failed (queue_buf (snd r) ! k) = q_cal_failed (queue_buf (c_afl s) ! k)" "q_exec_us (queue_buf (snd r) ! k) = q_exec_us (queue_buf (c_afl s) ! k)"
    "q_exec_cksum (queue_buf (snd r) ! k) = q_exec_cksum (queue_buf (c_afl s) ! k)" "total_cal_cycles (snd r) = total_cal_cycles (c_afl s)"
    "total_bitmap_entries (snd r) = total_bitmap_entries (c_afl s)" "length (queue_buf (snd r)) = length (queue_buf (c_afl s))"
    "virgin_bits (snd r) = virgin_bits (c_afl s)" "var_bytes (snd r) = var_bytes (c_afl s)" "\<not> c_var s \<Longrightarrow> queued_variable (snd r) = queued_variable (c_afl s)"
  using assms(1) by (simp_all add: r calibrate_tail_def Let_def keep_original_def)

lemma calibrate_start_fields:
  assumes "k < length (queue_buf a)"
  shows "stage_max (calibrate_start k a) \<in> cal_limit (calibrate_start k a)" "length (queue_buf (calibrate_start k a)) = length (queue_buf a)"
    "afl_env (calibrate_start k a) = (afl_env a)\<lparr>afl_post_process_keep_original := True\<rparr>"
    "q_cal_failed (queue_buf (calibrate_start k a) ! k) = q_cal_failed (queue_buf a ! k) + 1"
    "total_cal_cycles (calibrate_start k a) = total_cal_cycles a" "total_bitmap_entries (calibrate_start k a) = total_bitmap_entries a"
  using assms by (simp_all add: calibrate_start_def Let_def keep_original_def cal_limit_def)

lemma cal_inv_start:
  assumes "k < length (queue_buf a)" and "cal_inv (calibrate_start k a) b"
  shows "length (queue_buf b) = length (queue_buf a)" "stage_max b \<noteq> 0"
    "stage_max b \<in> (if afl_cal_fast (afl_env a) then {3, 7} else {7, 12})"
    "(afl_env b)\<lparr>afl_post_process_keep_original := afl_post_process_keep_original (afl_env a)\<rparr> = afl_env a"
    "q_cal_failed (queue_buf b ! k) = q_cal_failed (queue_buf a ! k) + 1" "total_cal_cycles b = total_cal_cycles a"
    "total_bitmap_entries b = total_bitmap_entries a"
proof -
  have f: "cal_frame (calibrate_start k a) b" and m: "stage_max b \<in> cal_limit (calibrate_start k a)" using assms(2) by (simp_all add: cal_inv_def)
  note st = calibrate_start_fields [OF assms(1)] and d = cal_frameD [OF f]
  show "length (queue_buf b) = length (queue_buf a)" "total_cal_cycles b = total_cal_cycles a" "total_bitmap_entries b = total_bitmap_entries a"
    using d(1, 9, 10) st(2, 5, 6) by simp_all
  show "stage_max b \<noteq> 0" using cal_limit_small [OF m] by auto
  show "stage_max b \<in> (if afl_cal_fast (afl_env a) then {3, 7} else {7, 12})" using m st(3) by (simp add: cal_limit_def cal_consts split: if_splits)
  show "(afl_env b)\<lparr>afl_post_process_keep_original := afl_post_process_keep_original (afl_env a)\<rparr> = afl_env a" using d(3) st(3) by simp
  have "cal_entry (queue_buf b ! k) = cal_entry (queue_buf (calibrate_start k a) ! k)" using d(2) st(2) assms(1) by simp
  then show "q_cal_failed (queue_buf b ! k) = q_cal_failed (queue_buf a ! k) + 1" using cal_entry_fields(2) st(4) by metis
qed

text \<open>How a calibration came to its end: after the loop, with or without the final statistics.\<close>

lemma calibrate_case_parts:
  assumes "k < length (queue_buf a)"
  shows "case calibrate_case w 12 k use_mem handicap from_queue a of
      Inl e \<Rightarrow> e = UB ''read past the test case'' \<or> (\<exists>c. update_bitmap_score (o_log1p w) k True c = Inl e)
    | Inr None \<Rightarrow> False
    | Inr (Some r) \<Rightarrow> \<exists>s t us. cal_inv (calibrate_start k a) (c_afl s) \<and>
        (t = s \<or> calibrate_finish w us handicap (q_exec_cksum (queue_buf a ! k) = 0) k s = Inr t) \<and>
        r = calibrate_tail (afl_post_process_keep_original (afl_env a)) (stage_cur a) (stage_max a) k t"
proof -
  let ?b = "calibrate_start k a"
  define s0 where "s0 = \<lparr>c_mem = use_mem, c_fault = 0, c_new_bits = 0, c_var = False, c_afl = ?b\<rparr>"
  define s1 where "s1 = (if q_exec_cksum (queue_buf ?b ! k) \<noteq> 0 then merge_new_bits (s0\<lparr>c_afl := save_first_trace ?b\<rparr>) else s0)"
  define s2 where "s2 = s1\<lparr>c_afl := (c_afl s1)\<lparr>stage_cur := 0\<rparr>\<rparr>"
  let ?tail = "calibrate_tail (afl_post_process_keep_original (afl_env a)) (stage_cur a) (stage_max a) k"
  let ?fin = "calibrate_finish w (o_time_us w (c_afl s1)) handicap (q_exec_cksum (queue_buf a ! k) = 0) k"
  have "cal_frame ?b (c_afl s1) \<and> stage_max (c_afl s1) = stage_max ?b"
    using merge_new_bits_frame [of "s0\<lparr>c_afl := save_first_trace ?b\<rparr>"] cal_frame_trans [of ?b "save_first_trace ?b"]
    by (simp add: s1_def s0_def save_first_trace_def)
  then have i: "cal_inv ?b (c_afl s2)" "12 \<le> 12 + unat (stage_cur (c_afl s2))"
    using calibrate_start_fields(1) [OF assms] by (simp_all add: s2_def cal_inv_def)
  have c: "calibrate_case w 12 k use_mem handicap from_queue a =
      rbind (calibrate_loop 12 w (use_tmout from_queue a) k s2) (\<lambda>r. case r of
           None \<Rightarrow> Inr None
         | Some (True, s) \<Rightarrow> Inr (Some (?tail s))
         | Some (False, s) \<Rightarrow> rbind (?fin s) (\<lambda>s. Inr (Some (?tail s))))"
    unfolding calibrate_case_def Let_def s2_def s1_def s0_def ..
  note L = calibrate_loop_ends [OF i, of w "use_tmout from_queue a" k]
  show ?thesis
  proof (cases "calibrate_loop 12 w (use_tmout from_queue a) k s2")
    case (Inl e)
    then show ?thesis using L c by simp
  next
    case (Inr r)
    then obtain abort s where r: "r = Some (abort, s)" using L by (cases r) auto
    have inv: "cal_inv ?b (c_afl s)" using L Inr r by simp
    note o = cal_inv_start [OF assms inv]
    have ks: "k < length (queue_buf (c_afl s))" using o assms by simp
    show ?thesis
    proof (cases abort)
      case True
      then show ?thesis using c Inr r inv by auto
    next
      case False
      note F = calibrate_finish_done [OF o(2) ks, where w = w and start_us = "o_time_us w (c_afl s1)" and handicap = handicap and first_run = "q_exec_cksum (queue_buf a ! k) = 0"]
      have e: "calibrate_case w 12 k use_mem handicap from_queue a = rbind (?fin s) (\<lambda>s. Inr (Some (?tail s)))" using c Inr r False by simp
      show ?thesis
      proof (cases "?fin s")
        case (Inl x)
        then show ?thesis using F e by simp
      next
        case (Inr t)
        then have "calibrate_case w 12 k use_mem handicap from_queue a = Inr (Some (?tail t))" using e by simp
        then show ?thesis using Inr inv by auto
      qed
    qed
  qed
qed

text \<open>
  C7: calibration ends. Whatever the target does, twelve runs are enough, the internal error of a
  stage without cycles cannot occur, and the only failures are a read past the test case or a failure
  in \<open>update_bitmap_score\<close>. The stage counters and the environment flag are restored. Either the
  calibration was aborted, and the failure count of the entry is one higher, or it is zero, the
  entry has a run time, and the number of calibration cycles has grown by 3, 7 or 12.
\<close>

theorem calibrate_case_ends:
  assumes "k < length (queue_buf a)"
  shows "case calibrate_case w 12 k use_mem handicap from_queue a of
      Inl e \<Rightarrow> e = UB ''read past the test case'' \<or> (\<exists>c. update_bitmap_score (o_log1p w) k True c = Inl e)
    | Inr None \<Rightarrow> False
    | Inr (Some (fault, b)) \<Rightarrow> stage_cur b = stage_cur a \<and> stage_max b = stage_max a \<and> afl_env b = afl_env a \<and>
        (q_cal_failed (queue_buf b ! k) = q_cal_failed (queue_buf a ! k) + 1 \<and> total_cal_cycles b = total_cal_cycles a \<or>
         q_cal_failed (queue_buf b ! k) = 0 \<and> q_exec_us (queue_buf b ! k) \<noteq> 0 \<and> total_bitmap_entries b = total_bitmap_entries a + 1 \<and>
         total_cal_cycles b - total_cal_cycles a \<in> (if afl_cal_fast (afl_env a) then {3, 7} else {7, 12}))"
proof -
  let ?tail = "calibrate_tail (afl_post_process_keep_original (afl_env a)) (stage_cur a) (stage_max a) k"
  note P = calibrate_case_parts [OF assms, where w = w and use_mem = use_mem and handicap = handicap and from_queue = from_queue]
  show ?thesis
  proof (cases "\<exists>r. calibrate_case w 12 k use_mem handicap from_queue a = Inr (Some r)")
    case False
    then show ?thesis using P by (auto split: sum.splits option.splits)
  next
    case True
    then obtain r where r: "calibrate_case w 12 k use_mem handicap from_queue a = Inr (Some r)" by blast
    obtain s t us where inv: "cal_inv (calibrate_start k a) (c_afl s)"
      and t: "t = s \<or> calibrate_finish w us handicap (q_exec_cksum (queue_buf a ! k) = 0) k s = Inr t" and rt: "r = ?tail t"
      using P unfolding r sum.case option.case by (elim exE conjE)
    note e = r [unfolded rt]
    note o = cal_inv_start [OF assms inv]
    have ks: "k < length (queue_buf (c_afl s))" using o assms by simp
    have d: "t = s \<or> cal_done k (stage_max (c_afl s)) (c_afl s) (c_afl t) \<and> cal_same k (c_afl s) (c_afl t)"
      using t calibrate_finish_done [OF o(2) ks, where w = w and start_us = us and handicap = handicap and first_run = "q_exec_cksum (queue_buf a ! k) = 0"] by auto
    then have kt: "k < length (queue_buf (c_afl t))" using ks by (auto simp: cal_same_def)
    note T = calibrate_tail_keeps [OF kt refl, of "afl_post_process_keep_original (afl_env a)" "stage_cur a" "stage_max a"]
    have n: "(ucast (stage_max (c_afl s)) :: u64) \<in> (if afl_cal_fast (afl_env a) then {3, 7} else {7, 12})" using o(3) by (auto split: if_splits)
    have env: "afl_env (snd (?tail t)) = afl_env a" using T(4) d o(4) by (auto simp: cal_same_def)
    from d show ?thesis
    proof
      assume "t = s"
      then show ?thesis unfolding e sum.case option.case split_beta using T(2, 3, 5, 8) o(5, 6) env by simp
    next
      assume d: "cal_done k (stage_max (c_afl s)) (c_afl s) (c_afl t) \<and> cal_same k (c_afl s) (c_afl t)"
      then have "q_cal_failed (queue_buf (snd (?tail t)) ! k) = 0" "q_exec_us (queue_buf (snd (?tail t)) ! k) \<noteq> 0"
        "total_bitmap_entries (snd (?tail t)) = total_bitmap_entries a + 1"
        "total_cal_cycles (snd (?tail t)) = total_cal_cycles a + ucast (stage_max (c_afl s))"
        using T(5, 6, 8, 9) o(6, 7) by (simp_all add: cal_done_def)
      then show ?thesis unfolding e sum.case option.case split_beta using T(2, 3) n env by simp
    qed
  qed
qed

section \<open>Calibration of a stable entry\<close>

text \<open>
  Conditions under which every run of an entry looks the same: the target replays, always with the
  result that counts as success, and the whole test case reaches it.
\<close>

definition stable_target :: "outside \<Rightarrow> (bytes \<Rightarrow> bytes) \<Rightarrow> u8 \<Rightarrow> bool" where
  "stable_target w T fault \<longleftrightarrow> replays w T \<and>
     (\<forall>f t. fst (o_run w f t) = fault \<and> real_map_size (fst (snd (o_run w f t))) = real_map_size f)"

definition deliverable :: "nat \<Rightarrow> bytes \<Rightarrow> afl_state \<Rightarrow> bool" where
  "deliverable k mem a \<longleftrightarrow> custom_mutators_count a = 0 \<and> k < length (queue_buf a) \<and> unat (q_len (queue_buf a ! k)) \<le> length mem \<and>
     unat (q_len (queue_buf a ! k)) \<le> unat (max_length a) \<and> unat (q_len (queue_buf a ! k)) \<le> unat MAX_FILE"

definition test_of :: "nat \<Rightarrow> bytes \<Rightarrow> afl_state \<Rightarrow> bytes" where
  "test_of k mem a = take (unat (q_len (queue_buf a ! k))) mem"

lemma write_delivers:
  assumes "deliverable k mem a"
  shows "\<exists>f. write_to_testcase w mem (q_len (queue_buf a ! k)) True a = Inr (mem, q_len (queue_buf a ! k), a\<lparr>fsrv := f\<rparr>) \<and>
    shmem_fuzz f = test_of k mem a \<and> map_size f = map_size (fsrv a) \<and> real_map_size f = real_map_size (fsrv a)"
  by (rule exI [of _ "(fsrv a)\<lparr>shmem_fuzz := test_of k mem a\<rparr>"])
    (use assms in \<open>simp add: deliverable_def test_of_def write_to_testcase_def fit_length_def afl_fsrv_write_to_testcase_def Let_def min.absorb1 min.absorb2\<close>)

lemma deliverable_frame: "cal_frame a b \<Longrightarrow> deliverable k mem a \<Longrightarrow> deliverable k mem b \<and> test_of k mem b = test_of k mem a"
  using cal_frameD(1, 2, 6, 7) [of a b] cal_entry_fields(1) [of "queue_buf b ! k" "queue_buf a ! k"] by (simp add: deliverable_def test_of_def)

definition instrumented :: "(bytes \<Rightarrow> bytes) \<Rightarrow> bytes \<Rightarrow> afl_state \<Rightarrow> bool" where
  "instrumented T test a \<longleftrightarrow> non_instrumented_mode a \<or> count_bytes (real_map_size (fsrv a)) (T test) \<noteq> 0"

lemma calibrate_run_stable:
  assumes st: "stable_target w T (crash_mode (c_afl s))" and d: "deliverable k (c_mem s) (c_afl s)"
    and ins: "instrumented T (test_of k (c_mem s) (c_afl s)) (c_afl s)"
  defines "n \<equiv> map_size (fsrv (c_afl s))"
  defines "h \<equiv> path_hash w T n (test_of k (c_mem s) (c_afl s))"
  shows "\<exists>c. run_frame (c_afl s) c \<and> map_size (fsrv c) = n \<and> real_map_size (fsrv c) = real_map_size (fsrv (c_afl s)) \<and>
    trace_bits (fsrv c) = classified n (T (test_of k (c_mem s) (c_afl s))) \<and>
    calibrate_run w tmout k s =
      Inr (False, if q_exec_cksum (queue_buf c ! k) \<noteq> h then other_trace k h (s\<lparr>c_fault := crash_mode (c_afl s), c_afl := c\<rparr>)
                  else s\<lparr>c_fault := crash_mode (c_afl s), c_afl := c\<rparr>)"
proof -
  let ?a = "c_afl s" and ?test = "test_of k (c_mem s) (c_afl s)"
  obtain f where f: "write_to_testcase w (c_mem s) (q_len (queue_buf ?a ! k)) True ?a = Inr (c_mem s, q_len (queue_buf ?a ! k), ?a\<lparr>fsrv := f\<rparr>)"
    "shmem_fuzz f = ?test" "map_size f = n" "real_map_size f = real_map_size (fsrv ?a)" using write_delivers [OF d] unfolding n_def by metis
  obtain r b where b: "exec_target w tmout (?a\<lparr>fsrv := f\<rparr>) = (r, b)" by (cases "exec_target w tmout (?a\<lparr>fsrv := f\<rparr>)") auto
  note x = exec_target_frame [OF b, simplified]
  have rb: "run_frame ?a b" using x(1) run_frame_trans run_frame_upd(1) by blast
  have w: "r = crash_mode ?a" "trace_bits (fsrv b) = T ?test" "map_size (fsrv b) = n" "real_map_size (fsrv b) = real_map_size (fsrv ?a)" "stop_soon b = 0"
    using x(2-4) st f unfolding stable_target_def replays_def by auto
  have cm: "crash_mode b = crash_mode ?a" "non_instrumented_mode b = non_instrumented_mode ?a"
    using cal_frameD(4, 5) [OF run_cal_frame [OF rb]] by auto
  let ?c = "b\<lparr>fsrv := classify_counts (fsrv b)\<rparr>"
  have rc: "run_frame ?a ?c" using rb run_frame_trans run_frame_upd(1) by blast
  have tr: "trace_bits (fsrv ?c) = classified n (T ?test)" "map_size (fsrv ?c) = n" using w by (simp_all add: classified_eq)
  have h: "o_hash64 w (take (unat (map_size (fsrv ?c))) (trace_bits (fsrv ?c))) = h" using tr by (simp add: h_def path_hash_def)
  have s: "s\<lparr>c_mem := c_mem s, c_fault := r, c_afl := ?c\<rparr> = s\<lparr>c_fault := crash_mode ?a, c_afl := ?c\<rparr>" using w by simp
  have "calibrate_run w tmout k s =
      Inr (False, if q_exec_cksum (queue_buf ?c ! k) \<noteq> h then other_trace k h (s\<lparr>c_fault := crash_mode ?a, c_afl := ?c\<rparr>)
                  else s\<lparr>c_fault := crash_mode ?a, c_afl := ?c\<rparr>)"
    using w cm ins h s unfolding calibrate_run_def f(1) Let_def b rbind_simps split_conv
    by (auto simp: instrumented_def)
  then show ?thesis using rc tr w(4) by (intro exI [of _ ?c]) simp
qed

text \<open>
  The loop after the first run: \<open>N\<close> is the coverage level found, \<open>V\<close> the virgin map and \<open>m\<close> the number of cycles.
\<close>

definition settled :: "afl_state \<Rightarrow> nat \<Rightarrow> bytes \<Rightarrow> u64 \<Rightarrow> u8 \<Rightarrow> bytes \<Rightarrow> cal \<Rightarrow> bool" where
  "settled a k mem h N V s \<longleftrightarrow> cal_frame a (c_afl s) \<and> stage_max (c_afl s) = stage_max a \<and> c_mem s = mem \<and> c_fault s = crash_mode a \<and>
     q_exec_cksum (queue_buf (c_afl s) ! k) = h \<and> var_bytes (c_afl s) = var_bytes a \<and> virgin_bits (c_afl s) = V \<and> c_new_bits s = N \<and> \<not> c_var s \<and>
     map_size (fsrv (c_afl s)) = map_size (fsrv a) \<and> real_map_size (fsrv (c_afl s)) = real_map_size (fsrv a)"

lemma calibrate_run_settled:
  assumes st: "stable_target w T (crash_mode a)" and d: "deliverable k mem a" and ins: "instrumented T (test_of k mem a) a"
    and s: "settled a k mem (path_hash w T (map_size (fsrv a)) (test_of k mem a)) N V s"
  shows "\<exists>s'. calibrate_run w tmout k s = Inr (False, s') \<and> stage_cur (c_afl s') = stage_cur (c_afl s) \<and>
    settled a k mem (path_hash w T (map_size (fsrv a)) (test_of k mem a)) N V s'"
proof -
  let ?h = "path_hash w T (map_size (fsrv a)) (test_of k mem a)"
  have f: "cal_frame a (c_afl s)" and e: "c_mem s = mem" "map_size (fsrv (c_afl s)) = map_size (fsrv a)" "real_map_size (fsrv (c_afl s)) = real_map_size (fsrv a)"
    using s by (simp_all add: settled_def)
  note D = cal_frameD [OF f] and dv = deliverable_frame [OF f d]
  have st': "stable_target w T (crash_mode (c_afl s))" "deliverable k (c_mem s) (c_afl s)" "instrumented T (test_of k (c_mem s) (c_afl s)) (c_afl s)"
    using st dv ins e D(4, 5) by (simp_all add: instrumented_def)
  obtain c where c: "run_frame (c_afl s) c" "map_size (fsrv c) = map_size (fsrv a)" "real_map_size (fsrv c) = real_map_size (fsrv a)"
    "calibrate_run w tmout k s =
      Inr (False, if q_exec_cksum (queue_buf c ! k) \<noteq> ?h then other_trace k ?h (s\<lparr>c_fault := crash_mode a, c_afl := c\<rparr>)
                  else s\<lparr>c_fault := crash_mode a, c_afl := c\<rparr>)"
    using calibrate_run_stable [OF st', of tmout] e dv D(4) by auto
  have k: "k < length (queue_buf (c_afl s))" using dv by (simp add: deliverable_def)
  have "q_exec_cksum (queue_buf c ! k) = ?h"
    using energy_core_fields(2) [OF run_frameD(2) [OF c(1) k]] s by (simp add: settled_def)
  moreover have "cal_frame a c" using f run_cal_frame [OF c(1)] cal_frame_trans by blast
  ultimately show ?thesis using c(2-4) s run_frame_stage [OF c(1)] by (simp add: settled_def)
qed

lemma calibrate_loop_settled:
  assumes "stable_target w T (crash_mode a)" and "deliverable k mem a" and "instrumented T (test_of k mem a) a"
    and "settled a k mem (path_hash w T (map_size (fsrv a)) (test_of k mem a)) N V s"
    and "unat (stage_max a) \<le> fuel + unat (stage_cur (c_afl s))"
  shows "\<exists>s'. calibrate_loop fuel w tmout k s = Inr (Some (False, s')) \<and>
    settled a k mem (path_hash w T (map_size (fsrv a)) (test_of k mem a)) N V s'"
  using assms(4, 5)
proof (induction fuel arbitrary: s)
  case 0
  then have "\<not> stage_cur (c_afl s) < stage_max (c_afl s)" by (simp add: settled_def word_less_nat_alt)
  then show ?case using 0 by simp
next
  case (Suc fuel)
  show ?case
  proof (cases "stage_cur (c_afl s) < stage_max (c_afl s)")
    case True
    obtain s' where s': "calibrate_run w tmout k s = Inr (False, s')" "stage_cur (c_afl s') = stage_cur (c_afl s)"
      "settled a k mem (path_hash w T (map_size (fsrv a)) (test_of k mem a)) N V s'"
      using calibrate_run_settled [OF assms(1-3) Suc.prems(1)] by blast
    have n: "unat (stage_cur (c_afl s) + 1) = unat (stage_cur (c_afl s)) + 1"
      using True unat_u32 [of "stage_max (c_afl s)"] by (simp add: unat_word_ariths word_less_nat_alt)
    let ?t = "s'\<lparr>c_afl := (c_afl s')\<lparr>stage_cur := stage_cur (c_afl s') + 1\<rparr>\<rparr>"
    have "settled a k mem (path_hash w T (map_size (fsrv a)) (test_of k mem a)) N V ?t" using s'(3) by (simp add: settled_def)
    moreover have "unat (stage_max a) \<le> fuel + unat (stage_cur (c_afl ?t))" using Suc.prems(2) n s'(2) by simp
    ultimately show ?thesis using Suc.IH [of ?t] True s'(1) by simp
  next
    case False
    then show ?thesis using Suc.prems(1) by simp
  qed
qed

lemma has_new_bits_cong:
  assumes "real_map_size (fsrv b) = real_map_size (fsrv a)" "trace_bits (fsrv b) = trace_bits (fsrv a)" "virgin_bits b = virgin_bits a"
  shows "fst (has_new_bits VirginBits b) = fst (has_new_bits VirginBits a)"
    "virgin_bits (snd (has_new_bits VirginBits b)) = virgin_bits (snd (has_new_bits VirginBits a))"
  unfolding has_new_bits_def Let_def split_beta using assms by simp_all

text \<open>The coverage of a test case as \<open>has_new_bits\<close> sees it in a given state.\<close>

definition with_trace :: "bytes \<Rightarrow> afl_state \<Rightarrow> afl_state" where
  "with_trace tr a = a\<lparr>fsrv := (fsrv a)\<lparr>trace_bits := classified (map_size (fsrv a)) tr\<rparr>\<rparr>"

lemma first_run_settles:
  assumes st: "stable_target w T (crash_mode a)" and d: "deliverable k mem a" and ins: "instrumented T (test_of k mem a) a"
    and s: "c_afl s = a\<lparr>stage_cur := 0\<rparr>" "c_mem s = mem" "c_new_bits s = 0" "\<not> c_var s"
    and h: "q_exec_cksum (queue_buf a ! k) = 0" "path_hash w T (map_size (fsrv a)) (test_of k mem a) \<noteq> 0"
  shows "\<exists>s'. calibrate_run w tmout k s = Inr (False, s') \<and> stage_cur (c_afl s') = 0 \<and>
    settled a k mem (path_hash w T (map_size (fsrv a)) (test_of k mem a)) (fst (has_new_bits VirginBits (with_trace (T (test_of k mem a)) a)))
      (virgin_bits (snd (has_new_bits VirginBits (with_trace (T (test_of k mem a)) a)))) s'"
proof -
  let ?h = "path_hash w T (map_size (fsrv a)) (test_of k mem a)" and ?tr = "T (test_of k mem a)"
  have f: "cal_frame a (c_afl s)" by (simp add: s)
  note dv = deliverable_frame [OF f d]
  have st': "stable_target w T (crash_mode (c_afl s))" "deliverable k (c_mem s) (c_afl s)" "instrumented T (test_of k (c_mem s) (c_afl s)) (c_afl s)"
    using st dv ins s by (simp_all add: instrumented_def)
  obtain c where c: "run_frame (c_afl s) c" "map_size (fsrv c) = map_size (fsrv a)" "real_map_size (fsrv c) = real_map_size (fsrv a)"
    "trace_bits (fsrv c) = classified (map_size (fsrv a)) ?tr"
    "calibrate_run w tmout k s =
      Inr (False, if q_exec_cksum (queue_buf c ! k) \<noteq> ?h then other_trace k ?h (s\<lparr>c_fault := crash_mode a, c_afl := c\<rparr>)
                  else s\<lparr>c_fault := crash_mode a, c_afl := c\<rparr>)"
    using calibrate_run_stable [OF st', of tmout] dv s by auto
  have k: "k < length (queue_buf (c_afl s))" using dv by (simp add: deliverable_def)
  have q: "q_exec_cksum (queue_buf c ! k) = 0"
    using energy_core_fields(2) [OF run_frameD(2) [OF c(1) k]] s(1) h(1) by simp
  obtain N b where b: "has_new_bits VirginBits c = (N, b)" by (cases "has_new_bits VirginBits c") auto
  note hb = has_new_bits_frame [OF b]
  have rs: "virgin_bits c = virgin_bits a" "var_bytes c = var_bytes a" "stage_max c = stage_max a" "stage_cur c = 0"
    using run_frame_stage [OF c(1)] s(1) by simp_all
  have N: "N = fst (has_new_bits VirginBits (with_trace ?tr a))" "virgin_bits b = virgin_bits (snd (has_new_bits VirginBits (with_trace ?tr a)))"
    using has_new_bits_cong [of c "with_trace ?tr a"] c rs b by (simp_all add: with_trace_def)
  have lb: "k < length (queue_buf b)" using hb run_frameD(1) [OF c(1)] k by simp
  have fr: "cal_frame a b" using hb f run_cal_frame [OF c(1)] cal_frame_trans by blast
  let ?e = "set_entry k (q_exec_cksum_update (\<lambda>_. ?h)) b"
  have "calibrate_run w tmout k s = Inr (False, s\<lparr>c_fault := crash_mode a, c_new_bits := N, c_afl := save_first_trace ?e\<rparr>)"
    using c(5) q h(2) hb s(3) by (simp add: other_trace_def merge_new_bits_def b Let_def word_gt_0)
  moreover have "settled a k mem ?h N (virgin_bits b) (s\<lparr>c_fault := crash_mode a, c_new_bits := N, c_afl := save_first_trace ?e\<rparr>)"
    using fr hb rs c(2, 3) s(2, 4) lb by (simp add: settled_def save_first_trace_def cal_frame_set cal_entry_def)
  moreover have "stage_cur (save_first_trace ?e) = 0" using hb rs by (simp add: save_first_trace_def)
  ultimately show ?thesis using N by simp
qed

lemma stable_loop:
  assumes "stable_target w T (crash_mode a)" and "deliverable k mem a" and "instrumented T (test_of k mem a) a"
    and "c_afl s = a\<lparr>stage_cur := 0\<rparr>" "c_mem s = mem" "c_new_bits s = 0" "\<not> c_var s"
    and "q_exec_cksum (queue_buf a ! k) = 0" "path_hash w T (map_size (fsrv a)) (test_of k mem a) \<noteq> 0" and "0 < unat (stage_max a)" "unat (stage_max a) \<le> fuel"
  shows "\<exists>s'. calibrate_loop fuel w tmout k s = Inr (Some (False, s')) \<and>
    settled a k mem (path_hash w T (map_size (fsrv a)) (test_of k mem a)) (fst (has_new_bits VirginBits (with_trace (T (test_of k mem a)) a)))
      (virgin_bits (snd (has_new_bits VirginBits (with_trace (T (test_of k mem a)) a)))) s'"
proof -
  obtain n where n: "fuel = Suc n" using assms(10, 11) by (cases fuel) auto
  obtain s' where s': "calibrate_run w tmout k s = Inr (False, s')" "stage_cur (c_afl s') = 0"
    "settled a k mem (path_hash w T (map_size (fsrv a)) (test_of k mem a)) (fst (has_new_bits VirginBits (with_trace (T (test_of k mem a)) a)))
      (virgin_bits (snd (has_new_bits VirginBits (with_trace (T (test_of k mem a)) a)))) s'"
    using first_run_settles [OF assms(1-9)] by blast
  let ?t = "s'\<lparr>c_afl := (c_afl s')\<lparr>stage_cur := stage_cur (c_afl s') + 1\<rparr>\<rparr>"
  have "settled a k mem (path_hash w T (map_size (fsrv a)) (test_of k mem a)) (fst (has_new_bits VirginBits (with_trace (T (test_of k mem a)) a)))
      (virgin_bits (snd (has_new_bits VirginBits (with_trace (T (test_of k mem a)) a)))) ?t" using s'(3) by (simp add: settled_def)
  moreover have "unat (stage_max a) \<le> n + unat (stage_cur (c_afl ?t))" using assms(11) n s'(2) by simp
  ultimately obtain t where t: "calibrate_loop n w tmout k ?t = Inr (Some (False, t))"
    "settled a k mem (path_hash w T (map_size (fsrv a)) (test_of k mem a)) (fst (has_new_bits VirginBits (with_trace (T (test_of k mem a)) a)))
      (virgin_bits (snd (has_new_bits VirginBits (with_trace (T (test_of k mem a)) a)))) t"
    using calibrate_loop_settled [OF assms(1-3), of _ _ ?t n tmout] by blast
  have "0 < stage_max (c_afl s)" using assms(4, 10) by (simp add: word_less_nat_alt)
  then have "calibrate_loop fuel w tmout k s = calibrate_loop n w tmout k ?t" using s'(1) assms(4) n by simp
  then show ?thesis using t by simp
qed

lemma set_entry_rest [simp]:
  "custom_mutators_count (set_entry k f a) = custom_mutators_count a" "max_length (set_entry k f a) = max_length a"
  "crash_mode (set_entry k f a) = crash_mode a"
  by (simp_all add: set_entry_def)

lemma calibrate_start_stable:
  assumes "k < length (queue_buf a)" "q_exec_cksum (queue_buf a ! k) = 0"
  shows "deliverable k mem (calibrate_start k a) = deliverable k mem a" "test_of k mem (calibrate_start k a) = test_of k mem a"
    "instrumented T test (calibrate_start k a) = instrumented T test a" "crash_mode (calibrate_start k a) = crash_mode a"
    "fsrv (calibrate_start k a) = fsrv a" "virgin_bits (calibrate_start k a) = virgin_bits a" "var_bytes (calibrate_start k a) = var_bytes a"
    "queued_variable (calibrate_start k a) = queued_variable a" "q_exec_cksum (queue_buf (calibrate_start k a) ! k) = 0"
    "non_instrumented_mode (calibrate_start k a) = non_instrumented_mode a"
    "stage_max (calibrate_start k a) = (if afl_cal_fast (afl_env a) then 3 else 7)"
  using assms by (auto simp: calibrate_start_def Let_def keep_original_def deliverable_def test_of_def instrumented_def cal_consts)

lemma stable_finish:
  assumes "settled a k mem h N V s" and "stage_max a \<noteq> 0" and "k < length (queue_buf a)"
  shows "case calibrate_finish w start_us handicap first_run k s of
      Inl e \<Rightarrow> \<exists>c. update_bitmap_score (o_log1p w) k True c = Inl e
    | Inr t \<Rightarrow> k < length (queue_buf (c_afl t)) \<and> q_exec_cksum (queue_buf (c_afl t) ! k) = h \<and> var_bytes (c_afl t) = var_bytes a \<and>
        queued_variable (c_afl t) = queued_variable a \<and> virgin_bits (c_afl t) = V \<and> \<not> c_var t \<and>
        total_cal_cycles (c_afl t) = total_cal_cycles a + ucast (stage_max a) \<and>
        c_fault t = (if \<not> non_instrumented_mode a \<and> first_run \<and> crash_mode a = 0 \<and> N = 0 then FSRV_RUN_NOBITS else crash_mode a)"
proof -
  have f: "cal_frame a (c_afl s)" and m: "stage_max (c_afl s) = stage_max a" and e: "c_fault s = crash_mode a" "c_new_bits s = N" "\<not> c_var s"
    "q_exec_cksum (queue_buf (c_afl s) ! k) = h" "var_bytes (c_afl s) = var_bytes a" "virgin_bits (c_afl s) = V"
    using assms(1) by (simp_all add: settled_def)
  note d = cal_frameD [OF f]
  have s: "stage_max (c_afl s) \<noteq> 0" "k < length (queue_buf (c_afl s))" using m d(1) assms(2, 3) by simp_all
  note F = calibrate_finish_done [OF s, where w = w and start_us = start_us and handicap = handicap and first_run = first_run]
  show ?thesis
  proof (cases "calibrate_finish w start_us handicap first_run k s")
    case (Inl e)
    then show ?thesis using F by simp
  next
    case (Inr t)
    then show ?thesis using F s(2) e m d(5, 9, 11) by (simp add: cal_done_def cal_same_def)
  qed
qed

text \<open>
  C6: calibration of a stable target. If the target's trace depends on the test case only and the
  test case has not been calibrated before, \<open>calibrate_case\<close> finds nothing variable, leaves the checksum of
  the test case in the entry after the smallest number of cycles, clears in the virgin map what the
  trace covers, and reports \<open>FSRV_RUN_NOBITS\<close> exactly when that was nothing new. The only failure
  left is one of \<open>update_bitmap_score\<close>.
\<close>

theorem calibrate_case_stable:
  assumes "stable_target w T (crash_mode a)" and "deliverable k mem a" and "instrumented T (test_of k mem a) a"
    and "q_exec_cksum (queue_buf a ! k) = 0" and "path_hash w T (map_size (fsrv a)) (test_of k mem a) \<noteq> 0" and "7 \<le> fuel"
  shows "case calibrate_case w fuel k mem handicap from_queue a of
      Inl e \<Rightarrow> \<exists>c. update_bitmap_score (o_log1p w) k True c = Inl e
    | Inr None \<Rightarrow> False
    | Inr (Some (fault, b)) \<Rightarrow>
        q_exec_cksum (queue_buf b ! k) = path_hash w T (map_size (fsrv a)) (test_of k mem a) \<and>
        var_bytes b = var_bytes a \<and> queued_variable b = queued_variable a \<and>
        total_cal_cycles b = total_cal_cycles a + (if afl_cal_fast (afl_env a) then 3 else 7) \<and>
        (let (level, c) = has_new_bits VirginBits (with_trace (T (test_of k mem a)) a)
         in virgin_bits b = virgin_bits c \<and>
            fault = (if \<not> non_instrumented_mode a \<and> crash_mode a = 0 \<and> level = 0 then FSRV_RUN_NOBITS else crash_mode a))"
proof -
  have k: "k < length (queue_buf a)" using assms(2) by (simp add: deliverable_def)
  let ?b = "calibrate_start k a" and ?h = "path_hash w T (map_size (fsrv a)) (test_of k mem a)" and ?tr = "T (test_of k mem a)"
  let ?s = "\<lparr>c_mem = mem, c_fault = 0, c_new_bits = 0, c_var = False, c_afl = ?b\<lparr>stage_cur := 0\<rparr>\<rparr>"
  let ?tail = "calibrate_tail (afl_post_process_keep_original (afl_env a)) (stage_cur a) (stage_max a) k"
  note S = calibrate_start_stable [OF k assms(4)]
  define N where "N = fst (has_new_bits VirginBits (with_trace ?tr a))"
  define V where "V = virgin_bits (snd (has_new_bits VirginBits (with_trace ?tr a)))"
  have NV: "fst (has_new_bits VirginBits (with_trace ?tr ?b)) = N" "virgin_bits (snd (has_new_bits VirginBits (with_trace ?tr ?b))) = V"
    using has_new_bits_cong [of "with_trace ?tr ?b" "with_trace ?tr a"] S(5, 6) by (simp_all add: with_trace_def N_def V_def)
  have "\<exists>s'. calibrate_loop fuel w (use_tmout from_queue a) k ?s = Inr (Some (False, s')) \<and> settled ?b k mem ?h N V s'"
    using stable_loop [where a = ?b and s = ?s and w = w and T = T and k = k and mem = mem and fuel = fuel and tmout = "use_tmout from_queue a"]
      assms(1-3, 5, 6) S NV by simp
  then obtain s where s: "calibrate_loop fuel w (use_tmout from_queue a) k ?s = Inr (Some (False, s))" "settled ?b k mem ?h N V s" by blast
  have c: "calibrate_case w fuel k mem handicap from_queue a =
      rbind (calibrate_finish w (o_time_us w ?b) handicap True k s) (\<lambda>s. Inr (Some (?tail s)))"
    using s(1) S(9) assms(4) by (simp add: calibrate_case_def Let_def)
  have "stage_max ?b \<noteq> 0" "k < length (queue_buf ?b)" using S(11) calibrate_start_fields(2) [OF k] k by simp_all
  note F = stable_finish [OF s(2) this, where w = w and start_us = "o_time_us w ?b" and handicap = handicap and first_run = True]
  show ?thesis
  proof (cases "calibrate_finish w (o_time_us w ?b) handicap True k s")
    case (Inl e)
    then show ?thesis using F c by simp
  next
    case (Inr t)
    then have t: "k < length (queue_buf (c_afl t))" using F by simp
    have u: "(ucast (stage_max ?b) :: u64) = (if afl_cal_fast (afl_env a) then 3 else 7)" using S(11) by simp
    have e: "calibrate_case w fuel k mem handicap from_queue a = Inr (Some (?tail t))" using c Inr by simp
    note T = calibrate_tail_keeps [OF t refl, of "afl_post_process_keep_original (afl_env a)" "stage_cur a" "stage_max a"]
    show ?thesis
      unfolding e sum.case option.case split_beta Let_def N_def [symmetric] V_def [symmetric]
      using F Inr T(1, 7, 8, 11-13) u S(4, 7, 8, 10) calibrate_start_fields(5) [OF k] by simp
  qed
qed

text \<open>A target that covers the same edge for every test case, and a state with one new entry.\<close>

definition edge_world :: outside where
  "edge_world = \<lparr>o_run = (\<lambda>f t. (0, f\<lparr>trace_bits := [3, 0, 0, 0, 0, 0, 0, 0]\<rparr>, None, None)), o_san = (\<lambda>_ f t. (0, f, None, None)),
     o_signal = (\<lambda>_. 0), o_time = (\<lambda>_. 0), o_time_us = (\<lambda>_. 0), o_hash64 = (\<lambda>bs. ucast (hd bs)),
     o_log1p = (\<lambda>x. x), o_post = [], o_write = (\<lambda>_ n. [int n]), o_create = (\<lambda>_. True), o_exists = (\<lambda>_. False), o_chown = None, o_stdio = (\<lambda>_. Some 4096),
     o_new_entry = [], o_stat = (\<lambda>_. None), o_read = (\<lambda>_ _. None), o_describe = None, o_stack = blank\<rparr>"

definition edge_state :: afl_state where
  "edge_state = afl_zero\<lparr>fsrv := fsrv_zero\<lparr>map_size := 8, real_map_size := 8\<rparr>, max_length := 16, virgin_bits := replicate 8 255,
     queue_buf := [entry_zero\<lparr>q_len := 3\<rparr>], top_rated := replicate 8 None\<rparr>"

lemma edge_state_fields:
  "custom_mutators_count edge_state = 0" "max_length edge_state = 16" "queue_buf edge_state = [entry_zero\<lparr>q_len := 3\<rparr>]"
  "map_size (fsrv edge_state) = 8" "real_map_size (fsrv edge_state) = 8" "crash_mode edge_state = 0" "\<not> non_instrumented_mode edge_state"
  "virgin_bits edge_state = replicate 8 255" "\<not> afl_cal_fast (afl_env edge_state)" "total_cal_cycles edge_state = 0" "var_bytes edge_state = []"
  by (simp_all add: edge_state_def afl_zero_def env_zero_def)

lemma edge_classified: "classified 8 [3, 0, 0, 0, 0, 0, 0, 0] = [4, 0, 0, 0, 0, 0, 0, 0]"
  by (simp add: classified_def classify_counts_bytes count_class_lookup8_def)

lemma edge_level: "fst (has_new_bits VirginBits (with_trace [3, 0, 0, 0, 0, 0, 0, 0] edge_state)) = 2"
proof -
  have "discover_loop 1 0 [4, 0, 0, 0, 0, 0, 0, 0] (replicate 8 255) = (2, [251, 255, 255, 255, 255, 255, 255, 255])" by code_simp
  moreover have "words64 8 = 1" by code_simp
  ultimately show ?thesis by (simp add: has_new_bits_def with_trace_def edge_state_fields edge_classified)
qed

theorem calibrate_case_stable_witness:
  "case calibrate_case edge_world 7 0 [10, 11, 12] 0 True edge_state of
     Inl e \<Rightarrow> \<exists>c. update_bitmap_score (o_log1p edge_world) 0 True c = Inl e
   | Inr None \<Rightarrow> False
   | Inr (Some (fault, b)) \<Rightarrow> fault = 0 \<and> q_exec_cksum (queue_buf b ! 0) = 4 \<and> var_bytes b = [] \<and> total_cal_cycles b = 7"
proof -
  let ?T = "\<lambda>_ :: bytes. [3 :: u8, 0, 0, 0, 0, 0, 0, 0]"
  have st: "stable_target edge_world ?T (crash_mode edge_state)"
    by (simp add: stable_target_def replays_def edge_world_def fsrv_results edge_state_fields)
  have d: "deliverable 0 [10, 11, 12] edge_state" by (simp add: deliverable_def edge_state_fields MAX_FILE_def)
  have "count_bytes 8 [3, 0, 0, 0, 0, 0, 0, 0] = 1" by code_simp
  then have i: "instrumented ?T (test_of 0 [10, 11, 12] edge_state) edge_state" by (simp add: instrumented_def edge_state_fields)
  have h: "path_hash edge_world ?T (map_size (fsrv edge_state)) (test_of 0 [10, 11, 12] edge_state) = 4"
    by (simp add: path_hash_def edge_state_fields edge_classified) (simp add: edge_world_def)
  show ?thesis
    using calibrate_case_stable [OF st d i, of 7 0 True] h edge_level
    by (auto simp: edge_state_fields entry_zero_def split: sum.splits option.splits prod.splits)
qed

theorem calibrate_case_ends_witness:
  "case calibrate_case edge_world 12 0 [10, 11, 12] 0 True edge_state of
     Inl e \<Rightarrow> e = UB ''read past the test case'' \<or> (\<exists>c. update_bitmap_score (o_log1p edge_world) 0 True c = Inl e)
   | Inr None \<Rightarrow> False
   | Inr (Some (fault, b)) \<Rightarrow> q_cal_failed (queue_buf b ! 0) = 1 \<or> total_cal_cycles b \<in> {7, 12}"
  using calibrate_case_ends [of 0 edge_state edge_world "[10, 11, 12]" 0 True]
  by (auto simp: edge_state_fields entry_zero_def split: sum.splits option.splits)

text \<open>
  How variable bytes are marked. After \<open>mark_variable\<close> the bytes marked as variable are those
  that were marked before and those where the trace differs from the first one; the newly marked
  ones count as fully discovered in the virgin map, and the other bytes of the virgin map are as they were.
\<close>

theorem mark_variable_exact:
  assumes "i < unat (map_size (fsrv a))" and "unat (map_size (fsrv a)) \<le> length (var_bytes a)" and "unat (map_size (fsrv a)) \<le> length (virgin_bits a)"
  shows "(var_bytes (mark_variable a) ! i \<noteq> 0 \<longleftrightarrow> var_bytes a ! i \<noteq> 0 \<or> first_trace a ! i \<noteq> trace_bits (fsrv a) ! i) \<and>
    virgin_bits (mark_variable a) ! i =
      (if var_bytes a ! i = 0 \<and> var_bytes (mark_variable a) ! i \<noteq> 0 then 0 else virgin_bits a ! i)"
proof -
  obtain v g where "mark_variable a = a\<lparr>var_bytes := v, virgin_bits := g\<rparr>"
    "v ! i = (if var_bytes a ! i = 0 \<and> first_trace a ! i \<noteq> trace_bits (fsrv a) ! i then 1 else var_bytes a ! i)"
    "g ! i = (if var_bytes a ! i = 0 \<and> first_trace a ! i \<noteq> trace_bits (fsrv a) ! i then 0 else virgin_bits a ! i)"
    using mark_fold [OF assms(2, 3)] assms(1) unfolding mark_variable_def by (metis (no_types, lifting))
  then show ?thesis by auto
qed

theorem mark_variable_exact_witness:
  "virgin_bits (mark_variable (afl_zero\<lparr>fsrv := fsrv_zero\<lparr>map_size := 2, trace_bits := [1, 0]\<rparr>, first_trace := [1, 1], var_bytes := [0, 0], virgin_bits := [255, 255]\<rparr>)) ! 1 = 0"
  using mark_variable_exact [of 1 "afl_zero\<lparr>fsrv := fsrv_zero\<lparr>map_size := 2, trace_bits := [1, 0]\<rparr>, first_trace := [1, 1], var_bytes := [0, 0], virgin_bits := [255, 255]\<rparr>"]
  by simp

end
