(* ===== verification/Finds.thy ===== *)
theory Finds
  imports Calibrate Queue_Ops
begin

text \<open>
  What happens to an executed test case: \<open>save_if_interesting\<close>, \<open>describe_op\<close> and the helpers
  \<open>calculate_..._if_necessary\<close> of src/afl-fuzz-bitmap.c, \<open>write_crash_readme\<close> there with \<open>stringify_mem_size\<close> of
  src/afl-common.c, \<open>permissive_create\<close>, \<open>bitmap_set\<close> and \<open>bitmap_read\<close> of include/afl-fuzz.h, and
  \<open>common_fuzz_stuff\<close> of src/afl-fuzz-run.c. The introspection log, the \<open>infoexec\<close> command and the nyx
  logs are left out.
\<close>

section \<open>Constants\<close>

definition TMOUT_LIMIT :: u32 where
  "TMOUT_LIMIT = 250"

definition KEEP_UNIQUE_HANG :: u64 where
  "KEEP_UNIQUE_HANG = 512"

definition KEEP_UNIQUE_CRASH :: u64 where
  "KEEP_UNIQUE_CRASH = 25600"

definition N_FUZZ_SIZE :: u64 where
  "N_FUZZ_SIZE = 2 ^ 21"

definition SAN_CRASH_ONLY :: u8 where
  "SAN_CRASH_ONLY = 16"

definition NON_COV_INCREASE_BUG :: u8 where
  "NON_COV_INCREASE_BUG = 32"

section \<open>File names\<close>

text \<open>The conversions of \<open>printf\<close> that the file names use: \<open>%u\<close>, \<open>%06u\<close>, \<open>%d\<close> and \<open>%+d\<close>.\<close>

definition digit :: "nat \<Rightarrow> char" where
  "digit n = char_of (48 + n)"

function dec :: "nat \<Rightarrow> string" where
  "dec n = (if n < 10 then [digit n] else dec (n div 10) @ [digit (n mod 10)])"
  by pat_completeness auto
termination by (relation "measure (\<lambda>n. n)") simp_all

declare dec.simps [simp del]

definition dec06 :: "nat \<Rightarrow> string" where
  "dec06 n = replicate (6 - length (dec n)) (CHR ''0'') @ dec n"

definition dec_signed :: "int \<Rightarrow> string" where
  "dec_signed i = (if i < 0 then CHR ''-'' # dec (nat (- i)) else dec (nat i))"

definition dec_plus :: "int \<Rightarrow> string" where
  "dec_plus i = (if i < 0 then CHR ''-'' # dec (nat (- i)) else CHR ''+'' # dec (nat i))"

definition describe_source :: "outside \<Rightarrow> afl_state \<Rightarrow> string" where
  "describe_source w a =
     ''src:'' @ dec06 (unat (current_entry a)) @
     (if 0 \<le> splicing_with a then ''+'' @ dec06 (nat (splicing_with a)) else []) @
     '',time:'' @ dec (unat (o_time w a + prev_run_time a - start_time a)) @ '',execs:'' @ dec (unat (total_execs (fsrv a)))"

definition describe_stage :: "afl_state \<Rightarrow> string" where
  "describe_stage a =
     '',op:'' @ stage_short a @
     (if 0 \<le> stage_cur_byte a
      then '',pos:'' @ dec_signed (stage_cur_byte a) @
           (if stage_val_type a \<noteq> STAGE_VAL_NONE
            then '',val:'' @ (if stage_val_type a = STAGE_VAL_BE then ''be:'' else []) @ dec_plus (stage_cur_val a) else [])
      else '',rep:'' @ dec_signed (stage_cur_val a))"

text \<open>\<open>describe_op\<close> writes into a buffer of 256 bytes before it checks the length.\<close>

definition describe_op :: "outside \<Rightarrow> u8 \<Rightarrow> nat \<Rightarrow> afl_state \<Rightarrow> string res" where
  "describe_op w new_bits max_description_len a =
     (let is_timeout = (new_bits AND 0xf0 \<noteq> 0);
          new_bits = (if is_timeout then new_bits - 0x80 else new_bits);
          real_max_len = min max_description_len 256
      in rbind (case syncing_party a of
                  Some party \<Rightarrow>
                    Inr (''sync:'' @ party @ '',src:'' @ (case foreign_file a of Some f \<Rightarrow> take 20 f | None \<Rightarrow> dec06 (unat (syncing_case a))))
                | None \<Rightarrow>
                    case o_describe w of
                      Some describe \<Rightarrow>
                        let ret = describe_source w a @ '','';
                            size_left = int real_max_len - int (length ret) - 5 - 2 - (if is_timeout then 6 else 0)
                        in if size_left \<le> 0 then Inl (FATAL ''filename got too long'')
                           else Inr (ret @ (case describe size_left of
                                  Some d \<Rightarrow> if d = [] then ''op:'' @ stage_short a else take (nat size_left) d
                                | None \<Rightarrow> ''op:'' @ stage_short a))
                    | None \<Rightarrow> Inr (describe_source w a @ describe_stage a)) (\<lambda>ret.
           let ret = ret @ (if is_timeout then '',+tout'' else []) @ (if new_bits = 2 then '',+cov'' else []) @
                 (if san_case_status a AND SAN_CRASH_ONLY \<noteq> 0 then '',+san'' else []) @
                 (if san_case_status a AND NON_COV_INCREASE_BUG \<noteq> 0 then '',+noncov'' else [])
           in if 256 \<le> length ret then Inl (UB ''write past describe_op_buf_256'')
              else if max_description_len \<le> length ret then Inl (FATAL ''describe string is too long'')
              else Inr ret))"

definition extension :: "afl_state \<Rightarrow> string" where
  "extension a = (case file_extension a of None \<Rightarrow> [] | Some e \<Rightarrow> ''.'' @ e)"

text \<open>
  \<open>sha1_hex\<close> returns for every buffer a \<open>u32\<close> length describes, so the default below is never used.
\<close>

definition sha1_name :: "outside \<Rightarrow> bytes \<Rightarrow> string" where
  "sha1_name w mem = (case sha1_hex (o_stack w) mem of Some h \<Rightarrow> h | None \<Rightarrow> [])"

definition queue_name :: "outside \<Rightarrow> u8 \<Rightarrow> bytes \<Rightarrow> afl_state \<Rightarrow> string res" where
  "queue_name w new_bits mem a =
     (if \<not> afl_sha1_filenames (afl_env a)
      then rbind (describe_op w new_bits 245 a) (\<lambda>d.
             Inr (out_dir a @ ''/queue/id:'' @ dec06 (unat (queued_items a)) @ '','' @ d @ extension a))
      else Inr (out_dir a @ ''/queue/'' @ sha1_name w mem @ extension a))"

definition PATH_MAX :: nat where
  "PATH_MAX = 4096"

definition hang_name :: "outside \<Rightarrow> bytes \<Rightarrow> afl_state \<Rightarrow> string res" where
  "hang_name w mem a =
     (if \<not> afl_sha1_filenames (afl_env a)
      then rbind (describe_op w 0 245 a) (\<lambda>d.
             Inr (take (PATH_MAX - 1) (out_dir a @ ''/hangs/id:'' @ dec06 (unat (saved_hangs a)) @ '','' @ d @ extension a)))
      else Inr (take (PATH_MAX - 1) (out_dir a @ ''/hangs/'' @ sha1_name w mem @ extension a)))"

definition dec02 :: "nat \<Rightarrow> string" where
  "dec02 n = replicate (2 - length (dec n)) (CHR ''0'') @ dec n"

definition crash_name :: "outside \<Rightarrow> bytes \<Rightarrow> afl_state \<Rightarrow> string res" where
  "crash_name w mem a =
     (if \<not> afl_sha1_filenames (afl_env a)
      then rbind (describe_op w 0 238 a) (\<lambda>d.
             Inr (take (PATH_MAX - 1) (out_dir a @ ''/crashes/id:'' @ dec06 (unat (saved_crashes a)) @ '',sig:'' @
                    dec02 (unat (last_kill_signal (fsrv a))) @ '','' @ d @ extension a)))
      else Inr (take (PATH_MAX - 1) (out_dir a @ ''/crashes/'' @ sha1_name w mem @ extension a)))"

section \<open>Writing a find\<close>

text \<open>
  The result says whether there is a file descriptor to write to. When the file exists already the
  descriptor is -1, and changing its group fails.
\<close>

definition permissive_create :: "outside \<Rightarrow> string \<Rightarrow> afl_state \<Rightarrow> bool res" where
  "permissive_create w fn a =
     (if o_create w fn
      then if o_chown w = Some False then Inl (PFATAL ''fchown() failed'') else Inr True
      else if \<not> (afl_sha1_filenames (afl_env a) \<and> o_exists w fn) then Inl (PFATAL ''Unable to create'')
      else if o_chown w \<noteq> None then Inl (PFATAL ''fchown() failed'') else Inr False)"

definition save_file :: "outside \<Rightarrow> string \<Rightarrow> bytes \<Rightarrow> u32 \<Rightarrow> afl_state \<Rightarrow> afl_state option res" where
  "save_file w fn mem len a =
     rbind (permissive_create w fn a) (\<lambda>fd.
       if fd
       then if length mem < unat len then Inl (UB ''read past the test case'')
            else case ck_write (o_write w fn (unat len)) (take (unat len) mem) of
                   None \<Rightarrow> Inr None
                 | Some bs \<Rightarrow> Inr (Some (a\<lparr>disk := disk a @ [(fn, bs)]\<rparr>))
       else Inr (Some a))"

section \<open>The note beside the first crash\<close>

text \<open>
  \<open>stringify_mem_size\<close>: \<open>fixed1\<close> and \<open>fixed2\<close> are \<open>%0.01f\<close> and \<open>%0.02f\<close>, which round the exact value of the
  double half to even, and \<open>below\<close> is the comparison of the macro \<open>CHK_FORMAT\<close> in doubles. Every result
  is shorter than the buffer of 16 bytes.
\<close>

definition fixed1 :: "dbl \<Rightarrow> string" where
  "fixed1 d = (case d of Fin x \<Rightarrow> let n = nat (rne (10 * x)) in dec (n div 10) @ ''.'' @ dec (n mod 10) | _ \<Rightarrow> ''inf'')"

definition fixed2 :: "dbl \<Rightarrow> string" where
  "fixed2 d = (case d of Fin x \<Rightarrow> let n = nat (rne (100 * x)) in dec (n div 100) @ ''.'' @ dec02 (n mod 100) | _ \<Rightarrow> ''inf'')"

definition below :: "u64 \<Rightarrow> u64 \<Rightarrow> rat \<Rightarrow> bool" where
  "below val divisor limit_mult \<longleftrightarrow> dlt (d_of_u val) (dmul (d_of_u divisor) (mkd limit_mult))"

definition stringify_mem_size :: "u64 \<Rightarrow> string" where
  "stringify_mem_size val =
     (let kb = 1024; mb = kb * 1024; gb = mb * 1024; tb = gb * 1024; per = (\<lambda>divisor. ddiv (d_of_u val) (d_of_u divisor))
      in if val < 10000 then dec (unat val) @ '' B''
         else if below val kb (1999 / 20) then fixed1 (per kb) @ '' kB''
         else if val < kb * 1000 then dec (unat (val div kb)) @ '' kB''
         else if below val mb (1999 / 200) then fixed2 (per mb) @ '' MB''
         else if below val mb (1999 / 20) then fixed1 (per mb) @ '' MB''
         else if val < mb * 1000 then dec (unat (val div mb)) @ '' MB''
         else if below val gb (1999 / 200) then fixed2 (per gb) @ '' GB''
         else if below val gb (1999 / 20) then fixed1 (per gb) @ '' GB''
         else if val < gb * 1000 then dec (unat (val div gb)) @ '' GB''
         else if below val tb (1999 / 200) then fixed2 (per tb) @ '' TB''
         else if below val tb (1999 / 20) then fixed1 (per tb) @ '' TB''
         else ''infty'')"

definition nl :: string where
  "nl = [CHR 0x0A]"

definition crash_readme :: "afl_state \<Rightarrow> string" where
  "crash_readme a =
     ''Command line used to find this crash:'' @ nl @ nl @ orig_cmdline a @ nl @ nl @
     ''If you can't reproduce a bug outside of afl-fuzz, be sure to set the same'' @ nl @
     ''memory limit. The limit used for this fuzzing session was '' @
     stringify_mem_size (push_bit 20 (mem_limit (fsrv a))) @ ''.'' @ nl @ nl @
     ''Need a tool to minimize test cases before investigating the crashes or sending'' @ nl @
     ''them to a vendor? Check out the afl-tmin that comes with the fuzzer!'' @ nl @ nl @
     ''Found any cool bugs in open-source tools using afl-fuzz? If yes, please post'' @ nl @
     ''to https://github.com/AFLplusplus/AFLplusplus/issues/286 once the issues'' @ nl @
     '' are fixed :)'' @ nl @ nl"

definition readme_name :: "afl_state \<Rightarrow> string" where
  "readme_name a = out_dir a @ ''/crashes/README.txt''"

definition write_crash_readme :: "outside \<Rightarrow> afl_state \<Rightarrow> afl_state res" where
  "write_crash_readme w a =
     (let fn = readme_name a
      in if PATH_MAX \<le> length fn then Inl (UB ''write past fn'')
         else if \<not> o_create w fn then Inr a
         else if o_chown w = Some False then Inl (PFATAL ''fchown() failed'')
         else let bs = (case o_stdio w fn of None \<Rightarrow> [] | Some n \<Rightarrow> take n (map of_char (crash_readme a)))
              in Inr (a\<lparr>disk := disk a @ [(fn, bs)]\<rparr>))"

section \<open>Facts computed on demand\<close>

text \<open>The locals of \<open>save_if_interesting\<close>.\<close>

record find =
  f_mem :: bytes
  f_len :: u32
  f_fault :: u8
  f_keeping :: bool
  f_timeout :: u8
  f_classified :: bool
  f_counted :: bool
  f_cksumed :: bool
  f_new_bits :: u8
  f_cksum :: u64
  f_afl :: afl_state

definition classify_if_necessary :: "find \<Rightarrow> find" where
  "classify_if_necessary s =
     (if f_classified s then s
      else s\<lparr>f_classified := True, f_afl := (f_afl s)\<lparr>fsrv := classify_counts (fsrv (f_afl s))\<rparr>\<rparr>)"

definition calculate_cksum_if_necessary :: "outside \<Rightarrow> find \<Rightarrow> find" where
  "calculate_cksum_if_necessary w s =
     (if f_cksumed s then s
      else let s = classify_if_necessary s; f = fsrv (f_afl s)
           in s\<lparr>f_cksumed := True, f_cksum := o_hash64 w (take (unat (map_size f)) (trace_bits f))\<rparr>)"

definition calculate_new_bits_if_necessary :: "find \<Rightarrow> find" where
  "calculate_new_bits_if_necessary s =
     (if f_counted s then s
      else if f_classified s
      then let (n, a) = has_new_bits VirginBits (f_afl s) in s\<lparr>f_counted := True, f_new_bits := n, f_afl := a\<rparr>
      else let (n, c, a) = has_new_bits_unclassified VirginBits (f_afl s)
           in s\<lparr>f_counted := True, f_new_bits := n, f_classified := c, f_afl := a\<rparr>)"

definition count_path :: "u64 \<Rightarrow> afl_state \<Rightarrow> afl_state" where
  "count_path cksum a =
     (let i = unat (cksum mod N_FUZZ_SIZE)
      in if n_fuzz a i < 0xFFFFFFFF then a\<lparr>n_fuzz := (n_fuzz a)(i := n_fuzz a i + 1)\<rparr> else a)"

definition path_schedule :: "afl_state \<Rightarrow> bool" where
  "path_schedule a \<longleftrightarrow> FAST \<le> schedule a \<and> schedule a \<le> RARE"

section \<open>Sanitizers\<close>

definition bitmap_set :: "(nat \<Rightarrow> u8) \<Rightarrow> u32 \<Rightarrow> nat \<Rightarrow> u8" where
  "bitmap_set m index = (let i = unat index div 8 in m(i := m i OR push_bit (unat index mod 8) 1))"

definition bitmap_read :: "(nat \<Rightarrow> u8) \<Rightarrow> u32 \<Rightarrow> u8" where
  "bitmap_read m index = drop_bit (unat index mod 8) (m (unat index div 8)) AND 1"

definition hash32 :: "outside \<Rightarrow> bytes \<Rightarrow> u32" where
  "hash32 w bs = ucast (o_hash64 w bs)"

definition feed_simplified :: "outside \<Rightarrow> find \<Rightarrow> bool \<times> find" where
  "feed_simplified w s =
     (let a = f_afl s; n = map_size (fsrv a); f = san_fsrvs a ! 0;
          tr = simplify_trace n (overwrite (take (unat n) (trace_bits (fsrv a))) (trace_bits f));
          a = a\<lparr>san_fsrvs := (san_fsrvs a)[0 := f\<lparr>trace_bits := tr\<rparr>]\<rparr>;
          cksum_simplified = hash32 w (take (unat n) tr)
      in if bitmap_read (simplified_n_fuzz a) cksum_simplified = 0
         then (True, s\<lparr>f_afl := a\<lparr>simplified_n_fuzz := bitmap_set (simplified_n_fuzz a) cksum_simplified\<rparr>\<rparr>)
         else (False, s\<lparr>f_afl := a\<rparr>))"

text \<open>The lookup uses \<open>cksum\<close> where the update uses \<open>cksum_unique\<close>, as in the code.\<close>

definition feed_unique :: "outside \<Rightarrow> find \<Rightarrow> bool \<times> find" where
  "feed_unique w s =
     (let s = classify_if_necessary s; a = f_afl s; f = fsrv a;
          cksum_unique = hash32 w (take (unat (map_size f)) (trace_bits f))
      in if bitmap_read (n_fuzz_dup a) (ucast (f_cksum s)) = 0 \<and> f_fault s = crash_mode a
         then (True, s\<lparr>f_afl := a\<lparr>n_fuzz_dup := bitmap_set (n_fuzz_dup a) cksum_unique\<rparr>\<rparr>)
         else (False, s))"

definition feed_san :: "outside \<Rightarrow> find \<Rightarrow> bool \<times> find" where
  "feed_san w s =
     (if san_binary_length (f_afl s) = 0 then (False, s)
      else case san_abstraction (f_afl s) of
             SIMPLIFY_TRACE \<Rightarrow> feed_simplified w s
           | COVERAGE_INCREASE \<Rightarrow> let s = calculate_new_bits_if_necessary s in (f_new_bits s \<noteq> 0, s)
           | UNIQUE_TRACE \<Rightarrow> feed_unique w s)"

text \<open>\<open>fuzz_run_target\<close> on the fork server of a sanitizer binary, which shares the test case with the main one.\<close>

definition exec_san :: "outside \<Rightarrow> nat \<Rightarrow> afl_state \<Rightarrow> u8 \<times> afl_state" where
  "exec_san w i a =
     (let f = san_fsrvs a ! i;
          (res, f', c, m) = o_san w i (f\<lparr>shmem_fuzz := shmem_fuzz (fsrv a)\<rparr>) (exec_tmout f);
          a = energy_hook (a\<lparr>san_fsrvs := (san_fsrvs a)[i := f'], cpu_energy_map := store_reading (cpu_energy_map a) c,
                            mem_energy_map := store_reading (mem_energy_map a) m\<rparr>)
      in (res, a\<lparr>stop_soon := o_signal w a\<rparr>))"

fun san_loop :: "outside \<Rightarrow> nat list \<Rightarrow> u8 \<Rightarrow> find \<Rightarrow> (u8 \<times> find) res" where
  "san_loop w [] san_fault s = Inr (san_fault, s)"
| "san_loop w (i # is) san_fault s =
     rbind (write_to_testcase w (f_mem s) (f_len s) False (f_afl s)) (\<lambda>(mem, len, a).
       let (res, a) = exec_san w i a;
           a = (if res \<noteq> 0 \<and> f_fault s = crash_mode a then a\<lparr>san_case_status := san_case_status a OR SAN_CRASH_ONLY\<rparr> else a);
           s = s\<lparr>f_mem := mem, f_len := len, f_afl := a\<rparr>
       in if res = FSRV_RUN_CRASH then Inr (res, s) else san_loop w is FSRV_RUN_OK s)"

definition run_sanitizers :: "outside \<Rightarrow> find \<Rightarrow> (u8 \<times> find) res" where
  "run_sanitizers w s =
     (let (feed, s) = feed_san w s
      in if feed then san_loop w [0..<unat (san_binary_length (f_afl s))] 0 s else Inr (0, s))"

section \<open>Saving to the queue\<close>

definition enter_find :: "nat \<Rightarrow> find \<Rightarrow> afl_state \<Rightarrow> afl_state" where
  "enter_find k s a =
     (let a = (if fuzz_mode a \<noteq> 0 \<and> switch_fuzz_mode a \<noteq> 0 \<and> \<not> non_instrumented_mode a then a\<lparr>fuzz_mode := 0\<rparr> else a);
          a = set_entry k (q_exec_cksum_update (\<lambda>_. f_cksum s)) a;
          a = (if f_new_bits s = 2
               then (set_entry k (q_has_new_cov_update (\<lambda>_. True)) a)\<lparr>queued_with_cov := queued_with_cov a + 1\<rparr> else a)
      in if path_schedule a
         then let e = ucast (f_cksum s mod N_FUZZ_SIZE)
              in (set_entry k (q_n_fuzz_entry_update (\<lambda>_. e)) a)\<lparr>n_fuzz := (n_fuzz a)(unat e := 1)\<rparr>
         else a)"

definition calibrate_find :: "outside \<Rightarrow> nat \<Rightarrow> bytes \<Rightarrow> afl_state \<Rightarrow> afl_state option res" where
  "calibrate_find w k mem a =
     rbind (calibrate_case w 12 k mem (ucast (queue_cycle a - 1)) False a) (\<lambda>r. case r of
       None \<Rightarrow> Inr None
     | Some (res, a) \<Rightarrow>
         if res = FSRV_RUN_ERROR then Inl (FATAL ''Unable to execute target application'')
         else if q_testcase_max_cache_size a \<noteq> 0
         then rbind (queue_testcase_store_mem k mem a) (\<lambda>a. Inr (Some a)) else Inr (Some a))"

definition save_to_queue :: "outside \<Rightarrow> find \<Rightarrow> find option res" where
  "save_to_queue w s =
     (let s = calculate_new_bits_if_necessary (calculate_cksum_if_necessary w s); a = f_afl s
      in rbind (queue_name w (f_new_bits s + f_timeout s) (take (unat (f_len s)) (f_mem s)) a) (\<lambda>queue_fn.
         rbind (save_file w queue_fn (f_mem s) (f_len s) a) (\<lambda>r. case r of
           None \<Rightarrow> Inr None
         | Some a \<Rightarrow>
             rbind (add_to_queue (o_time w a) (o_new_entry w) (o_stat w) (o_read w) queue_fn (f_len s) False a) (\<lambda>a.
               case queue_top a of
                 None \<Rightarrow> Inl (UB ''null pointer'')
               | Some k \<Rightarrow>
                   rbind (calibrate_find w k (f_mem s) (enter_find k s a)) (\<lambda>r.
                     Inr (map_option (\<lambda>a. s\<lparr>f_keeping := True, f_afl := a\<rparr>) r))))))"

section \<open>Hangs and crashes\<close>

text \<open>What the \<open>switch\<close> decides: return, save to a file, or jump back to \<open>save_to_queue\<close>.\<close>

datatype verdict = Return | Save string | Requeue

definition unique_fault :: "vmap \<Rightarrow> find \<Rightarrow> bool \<times> find" where
  "unique_fault vm s =
     (let a = f_afl s
      in if non_instrumented_mode a then (True, s)
         else let a = a\<lparr>fsrv := (fsrv a)\<lparr>trace_bits := simplify_trace (map_size (fsrv a)) (trace_bits (fsrv a))\<rparr>\<rparr>;
                  (n, a) = has_new_bits vm a
              in (n \<noteq> 0, s\<lparr>f_afl := a\<rparr>))"

definition keep_as_crash :: "outside \<Rightarrow> find \<Rightarrow> (verdict \<times> find) res" where
  "keep_as_crash w s =
     (let a = (f_afl s)\<lparr>total_crashes := total_crashes (f_afl s) + 1\<rparr>; s = s\<lparr>f_afl := a\<rparr>
      in if KEEP_UNIQUE_CRASH \<le> saved_crashes a then Inr (Return, s)
         else let (unique, s) = unique_fault VirginCrash s; a = f_afl s
              in if \<not> unique then Inr (Return, s)
                 else rbind (if saved_crashes a = 0 \<and> afl_no_crash_readme (afl_env a) \<noteq> 1 then write_crash_readme w a else Inr a) (\<lambda>a.
                      rbind (crash_name w (take (unat (f_len s)) (f_mem s)) a) (\<lambda>fn.
                        Inr (Save fn, s\<lparr>f_afl := a\<lparr>saved_crashes := saved_crashes a + 1, last_crash_time := o_time w a,
                                              last_crash_execs := total_execs (fsrv a)\<rparr>\<rparr>))))"

definition keep_as_hang :: "outside \<Rightarrow> find \<Rightarrow> (verdict \<times> find) res" where
  "keep_as_hang w s =
     (let a = f_afl s
      in rbind (hang_name w (take (unat (f_len s)) (f_mem s)) a) (\<lambda>fn.
           Inr (Save fn, s\<lparr>f_afl := a\<lparr>saved_hangs := saved_hangs a + 1, last_hang_time := o_time w a\<rparr>\<rparr>)))"

definition rerun_hang :: "outside \<Rightarrow> find \<Rightarrow> (u8 \<times> find) res" where
  "rerun_hang w s =
     rbind (write_to_testcase w (f_mem s) (f_len s) False (f_afl s)) (\<lambda>(mem, tmp_len, a).
     rbind (if tmp_len \<noteq> 0 then Inr (mem, tmp_len, a) else write_to_testcase w mem (f_len s) True a) (\<lambda>(mem, len, a).
       let (new_fault, a) = exec_target w (hang_tmout a) a
       in Inr (new_fault, s\<lparr>f_mem := mem, f_len := len, f_classified := False, f_counted := False, f_cksumed := False, f_afl := a\<rparr>)))"

definition check_hang :: "outside \<Rightarrow> find \<Rightarrow> (verdict \<times> find) res" where
  "check_hang w s =
     (let a = (f_afl s)\<lparr>total_tmouts := total_tmouts (f_afl s) + 1\<rparr>; s = s\<lparr>f_afl := a\<rparr>
      in if KEEP_UNIQUE_HANG \<le> saved_hangs a then Inr (Return, s)
         else let (unique, s) = unique_fault VirginTmout s
              in if \<not> unique then Inr (Return, s)
                 else let s = s\<lparr>f_timeout := 0x80\<rparr>
                      in if exec_tmout (fsrv (f_afl s)) < hang_tmout (f_afl s)
                         then rbind (rerun_hang w s) (\<lambda>(new_fault, s).
                                let a = f_afl s
                                in if stop_soon a = 0 \<and> new_fault = FSRV_RUN_CRASH then keep_as_crash w s
                                   else if stop_soon a \<noteq> 0 \<or> new_fault \<noteq> FSRV_RUN_TMOUT
                                   then if afl_keep_timeouts (afl_env a)
                                        then Inr (Requeue, s\<lparr>f_afl := a\<lparr>saved_tmouts := saved_tmouts a + 1\<rparr>\<rparr>)
                                        else Inr (Return, s)
                                   else keep_as_hang w s)
                         else keep_as_hang w s)"

definition may_save_fault :: "outside \<Rightarrow> find \<Rightarrow> (verdict \<times> find) res" where
  "may_save_fault w s =
     (if f_fault s = FSRV_RUN_TMOUT then check_hang w s
      else if f_fault s = FSRV_RUN_CRASH then keep_as_crash w s
      else if f_fault s = FSRV_RUN_ERROR then Inl (FATAL ''Unable to execute target application'')
      else Inr (Return, s))"

text \<open>
  The code from the label \<open>may_save_fault\<close> on, with its jumps back to \<open>save_to_queue\<close>; the fuel bounds the
  number of jumps.
\<close>

fun settle_fault :: "nat \<Rightarrow> outside \<Rightarrow> find \<Rightarrow> (bool \<times> afl_state) option res" where
  "settle_fault 0 w s = Inr None"
| "settle_fault (Suc n) w s =
     rbind (may_save_fault w s) (\<lambda>(verdict, s). case verdict of
       Return \<Rightarrow> Inr (Some (f_keeping s, f_afl s))
     | Save fn \<Rightarrow> rbind (save_file w fn (f_mem s) (f_len s) (f_afl s)) (\<lambda>r. Inr (map_option (Pair (f_keeping s)) r))
     | Requeue \<Rightarrow> rbind (save_to_queue w s) (\<lambda>r. case r of None \<Rightarrow> Inr None | Some s \<Rightarrow> settle_fault n w s))"

section \<open>The whole handler\<close>

definition start_find :: "outside \<Rightarrow> bytes \<Rightarrow> u32 \<Rightarrow> u8 \<Rightarrow> afl_state \<Rightarrow> find" where
  "start_find w mem len fault a =
     (let s = \<lparr>f_mem = mem, f_len = len, f_fault = fault, f_keeping = False, f_timeout = 0, f_classified = False, f_counted = False,
               f_cksumed = False, f_new_bits = 0, f_cksum = 0, f_afl = a\<lparr>san_case_status := 0\<rparr>\<rparr>
      in if path_schedule a
         then let s = calculate_cksum_if_necessary w s in s\<lparr>f_afl := count_path (f_cksum s) (f_afl s)\<rparr>
         else s)"

definition ignore_timeout :: "outside \<Rightarrow> afl_state \<Rightarrow> afl_state" where
  "ignore_timeout w a =
     (if path_schedule a
      then let a = a\<lparr>fsrv := classify_counts (fsrv a)\<rparr>
           in count_path (o_hash64 w (take (unat (map_size (fsrv a))) (trace_bits (fsrv a)))) a
      else a)"

text \<open>A run without a fault, after the sanitizers: keep it if it covers something new.\<close>

definition keep_if_new :: "outside \<Rightarrow> nat \<Rightarrow> u8 \<Rightarrow> find \<Rightarrow> (bool \<times> afl_state) option res" where
  "keep_if_new w fuel san_fault s =
     (let s = calculate_new_bits_if_necessary s; a = f_afl s
      in if f_new_bits s = 0
         then if san_fault = FSRV_RUN_OK
              then Inr (Some (False, if crash_mode a \<noteq> 0 then a\<lparr>total_crashes := total_crashes a + 1\<rparr> else a))
              else settle_fault fuel w (s\<lparr>f_fault := san_fault, f_afl := a\<lparr>san_case_status := san_case_status a OR NON_COV_INCREASE_BUG\<rparr>\<rparr>)
         else rbind (save_to_queue w (s\<lparr>f_fault := san_fault\<rparr>)) (\<lambda>r. case r of None \<Rightarrow> Inr None | Some s \<Rightarrow> settle_fault fuel w s))"

definition save_if_interesting :: "outside \<Rightarrow> nat \<Rightarrow> bytes \<Rightarrow> u32 \<Rightarrow> u8 \<Rightarrow> afl_state \<Rightarrow> (bool \<times> afl_state) option res" where
  "save_if_interesting w fuel mem len fault a =
     (if len = 0 then Inr (Some (False, a))
      else if fault = FSRV_RUN_TMOUT \<and> afl_ignore_timeouts (afl_env a) then Inr (Some (False, ignore_timeout w a))
      else let s = start_find w mem len fault a
           in if fault = crash_mode a then rbind (run_sanitizers w s) (\<lambda>(san_fault, s). keep_if_new w fuel san_fault s)
              else settle_fault fuel w s)"

text \<open>\<open>common_fuzz_stuff\<close>: the flag returned asks to abandon the current entry.\<close>

definition common_fuzz_stuff :: "outside \<Rightarrow> nat \<Rightarrow> bytes \<Rightarrow> u32 \<Rightarrow> afl_state \<Rightarrow> (bool \<times> afl_state) option res" where
  "common_fuzz_stuff w fuel out_buf len a =
     rbind (write_to_testcase w out_buf len False a) (\<lambda>(out_buf, len, a).
       if len = 0 then Inr (Some (False, a))
       else let (fault, a) = exec_target w (exec_tmout (fsrv a)) a
            in if stop_soon a \<noteq> 0 then Inr (Some (True, a))
               else let many = (fault = FSRV_RUN_TMOUT \<and> TMOUT_LIMIT < subseq_tmouts a);
                        a = a\<lparr>subseq_tmouts := if fault = FSRV_RUN_TMOUT then subseq_tmouts a + 1 else 0\<rparr>
                    in if many then Inr (Some (True, a\<lparr>cur_skipped_items := cur_skipped_items a + 1\<rparr>))
                       else if skip_requested a \<noteq> 0
                       then Inr (Some (True, a\<lparr>skip_requested := 0, cur_skipped_items := cur_skipped_items a + 1\<rparr>))
                       else rbind (save_if_interesting w fuel out_buf len fault a) (\<lambda>r.
                              Inr (map_option (\<lambda>(keeping, a). (False, a\<lparr>queued_discovered := queued_discovered a + (if keeping then 1 else 0)\<rparr>)) r)))"

section \<open>What saving to the queue changes\<close>

definition save_core :: "afl_state \<Rightarrow> afl_state" where
  "save_core a = a\<lparr>fsrv := fsrv_zero, cpu_energy_map := None, mem_energy_map := None, stop_soon := 0, queue_buf := [],
     virgin_bits := [], bitmap_changed := False, var_bytes := [], stage_cur := 0, stage_max := 0, first_trace := [],
     afl_env := (afl_env a)\<lparr>afl_post_process_keep_original := False\<rparr>, total_cal_us := 0, total_cal_cycles := 0, total_cpu_energy := 0, total_mem_energy := 0,
     min_cpu_energy := 0, max_cpu_energy := 0, min_mem_energy := 0, max_mem_energy := 0, total_bitmap_size := 0,
     total_bitmap_entries := 0, top_rated := [], score_changed := False, queued_with_cov := 0, var_byte_count := 0,
     queued_variable := 0, queue := None, queue_top := None, queued_items := 0, active_items := 0, pending_not_fuzzed := 0,
     cycles_wo_finds := 0, max_depth := 0, ready_for_splicing_count := 0, longest_find_time := 0, last_find_time := 0,
     fuzz_mode := 0, n_fuzz := (\<lambda>_. 0), q_testcase_cache := [], q_testcase_cache_size := 0, q_testcase_cache_count := 0,
     q_testcase_max_cache_count := 0, q_testcase_smallest_free := 0, disk := []\<rparr>"

lemma save_core_of:
  "save_core (cal_core a) = save_core a" "save_core (run_core a) = save_core a" "save_core (state_core a) = save_core a"
  by (simp_all add: save_core_def cal_core_def run_core_def state_core_def)

lemma save_core_run: "run_frame a b \<Longrightarrow> save_core b = save_core a"
  using save_core_of(2) by (metis run_frame_def)

lemma save_core_cal: "cal_frame a b \<Longrightarrow> save_core b = save_core a"
  using save_core_of(1) by (metis cal_frame_def)

lemma save_core_score: "score_frame a b \<Longrightarrow> save_core b = save_core a"
  using save_core_of(3) by (metis score_frame_def)

lemma save_core_simps [simp]:
  "save_core (set_entry k f a) = save_core a" "save_core (a\<lparr>fsrv := x1\<rparr>) = save_core a" "save_core (a\<lparr>stage_cur := x2\<rparr>) = save_core a"
  "save_core (a\<lparr>stage_max := x2\<rparr>) = save_core a" "save_core (a\<lparr>disk := x3\<rparr>) = save_core a" "save_core (a\<lparr>n_fuzz := x4\<rparr>) = save_core a"
  "save_core (a\<lparr>queued_with_cov := x5\<rparr>) = save_core a" "save_core (a\<lparr>fuzz_mode := x6\<rparr>) = save_core a"
  by (simp_all add: save_core_def set_entry_def)

lemma save_core_link: "save_core (link_entry q a) = save_core a" "save_core (note_find t a) = save_core a"
  by (simp_all add: save_core_def link_entry_def note_find_def Let_def)

lemma save_core_cache: "save_core (register_cached k t bs a) = save_core a"
  by (simp add: save_core_def register_cached_def set_entry_def Let_def)

lemma save_core_stats:
  "save_core (account_energy q a) = save_core a"
  by (simp add: save_core_def account_energy_def Let_def)


text \<open>What must not change when an entry is scored or calibrated: the files, and the shape of the queue.\<close>

definition entry_shape :: "queue_entry \<Rightarrow> (u32 \<times> u64 \<times> nat option \<times> bool) \<times> string \<times> u32" where
  "entry_shape q = (ident q, q_fname q, q_len q)"

definition shape_frame :: "afl_state \<Rightarrow> afl_state \<Rightarrow> bool" where
  "shape_frame a b \<longleftrightarrow> map entry_shape (queue_buf b) = map entry_shape (queue_buf a) \<and> disk b = disk a \<and> queued_items b = queued_items a \<and>
     max_depth b = max_depth a \<and> queue b = queue a \<and> queue_top b = queue_top a \<and> active_items b = active_items a \<and>
     queue_cur b = queue_cur a \<and> afl_disable_redundant b = afl_disable_redundant a"

lemma shape_frame_refl [simp]: "shape_frame a a"
  by (simp add: shape_frame_def)

lemma shape_frame_trans: "shape_frame a b \<Longrightarrow> shape_frame b c \<Longrightarrow> shape_frame a c"
  by (simp add: shape_frame_def)

lemma shape_frameD:
  assumes "shape_frame a b"
  shows "queue_frame a b" "length (queue_buf b) = length (queue_buf a)"
    "map (\<lambda>q. (q_fname q, q_len q)) (queue_buf b) = map (\<lambda>q. (q_fname q, q_len q)) (queue_buf a)" "disk b = disk a" "queue_top b = queue_top a"
proof -
  have m: "map entry_shape (queue_buf b) = map entry_shape (queue_buf a)" using assms by (simp add: shape_frame_def)
  have i: "map ident l = map fst (map entry_shape l)" "map (\<lambda>q. (q_fname q, q_len q)) l = map snd (map entry_shape l)" for l
    by (simp_all add: entry_shape_def)
  show "length (queue_buf b) = length (queue_buf a)" using arg_cong [OF m, of length] by simp
  show "map (\<lambda>q. (q_fname q, q_len q)) (queue_buf b) = map (\<lambda>q. (q_fname q, q_len q)) (queue_buf a)"
    unfolding i(2) m ..
  have "map ident (queue_buf b) = map ident (queue_buf a)" unfolding i(1) m ..
  then show "queue_frame a b" "disk b = disk a" "queue_top b = queue_top a" using assms by (simp_all add: shape_frame_def queue_frame_def)
qed

lemma shape_map:
  assumes "map c (queue_buf b) = map c (queue_buf a)" "\<And>q. entry_shape (c q) = entry_shape q"
  shows "map entry_shape (queue_buf b) = map entry_shape (queue_buf a)"
proof -
  have m: "map entry_shape l = map entry_shape (map c l)" for l using assms(2) by simp
  show ?thesis unfolding m [of "queue_buf b"] m [of "queue_buf a"] assms(1) ..
qed

lemma shape_set:
  assumes "\<And>q. entry_shape (f q) = entry_shape q"
  shows "shape_frame a (set_entry k f a)"
proof -
  have "map entry_shape ((queue_buf a)[k := f (queue_buf a ! k)]) = map entry_shape (queue_buf a)"
    using assms by (cases "k < length (queue_buf a)") (simp_all add: map_update list_update_same_conv list_update_beyond)
  then show ?thesis by (simp add: shape_frame_def set_entry_def)
qed

lemma shape_cal:
  assumes "cal_frame a b"
  shows "shape_frame a b"
proof -
  have c: "cal_core b = cal_core a" using assms by (simp add: cal_frame_def)
  have "map entry_shape (queue_buf b) = map entry_shape (queue_buf a)"
    using assms by (intro shape_map [of cal_entry]) (simp_all add: cal_frame_def cal_entry_def entry_shape_def ident_def)
  then show ?thesis
    using arg_cong [OF c, of queued_items] arg_cong [OF c, of queue_top] arg_cong [OF c, of disk] arg_cong [OF c, of max_depth]
      arg_cong [OF c, of queue] arg_cong [OF c, of active_items] arg_cong [OF c, of queue_cur] arg_cong [OF c, of afl_disable_redundant]
    by (simp add: cal_core_def shape_frame_def)
qed

lemma shape_score:
  assumes "score_frame a b"
  shows "shape_frame a b"
proof -
  have c: "state_core b = state_core a" using assms by (simp add: score_frame_def)
  have "map entry_shape (queue_buf b) = map entry_shape (queue_buf a)"
    using assms by (intro shape_map [of entry_core]) (simp_all add: score_frame_def entry_core_def entry_shape_def ident_def)
  then show ?thesis
    using arg_cong [OF c, of queued_items] arg_cong [OF c, of queue_top] arg_cong [OF c, of disk] arg_cong [OF c, of max_depth]
      arg_cong [OF c, of queue] arg_cong [OF c, of active_items] arg_cong [OF c, of queue_cur] arg_cong [OF c, of afl_disable_redundant]
    by (simp add: state_core_def shape_frame_def)
qed

lemma shape_upd [simp]:
  "shape_frame a (b\<lparr>fsrv := x1\<rparr>) = shape_frame a b" "shape_frame a (b\<lparr>n_fuzz := x2\<rparr>) = shape_frame a b"
  "shape_frame a (b\<lparr>queued_with_cov := x3\<rparr>) = shape_frame a b" "shape_frame a (b\<lparr>fuzz_mode := x4\<rparr>) = shape_frame a b"
  "shape_frame a (b\<lparr>stage_cur := x5\<rparr>) = shape_frame a b" "shape_frame a (b\<lparr>stage_max := x6\<rparr>) = shape_frame a b"
  "shape_frame a (b\<lparr>afl_env := x7\<rparr>) = shape_frame a b" "shape_frame a (b\<lparr>var_byte_count := x8\<rparr>) = shape_frame a b"
  "shape_frame a (b\<lparr>queued_variable := x9\<rparr>) = shape_frame a b"
  by (simp_all add: shape_frame_def)

section \<open>Calibration and the queue\<close>

text \<open>Both frames at once: only fields that saving may change, and neither files nor the shape of the queue.\<close>

definition calm :: "afl_state \<Rightarrow> afl_state \<Rightarrow> bool" where
  "calm a b \<longleftrightarrow> save_core b = save_core a \<and> shape_frame a b"

lemma calm_refl [simp]: "calm a a"
  by (simp add: calm_def)

lemma calm_trans: "calm a b \<Longrightarrow> calm b c \<Longrightarrow> calm a c"
  using shape_frame_trans by (auto simp: calm_def)

lemma calm_set: "(\<And>q. entry_shape (f q) = entry_shape q) \<Longrightarrow> calm a (set_entry k f a)"
  by (simp add: calm_def shape_set)

lemma calm_upd [simp]:
  "calm a (b\<lparr>fsrv := x1\<rparr>) = calm a b" "calm a (b\<lparr>n_fuzz := x2\<rparr>) = calm a b" "calm a (b\<lparr>queued_with_cov := x3\<rparr>) = calm a b"
  "calm a (b\<lparr>fuzz_mode := x4\<rparr>) = calm a b" "calm a (b\<lparr>stage_cur := x5\<rparr>) = calm a b" "calm a (b\<lparr>stage_max := x6\<rparr>) = calm a b"
  "calm a (b\<lparr>afl_env := (afl_env b)\<lparr>afl_post_process_keep_original := x7\<rparr>\<rparr>) = calm a b" "calm a (b\<lparr>var_byte_count := x8\<rparr>) = calm a b" "calm a (b\<lparr>queued_variable := x9\<rparr>) = calm a b"
  by (simp_all add: calm_def) (simp_all add: save_core_def)

lemma calm_frames: "run_frame a b \<Longrightarrow> calm a b" "cal_frame a b \<Longrightarrow> calm a b" "score_frame a b \<Longrightarrow> calm a b"
  using run_cal_frame save_core_cal shape_cal save_core_score shape_score by (auto simp: calm_def)

lemma total_bitmap_size_set [simp]: "total_bitmap_size (set_entry k f a) = total_bitmap_size a"
  by (simp add: set_entry_def)

lemma calm_stats:
  assumes "record_stats us handicap k a = Inr b"
  shows "calm a b" "afl_env b = afl_env a"
proof -
  let ?c = "account_energy (queue_buf a ! k) (a\<lparr>total_cal_us := total_cal_us a + us, total_cal_cycles := total_cal_cycles a + ucast (stage_max a)\<rparr>)"
  have c: "calm a ?c" "afl_env ?c = afl_env a"
    by (simp_all add: calm_def save_core_stats) (simp add: save_core_def shape_frame_def account_energy_def Let_def)
  obtain f x y where b: "b = (set_entry k f ?c)\<lparr>total_bitmap_size := x, total_bitmap_entries := y\<rparr>"
    and f: "\<And>q. entry_shape (f q) = entry_shape q"
  proof (rule that)
    show "b = (set_entry k (\<lambda>q. q\<lparr>q_exec_us := if us div ucast (stage_max ?c) = 0 then 1 else us div ucast (stage_max ?c),
        q_bitmap_size := count_bytes (real_map_size (fsrv ?c)) (trace_bits (fsrv ?c)), q_handicap := ucast handicap, q_cal_failed := 0\<rparr>) ?c)
        \<lparr>total_bitmap_size := total_bitmap_size ?c + ucast (count_bytes (real_map_size (fsrv ?c)) (trace_bits (fsrv ?c))),
         total_bitmap_entries := total_bitmap_entries ?c + 1\<rparr>"
      using assms unfolding record_stats_def Let_def by (auto split: if_splits)
  qed (simp add: entry_shape_def ident_def)
  have u: "calm a (d\<lparr>total_bitmap_size := x, total_bitmap_entries := y\<rparr>) = calm a d" for d x y
    by (simp add: calm_def) (simp add: save_core_def shape_frame_def)
  show "calm a b" unfolding b u by (rule calm_trans [OF c(1) calm_set]) (rule f)
  show "afl_env b = afl_env a" unfolding b using c(2) by simp
qed


lemma calm_keep: "calm a (keep_original v b) = calm a b"
  by (simp add: keep_original_def)

lemma calm_start: "calm a (calibrate_start k a)"
proof -
  have "calm a (set_entry k (q_exec_cksum_update (\<lambda>_. 0)) a)" by (rule calm_set) (simp add: entry_shape_def ident_def)
  moreover have "calm b (set_entry k (\<lambda>q. q\<lparr>q_cal_failed := q_cal_failed q + 1\<rparr>) b)" for b
    by (rule calm_set) (simp add: entry_shape_def ident_def)
  ultimately have "calm a (set_entry k (\<lambda>q. q\<lparr>q_cal_failed := q_cal_failed q + 1\<rparr>)
      (if cmplog_mode a then set_entry k (q_exec_cksum_update (\<lambda>_. 0)) a else a))" using calm_trans by auto
  then show ?thesis unfolding calibrate_start_def Let_def calm_keep by simp
qed

lemma calm_tail: "calm (c_afl s) (snd (calibrate_tail keep sc sm k s))"
proof -
  have c: "calm b (set_entry k (q_has_new_cov_update (\<lambda>_. True)) b)" for b
    by (rule calm_set) (simp add: entry_shape_def ident_def)
  have "calm (c_afl s) (keep_original keep (c_afl s))" by (simp add: calm_keep)
  then have "calm (c_afl s) (set_entry k (q_has_new_cov_update (\<lambda>_. True)) (keep_original keep (c_afl s)))" using c calm_trans by blast
  then show ?thesis by (simp add: calibrate_tail_def Let_def calm_keep)
qed

lemma calibrate_calm:
  assumes "calibrate_case w 12 k mem handicap from_queue a = Inr (Some (fault, b))" "k < length (queue_buf a)"
  shows "calm a b" "afl_env b = afl_env a"
proof -
  let ?tail = "calibrate_tail (afl_post_process_keep_original (afl_env a)) (stage_cur a) (stage_max a) k"
  obtain s t us where inv: "cal_inv (calibrate_start k a) (c_afl s)"
    and t: "t = s \<or> calibrate_finish w us handicap (q_exec_cksum (queue_buf a ! k) = 0) k s = Inr t" and r: "(fault, b) = ?tail t"
    using calibrate_case_parts [OF assms(2), where w = w and use_mem = mem and handicap = handicap and from_queue = from_queue]
    unfolding assms(1) sum.case option.case by (elim exE conjE)
  have s: "calm a (c_afl s)" using inv calm_frames(2) calm_start calm_trans unfolding cal_inv_def by blast
  note o = cal_inv_start [OF assms(2) inv]
  have "calm (c_afl s) (c_afl t) \<and> afl_env (c_afl t) = afl_env (c_afl s)" if f: "calibrate_finish w us handicap (q_exec_cksum (queue_buf a ! k) = 0) k s = Inr t"
  proof -
    obtain c d where c: "record_stats (elapsed_us us (o_time_us w (c_afl s)) (c_afl s)) handicap k (c_afl s) = Inr c"
      "update_bitmap_score (o_log1p w) k True c = Inr d" "c_afl t = d"
      using f unfolding calibrate_finish_def rbind_eq_Inr_iff by auto
    note sf = update_bitmap_score_frame [OF c(2)]
    have sc: "state_core d = state_core c" using sf by (simp add: score_frame_def)
    have "afl_env d = afl_env c" using arg_cong [OF sc, of afl_env] by (simp add: state_core_def)
    then show ?thesis using calm_stats [OF c(1)] calm_frames(3) [OF sf] calm_trans c(3) by metis
  qed
  then have ct: "calm a (c_afl t) \<and> afl_env (c_afl t) = afl_env (c_afl s)" using t s calm_trans by blast
  then have "k < length (queue_buf (c_afl t))" using shape_frameD(2) [of a "c_afl t"] assms(2) by (simp add: calm_def)
  note T = calibrate_tail_keeps [OF this refl, of "afl_post_process_keep_original (afl_env a)" "stage_cur a" "stage_max a"]
  have b: "b = snd (?tail t)" using r by (metis snd_conv)
  show "calm a b" unfolding b using ct calm_tail calm_trans by blast
  show "afl_env b = afl_env a" unfolding b using T(4) ct o(4) by simp
qed

section \<open>One more entry, one more file\<close>

definition disk_ok :: "outside \<Rightarrow> bool" where
  "disk_ok w \<longleftrightarrow> (\<forall>fn. o_create w fn) \<and> o_chown w \<noteq> Some False \<and> (\<forall>fn n. o_write w fn n = [int n])"

lemma save_file_ok:
  assumes "disk_ok w" "save_file w fn mem len a = Inr r"
  shows "r = Some (a\<lparr>disk := disk a @ [(fn, take (unat len) mem)]\<rparr>)" "unat len \<le> length mem"
proof -
  have l: "unat len \<le> length mem" using assms by (auto simp: save_file_def permissive_create_def disk_ok_def split: if_splits)
  then have "ck_write [int (unat len)] (take (unat len) mem) = Some (take (unat len) mem)" by (intro ck_write_full) simp_all
  then show "r = Some (a\<lparr>disk := disk a @ [(fn, take (unat len) mem)]\<rparr>)" "unat len \<le> length mem"
    using assms l by (auto simp: save_file_def permissive_create_def disk_ok_def)
qed

lemma enter_find_calm: "calm a (enter_find k s a)" "afl_env (enter_find k s a) = afl_env a"
proof -
  have c: "calm b (set_entry k (q_exec_cksum_update (\<lambda>_. x)) b)" "calm b (set_entry k (q_has_new_cov_update (\<lambda>_. True)) b)"
    "calm b (set_entry k (q_n_fuzz_entry_update (\<lambda>_. e)) b)" for b x e
    by (rule calm_set, simp add: entry_shape_def ident_def)+
  define a1 where "a1 = (if fuzz_mode a \<noteq> 0 \<and> switch_fuzz_mode a \<noteq> 0 \<and> \<not> non_instrumented_mode a then a\<lparr>fuzz_mode := 0\<rparr> else a)"
  define a2 where "a2 = set_entry k (q_exec_cksum_update (\<lambda>_. f_cksum s)) a1"
  define a3 where "a3 = (if f_new_bits s = 2 then (set_entry k (q_has_new_cov_update (\<lambda>_. True)) a2)\<lparr>queued_with_cov := queued_with_cov a2 + 1\<rparr> else a2)"
  have "calm a a1" by (simp add: a1_def)
  then have "calm a a2" using c(1) calm_trans unfolding a2_def by blast
  then have "calm a a3" using c(2) calm_trans unfolding a3_def by auto
  moreover have "enter_find k s a = (if path_schedule a3 then let e = ucast (f_cksum s mod N_FUZZ_SIZE)
              in (set_entry k (q_n_fuzz_entry_update (\<lambda>_. e)) a3)\<lparr>n_fuzz := (n_fuzz a3)(unat e := 1)\<rparr> else a3)"
    unfolding enter_find_def Let_def a3_def a2_def a1_def ..
  ultimately show "calm a (enter_find k s a)" using c(3) calm_trans by (auto simp: Let_def)
  show "afl_env (enter_find k s a) = afl_env a" by (simp add: enter_find_def Let_def)
qed

lemma store_calm:
  assumes "queue_testcase_store_mem k mem a = Inr b"
  shows "calm a b" "afl_env b = afl_env a"
proof -
  have r: "calm a (register_cached k t bs a) \<and> afl_env (register_cached k t bs a) = afl_env a" for t bs
  proof -
    have m: "map entry_shape ((queue_buf a)[k := (queue_buf a ! k)\<lparr>q_testcase_buf := Some bs\<rparr>]) = map entry_shape (queue_buf a)"
      by (cases "k < length (queue_buf a)") (simp_all add: map_update list_update_same_conv list_update_beyond entry_shape_def ident_def)
    have "shape_frame a (register_cached k t bs a)" using m by (simp add: shape_frame_def register_cached_def set_entry_def Let_def)
    then show ?thesis by (simp add: calm_def save_core_cache) (simp add: register_cached_def set_entry_def Let_def)
  qed
  show "calm a b" "afl_env b = afl_env a"
    using assms r by (auto simp: queue_testcase_store_mem_def Let_def rbind_eq_Inr_iff split: if_splits)
qed

lemma calibrate_find_calm:
  assumes "calibrate_find w k mem a = Inr (Some b)" "k < length (queue_buf a)"
  shows "calm a b" "afl_env b = afl_env a"
proof -
  obtain r where r: "calibrate_case w 12 k mem (ucast (queue_cycle a - 1)) False a = Inr r" using assms(1)
    by (auto simp: calibrate_find_def rbind_eq_Inr_iff)
  then obtain res c where rc: "r = Some (res, c)" using assms(1) by (cases r) (auto simp: calibrate_find_def)
  have c: "calibrate_case w 12 k mem (ucast (queue_cycle a - 1)) False a = Inr (Some (res, c))" using r rc by simp
  have b: "b = c \<or> queue_testcase_store_mem k mem c = Inr b"
    using assms(1) by (auto simp: calibrate_find_def c rbind_eq_Inr_iff split: if_splits)
  note cc = calibrate_calm [OF c assms(2)]
  show "calm a b" "afl_env b = afl_env a"
    using b cc store_calm [of k mem c b] calm_trans by auto
qed

lemma add_to_queue_effect:
  assumes "queue_wf a" "unat (queued_items a) + 1 < 2 ^ 32" "custom_mutators_count a = 0"
    and "add_to_queue t hooks st rd fname len pd a = Inr b"
  shows "save_core b = save_core a" "afl_env b = afl_env a" "disk b = disk a" "queue_top b = Some (length (queue_buf a))"
    "map (\<lambda>q. (q_fname q, q_len q)) (queue_buf b) = map (\<lambda>q. (q_fname q, q_len q)) (queue_buf a) @ [(fname, len)]"
proof -
  let ?c = "note_find t (link_entry (new_entry fname len pd a) a)" and ?k = "length (queue_buf a)"
  have k: "unat (queued_items a) = ?k" using queue_wfD(1) [OF assms(1)] by simp
  have cm: "custom_mutators_count ?c = 0" using assms(3) by (simp add: note_find_frame link_entry_def Let_def)
  have b: "\<exists>f. b = set_entry ?k (q_skipdet_e_update (\<lambda>_. Some skipdet_zero)) (set_entry ?k f ?c) \<and> (\<forall>q. q_fname (f q) = q_fname q \<and> q_len (f q) = q_len q) \<or>
      b = set_entry ?k (q_skipdet_e_update (\<lambda>_. Some skipdet_zero)) ?c"
    using assms(4) cm unfolding add_to_queue_def Let_def k
    by (auto simp: rbind_eq_Inr_iff split: if_splits intro!: exI [of _ "q_is_ascii_update (\<lambda>_. x \<noteq> 0)" for x])
  have buf: "queue_buf ?c = queue_buf a @ [(new_entry fname len pd a)\<lparr>q_id := queued_items a\<rparr>]"
    by (simp add: note_find_frame link_entry_buf [OF assms(1)])
  have e: "save_core ?c = save_core a" by (simp add: save_core_link)
  have d: "afl_env ?c = afl_env a" "disk ?c = disk a" by (simp_all add: note_find_def link_entry_def Let_def)
  have s: "afl_env (set_entry i f x) = afl_env x" "disk (set_entry i f x) = disk x" for i f x by (simp_all add: set_entry_def)
  show "save_core b = save_core a" "afl_env b = afl_env a" "disk b = disk a" using b e d s by auto
  have "queue_wf b" "length (queue_buf b) = Suc ?k" using add_succeeds(1, 3) [OF assms(1, 2, 4)] by auto
  then show "queue_top b = Some ?k" using queue_wfD(6) [of b] by (auto split: if_splits)
  show "map (\<lambda>q. (q_fname q, q_len q)) (queue_buf b) = map (\<lambda>q. (q_fname q, q_len q)) (queue_buf a) @ [(fname, len)]"
    using b buf by (auto simp: map_update list_update_append new_entry_def)
qed

definition names :: "afl_state \<Rightarrow> (string \<times> u32) list" where
  "names a = map (\<lambda>q. (q_fname q, q_len q)) (queue_buf a)"

definition same_locals :: "find \<Rightarrow> find \<Rightarrow> bool" where
  "same_locals s t \<longleftrightarrow> f_mem t = f_mem s \<and> f_len t = f_len s \<and> f_fault t = f_fault s \<and> f_keeping t = f_keeping s \<and> f_timeout t = f_timeout s \<and>
     calm (f_afl s) (f_afl t) \<and> afl_env (f_afl t) = afl_env (f_afl s)"

lemma same_locals_trans: "same_locals s t \<Longrightarrow> same_locals t u \<Longrightarrow> same_locals s u"
  using calm_trans by (auto simp: same_locals_def)

lemma same_locals_refl [simp]: "same_locals s s"
  by (simp add: same_locals_def)

lemma has_new_bits_env:
  assumes "has_new_bits VirginBits a = (n, b)"
  shows "calm a b" "afl_env b = afl_env a"
  using has_new_bits_frame [OF assms] calm_frames(2) cal_frameD(3) by blast+

lemma calculate_locals:
  "same_locals s (classify_if_necessary s)" "same_locals s (calculate_cksum_if_necessary w s)" "same_locals s (calculate_new_bits_if_necessary s)"
proof -
  show "same_locals s (classify_if_necessary s)" "same_locals s (calculate_cksum_if_necessary w s)"
    by (auto simp: classify_if_necessary_def calculate_cksum_if_necessary_def same_locals_def Let_def)
  have u: "calm a b \<and> afl_env b = afl_env a" if h: "has_new_bits_unclassified VirginBits a = (n, c, b)" for a n c b
  proof (cases "skim (get_virgin VirginBits a) (trace_bits (fsrv a)) (unat (map_size (fsrv a))) = 0")
    case False
    then have "has_new_bits VirginBits (a\<lparr>fsrv := classify_counts (fsrv a)\<rparr>) = (n, b)" using h
      by (simp add: has_new_bits_unclassified_def split: prod.splits)
    then have "calm (a\<lparr>fsrv := classify_counts (fsrv a)\<rparr>) b" "afl_env b = afl_env a" using has_new_bits_env by fastforce+
    then show ?thesis using calm_trans [of a "a\<lparr>fsrv := classify_counts (fsrv a)\<rparr>" b] by simp
  qed (use h in \<open>simp add: has_new_bits_unclassified_def\<close>)
  show "same_locals s (calculate_new_bits_if_necessary s)"
    using has_new_bits_env [of "f_afl s"] u [of "f_afl s"]
    by (simp add: calculate_new_bits_if_necessary_def same_locals_def split: prod.splits)
qed

lemma calmD:
  assumes "calm a b"
  shows "queue_wf b = queue_wf a" "names b = names a" "disk b = disk a" "queued_items b = queued_items a" "length (queue_buf b) = length (queue_buf a)"
    "save_core b = save_core a"
  using assms shape_frameD [of a b] queue_frame_wf [of a b] unfolding names_def calm_def by (auto simp: queue_frame_def)

lemma save_coreD:
  assumes "save_core b = save_core a"
  shows "custom_mutators_count b = custom_mutators_count a" "crash_mode b = crash_mode a" "saved_hangs b = saved_hangs a"
    "saved_crashes b = saved_crashes a" "total_tmouts b = total_tmouts a" "total_crashes b = total_crashes a"
    "subseq_tmouts b = subseq_tmouts a" "non_instrumented_mode b = non_instrumented_mode a" "hang_tmout b = hang_tmout a"
    "skip_requested b = skip_requested a" "max_length b = max_length a" "min_length b = min_length a"
    "afl_no_crash_readme (afl_env b) = afl_no_crash_readme (afl_env a)"
proof -
  show "custom_mutators_count b = custom_mutators_count a" "crash_mode b = crash_mode a" "saved_hangs b = saved_hangs a"
    using arg_cong [OF assms, of custom_mutators_count] arg_cong [OF assms, of crash_mode] arg_cong [OF assms, of saved_hangs]
    by (simp_all add: save_core_def)
  show "saved_crashes b = saved_crashes a" "total_tmouts b = total_tmouts a" "total_crashes b = total_crashes a"
    using arg_cong [OF assms, of saved_crashes] arg_cong [OF assms, of total_tmouts] arg_cong [OF assms, of total_crashes]
    by (simp_all add: save_core_def)
  show "subseq_tmouts b = subseq_tmouts a" "non_instrumented_mode b = non_instrumented_mode a" "hang_tmout b = hang_tmout a"
    using arg_cong [OF assms, of subseq_tmouts] arg_cong [OF assms, of non_instrumented_mode] arg_cong [OF assms, of hang_tmout]
    by (simp_all add: save_core_def)
  show "skip_requested b = skip_requested a" "max_length b = max_length a" "min_length b = min_length a"
    using arg_cong [OF assms, of skip_requested] arg_cong [OF assms, of max_length] arg_cong [OF assms, of min_length]
    by (simp_all add: save_core_def)
  show "afl_no_crash_readme (afl_env b) = afl_no_crash_readme (afl_env a)"
    using arg_cong [OF assms, of "\<lambda>c. afl_no_crash_readme (afl_env c)"] by (simp add: save_core_def)
qed

lemma calibrate_find_returns:
  assumes "k < length (queue_buf a)"
  shows "calibrate_find w k mem a \<noteq> Inr None"
proof
  assume n: "calibrate_find w k mem a = Inr None"
  then obtain r where r: "calibrate_case w 12 k mem (ucast (queue_cycle a - 1)) False a = Inr r" by (auto simp: calibrate_find_def rbind_eq_Inr_iff)
  have "r \<noteq> None" using calibrate_case_parts [OF assms, where w = w and use_mem = mem and handicap = "ucast (queue_cycle a - 1)" and from_queue = False] r by (cases r) auto
  then obtain res c where "r = Some (res, c)" by auto
  then show False using n r by (simp add: calibrate_find_def rbind_eq_Inr_iff split: if_splits)
qed

lemma save_to_queue_effect:
  assumes disk: "disk_ok w" and wf: "queue_wf (f_afl s)" and room: "unat (queued_items (f_afl s)) + 1 < 2 ^ 32"
    and cm: "custom_mutators_count (f_afl s) = 0" and r: "save_to_queue w s = Inr r"
  shows "\<exists>t fn. r = Some t \<and> save_core (f_afl t) = save_core (f_afl s) \<and> afl_env (f_afl t) = afl_env (f_afl s) \<and> queue_wf (f_afl t) \<and>
    disk (f_afl t) = disk (f_afl s) @ [(fn, take (unat (f_len s)) (f_mem s))] \<and> names (f_afl t) = names (f_afl s) @ [(fn, f_len s)] \<and>
    f_keeping t \<and> f_mem t = f_mem s \<and> f_len t = f_len s \<and> f_fault t = f_fault s \<and> f_timeout t = f_timeout s \<and> unat (f_len s) \<le> length (f_mem s)"
proof -
  define s1 where "s1 = calculate_new_bits_if_necessary (calculate_cksum_if_necessary w s)"
  have l: "same_locals s s1" unfolding s1_def using calculate_locals(2, 3) same_locals_trans by blast
  then have c1: "calm (f_afl s) (f_afl s1)" "f_len s1 = f_len s" "f_mem s1 = f_mem s" by (simp_all add: same_locals_def)
  note d1 = calmD [OF c1(1)]
  obtain fn r1 where q: "queue_name w (f_new_bits s1 + f_timeout s1) (take (unat (f_len s1)) (f_mem s1)) (f_afl s1) = Inr fn"
    and sv: "save_file w fn (f_mem s1) (f_len s1) (f_afl s1) = Inr r1"
    using r unfolding save_to_queue_def Let_def s1_def [symmetric] rbind_eq_Inr_iff by blast
  let ?a = "(f_afl s1)\<lparr>disk := disk (f_afl s1) @ [(fn, take (unat (f_len s)) (f_mem s))]\<rparr>"
  have r1: "r1 = Some ?a" and len: "unat (f_len s) \<le> length (f_mem s)" using save_file_ok [OF disk sv] c1 by simp_all
  have r': "rbind (add_to_queue (o_time w ?a) (o_new_entry w) (o_stat w) (o_read w) fn (f_len s) False ?a) (\<lambda>a.
               case queue_top a of
                 None \<Rightarrow> Inl (UB ''null pointer'')
               | Some k \<Rightarrow>
                   rbind (calibrate_find w k (f_mem s1) (enter_find k s1 a)) (\<lambda>r.
                     Inr (map_option (\<lambda>a. s1\<lparr>f_keeping := True, f_afl := a\<rparr>) r))) = Inr r"
    using r unfolding save_to_queue_def Let_def s1_def [symmetric] q rbind_simps sv r1 option.case unfolding c1(2) .
  then obtain b where b: "add_to_queue (o_time w ?a) (o_new_entry w) (o_stat w) (o_read w) fn (f_len s) False ?a = Inr b" by (auto simp: rbind_eq_Inr_iff)
  have "queue_frame (f_afl s1) ?a" by (simp add: queue_frame_def)
  then have wfa: "queue_wf ?a" using wf d1(1) queue_frame_wf by blast
  have ra: "unat (queued_items ?a) + 1 < 2 ^ 32" "custom_mutators_count ?a = 0" using room d1(4) cm save_coreD(1) [OF d1(6)] by simp_all
  note E = add_to_queue_effect [OF wfa ra b] and A = add_succeeds(1, 3) [OF wfa ra(1) b]
  let ?k = "length (queue_buf ?a)"
  obtain r2 where r2: "calibrate_find w ?k (f_mem s1) (enter_find ?k s1 b) = Inr r2" and rr: "r = map_option (\<lambda>a. s1\<lparr>f_keeping := True, f_afl := a\<rparr>) r2"
    using r' b E(4) by (auto simp: rbind_eq_Inr_iff)
  have kb: "?k < length (queue_buf (enter_find ?k s1 b))" using A(2) calmD(5) [OF enter_find_calm(1) [where a = b and k = ?k and s = s1]] by simp
  obtain c where c: "r2 = Some c" using r2 calibrate_find_returns [OF kb] by (cases r2) auto
  have bc: "calm b c" "afl_env c = afl_env b"
    using calibrate_find_calm [OF _ kb, of w "f_mem s1" c] r2 c enter_find_calm [where a = b and k = ?k and s = s1] calm_trans by auto
  note dc = calmD [OF bc(1)]
  have "save_core c = save_core (f_afl s)" using dc(6) E(1) d1(6) by simp
  moreover have "afl_env c = afl_env (f_afl s)" using bc(2) E(2) l by (simp add: same_locals_def)
  moreover have "names c = names (f_afl s) @ [(fn, f_len s)]" using dc(2) E(5) d1(2) by (simp add: names_def)
  moreover have "disk c = disk (f_afl s) @ [(fn, take (unat (f_len s)) (f_mem s))]" using dc(3) E(3) d1(3) by simp
  ultimately show ?thesis using rr c A(1) dc(1) l len
    by (intro exI [of _ "s1\<lparr>f_keeping := True, f_afl := c\<rparr>"] exI [of _ fn]) (simp add: same_locals_def)
qed

section \<open>Numbers in file names\<close>

definition undec :: "string \<Rightarrow> nat" where
  "undec cs = foldl (\<lambda>n c. 10 * n + (of_char c - 48)) 0 cs"

definition is_digit :: "char \<Rightarrow> bool" where
  "is_digit c \<longleftrightarrow> 48 \<le> (of_char c :: nat) \<and> (of_char c :: nat) \<le> 57"

lemma digit_facts: "n < 10 \<Longrightarrow> of_char (digit n) - (48 :: nat) = n \<and> is_digit (digit n)"
  by (simp add: digit_def is_digit_def)

lemma dec_facts: "undec (dec n) = n \<and> (\<forall>c\<in>set (dec n). is_digit c)"
proof (induction n rule: dec.induct)
  case (1 n)
  show ?case
  proof (cases "n < 10")
    case True
    then show ?thesis using digit_facts by (simp add: dec.simps [of n] undec_def)
  next
    case False
    then have IH: "undec (dec (n div 10)) = n div 10" "\<forall>c\<in>set (dec (n div 10)). is_digit c" using 1 by auto
    have "undec (dec (n div 10) @ [digit (n mod 10)]) = 10 * undec (dec (n div 10)) + n mod 10"
      using digit_facts [of "n mod 10"] by (simp add: undec_def)
    then show ?thesis using False IH digit_facts [of "n mod 10"] by (simp add: dec.simps [of n])
  qed
qed

lemma dec06_facts: "undec (dec06 n) = n" "\<forall>c\<in>set (dec06 n). is_digit c"
proof -
  have z: "foldl (\<lambda>n c. 10 * n + (of_char c - 48)) 0 (replicate k (CHR ''0'')) = (0 :: nat)" for k
    by (induction k) simp_all
  then show "undec (dec06 n) = n" using dec_facts [of n] by (simp add: undec_def dec06_def)
  show "\<forall>c\<in>set (dec06 n). is_digit c" using dec_facts [of n] by (auto simp: dec06_def is_digit_def)
qed

end
