(* ===== verification/Find_Outcomes.thy ===== *)
theory Find_Outcomes
  imports Finds
begin

text \<open>
  What \<open>save_if_interesting\<close> and \<open>common_fuzz_stuff\<close> do as a whole: which test cases are kept, that every
  file written is counted, when the current entry is abandoned, and where the handler never returns.
\<close>

section \<open>Normal runs\<close>

text \<open>The coverage level of the last trace, as the virgin map of the state sees it.\<close>

definition trace_level :: "afl_state \<Rightarrow> u8" where
  "trace_level a = fst (has_new_bits VirginBits (a\<lparr>fsrv := classify_counts (fsrv a)\<rparr>))"

lemma start_find_locals:
  fixes w mem len fault a
  defines "s \<equiv> start_find w mem len fault a"
  shows "f_mem s = mem" "f_len s = len" "f_fault s = fault" "\<not> f_keeping s" "f_timeout s = 0" "\<not> f_counted s"
    "calm (a\<lparr>san_case_status := 0\<rparr>) (f_afl s)" "afl_env (f_afl s) = afl_env a" "virgin_bits (f_afl s) = virgin_bits a"
    "fsrv (f_afl s) = (if f_classified s then classify_counts (fsrv a) else fsrv a)"
  by (simp_all add: s_def start_find_def calculate_cksum_if_necessary_def classify_if_necessary_def count_path_def Let_def)

lemma calm_status: "calm a b \<Longrightarrow> queue_wf b = queue_wf a" "queue_wf (a\<lparr>san_case_status := x\<rparr>) = queue_wf a" "names (a\<lparr>san_case_status := x\<rparr>) = names a"
  using calmD(1) by (simp_all add: queue_wf_def enabled_count_def names_def)

lemma level_of_start:
  assumes "maps_ok VirginBits a"
  shows "f_new_bits (calculate_new_bits_if_necessary (start_find w mem len fault a)) = trace_level a"
proof -
  let ?s = "start_find w mem len fault a"
  note L = start_find_locals [where w = w and mem = mem and len = len and fault = fault and a = a]
  show ?thesis
  proof (cases "f_classified ?s")
    case True
    have "fst (has_new_bits VirginBits (f_afl ?s)) = trace_level a"
      unfolding trace_level_def using True L(9, 10) by (intro has_new_bits_cong) simp_all
    then show ?thesis using True L(6) by (simp add: calculate_new_bits_if_necessary_def split_beta)
  next
    case False
    then have m: "maps_ok VirginBits (f_afl ?s)" using assms L(9, 10) by (simp add: maps_ok_def)
    have "fst (has_new_bits_unclassified VirginBits (f_afl ?s)) = fst (has_new_bits VirginBits ((f_afl ?s)\<lparr>fsrv := classify_counts (fsrv (f_afl ?s))\<rparr>))"
      using unclassified_level [OF m] by simp
    also have "\<dots> = trace_level a" unfolding trace_level_def using False L(9, 10) by (intro has_new_bits_cong) simp_all
    finally show ?thesis using False L(6) by (simp add: calculate_new_bits_if_necessary_def split_beta)
  qed
qed

lemma normal_run:
  assumes "san_binary_length a = 0" "len \<noteq> 0" "crash_mode a = 0"
  shows "save_if_interesting w fuel mem len 0 a =
    (let s = calculate_new_bits_if_necessary (start_find w mem len 0 a)
     in if f_new_bits s = 0 then Inr (Some (False, f_afl s))
        else rbind (save_to_queue w s) (\<lambda>r. case r of None \<Rightarrow> Inr None | Some s \<Rightarrow> settle_fault fuel w s))"
proof -
  let ?s = "start_find w mem len 0 a" and ?t = "calculate_new_bits_if_necessary (start_find w mem len 0 a)"
  have l: "same_locals ?s ?t" by (rule calculate_locals)
  have c: "save_core (f_afl ?s) = save_core (a\<lparr>san_case_status := 0\<rparr>)" using calmD(6) [OF start_find_locals(7)] .
  have "san_binary_length (f_afl ?s) = 0" using arg_cong [OF c, of san_binary_length] assms(1) by (simp add: save_core_def)
  then have r: "run_sanitizers w ?s = Inr (0, ?s)" by (simp add: run_sanitizers_def feed_san_def)
  have "save_core (f_afl ?t) = save_core (f_afl ?s)" using l by (simp add: same_locals_def calm_def)
  then have "crash_mode (f_afl ?t) = crash_mode (f_afl ?s)" by (rule save_coreD)
  then have cm: "crash_mode (f_afl ?t) = 0" using save_coreD(2) [OF c] assms(3) by simp
  have f: "?t\<lparr>f_fault := 0\<rparr> = ?t" using l start_find_locals(3) [where w = w and mem = mem and len = len and fault = 0 and a = a] by (simp add: same_locals_def)
  show ?thesis using assms(2, 3) r cm f by (simp add: save_if_interesting_def keep_if_new_def fsrv_results Let_def)
qed

lemma settle_fault_quiet: "f_fault s = 0 \<Longrightarrow> 0 < fuel \<Longrightarrow> settle_fault fuel w s = Inr (Some (f_keeping s, f_afl s))"
  by (cases fuel) (simp_all add: may_save_fault_def fsrv_results)

text \<open>
  C3: what becomes of a test case that ran normally. It is kept exactly when its trace reaches a
  coverage level above zero. If it is kept, the queue has one more entry, and the file with the name and the length in
  that entry is written with exactly the bytes of the test case; if not, neither the
  queue nor the files change. In both cases the queue stays well formed, no hang or crash is counted,
  and the handler returns without any jump back.
\<close>

theorem save_if_interesting_normal:
  assumes "disk_ok w" and "queue_wf a" and "unat (queued_items a) + 1 < 2 ^ 32" and "custom_mutators_count a = 0"
    and "san_binary_length a = 0" and "maps_ok VirginBits a" and "len \<noteq> 0" and "crash_mode a = 0" and "0 < fuel"
  shows "case save_if_interesting w fuel mem len FSRV_RUN_OK a of
      Inl e \<Rightarrow> trace_level a \<noteq> 0
    | Inr None \<Rightarrow> False
    | Inr (Some (keeping, b)) \<Rightarrow> queue_wf b \<and> keeping = (trace_level a \<noteq> 0) \<and>
        saved_hangs b = saved_hangs a \<and> saved_crashes b = saved_crashes a \<and> total_tmouts b = total_tmouts a \<and> total_crashes b = total_crashes a \<and>
        (if keeping then \<exists>fn. names b = names a @ [(fn, len)] \<and> disk b = disk a @ [(fn, take (unat len) mem)]
         else names b = names a \<and> disk b = disk a)"
proof -
  let ?s = "start_find w mem len 0 a" and ?t = "calculate_new_bits_if_necessary (start_find w mem len 0 a)"
  note S = start_find_locals [where w = w and mem = mem and len = len and fault = 0 and a = a]
  have l: "same_locals ?s ?t" by (rule calculate_locals)
  then have t: "f_mem ?t = mem" "f_len ?t = len" "f_fault ?t = 0" using S(1-3) by (simp_all add: same_locals_def)
  have c: "calm (a\<lparr>san_case_status := 0\<rparr>) (f_afl ?t)" using l S(7) calm_trans unfolding same_locals_def by blast
  note d = calmD [OF c]
  have a: "queue_wf (f_afl ?t)" "names (f_afl ?t) = names a" "disk (f_afl ?t) = disk a" "queued_items (f_afl ?t) = queued_items a"
    using d assms(2) by (simp_all add: calm_status)
  note C = save_coreD [OF d(6), simplified]
  have lv: "f_new_bits ?t = trace_level a" by (rule level_of_start [OF assms(6)])
  note N = normal_run [OF assms(5, 7, 8), of w fuel mem, folded FSRV_RUN_OK_def]
  show ?thesis
  proof (cases "f_new_bits ?t = 0")
    case True
    then show ?thesis using N a lv C by (simp add: fsrv_results)
  next
    case False
    have q: "unat (queued_items (f_afl ?t)) + 1 < 2 ^ 32" "custom_mutators_count (f_afl ?t) = 0" using a(4) assms(3, 4) C by simp_all
    show ?thesis
    proof (cases "save_to_queue w ?t")
      case (Inl e)
      then show ?thesis using N False lv by (simp add: fsrv_results)
    next
      case (Inr r)
      obtain u fn where u: "r = Some u" "save_core (f_afl u) = save_core (f_afl ?t)" "queue_wf (f_afl u)"
        "disk (f_afl u) = disk (f_afl ?t) @ [(fn, take (unat len) mem)]" "names (f_afl u) = names (f_afl ?t) @ [(fn, len)]" "f_keeping u" "f_fault u = 0"
        using save_to_queue_effect [OF assms(1) a(1) q Inr] t by auto
      then have "save_if_interesting w fuel mem len FSRV_RUN_OK a = Inr (Some (True, f_afl u))"
        using N False Inr settle_fault_quiet [OF u(7) assms(9), of w] by (simp add: fsrv_results)
      then show ?thesis using u a lv False C save_coreD(3-6) [OF u(2)] by auto
    qed
  qed
qed

section \<open>Every file is accounted for\<close>

text \<open>What there should be on the disk: one file per entry and per saved fault, and the note beside the first crash.\<close>

definition has_readme :: "afl_state \<Rightarrow> bool" where
  "has_readme a \<longleftrightarrow> saved_crashes a \<noteq> 0 \<and> afl_no_crash_readme (afl_env a) \<noteq> 1"

definition tally :: "afl_state \<Rightarrow> nat" where
  "tally a = length (queue_buf a) + unat (saved_hangs a) + unat (saved_crashes a) + (if has_readme a then 1 else 0)"

definition capped :: "afl_state \<Rightarrow> bool" where
  "capped a \<longleftrightarrow> saved_hangs a \<le> KEEP_UNIQUE_HANG \<and> saved_crashes a \<le> KEEP_UNIQUE_CRASH"

text \<open>Neither the shape of the queue nor the files nor the counts of saved faults change.\<close>

definition light :: "afl_state \<Rightarrow> afl_state \<Rightarrow> bool" where
  "light a b \<longleftrightarrow> shape_frame a b \<and> custom_mutators_count b = custom_mutators_count a \<and>
     saved_hangs b = saved_hangs a \<and> saved_crashes b = saved_crashes a \<and>
     afl_no_crash_readme (afl_env b) = afl_no_crash_readme (afl_env a)"

lemma light_refl [simp]: "light a a"
  by (simp add: light_def)

lemma light_trans: "light a b \<Longrightarrow> light b c \<Longrightarrow> light a c"
  using shape_frame_trans by (auto simp: light_def)

lemma light_calm: "calm a b \<Longrightarrow> light a b"
  unfolding light_def calm_def using save_coreD(1, 3, 4, 13) by blast

lemma light_upd [simp]:
  "light a (b\<lparr>fsrv := x1\<rparr>) = light a b" "light a (b\<lparr>san_fsrvs := x2\<rparr>) = light a b" "light a (b\<lparr>simplified_n_fuzz := x3\<rparr>) = light a b"
  "light a (b\<lparr>n_fuzz_dup := x3\<rparr>) = light a b" "light a (b\<lparr>san_case_status := x4\<rparr>) = light a b" "light a (b\<lparr>stop_soon := x5\<rparr>) = light a b"
  "light a (b\<lparr>cpu_energy_map := x6\<rparr>) = light a b" "light a (b\<lparr>mem_energy_map := x6\<rparr>) = light a b"
  "light a (b\<lparr>total_tmouts := x7\<rparr>) = light a b" "light a (b\<lparr>total_crashes := x7\<rparr>) = light a b" "light a (b\<lparr>saved_tmouts := x7\<rparr>) = light a b"
  "light a (b\<lparr>virgin_tmout := x8\<rparr>) = light a b" "light a (b\<lparr>virgin_crash := x8\<rparr>) = light a b" "light a (b\<lparr>n_fuzz := x9\<rparr>) = light a b"
  by (simp_all add: light_def shape_frame_def)

lemma light_write: "write_to_testcase w mem len fix_len a = Inr (mem', n, b) \<Longrightarrow> light a b"
  using write_frame by fastforce

lemma light_run: "exec_target w t a = (fault, b) \<Longrightarrow> light a b"
  using exec_target_frame(1) calm_frames(1) light_calm by blast

lemma light_san:
  assumes "exec_san w i a = (fault, b)"
  shows "light a b"
proof -
  obtain r f c m where o: "o_san w i ((san_fsrvs a ! i)\<lparr>shmem_fuzz := shmem_fuzz (fsrv a)\<rparr>) (exec_tmout (san_fsrvs a ! i)) = (r, f, c, m)"
    by (metis prod_cases4)
  let ?d = "a\<lparr>san_fsrvs := (san_fsrvs a)[i := f], cpu_energy_map := store_reading (cpu_energy_map a) c, mem_energy_map := store_reading (mem_energy_map a) m\<rparr>"
  have "light ?d (energy_hook ?d)" using run_frame_hook calm_frames(1) light_calm by blast
  moreover have "light a ?d" by simp
  ultimately have "light a (energy_hook ?d)" using light_trans by blast
  then show ?thesis using assms by (auto simp: exec_san_def o Let_def)
qed

lemma light_san_loop: "san_loop w is sf s = Inr (res, t) \<Longrightarrow> light (f_afl s) (f_afl t) \<and> f_keeping t = f_keeping s"
proof (induction "is" arbitrary: sf s)
  case Nil
  then show ?case by simp
next
  case (Cons i "is")
  then obtain mem len b where b: "write_to_testcase w (f_mem s) (f_len s) False (f_afl s) = Inr (mem, len, b)"
    by (auto simp: rbind_eq_Inr_iff)
  obtain r c where c: "exec_san w i b = (r, c)" by (cases "exec_san w i b") auto
  have "light (f_afl s) c" using light_write [OF b] light_san [OF c] light_trans by blast
  moreover define d where "d = (if r \<noteq> 0 \<and> f_fault s = crash_mode c then c\<lparr>san_case_status := san_case_status c OR SAN_CRASH_ONLY\<rparr> else c)"
  ultimately have l: "light (f_afl s) d" by simp
  have e: "san_loop w (i # is) sf s = (if r = FSRV_RUN_CRASH then Inr (r, s\<lparr>f_mem := mem, f_len := len, f_afl := d\<rparr>)
      else san_loop w is FSRV_RUN_OK (s\<lparr>f_mem := mem, f_len := len, f_afl := d\<rparr>))"
    by (simp add: b c d_def Let_def)
  show ?case
  proof (cases "r = FSRV_RUN_CRASH")
    case True
    then show ?thesis using e Cons.prems l by auto
  next
    case False
    then have "light d (f_afl t) \<and> f_keeping t = f_keeping s" using e Cons.prems Cons.IH [of FSRV_RUN_OK "s\<lparr>f_mem := mem, f_len := len, f_afl := d\<rparr>"] by simp
    then show ?thesis using l light_trans by blast
  qed
qed

lemma light_sanitizers:
  assumes "run_sanitizers w s = Inr (res, t)"
  shows "light (f_afl s) (f_afl t) \<and> f_keeping t = f_keeping s"
proof -
  obtain feed u where u: "feed_san w s = (feed, u)" by (cases "feed_san w s") auto
  have c: "light (f_afl s) (f_afl v) \<and> f_keeping v = f_keeping s" if "same_locals s v" for v using that light_calm by (auto simp: same_locals_def)
  have k: "light (f_afl s) (f_afl u) \<and> f_keeping u = f_keeping s"
    using u c [OF calculate_locals(1)] c [OF calculate_locals(3)]
    by (auto simp: feed_san_def feed_simplified_def feed_unique_def Let_def split: if_splits san_abstraction.splits)
  then show ?thesis using assms u light_san_loop [of w _ 0 u res t] light_trans
    by (auto simp: run_sanitizers_def split: if_splits)
qed

lemma light_unique:
  assumes "unique_fault vm s = (u, t)" "vm \<noteq> VirginBits"
  shows "light (f_afl s) (f_afl t) \<and> f_keeping t = f_keeping s"
proof -
  have "light b (snd (has_new_bits vm b))" for b
    using assms(2) by (cases vm) (simp_all add: has_new_bits_def split_beta)
  then have "light a (snd (has_new_bits vm (a\<lparr>fsrv := f\<rparr>)))" for a f using light_trans [of a "a\<lparr>fsrv := f\<rparr>"] by simp
  then show ?thesis using assms(1) by (auto simp: unique_fault_def Let_def split_beta split: if_splits)
qed

lemma light_rerun:
  assumes "rerun_hang w s = Inr (nf, t)"
  shows "light (f_afl s) (f_afl t) \<and> f_keeping t = f_keeping s"
proof -
  obtain mem n b where b: "write_to_testcase w (f_mem s) (f_len s) False (f_afl s) = Inr (mem, n, b)" using assms
    by (auto simp: rerun_hang_def rbind_eq_Inr_iff)
  obtain mem' len c where c: "(if n \<noteq> 0 then Inr (mem, n, b) else write_to_testcase w mem (f_len s) True b) = Inr (mem', len, c)"
    using assms b by (auto simp: rerun_hang_def rbind_eq_Inr_iff)
  obtain f d where d: "exec_target w (hang_tmout c) c = (f, d)" by (cases "exec_target w (hang_tmout c) c") auto
  have "light b c" using c light_write by (auto split: if_splits)
  then have "light (f_afl s) d" using light_write [OF b] light_run [OF d] light_trans by blast
  moreover have "f_afl t = d \<and> f_keeping t = f_keeping s" using assms unfolding rerun_hang_def b rbind_simps split_conv c d Let_def by auto
  ultimately show ?thesis by simp
qed

text \<open>
  What a decision of the \<open>switch\<close> does to the counts and the files: only a file about to be written is counted
  ahead.
\<close>

definition decided :: "find \<Rightarrow> verdict \<Rightarrow> find \<Rightarrow> bool" where
  "decided s v t \<longleftrightarrow> queue_frame (f_afl s) (f_afl t) \<and> custom_mutators_count (f_afl t) = custom_mutators_count (f_afl s) \<and>
     f_keeping t = f_keeping s \<and> (capped (f_afl s) \<longrightarrow> capped (f_afl t)) \<and> afl_no_crash_readme (afl_env (f_afl t)) = afl_no_crash_readme (afl_env (f_afl s)) \<and>
     saved_crashes (f_afl s) \<le> saved_crashes (f_afl t) \<and>
     length (disk (f_afl t)) + tally (f_afl s) + (case v of Save fn \<Rightarrow> 1 | _ \<Rightarrow> 0) = length (disk (f_afl s)) + tally (f_afl t)"

lemma light_tally: "light a b \<Longrightarrow> tally b = tally a \<and> capped b = capped a \<and> disk b = disk a \<and> queue_frame a b"
  using shape_frameD(1, 2, 4) [of a b] by (simp add: light_def tally_def has_readme_def capped_def)

lemma decided_light:
  assumes "light (f_afl s) (f_afl t)" "f_keeping t = f_keeping s" "v = Return \<or> v = Requeue"
  shows "decided s v t"
  using assms light_tally [OF assms(1)] by (auto simp: decided_def light_def)

lemma decided_after:
  assumes "light (f_afl s) (f_afl t)" "f_keeping t = f_keeping s" "decided t v u"
  shows "decided s v u"
  using assms light_tally [OF assms(1)] queue_frame_trans [of "f_afl s" "f_afl t"] by (simp add: decided_def light_def)

lemma unat_suc_cap: "\<not> c \<le> (n :: u64) \<Longrightarrow> unat (n + 1) = unat n + 1 \<and> n + 1 \<le> c"
proof -
  assume "\<not> c \<le> n"
  then have l: "unat n < unat c" by (simp add: word_le_nat_alt)
  have "unat c < 2 ^ 64" using unsigned_less [of c] by simp
  then have "unat (n + 1) = unat n + 1" using l by (simp add: unat_word_ariths)
  then show ?thesis using l by (simp add: word_le_nat_alt)
qed

text \<open>With files that can be created, the first crash puts its note on the disk.\<close>

lemma readme_written:
  assumes "disk_ok w" "(if saved_crashes a = 0 \<and> afl_no_crash_readme (afl_env a) \<noteq> 1 then write_crash_readme w a else Inr a) = Inr b"
  obtains fs where "b = a\<lparr>disk := disk a @ fs\<rparr>" "length fs = (if saved_crashes a = 0 \<and> afl_no_crash_readme (afl_env a) \<noteq> 1 then 1 else 0)"
proof (cases "saved_crashes a = 0 \<and> afl_no_crash_readme (afl_env a) \<noteq> 1")
  case True
  then obtain bs where "b = a\<lparr>disk := disk a @ [(readme_name a, bs)]\<rparr>"
    using assms by (auto simp: write_crash_readme_def disk_ok_def Let_def split: if_splits)
  with True show ?thesis by (intro that [of "[(readme_name a, bs)]"]) simp_all
next
  case False
  with assms(2) show ?thesis by (intro that [of "[]"]) simp_all
qed

lemma crash_decided:
  assumes "disk_ok w" "keep_as_crash w s = Inr (v, t)"
  shows "decided s v t" "v \<noteq> Requeue"
proof -
  let ?s = "s\<lparr>f_afl := (f_afl s)\<lparr>total_crashes := total_crashes (f_afl s) + 1\<rparr>\<rparr>"
  have l0: "light (f_afl s) (f_afl ?s)" by simp
  obtain u r where u: "unique_fault VirginCrash ?s = (u, r)" by (cases "unique_fault VirginCrash ?s") auto
  have l1: "light (f_afl ?s) (f_afl r)" "f_keeping r = f_keeping s" using light_unique [OF u] by simp_all
  have l2: "light (f_afl s) (f_afl r)" using l0 l1 light_trans by blast
  have e: "keep_as_crash w s = (if KEEP_UNIQUE_CRASH \<le> saved_crashes (f_afl s) then Inr (Return, ?s)
      else if \<not> u then Inr (Return, r)
      else rbind (if saved_crashes (f_afl r) = 0 \<and> afl_no_crash_readme (afl_env (f_afl r)) \<noteq> 1 then write_crash_readme w (f_afl r) else Inr (f_afl r)) (\<lambda>a.
        rbind (crash_name w (take (unat (f_len r)) (f_mem r)) a) (\<lambda>fn.
          Inr (Save fn, r\<lparr>f_afl := a\<lparr>saved_crashes := saved_crashes a + 1, last_crash_time := o_time w a, last_crash_execs := total_execs (fsrv a)\<rparr>\<rparr>))))"
    by (simp add: keep_as_crash_def u Let_def)
  have "decided s v t \<and> v \<noteq> Requeue"
  proof (cases "KEEP_UNIQUE_CRASH \<le> saved_crashes (f_afl s) \<or> \<not> u")
    case True
    then have "v = Return \<and> (t = ?s \<or> t = r)" using assms(2) unfolding e by (auto split: if_splits)
    then show ?thesis using decided_light [OF l0] decided_light [OF l2] l1(2) by auto
  next
    case False
    let ?first = "saved_crashes (f_afl r) = 0 \<and> afl_no_crash_readme (afl_env (f_afl r)) \<noteq> 1"
    obtain b fn where b: "(if ?first then write_crash_readme w (f_afl r) else Inr (f_afl r)) = Inr b" and v: "v = Save fn"
      and t: "t = r\<lparr>f_afl := b\<lparr>saved_crashes := saved_crashes b + 1, last_crash_time := o_time w b, last_crash_execs := total_execs (fsrv b)\<rparr>\<rparr>"
      using assms(2) False unfolding e by (auto simp: rbind_eq_Inr_iff)
    obtain fs where fs: "b = (f_afl r)\<lparr>disk := disk (f_afl r) @ fs\<rparr>" "length fs = (if ?first then 1 else 0)"
      by (rule readme_written [OF assms(1) b])
    note lt = light_tally [OF l2]
    have n: "saved_crashes (f_afl r) = saved_crashes (f_afl s)" using l2 by (simp add: light_def)
    have c: "unat (saved_crashes (f_afl s) + 1) = unat (saved_crashes (f_afl s)) + 1" "saved_crashes (f_afl s) + 1 \<le> KEEP_UNIQUE_CRASH"
      using unat_suc_cap [of KEEP_UNIQUE_CRASH "saved_crashes (f_afl s)"] False by simp_all
    then have c1: "saved_crashes (f_afl s) + 1 \<noteq> 0" "saved_crashes (f_afl s) \<le> saved_crashes (f_afl s) + 1"
      by (auto simp: word_le_nat_alt)
    have q: "queue_frame (f_afl s) (f_afl t)" using lt by (simp add: t fs(1) queue_frame_def)
    have "tally (f_afl t) = tally (f_afl r) + 1 + (if ?first then 1 else 0)"
      using c c1 n by (simp add: t fs(1) tally_def has_readme_def)
    moreover have "length (disk (f_afl t)) = length (disk (f_afl r)) + (if ?first then 1 else 0)" by (simp add: t fs)
    ultimately show ?thesis using q lt l1(2) l2 c c1 n v by (simp add: decided_def light_def capped_def t fs(1))
  qed
  then show "decided s v t" "v \<noteq> Requeue" by blast+
qed

lemma hang_decided:
  assumes "keep_as_hang w s = Inr (v, t)" "\<not> KEEP_UNIQUE_HANG \<le> saved_hangs (f_afl s)"
  shows "decided s v t"
  using assms(1) unat_suc_cap [OF assms(2)]
  by (auto simp: keep_as_hang_def Let_def rbind_eq_Inr_iff decided_def tally_def has_readme_def capped_def queue_frame_def)

lemma check_hang_decided:
  assumes "disk_ok w" "check_hang w s = Inr (v, t)"
  shows "decided s v t"
proof -
  let ?s = "s\<lparr>f_afl := (f_afl s)\<lparr>total_tmouts := total_tmouts (f_afl s) + 1\<rparr>\<rparr>"
  obtain u r where u: "unique_fault VirginTmout ?s = (u, r)" by (cases "unique_fault VirginTmout ?s") auto
  have "light (f_afl ?s) (f_afl r)" "f_keeping r = f_keeping s" using light_unique [OF u] by simp_all
  then have l: "light (f_afl s) (f_afl r)" "f_keeping r = f_keeping s" using light_trans [of "f_afl s" "f_afl ?s"] by simp_all
  let ?r = "r\<lparr>f_timeout := 0x80\<rparr>"
  have e: "check_hang w s = (if KEEP_UNIQUE_HANG \<le> saved_hangs (f_afl s) then Inr (Return, ?s)
      else if \<not> u then Inr (Return, r) else
        if exec_tmout (fsrv (f_afl r)) < hang_tmout (f_afl r)
        then rbind (rerun_hang w ?r) (\<lambda>(new_fault, s).
                                let a = f_afl s
                                in if stop_soon a = 0 \<and> new_fault = FSRV_RUN_CRASH then keep_as_crash w s
                                   else if stop_soon a \<noteq> 0 \<or> new_fault \<noteq> FSRV_RUN_TMOUT
                                   then if afl_keep_timeouts (afl_env a)
                                        then Inr (Requeue, s\<lparr>f_afl := a\<lparr>saved_tmouts := saved_tmouts a + 1\<rparr>\<rparr>)
                                        else Inr (Return, s)
                                   else keep_as_hang w s)
        else keep_as_hang w ?r)"
    by (simp add: check_hang_def u Let_def)
  show ?thesis
  proof (cases "KEEP_UNIQUE_HANG \<le> saved_hangs (f_afl s) \<or> \<not> u")
    case True
    then show ?thesis using assms(2) e l decided_light [of s ?s] decided_light [of s r] by (auto split: if_splits)
  next
    case False
    have cap: "\<not> KEEP_UNIQUE_HANG \<le> saved_hangs (f_afl r)" using False l by (auto simp: light_def)
    have lr: "light (f_afl s) (f_afl ?r)" "f_keeping ?r = f_keeping s" using l by simp_all
    show ?thesis
    proof (cases "exec_tmout (fsrv (f_afl r)) < hang_tmout (f_afl r)")
      case False
      then have "keep_as_hang w ?r = Inr (v, t)" using assms(2) e \<open>\<not> (KEEP_UNIQUE_HANG \<le> saved_hangs (f_afl s) \<or> \<not> u)\<close> by simp
      then show ?thesis using hang_decided [of w ?r v t] cap decided_after [OF lr] by simp
    next
      case True
      then obtain nf x where x: "rerun_hang w ?r = Inr (nf, x)" using assms(2) e False by (auto simp: rbind_eq_Inr_iff)
      have lx: "light (f_afl s) (f_afl x)" "f_keeping x = f_keeping s" using light_rerun [OF x] lr light_trans by auto
      have capx: "\<not> KEEP_UNIQUE_HANG \<le> saved_hangs (f_afl x)" using cap lx l by (simp add: light_def)
      have "keep_as_crash w x = Inr (v, t) \<or> keep_as_hang w x = Inr (v, t) \<or>
          (v = Requeue \<and> t = x\<lparr>f_afl := (f_afl x)\<lparr>saved_tmouts := saved_tmouts (f_afl x) + 1\<rparr>\<rparr>) \<or> (v = Return \<and> t = x)"
        using assms(2) e x True False by (auto simp: Let_def split: if_splits)
      then show ?thesis
        using crash_decided(1) [OF assms(1), of x v t] hang_decided [of w x v t] capx decided_after [OF lx] decided_light [of s t v] lx by auto
    qed
  qed
qed

lemma may_save_decided: "disk_ok w \<Longrightarrow> may_save_fault w s = Inr (v, t) \<Longrightarrow> decided s v t"
  using check_hang_decided crash_decided(1) decided_light [of s s Return] by (auto simp: may_save_fault_def split: if_splits)

definition balanced :: "afl_state \<Rightarrow> afl_state \<Rightarrow> bool" where
  "balanced a b \<longleftrightarrow> queue_wf b \<and> custom_mutators_count b = 0 \<and> capped b \<and> length (disk b) + tally a = length (disk a) + tally b \<and>
     saved_crashes a \<le> saved_crashes b \<and> afl_no_crash_readme (afl_env b) = afl_no_crash_readme (afl_env a)"

lemma balanced_trans: "balanced a b \<Longrightarrow> balanced b c \<Longrightarrow> balanced a c"
  using order_trans by (auto simp: balanced_def)

lemma light_balanced:
  assumes "light a b" "queue_wf a" "custom_mutators_count a = 0" "capped a"
  shows "balanced a b" "queued_items b = queued_items a"
proof -
  have "queue_frame a b" using assms(1) shape_frameD(1) by (auto simp: light_def)
  then show "balanced a b" "queued_items b = queued_items a"
    using assms light_tally [OF assms(1)] queue_frame_wf [of a b] by (simp_all add: balanced_def light_def shape_frame_def)
qed

lemma requeue_balanced:
  assumes "disk_ok w" "queue_wf (f_afl s)" "unat (queued_items (f_afl s)) + 1 < 2 ^ 32" "custom_mutators_count (f_afl s) = 0" "capped (f_afl s)"
    and "save_to_queue w s = Inr (Some t)"
  shows "balanced (f_afl s) (f_afl t)" "queued_items (f_afl t) = queued_items (f_afl s) + 1"
proof -
  obtain fn where t: "save_core (f_afl t) = save_core (f_afl s)" "queue_wf (f_afl t)"
    "disk (f_afl t) = disk (f_afl s) @ [(fn, take (unat (f_len s)) (f_mem s))]" "names (f_afl t) = names (f_afl s) @ [(fn, f_len s)]"
    using save_to_queue_effect [OF assms(1-4, 6)] by auto
  have len: "length (queue_buf (f_afl t)) = length (queue_buf (f_afl s)) + 1" using arg_cong [OF t(4), of length] by (simp add: names_def)
  note C = save_coreD [OF t(1)]
  show "balanced (f_afl s) (f_afl t)" using t(2, 3) len C(1, 3, 4, 13) assms(4, 5) by (simp add: balanced_def tally_def has_readme_def capped_def)
  have "unat (queued_items (f_afl t)) = unat (queued_items (f_afl s)) + 1" using len queue_wfD(1) [OF t(2)] queue_wfD(1) [OF assms(2)] by simp
  also have "\<dots> = unat (queued_items (f_afl s) + 1)" using assms(3) by (simp add: unat_word_ariths)
  finally show "queued_items (f_afl t) = queued_items (f_afl s) + 1" by (simp add: word_unat_eq_iff)
qed

lemma settle_balanced:
  assumes "disk_ok w"
  shows "queue_wf (f_afl s) \<Longrightarrow> custom_mutators_count (f_afl s) = 0 \<Longrightarrow> capped (f_afl s) \<Longrightarrow> unat (queued_items (f_afl s)) + fuel < 2 ^ 32 \<Longrightarrow>
    settle_fault fuel w s = Inr (Some (k, b)) \<Longrightarrow> balanced (f_afl s) b"
proof (induction fuel arbitrary: s)
  case 0
  then show ?case by simp
next
  case (Suc n)
  obtain v t where v: "may_save_fault w s = Inr (v, t)" using Suc.prems(5) by (auto simp: rbind_eq_Inr_iff)
  have d: "decided s v t" by (rule may_save_decided [OF assms v])
  then have t: "queue_wf (f_afl t)" "custom_mutators_count (f_afl t) = 0" "capped (f_afl t)" "queued_items (f_afl t) = queued_items (f_afl s)"
    using queue_frame_wf [of "f_afl s" "f_afl t"] Suc.prems(1-3) by (auto simp: decided_def queue_frame_def)
  show ?case
  proof (cases v)
    case Return
    then show ?thesis using Suc.prems(5) v d t by (auto simp: balanced_def decided_def)
  next
    case (Save fn)
    then obtain r where r: "save_file w fn (f_mem t) (f_len t) (f_afl t) = Inr r" "Some (k, b) = map_option (Pair (f_keeping t)) r"
      using Suc.prems(5) v by (auto simp: rbind_eq_Inr_iff)
    then have b: "b = (f_afl t)\<lparr>disk := disk (f_afl t) @ [(fn, take (unat (f_len t)) (f_mem t))]\<rparr>" using save_file_ok(1) [OF assms r(1)] by simp
    have "queue_frame (f_afl t) b" by (simp add: b queue_frame_def)
    then have "queue_wf b" using t(1) queue_frame_wf by blast
    then show ?thesis using d t Save by (simp add: b balanced_def decided_def tally_def has_readme_def capped_def)
  next
    case Requeue
    then obtain u where u: "save_to_queue w t = Inr (Some u)" "settle_fault n w u = Inr (Some (k, b))"
      using Suc.prems(5) v by (auto simp: rbind_eq_Inr_iff split: option.splits)
    have room: "unat (queued_items (f_afl t)) + 1 < 2 ^ 32" using Suc.prems(4) t(4) u(2) by (cases n) simp_all
    note R = requeue_balanced [OF assms t(1) room t(2, 3) u(1)]
    have "unat (queued_items (f_afl u)) = unat (queued_items (f_afl t)) + 1" using room R(2) by (simp add: unat_word_ariths)
    then have "balanced (f_afl u) b" using Suc.IH [of u] u(2) R(1) Suc.prems(4) t(4) by (simp add: balanced_def)
    moreover have "balanced (f_afl s) (f_afl t)" using d t Requeue by (simp add: balanced_def decided_def)
    ultimately show ?thesis using R(1) balanced_trans by blast
  qed
qed

lemma keep_if_new_balanced:
  assumes "disk_ok w" "queue_wf (f_afl s)" "custom_mutators_count (f_afl s) = 0" "capped (f_afl s)" "unat (queued_items (f_afl s)) + fuel + 1 < 2 ^ 32"
    and k: "keep_if_new w fuel sf s = Inr (Some (keeping, b))"
  shows "balanced (f_afl s) b"
proof -
  define t where "t = calculate_new_bits_if_necessary s"
  have lt: "light (f_afl s) (f_afl t)" unfolding t_def using calculate_locals(3) light_calm by (auto simp: same_locals_def)
  note B = light_balanced [OF lt assms(2-4)]
  have S: "balanced (f_afl s) b" if l: "light (f_afl s) (f_afl u)" and st: "settle_fault fuel w u = Inr (Some (keeping, b))" for u
    using settle_balanced [OF assms(1), of u fuel keeping b] light_balanced [OF l assms(2-4)] assms(5) st balanced_trans [of "f_afl s" "f_afl u" b]
    by (simp add: balanced_def)
  show ?thesis
  proof (cases "f_new_bits t = 0")
    case True
    show ?thesis
    proof (cases "sf = FSRV_RUN_OK")
      case True
      then have "light (f_afl s) b" using k \<open>f_new_bits t = 0\<close> lt by (auto simp: keep_if_new_def t_def Let_def split: if_splits)
      then show ?thesis by (rule light_balanced(1) [OF _ assms(2-4)])
    next
      case False
      show ?thesis
        by (rule S [of "t\<lparr>f_fault := sf, f_afl := (f_afl t)\<lparr>san_case_status := san_case_status (f_afl t) OR NON_COV_INCREASE_BUG\<rparr>\<rparr>"])
          (use k True False lt in \<open>simp_all add: keep_if_new_def t_def Let_def\<close>)
    qed
  next
    case False
    then obtain u where u: "save_to_queue w (t\<lparr>f_fault := sf\<rparr>) = Inr (Some u)" "settle_fault fuel w u = Inr (Some (keeping, b))"
      using k by (auto simp: keep_if_new_def t_def Let_def rbind_eq_Inr_iff split: option.splits)
    have room: "unat (queued_items (f_afl t)) + 1 < 2 ^ 32" using assms(5) B(2) by simp
    have R: "balanced (f_afl t) (f_afl u)" "queued_items (f_afl u) = queued_items (f_afl t) + 1"
      using requeue_balanced [OF assms(1), of "t\<lparr>f_fault := sf\<rparr>" u] B(1) room u(1) by (simp_all add: balanced_def)
    have "unat (queued_items (f_afl u)) = unat (queued_items (f_afl t)) + 1" using room R(2) by (simp add: unat_word_ariths)
    then have "balanced (f_afl u) b" using settle_balanced [OF assms(1), of u fuel keeping b] u(2) R(1) assms(5) B(2) by (simp add: balanced_def)
    then show ?thesis using B(1) R(1) balanced_trans by blast
  qed
qed

text \<open>
  C4: every file is accounted for. Whatever the target, the sanitizers and the result of the run,
  when \<open>save_if_interesting\<close> returns, the number of files it has written equals the growth of the queue plus the
  growth of the counts of saved hangs and crashes, plus one for the \<open>README.txt\<close> that goes with the first saved
  crash unless \<open>AFL_NO_CRASH_README\<close> forbids it. The counts stay within their limits of 512 hangs and 25600
  crashes, the count of crashes does not shrink, and the queue stays well formed.
\<close>

theorem finds_accounted:
  assumes "disk_ok w" and "queue_wf a" and "custom_mutators_count a = 0" and "capped a" and "unat (queued_items a) + fuel + 1 < 2 ^ 32"
    and "save_if_interesting w fuel mem len fault a = Inr (Some (keeping, b))"
  shows "queue_wf b \<and> saved_hangs b \<le> 512 \<and> saved_crashes b \<le> 25600 \<and> saved_crashes a \<le> saved_crashes b \<and>
    length (disk b) + length (queue_buf a) + unat (saved_hangs a) + unat (saved_crashes a) =
    length (disk a) + length (queue_buf b) + unat (saved_hangs b) + unat (saved_crashes b) +
    (if saved_crashes a = 0 \<and> saved_crashes b \<noteq> 0 \<and> afl_no_crash_readme (afl_env a) \<noteq> 1 then 1 else 0)"
proof -
  let ?s = "start_find w mem len fault a"
  have "light (a\<lparr>san_case_status := 0\<rparr>) (f_afl ?s)" by (rule light_calm [OF start_find_locals(7)])
  then have ls: "light a (f_afl ?s)" using light_trans [of a "a\<lparr>san_case_status := 0\<rparr>"] by simp
  note B = light_balanced [OF ls assms(2-4)]
  have "balanced a b"
  proof (cases "len = 0 \<or> fault = FSRV_RUN_TMOUT \<and> afl_ignore_timeouts (afl_env a)")
    case True
    then have "b = a \<or> b = ignore_timeout w a" using assms(6) by (auto simp: save_if_interesting_def split: if_splits)
    then have "light a b" by (auto simp: ignore_timeout_def count_path_def Let_def)
    then show ?thesis by (rule light_balanced(1) [OF _ assms(2-4)])
  next
    case False
    then have e: "(if fault = crash_mode a then rbind (run_sanitizers w ?s) (\<lambda>(san_fault, s). keep_if_new w fuel san_fault s)
        else settle_fault fuel w ?s) = Inr (Some (keeping, b))" using assms(6) by (auto simp: save_if_interesting_def Let_def)
    show ?thesis
    proof (cases "fault = crash_mode a")
      case False
      then have "balanced (f_afl ?s) b" using settle_balanced [OF assms(1), of ?s fuel keeping b] e B assms(5) by (simp add: balanced_def)
      then show ?thesis using B(1) balanced_trans by blast
    next
      case True
      then obtain sf s where s: "run_sanitizers w ?s = Inr (sf, s)" "keep_if_new w fuel sf s = Inr (Some (keeping, b))" using e
        by (auto simp: rbind_eq_Inr_iff)
      have "light a (f_afl s)" using ls light_sanitizers [OF s(1)] light_trans by blast
      note C = light_balanced [OF this assms(2-4)]
      have "balanced (f_afl s) b" using keep_if_new_balanced [OF assms(1), of s fuel sf keeping b] C s(2) assms(5) by (simp add: balanced_def)
      then show ?thesis using C(1) balanced_trans by blast
    qed
  qed
  moreover from this have "saved_crashes a \<noteq> 0 \<Longrightarrow> saved_crashes b \<noteq> 0" by (auto simp: balanced_def)
  ultimately show ?thesis
    by (auto simp: balanced_def capped_def tally_def has_readme_def KEEP_UNIQUE_HANG_def KEEP_UNIQUE_CRASH_def split: if_splits)
qed

section \<open>Hanging targets\<close>

definition steady :: "afl_state \<Rightarrow> afl_state \<Rightarrow> bool" where
  "steady a b \<longleftrightarrow> afl_env b = afl_env a \<and> crash_mode b = crash_mode a \<and> subseq_tmouts b = subseq_tmouts a \<and>
     custom_mutators_count b = custom_mutators_count a \<and> min_length b = min_length a \<and> max_length b = max_length a"

lemma steady_refl [simp]: "steady a a"
  by (simp add: steady_def)

lemma steady_trans: "steady a b \<Longrightarrow> steady b c \<Longrightarrow> steady a c"
  by (simp add: steady_def)

lemma steady_upd [simp]:
  "steady a (b\<lparr>fsrv := x1\<rparr>) = steady a b" "steady a (b\<lparr>san_case_status := x2\<rparr>) = steady a b" "steady a (b\<lparr>n_fuzz := x3\<rparr>) = steady a b"
  "steady a (b\<lparr>total_tmouts := x4\<rparr>) = steady a b" "steady a (b\<lparr>saved_hangs := x4\<rparr>) = steady a b" "steady a (b\<lparr>last_hang_time := x4\<rparr>) = steady a b"
  "steady a (b\<lparr>disk := x5\<rparr>) = steady a b" "steady a (b\<lparr>virgin_tmout := x6\<rparr>) = steady a b"
  "steady a (b\<lparr>queued_discovered := x7\<rparr>) = steady a b" "steady a (b\<lparr>skip_requested := x8\<rparr>) = steady a b" "steady a (b\<lparr>cur_skipped_items := x7\<rparr>) = steady a b"
  by (simp_all add: steady_def)

lemma steady_run:
  assumes "run_frame a b"
  shows "steady a b"
proof -
  have c: "run_core b = run_core a" using assms by (simp add: run_frame_def)
  show ?thesis
    using arg_cong [OF c, of afl_env] arg_cong [OF c, of crash_mode] arg_cong [OF c, of subseq_tmouts] arg_cong [OF c, of custom_mutators_count]
      arg_cong [OF c, of min_length] arg_cong [OF c, of max_length] by (simp add: run_core_def steady_def)
qed

lemma steady_start: "steady a (f_afl (start_find w mem len fault a))" "steady a (ignore_timeout w a)"
  by (simp_all add: start_find_def calculate_cksum_if_necessary_def classify_if_necessary_def count_path_def ignore_timeout_def Let_def)

text \<open>A target on which every run times out, while no signal arrives.\<close>

definition hangs :: "outside \<Rightarrow> bool" where
  "hangs w \<longleftrightarrow> (\<forall>f t. fst (o_run w f t) = FSRV_RUN_TMOUT) \<and> (\<forall>a. o_signal w a = 0)"

lemma steady_unique:
  assumes "unique_fault VirginTmout s = (u, t)"
  shows "steady (f_afl s) (f_afl t)"
  using assms by (auto simp: unique_fault_def has_new_bits_def Let_def split_beta split: if_splits)

lemma steady_rerun:
  assumes "hangs w" "rerun_hang w s = Inr (nf, t)"
  shows "steady (f_afl s) (f_afl t)" "nf = FSRV_RUN_TMOUT" "stop_soon (f_afl t) = 0"
proof -
  obtain mem n b where b: "write_to_testcase w (f_mem s) (f_len s) False (f_afl s) = Inr (mem, n, b)" using assms(2)
    by (auto simp: rerun_hang_def rbind_eq_Inr_iff)
  obtain mem' len c where c: "(if n \<noteq> 0 then Inr (mem, n, b) else write_to_testcase w mem (f_len s) True b) = Inr (mem', len, c)"
    using assms(2) b by (auto simp: rerun_hang_def rbind_eq_Inr_iff)
  obtain f d where d: "exec_target w (hang_tmout c) c = (f, d)" by (cases "exec_target w (hang_tmout c) c") auto
  have t: "f_afl t = d" "nf = f" using assms(2) unfolding rerun_hang_def b rbind_simps split_conv c d Let_def by auto
  have "steady (f_afl s) b" using write_frame [OF b] by auto
  moreover have "steady b c" using c write_frame [of w mem "f_len s" True b] by (fastforce split: if_splits)
  ultimately show "steady (f_afl s) (f_afl t)" using t exec_target_frame(1) [OF d] steady_run steady_trans by blast
  show "nf = FSRV_RUN_TMOUT" "stop_soon (f_afl t) = 0" using t exec_target_frame(2, 4) [OF d] assms(1) by (auto simp: hangs_def)
qed

lemma check_hang_steady:
  assumes "hangs w" "\<not> afl_keep_timeouts (afl_env (f_afl s))" "check_hang w s = Inr (v, t)"
  shows "steady (f_afl s) (f_afl t)" "v \<noteq> Requeue"
proof -
  let ?s = "s\<lparr>f_afl := (f_afl s)\<lparr>total_tmouts := total_tmouts (f_afl s) + 1\<rparr>\<rparr>"
  obtain u r where u: "unique_fault VirginTmout ?s = (u, r)" by (cases "unique_fault VirginTmout ?s") auto
  have r: "steady (f_afl s) (f_afl r)" using steady_unique [OF u] steady_trans [of "f_afl s" "f_afl ?s"] by simp
  have k: "steady (f_afl x) (f_afl y) \<and> v' \<noteq> Requeue" if "keep_as_hang w x = Inr (v', y)" for x y v'
    using that by (auto simp: keep_as_hang_def Let_def rbind_eq_Inr_iff)
  let ?r = "r\<lparr>f_timeout := 0x80\<rparr>"
  consider "v = Return" "t = ?s \<or> t = r" | "keep_as_hang w ?r = Inr (v, t)"
    | nf x where "rerun_hang w ?r = Inr (nf, x)" "keep_as_hang w x = Inr (v, t)"
  proof (cases "KEEP_UNIQUE_HANG \<le> saved_hangs (f_afl s) \<or> \<not> u")
    case True
    then have "v = Return \<and> (t = ?s \<or> t = r)" using assms(3) by (auto simp: check_hang_def u Let_def split: if_splits)
    then show ?thesis using that(1) by blast
  next
    case big: False
    show ?thesis
    proof (cases "exec_tmout (fsrv (f_afl r)) < hang_tmout (f_afl r)")
      case False
      then have "keep_as_hang w ?r = Inr (v, t)" using assms(3) big by (simp add: check_hang_def u Let_def)
      then show ?thesis by (rule that(2))
    next
      case True
      then obtain nf x where x: "rerun_hang w ?r = Inr (nf, x)" using assms(3) big by (auto simp: check_hang_def u Let_def rbind_eq_Inr_iff)
      have "keep_as_hang w x = Inr (v, t)"
        using assms(3) big True x steady_rerun(2, 3) [OF assms(1) x] by (simp add: check_hang_def u Let_def fsrv_results)
      then show ?thesis by (rule that(3) [OF x])
    qed
  qed
  then have "steady (f_afl s) (f_afl t) \<and> v \<noteq> Requeue"
  proof cases
    case 1
    then show ?thesis using r by auto
  next
    case 2
    have "steady (f_afl s) (f_afl ?r)" using r by simp
    then show ?thesis using k [OF 2] steady_trans by blast
  next
    case 3
    have "steady (f_afl s) (f_afl ?r)" using r by simp
    then show ?thesis using k [OF 3(2)] steady_rerun(1) [OF assms(1) 3(1)] steady_trans by blast
  qed
  then show "steady (f_afl s) (f_afl t)" "v \<noteq> Requeue" by blast+
qed

lemma settle_hang:
  assumes "hangs w" "disk_ok w" "\<not> afl_keep_timeouts (afl_env (f_afl s))" "f_fault s = FSRV_RUN_TMOUT" "0 < fuel"
  shows "case settle_fault fuel w s of Inl e \<Rightarrow> True | Inr None \<Rightarrow> False | Inr (Some (k, b)) \<Rightarrow> steady (f_afl s) b"
proof -
  obtain n where n: "fuel = Suc n" using assms(5) by (cases fuel) auto
  have m: "may_save_fault w s = check_hang w s" using assms(4) by (simp add: may_save_fault_def)
  show ?thesis
  proof (cases "check_hang w s")
    case (Inl e)
    then show ?thesis by (simp add: n m)
  next
    case (Inr p)
    obtain v t where p: "p = (v, t)" by (cases p)
    note C = check_hang_steady [OF assms(1, 3) Inr [unfolded p]]
    show ?thesis
    proof (cases v)
      case Return
      then show ?thesis using Inr p C by (simp add: n m)
    next
      case (Save fn)
      show ?thesis
      proof (cases "save_file w fn (f_mem t) (f_len t) (f_afl t)")
        case (Inl e)
        then show ?thesis using Save Inr p by (simp add: n m \<open>check_hang w s = Inr p\<close>)
      next
        case (Inr r)
        then show ?thesis using Save p C save_file_ok(1) [OF assms(2) Inr] by (simp add: n m \<open>check_hang w s = Inr p\<close>)
      qed
    next
      case Requeue
      then show ?thesis using C by simp
    qed
  qed
qed

text \<open>
  A stage of \<open>fuzz_one_original\<close>, as every mutation loop there uses \<open>common_fuzz_stuff\<close>: the test cases are run in turn,
  and the entry is abandoned as soon as the call asks for it.
\<close>

fun run_stage :: "outside \<Rightarrow> nat \<Rightarrow> (bytes \<times> u32) list \<Rightarrow> afl_state \<Rightarrow> (bool \<times> afl_state) option res" where
  "run_stage w fuel [] a = Inr (Some (False, a))"
| "run_stage w fuel ((buf, len) # bufs) a =
     rbind (common_fuzz_stuff w fuel buf len a) (\<lambda>r. case r of
       None \<Rightarrow> Inr None
     | Some (abandon, a) \<Rightarrow> if abandon then Inr (Some (True, a)) else run_stage w fuel bufs a)"

definition fits :: "afl_state \<Rightarrow> bytes \<times> u32 \<Rightarrow> bool" where
  "fits a x \<longleftrightarrow> snd x \<noteq> 0 \<and> min_length a \<le> snd x \<and> snd x \<le> max_length a \<and> unat (snd x) \<le> length (fst x)"

lemma hanging_call:
  assumes "hangs w" "disk_ok w" "\<not> afl_keep_timeouts (afl_env a)" "crash_mode a \<noteq> FSRV_RUN_TMOUT" "custom_mutators_count a = 0" "0 < fuel"
    and "fits a (buf, len)"
  shows "case common_fuzz_stuff w fuel buf len a of
      Inl e \<Rightarrow> True
    | Inr None \<Rightarrow> False
    | Inr (Some (abandon, b)) \<Rightarrow> abandon \<or> (subseq_tmouts a \<le> TMOUT_LIMIT \<and> steady (a\<lparr>subseq_tmouts := subseq_tmouts a + 1\<rparr>) b)"
proof -
  have "fit_length False (unat len) a = unat len" using assms(7) by (auto simp: fit_length_def fits_def word_le_nat_alt)
  then have wr: "write_to_testcase w buf len False a = Inr (buf, len, a\<lparr>fsrv := afl_fsrv_write_to_testcase (take (unat len) buf) (fsrv a)\<rparr>)"
    using assms(5, 7) by (simp add: write_to_testcase_def fits_def Let_def)
  let ?a = "a\<lparr>fsrv := afl_fsrv_write_to_testcase (take (unat len) buf) (fsrv a)\<rparr>"
  obtain f b where b: "exec_target w (exec_tmout (fsrv ?a)) ?a = (f, b)" by (cases "exec_target w (exec_tmout (fsrv ?a)) ?a") auto
  have f: "f = FSRV_RUN_TMOUT" "stop_soon b = 0" using exec_target_frame(2, 4) [OF b] assms(1) by (auto simp: hangs_def)
  have sb: "steady a b" using steady_run [OF exec_target_frame(1) [OF b]] steady_trans [of a ?a b] by simp
  let ?c = "b\<lparr>subseq_tmouts := subseq_tmouts b + 1\<rparr>"
  have sc: "steady (a\<lparr>subseq_tmouts := subseq_tmouts a + 1\<rparr>) ?c" using sb by (simp add: steady_def)
  have nz: "len \<noteq> 0" using assms(7) by (simp add: fits_def)
  have e: "common_fuzz_stuff w fuel buf len a =
      (if TMOUT_LIMIT < subseq_tmouts b then Inr (Some (True, ?c\<lparr>cur_skipped_items := cur_skipped_items ?c + 1\<rparr>))
       else if skip_requested ?c \<noteq> 0 then Inr (Some (True, ?c\<lparr>skip_requested := 0, cur_skipped_items := cur_skipped_items ?c + 1\<rparr>))
       else rbind (save_if_interesting w fuel buf len FSRV_RUN_TMOUT ?c) (\<lambda>r.
              Inr (map_option (\<lambda>(keeping, a). (False, a\<lparr>queued_discovered := queued_discovered a + (if keeping then 1 else 0)\<rparr>)) r)))"
    using nz f b wr by (simp add: common_fuzz_stuff_def Let_def)
  have st: "case save_if_interesting w fuel buf len FSRV_RUN_TMOUT ?c of Inl e \<Rightarrow> True | Inr None \<Rightarrow> False | Inr (Some (k, d)) \<Rightarrow> steady ?c d"
  proof -
    let ?s = "start_find w buf len FSRV_RUN_TMOUT ?c"
    have env: "\<not> afl_keep_timeouts (afl_env (f_afl ?s))" "f_fault ?s = FSRV_RUN_TMOUT" "crash_mode ?c \<noteq> FSRV_RUN_TMOUT"
      using start_find_locals(3, 8) [where w = w and mem = buf and len = len and fault = FSRV_RUN_TMOUT and a = ?c] sb assms(3, 4) by (simp_all add: steady_def)
    note S = settle_hang [OF assms(1, 2) env(1, 2) assms(6)]
    have "save_if_interesting w fuel buf len FSRV_RUN_TMOUT ?c = Inr (Some (False, ignore_timeout w ?c)) \<or>
        save_if_interesting w fuel buf len FSRV_RUN_TMOUT ?c = settle_fault fuel w ?s"
      using nz env(3) by (simp add: save_if_interesting_def Let_def)
    then show ?thesis
    proof
      assume "save_if_interesting w fuel buf len FSRV_RUN_TMOUT ?c = Inr (Some (False, ignore_timeout w ?c))"
      then show ?thesis using steady_start(2) by simp
    next
      assume r: "save_if_interesting w fuel buf len FSRV_RUN_TMOUT ?c = settle_fault fuel w ?s"
      show ?thesis unfolding r using S steady_trans [OF steady_start(1) [of ?c w buf len FSRV_RUN_TMOUT]] by (auto split: sum.splits option.splits)
    qed
  qed
  show ?thesis
  proof (cases "TMOUT_LIMIT < subseq_tmouts b \<or> skip_requested ?c \<noteq> 0")
    case True
    then show ?thesis using e by auto
  next
    case False
    then have g: "common_fuzz_stuff w fuel buf len a = rbind (save_if_interesting w fuel buf len FSRV_RUN_TMOUT ?c) (\<lambda>r.
        Inr (map_option (\<lambda>(keeping, a). (False, a\<lparr>queued_discovered := queued_discovered a + (if keeping then 1 else 0)\<rparr>)) r))" using e by simp
    have le: "subseq_tmouts a \<le> TMOUT_LIMIT" using False sb by (auto simp: steady_def)
    show ?thesis
    proof (cases "save_if_interesting w fuel buf len FSRV_RUN_TMOUT ?c")
      case (Inl x)
      then show ?thesis using g by simp
    next
      case (Inr r)
      then obtain k d where r: "r = Some (k, d)" "steady ?c d" using st by (cases r) auto
      then have "steady (a\<lparr>subseq_tmouts := subseq_tmouts a + 1\<rparr>) d" using sc steady_trans by blast
      then show ?thesis using g Inr r le by simp
    qed
  qed
qed

text \<open>
  C8: a hanging target does not hold up the fuzzer. When every run times out, a stage never runs
  to its end once 252 test cases have timed out in a row: the stage returns and the entry is abandoned, unless a file cannot be written or named.
\<close>

theorem hanging_stage_abandoned:
  assumes "hangs w" and "disk_ok w" and "\<not> afl_keep_timeouts (afl_env a)" and "crash_mode a \<noteq> FSRV_RUN_TMOUT" and "custom_mutators_count a = 0"
    and "0 < fuel" and "\<forall>x\<in>set bufs. fits a x" and "bufs \<noteq> []" and "252 \<le> length bufs + unat (subseq_tmouts a)"
  shows "case run_stage w fuel bufs a of Inl e \<Rightarrow> True | Inr None \<Rightarrow> False | Inr (Some (abandoned, b)) \<Rightarrow> abandoned"
  using assms(3-5, 7-9)
proof (induction bufs arbitrary: a)
  case Nil
  then show ?case by simp
next
  case (Cons x bufs)
  obtain buf len where x: "x = (buf, len)" by (cases x)
  have fit: "fits a (buf, len)" using Cons.prems(4) x by simp
  note H = hanging_call [OF assms(1, 2) Cons.prems(1-3) assms(6) fit]
  show ?case
  proof (cases "common_fuzz_stuff w fuel buf len a")
    case (Inl e)
    then show ?thesis by (simp add: x)
  next
    case (Inr r)
    then obtain abandon b where r: "r = Some (abandon, b)" using H by (cases r) auto
    show ?thesis
    proof (cases abandon)
      case True
      then show ?thesis using Inr r x by simp
    next
      case False
      then have s: "subseq_tmouts a \<le> TMOUT_LIMIT" "steady (a\<lparr>subseq_tmouts := subseq_tmouts a + 1\<rparr>) b" using H Inr r by simp_all
      have u: "unat (subseq_tmouts b) = unat (subseq_tmouts a) + 1" "unat (subseq_tmouts a) \<le> 250"
        using s by (simp_all add: steady_def TMOUT_LIMIT_def word_le_nat_alt unat_word_ariths)
      have fit': "\<forall>x\<in>set bufs. fits b x" using Cons.prems(4) s(2) by (simp add: fits_def steady_def)
      have l: "252 \<le> length bufs + unat (subseq_tmouts b)" "bufs \<noteq> []" using Cons.prems(6) u by auto
      have env: "\<not> afl_keep_timeouts (afl_env b)" "crash_mode b \<noteq> FSRV_RUN_TMOUT" "custom_mutators_count b = 0"
        using Cons.prems(1-3) s(2) by (simp_all add: steady_def)
      show ?thesis using Cons.IH [OF env fit' l(2, 1)] Inr r False x by simp
    qed
  qed
qed

section \<open>A handler that does not return\<close>

text \<open>The time limit of the fork server is not changed by running, calibrating or saving a test case.\<close>

definition keeps_limit :: "outside \<Rightarrow> bool" where
  "keeps_limit w \<longleftrightarrow> (\<forall>f t. exec_tmout (fst (snd (o_run w f t))) = exec_tmout f)"

definition limit :: "afl_state \<Rightarrow> u32" where
  "limit a = exec_tmout (fsrv a)"

lemma limit_upd [simp]:
  "limit (a\<lparr>fsrv := classify_counts (fsrv a)\<rparr>) = limit a" "limit (set_entry k f a) = limit a" "limit (mark_variable a) = limit a"
  "limit (save_first_trace a) = limit a" "limit (a\<lparr>stage_cur := x\<rparr>) = limit a" "limit (a\<lparr>stage_max := x\<rparr>) = limit a"
  "limit (calibrate_start k a) = limit a" "limit (snd (calibrate_tail keep sc sm k s)) = limit (c_afl s)" "limit (enter_find k t a) = limit a"
  "limit (a\<lparr>disk := x3\<rparr>) = limit a"
proof -
  obtain v g where "mark_variable a = a\<lparr>var_bytes := v, virgin_bits := g\<rparr>" using mark_variable_frame by blast
  then show "limit (mark_variable a) = limit a" by (simp add: limit_def)
qed (simp_all add: limit_def save_first_trace_def calibrate_start_def calibrate_tail_def keep_original_def enter_find_def Let_def)

lemma limit_write: "write_to_testcase w mem len fix_len a = Inr (mem', n, b) \<Longrightarrow> limit b = limit a"
  by (auto simp: write_to_testcase_def Let_def limit_def afl_fsrv_write_to_testcase_def split: if_splits prod.splits)

lemma limit_exec: "keeps_limit w \<Longrightarrow> exec_target w t a = (f, b) \<Longrightarrow> limit b = limit a"
  using exec_target_frame(3) [of w t a f b] by (simp add: limit_def keeps_limit_def)

lemma limit_bits: "limit (snd (has_new_bits vm a)) = limit a"
  by (cases vm) (simp_all add: limit_def has_new_bits_def split_beta Let_def)

lemma limit_calibrate_run:
  assumes "keeps_limit w" "calibrate_run w t k s = Inr (abort, s')"
  shows "limit (c_afl s') = limit (c_afl s)"
proof -
  obtain mem n b where b: "write_to_testcase w (c_mem s) (q_len (queue_buf (c_afl s) ! k)) True (c_afl s) = Inr (mem, n, b)"
    using assms(2) by (auto simp: calibrate_run_def rbind_eq_Inr_iff)
  obtain f c where c: "exec_target w t b = (f, c)" by (cases "exec_target w t b") auto
  have l: "limit c = limit (c_afl s)" using limit_write [OF b] limit_exec [OF assms(1) c] by simp
  have m: "limit (c_afl (merge_new_bits x)) = limit (c_afl x)" for x by (simp add: merge_new_bits_def split_beta limit_bits)
  have o: "limit (c_afl (other_trace k h x)) = limit (c_afl x)" for h x by (simp add: other_trace_def Let_def m)
  show ?thesis using assms(2) l by (auto simp: calibrate_run_def b c Let_def o split: if_splits)
qed

lemma limit_calibrate_loop:
  assumes "keeps_limit w"
  shows "calibrate_loop n w t k s = Inr (Some (abort, s')) \<Longrightarrow> limit (c_afl s') = limit (c_afl s)"
proof (induction n arbitrary: s)
  case 0
  then show ?case by (simp split: if_splits)
next
  case (Suc n)
  show ?case
  proof (cases "stage_cur (c_afl s) < stage_max (c_afl s)")
    case True
    then obtain ab u where u: "calibrate_run w t k s = Inr (ab, u)" using Suc.prems by (auto simp: rbind_eq_Inr_iff)
    have lu: "limit (c_afl u) = limit (c_afl s)" by (rule limit_calibrate_run [OF assms u])
    show ?thesis
    proof (cases ab)
      case True
      then show ?thesis using u lu Suc.prems \<open>stage_cur (c_afl s) < stage_max (c_afl s)\<close> by simp
    next
      case False
      then have "calibrate_loop n w t k (u\<lparr>c_afl := (c_afl u)\<lparr>stage_cur := stage_cur (c_afl u) + 1\<rparr>\<rparr>) = Inr (Some (abort, s'))"
        using u Suc.prems True by simp
      then show ?thesis using Suc.IH lu by fastforce
    qed
  next
    case False
    then show ?thesis using Suc.prems by simp
  qed
qed

lemma limit_finish:
  assumes "calibrate_finish w us h fr k s = Inr t"
  shows "limit (c_afl t) = limit (c_afl s)"
proof -
  obtain c d where c: "record_stats (elapsed_us us (o_time_us w (c_afl s)) (c_afl s)) h k (c_afl s) = Inr c"
    "update_bitmap_score (o_log1p w) k True c = Inr d" "c_afl t = d"
    using assms unfolding calibrate_finish_def rbind_eq_Inr_iff by auto
  have "fsrv c = fsrv (c_afl s)" using c(1) by (auto simp: record_stats_def Let_def split: if_splits)
  then show ?thesis using score_frame_simps(1) [OF update_bitmap_score_frame [OF c(2)]] c(3) by (simp add: limit_def)
qed

lemma limit_calibrate:
  assumes "keeps_limit w" "calibrate_case w n k mem h fq a = Inr (Some (f, b))"
  shows "limit b = limit a"
proof -
  let ?b = "calibrate_start k a"
  define s0 where "s0 = \<lparr>c_mem = mem, c_fault = 0, c_new_bits = 0, c_var = False, c_afl = ?b\<rparr>"
  define s1 where "s1 = (if q_exec_cksum (queue_buf ?b ! k) \<noteq> 0 then merge_new_bits (s0\<lparr>c_afl := save_first_trace ?b\<rparr>) else s0)"
  let ?s = "s1\<lparr>c_afl := (c_afl s1)\<lparr>stage_cur := 0\<rparr>\<rparr>"
  let ?tail = "calibrate_tail (afl_post_process_keep_original (afl_env a)) (stage_cur a) (stage_max a) k"
  have l1: "limit (c_afl ?s) = limit a" by (simp add: s1_def s0_def merge_new_bits_def split_beta limit_bits)
  have e: "rbind (calibrate_loop n w (use_tmout fq a) k ?s) (\<lambda>r. case r of
           None \<Rightarrow> Inr None
         | Some (True, s) \<Rightarrow> Inr (Some (?tail s))
         | Some (False, s) \<Rightarrow> rbind (calibrate_finish w (o_time_us w (c_afl s1)) h (q_exec_cksum (queue_buf a ! k) = 0) k s) (\<lambda>s. Inr (Some (?tail s)))) = Inr (Some (f, b))"
    using assms(2) unfolding calibrate_case_def Let_def s1_def s0_def .
  obtain ab s where s: "calibrate_loop n w (use_tmout fq a) k ?s = Inr (Some (ab, s))"
    using e by (auto simp: rbind_eq_Inr_iff split: option.splits)
  have ls: "limit (c_afl s) = limit a" using limit_calibrate_loop [OF assms(1) s] l1 by simp
  show ?thesis
  proof (cases ab)
    case True
    then have "(f, b) = ?tail s" using e s by simp
    then show ?thesis using ls limit_upd(8) by (metis snd_conv)
  next
    case False
    then obtain t where t: "calibrate_finish w (o_time_us w (c_afl s1)) h (q_exec_cksum (queue_buf a ! k) = 0) k s = Inr t" "(f, b) = ?tail t"
      using e s by (auto simp: rbind_eq_Inr_iff)
    then show ?thesis using ls limit_upd(8) limit_finish [OF t(1)] by (metis snd_conv)
  qed
qed

lemma limit_calculate: "limit (f_afl (calculate_new_bits_if_necessary (calculate_cksum_if_necessary w s))) = limit (f_afl s)"
proof -
  have "limit (f_afl (calculate_cksum_if_necessary w s)) = limit (f_afl s)"
    by (simp add: calculate_cksum_if_necessary_def classify_if_necessary_def Let_def)
  moreover have "limit (snd (snd (has_new_bits_unclassified VirginBits a))) = limit a" for a
    by (simp add: has_new_bits_unclassified_def split_beta Let_def limit_bits)
  then have "limit (f_afl (calculate_new_bits_if_necessary t)) = limit (f_afl t)" for t
    by (simp add: calculate_new_bits_if_necessary_def split_beta limit_bits)
  ultimately show ?thesis by simp
qed

lemma limit_calibrate_find:
  assumes "keeps_limit w" "calibrate_find w k mem a = Inr (Some b)"
  shows "limit b = limit a"
proof -
  obtain r where r: "calibrate_case w 12 k mem (ucast (queue_cycle a - 1)) False a = Inr r" using assms(2)
    by (auto simp: calibrate_find_def rbind_eq_Inr_iff)
  then obtain res c where rc: "r = Some (res, c)" using assms(2) by (cases r) (auto simp: calibrate_find_def)
  have c: "calibrate_case w 12 k mem (ucast (queue_cycle a - 1)) False a = Inr (Some (res, c))" using r rc by simp
  have b: "b = c \<or> queue_testcase_store_mem k mem c = Inr b"
    using assms(2) by (auto simp: calibrate_find_def c rbind_eq_Inr_iff split: if_splits)
  have "limit (register_cached k t bs c) = limit c" for t bs by (simp add: register_cached_def Let_def limit_def)
  then have "limit b = limit c" using b by (auto simp: queue_testcase_store_mem_def Let_def rbind_eq_Inr_iff split: if_splits)
  then show ?thesis using limit_calibrate [OF assms(1) c] by simp
qed

lemma limit_save_to_queue:
  assumes "keeps_limit w" "disk_ok w" "queue_wf (f_afl s)" "unat (queued_items (f_afl s)) + 1 < 2 ^ 32" "save_to_queue w s = Inr (Some t)"
  shows "limit (f_afl t) = limit (f_afl s)"
proof -
  define s1 where "s1 = calculate_new_bits_if_necessary (calculate_cksum_if_necessary w s)"
  have l: "same_locals s s1" unfolding s1_def using calculate_locals(2, 3) same_locals_trans by blast
  obtain fn r1 where q: "queue_name w (f_new_bits s1 + f_timeout s1) (take (unat (f_len s1)) (f_mem s1)) (f_afl s1) = Inr fn"
    and sv: "save_file w fn (f_mem s1) (f_len s1) (f_afl s1) = Inr r1"
    using assms(5) unfolding save_to_queue_def Let_def s1_def [symmetric] rbind_eq_Inr_iff by blast
  let ?a = "(f_afl s1)\<lparr>disk := disk (f_afl s1) @ [(fn, take (unat (f_len s1)) (f_mem s1))]\<rparr>"
  have r1: "r1 = Some ?a" using save_file_ok(1) [OF assms(2) sv] .
  obtain b where b: "add_to_queue (o_time w ?a) (o_new_entry w) (o_stat w) (o_read w) fn (f_len s1) False ?a = Inr b"
    and e: "(case queue_top b of None \<Rightarrow> Inl (UB ''null pointer'') | Some k \<Rightarrow>
      rbind (calibrate_find w k (f_mem s1) (enter_find k s1 b)) (\<lambda>r. Inr (map_option (\<lambda>a. s1\<lparr>f_keeping := True, f_afl := a\<rparr>) r))) = Inr (Some t)"
    using assms(5) unfolding save_to_queue_def Let_def s1_def [symmetric] q rbind_simps sv r1 option.case rbind_eq_Inr_iff by blast
  obtain k c where c: "calibrate_find w k (f_mem s1) (enter_find k s1 b) = Inr (Some c)" "f_afl t = c"
    using e by (auto simp: rbind_eq_Inr_iff split: option.splits)
  have d: "queue_wf (f_afl s1)" "queued_items (f_afl s1) = queued_items (f_afl s)" using l calmD(1, 4) [of "f_afl s" "f_afl s1"] assms(3) by (simp_all add: same_locals_def)
  have "queue_frame (f_afl s1) ?a" by (simp add: queue_frame_def)
  then have "queue_wf ?a" using d(1) queue_frame_wf by blast
  then have "fsrv b = fsrv ?a" using add_succeeds(12) [OF _ _ b] d(2) assms(4) by simp
  then have "limit b = limit (f_afl s1)" by (simp add: limit_def)
  then show ?thesis using limit_calibrate_find [OF assms(1) c(1)] c(2) limit_calculate [of w s] by (simp add: s1_def)
qed

definition slow_loop :: "afl_state \<Rightarrow> bool" where
  "slow_loop a \<longleftrightarrow> non_instrumented_mode a \<and> afl_keep_timeouts (afl_env a) \<and> saved_hangs a < KEEP_UNIQUE_HANG \<and> limit a < hang_tmout a \<and>
     custom_mutators_count a = 0 \<and> queue_wf a"

lemma slow_check:
  assumes "keeps_limit w" "\<forall>f. fst (o_run w f (hang_tmout (f_afl s))) = FSRV_RUN_OK" "slow_loop (f_afl s)" "check_hang w s = Inr (v, t)"
  shows "v = Requeue \<and> slow_loop (f_afl t) \<and> f_fault t = f_fault s \<and> hang_tmout (f_afl t) = hang_tmout (f_afl s) \<and> queued_items (f_afl t) = queued_items (f_afl s)"
proof -
  let ?s = "s\<lparr>f_afl := (f_afl s)\<lparr>total_tmouts := total_tmouts (f_afl s) + 1\<rparr>, f_timeout := 0x80\<rparr>"
  have ni: "non_instrumented_mode (f_afl s)" "\<not> KEEP_UNIQUE_HANG \<le> saved_hangs (f_afl s)" "exec_tmout (fsrv (f_afl s)) < hang_tmout (f_afl s)"
    using assms(3) by (auto simp: slow_loop_def limit_def)
  obtain nf x where x: "rerun_hang w ?s = Inr (nf, x)" using assms(4) ni by (auto simp: check_hang_def unique_fault_def Let_def rbind_eq_Inr_iff)
  obtain mem n b where b: "write_to_testcase w (f_mem ?s) (f_len ?s) False (f_afl ?s) = Inr (mem, n, b)" using x
    by (auto simp: rerun_hang_def rbind_eq_Inr_iff)
  obtain mem' len c where c: "(if n \<noteq> 0 then Inr (mem, n, b) else write_to_testcase w mem (f_len ?s) True b) = Inr (mem', len, c)"
    using x b by (auto simp: rerun_hang_def rbind_eq_Inr_iff)
  obtain f d where d: "exec_target w (hang_tmout c) c = (f, d)" by (cases "exec_target w (hang_tmout c) c") auto
  have t: "f_afl x = d" "nf = f" "f_fault x = f_fault s" using x unfolding rerun_hang_def b rbind_simps split_conv c d Let_def by auto
  have rb: "run_frame (f_afl ?s) b" using write_frame [OF b] by auto
  have rc: "run_frame b c" using c write_frame [of w mem "f_len ?s" True b] by (fastforce split: if_splits)
  have rd: "run_frame (f_afl ?s) d" using rb rc exec_target_frame(1) [OF d] run_frame_trans by blast
  have lim: "limit d = limit (f_afl ?s)" using limit_write [OF b] limit_exec [OF assms(1) d] c limit_write [of w mem "f_len ?s" True b] by (auto split: if_splits)
  have hc: "hang_tmout c = hang_tmout (f_afl s)" using save_coreD(9) [OF save_core_run [OF run_frame_trans [OF rb rc]]] by simp
  have f: "f = FSRV_RUN_OK" using exec_target_frame(2) [OF d] assms(2) hc by simp
  note C = save_coreD [OF save_core_run [OF rd]] and W = queue_frame_wf [OF shape_frameD(1) [OF shape_cal [OF run_cal_frame [OF rd]]]]
  have e: "afl_env d = afl_env (f_afl s)" using cal_frameD(3) [OF run_cal_frame [OF rd]] by simp
  have q: "queued_items d = queued_items (f_afl s)" using shape_cal [OF run_cal_frame [OF rd]] by (simp add: shape_frame_def)
  have w: "queue_wf (f_afl ?s) = queue_wf (f_afl s)" by (rule queue_frame_wf) (simp add: queue_frame_def)
  have slow: "slow_loop d" using assms(3) C(1, 3, 8, 9) e lim W w by (simp add: slow_loop_def limit_def)
  have vt: "v = Requeue \<and> t = x\<lparr>f_afl := d\<lparr>saved_tmouts := saved_tmouts d + 1\<rparr>\<rparr>"
    using assms(4) ni x f t e slow by (auto simp: check_hang_def unique_fault_def Let_def fsrv_results slow_loop_def)
  have w2: "queue_wf (d\<lparr>saved_tmouts := y\<rparr>) = queue_wf d" for y by (rule queue_frame_wf) (simp add: queue_frame_def)
  show ?thesis using vt slow t(3) C(9) q by (simp add: slow_loop_def limit_def w2)
qed

lemma slow_settle:
  assumes "keeps_limit w" "disk_ok w"
  shows "slow_loop (f_afl s) \<Longrightarrow> f_fault s = FSRV_RUN_TMOUT \<Longrightarrow> \<forall>f. fst (o_run w f (hang_tmout (f_afl s))) = FSRV_RUN_OK \<Longrightarrow>
    unat (queued_items (f_afl s)) + fuel < 2 ^ 32 \<Longrightarrow> settle_fault fuel w s \<noteq> Inr (Some r)"
proof (induction fuel arbitrary: s)
  case 0
  then show ?case by simp
next
  case (Suc n)
  have m: "may_save_fault w s = check_hang w s" using Suc.prems(2) by (simp add: may_save_fault_def)
  show ?case
  proof
    assume r: "settle_fault (Suc n) w s = Inr (Some r)"
    then obtain v t where v: "check_hang w s = Inr (v, t)" using m by (auto simp: rbind_eq_Inr_iff)
    note C = slow_check [OF assms(1) Suc.prems(3, 1) v]
    obtain u where u: "save_to_queue w t = Inr (Some u)" "settle_fault n w u = Inr (Some r)"
      using r m v C by (auto simp: rbind_eq_Inr_iff split: option.splits)
    have t: "queue_wf (f_afl t)" "custom_mutators_count (f_afl t) = 0" using C by (simp_all add: slow_loop_def)
    have room: "unat (queued_items (f_afl t)) + 1 < 2 ^ 32" using Suc.prems(4) C u(2) by (cases n) simp_all
    obtain fn where e: "save_core (f_afl u) = save_core (f_afl t)" "afl_env (f_afl u) = afl_env (f_afl t)" "queue_wf (f_afl u)"
      "names (f_afl u) = names (f_afl t) @ [(fn, f_len t)]" "f_fault u = f_fault t"
      using save_to_queue_effect [OF assms(2) t(1) room t(2) u(1)] by auto
    have len: "length (queue_buf (f_afl u)) = length (queue_buf (f_afl t)) + 1" using arg_cong [OF e(4), of length] by (simp add: names_def)
    have q: "unat (queued_items (f_afl u)) = unat (queued_items (f_afl t)) + 1" using len queue_wfD(1) [OF e(3)] queue_wfD(1) [OF t(1)] by simp
    note K = save_coreD [OF e(1)]
    have "slow_loop (f_afl t)" using C by blast
    then have "slow_loop (f_afl u)" using K(1, 3, 8, 9) e(2, 3) limit_save_to_queue [OF assms t(1) room u(1)] by (simp add: slow_loop_def)
    then show False using Suc.IH [of u] u(2) e(5) K(9) C Suc.prems(2-4) q by simp
  qed
qed

text \<open>
  C38: a handler that does not return. In non-instrumented mode with \<open>AFL_KEEP_TIMEOUTS\<close>, a test case
  that exceeds the normal time limit but ends within the limit for hangs is queued again and again: after
  \<open>save_to_queue\<close> the variable \<open>fault\<close> still says that the run timed out, so the \<open>switch\<close> reruns it and jumps back.
  Whatever number of jumps is allowed, \<open>save_if_interesting\<close> does not return; it can only end with an error.
\<close>

theorem keep_timeouts_loops:
  assumes "keeps_limit w" and "disk_ok w" and "\<forall>f. fst (o_run w f (hang_tmout a)) = FSRV_RUN_OK" and "slow_loop a"
    and "crash_mode a \<noteq> FSRV_RUN_TMOUT" and "\<not> afl_ignore_timeouts (afl_env a)" and "len \<noteq> 0" and "unat (queued_items a) + fuel < 2 ^ 32"
  shows "save_if_interesting w fuel mem len FSRV_RUN_TMOUT a \<noteq> Inr (Some r)"
proof -
  let ?s = "start_find w mem len FSRV_RUN_TMOUT a"
  note S = start_find_locals [where w = w and mem = mem and len = len and fault = FSRV_RUN_TMOUT and a = a]
  note C = save_coreD [OF calmD(6) [OF S(7)], simplified] and d = calmD [OF S(7)]
  have "limit (f_afl ?s) = limit a" using S(10) by (simp add: limit_def)
  then have "slow_loop (f_afl ?s)" using assms(4) C(1, 3, 8, 9) S(8) d(1) by (simp add: slow_loop_def calm_status)
  then have "settle_fault fuel w ?s \<noteq> Inr (Some r)"
    using slow_settle [OF assms(1, 2), of ?s fuel r] S(3) C(9) d(4) assms(3, 8) by simp
  moreover have "save_if_interesting w fuel mem len FSRV_RUN_TMOUT a = settle_fault fuel w ?s"
    using assms(5-7) by (simp add: save_if_interesting_def Let_def)
  ultimately show ?thesis by simp
qed

section \<open>Concrete runs\<close>

definition find_state :: afl_state where
  "find_state = afl_zero\<lparr>fsrv := fsrv_zero\<lparr>map_size := 32, real_map_size := 32, trace_bits := 3 # replicate 31 0\<rparr>, max_length := 16,
     virgin_bits := replicate 32 255\<rparr>"

lemma find_state_fields:
  "fsrv find_state = fsrv_zero\<lparr>map_size := 32, real_map_size := 32, trace_bits := 3 # replicate 31 0\<rparr>" "virgin_bits find_state = replicate 32 255"
  "queue_buf find_state = []" "queued_items find_state = 0" "custom_mutators_count find_state = 0" "san_binary_length find_state = 0"
  "crash_mode find_state = 0" "saved_hangs find_state = 0" "saved_crashes find_state = 0" "queue find_state = None" "queue_top find_state = None"
  "queue_cur find_state = None" "active_items find_state = 0" "disk find_state = []" "subseq_tmouts find_state = 0" "max_length find_state = 16"
  "min_length find_state = 0" "afl_env find_state = env_zero" "hang_tmout find_state = 0"
  by (simp_all add: find_state_def afl_zero_def)

lemma find_state_wf: "queue_wf find_state" "capped find_state" "maps_ok VirginBits find_state" "names find_state = []"
proof -
  have "words64 32 = 4" by code_simp
  then show "maps_ok VirginBits find_state" by (simp add: maps_ok_def find_state_fields)
qed (simp_all add: queue_wf_def enabled_count_def capped_def names_def find_state_fields)

lemma edge_disk: "disk_ok edge_world"
  by (simp add: disk_ok_def edge_world_def)

lemma find_state_level: "trace_level find_state = 2"
proof -
  have c: "trace_bits (classify_counts (fsrv find_state)) = 4 # replicate 31 0"
    by (simp add: classify_counts_bytes find_state_fields count_class_lookup8_def)
  have "fst (discover_loop 4 0 (4 # replicate 31 0) (replicate 32 255)) = 2" by code_simp
  moreover have "words64 32 = 4" by code_simp
  ultimately show ?thesis using c by (simp add: trace_level_def has_new_bits_def split_beta find_state_fields Let_def)
qed

theorem save_if_interesting_normal_witness:
  "case save_if_interesting edge_world 1 [10, 11, 12] 3 FSRV_RUN_OK find_state of
     Inl e \<Rightarrow> True
   | Inr None \<Rightarrow> False
   | Inr (Some (keeping, b)) \<Rightarrow> keeping \<and> queue_wf b \<and> (\<exists>fn. names b = [(fn, 3)] \<and> disk b = [(fn, [10, 11, 12])])"
  using save_if_interesting_normal [OF edge_disk find_state_wf(1) _ _ _ find_state_wf(3), where fuel = 1 and mem = "[10, 11, 12]" and len = 3]
  by (auto simp: find_state_fields find_state_wf find_state_level split: sum.splits option.splits)

text \<open>A first crash, found without instrumentation: the test case and the note beside it.\<close>

definition blind_state :: afl_state where
  "blind_state = find_state\<lparr>non_instrumented_mode := True\<rparr>"

lemma blind_state_ok: "queue_wf blind_state" "capped blind_state"
  using queue_frame_wf [of find_state blind_state] find_state_wf(1) by (simp_all add: blind_state_def queue_frame_def find_state_fields capped_def)

lemma blind_name: "\<exists>fn. crash_name edge_world m (blind_state\<lparr>san_case_status := 0, total_crashes := y, disk := z\<rparr>) = Inr fn"
proof -
  have "digit 0 = CHR ''0''" by code_simp
  then have d: "dec 0 = ''0''" by (simp add: dec.simps)
  have r: "replicate 5 x = [x, x, x, x, x]" for x :: char by (simp add: numeral_eq_Suc)
  show ?thesis
    by (simp add: crash_name_def describe_op_def describe_source_def describe_stage_def blind_state_def find_state_def afl_zero_def fsrv_zero_def
        env_zero_def edge_world_def extension_def dec06_def dec_signed_def d r SAN_CRASH_ONLY_def NON_COV_INCREASE_BUG_def)
qed

lemma blind_crash:
  "\<exists>b. save_if_interesting edge_world 1 [10, 11, 12] 3 FSRV_RUN_CRASH blind_state = Inr (Some (False, b)) \<and> saved_crashes b = 1"
proof -
  let ?s = "start_find edge_world [10, 11, 12] 3 FSRV_RUN_CRASH blind_state"
  have f: "saved_crashes blind_state = 0" "non_instrumented_mode blind_state" "schedule blind_state = EXPLORE" "out_dir blind_state = []"
    "afl_env blind_state = env_zero" "crash_mode blind_state = 0" "total_crashes blind_state = 0" "disk blind_state = []"
    by (simp_all add: blind_state_def find_state_def afl_zero_def)
  have s: "f_afl ?s = blind_state\<lparr>san_case_status := 0\<rparr>" by (simp add: start_find_def path_schedule_def f)
  have "\<exists>z. write_crash_readme edge_world (blind_state\<lparr>san_case_status := 0, total_crashes := 1\<rparr>) =
      Inr (blind_state\<lparr>san_case_status := 0, total_crashes := 1, disk := z\<rparr>)"
    by (simp add: write_crash_readme_def readme_name_def PATH_MAX_def edge_world_def f Let_def) blast
  then obtain z where z: "write_crash_readme edge_world (blind_state\<lparr>san_case_status := 0, total_crashes := 1\<rparr>) =
      Inr (blind_state\<lparr>san_case_status := 0, total_crashes := 1, disk := z\<rparr>)" by blast
  obtain fn where fn: "crash_name edge_world [10, 11, 12] (blind_state\<lparr>san_case_status := 0, total_crashes := 1, disk := z\<rparr>) = Inr fn"
    using blind_name by blast
  have "\<exists>a. keep_as_crash edge_world ?s = Inr (Save fn, ?s\<lparr>f_afl := a\<rparr>) \<and> saved_crashes a = 1"
    using s z fn start_find_locals(1, 2) [of edge_world "[10, 11, 12]" 3 FSRV_RUN_CRASH blind_state]
    by (simp add: keep_as_crash_def KEEP_UNIQUE_CRASH_def unique_fault_def f env_zero_def Let_def) (rule exI, rule conjI, rule refl, simp)
  then obtain a where a: "keep_as_crash edge_world ?s = Inr (Save fn, ?s\<lparr>f_afl := a\<rparr>)" "saved_crashes a = 1" by blast
  have l: "f_mem ?s = [10, 11, 12]" "f_len ?s = 3" "f_fault ?s = FSRV_RUN_CRASH" "\<not> f_keeping ?s"
    using start_find_locals(1-4) [of edge_world "[10, 11, 12]" 3 FSRV_RUN_CRASH blind_state] by simp_all
  have "ck_write [3] [10, 11, 12] = Some [10, 11, 12]" by (rule ck_write_full) simp_all
  then have "save_file edge_world fn [10, 11, 12] 3 a = Inr (Some (a\<lparr>disk := disk a @ [(fn, [10, 11, 12])]\<rparr>))"
    by (simp add: save_file_def permissive_create_def edge_world_def)
  then show ?thesis using a l
    by (simp add: save_if_interesting_def Let_def f may_save_fault_def One_nat_def fsrv_results)
qed

theorem finds_accounted_witness:
  "\<exists>b. save_if_interesting edge_world 1 [10, 11, 12] 3 FSRV_RUN_CRASH blind_state = Inr (Some (False, b)) \<and>
     saved_crashes b = 1 \<and> length (disk b) = length (queue_buf b) + unat (saved_hangs b) + 2"
proof -
  obtain b where b: "save_if_interesting edge_world 1 [10, 11, 12] 3 FSRV_RUN_CRASH blind_state = Inr (Some (False, b))" "saved_crashes b = 1"
    using blind_crash by blast
  have z: "custom_mutators_count blind_state = 0" "queued_items blind_state = 0" "queue_buf blind_state = []" "disk blind_state = []"
    "saved_hangs blind_state = 0" "saved_crashes blind_state = 0" "afl_no_crash_readme (afl_env blind_state) \<noteq> 1"
    by (simp_all add: blind_state_def find_state_fields find_state_def zero_defs env_zero_def)
  show ?thesis
    using finds_accounted [OF edge_disk blind_state_ok(1) z(1) blind_state_ok(2) _ b(1)] b by (simp add: z)
qed

text \<open>A target that times out unless it gets more than a hundred milliseconds.\<close>

definition slow_world :: outside where
  "slow_world = edge_world\<lparr>o_run := \<lambda>f t. (if t < 100 then 1 else 0, f, None, None)\<rparr>"

definition hang_world :: outside where
  "hang_world = edge_world\<lparr>o_run := \<lambda>f t. (1, f, None, None)\<rparr>"

theorem hanging_stage_abandoned_witness:
  "case run_stage hang_world 1 (replicate 252 ([10, 11, 12], 3)) find_state of
     Inl e \<Rightarrow> True | Inr None \<Rightarrow> False | Inr (Some (abandoned, b)) \<Rightarrow> abandoned"
proof -
  have "hangs hang_world" by (simp add: hangs_def hang_world_def edge_world_def fsrv_results)
  moreover have "disk_ok hang_world" using edge_disk by (simp add: disk_ok_def hang_world_def)
  moreover have "\<forall>x\<in>set (replicate 252 ([10, 11, 12 :: u8], 3)). fits find_state x" by (simp add: fits_def find_state_fields)
  ultimately show ?thesis
    using hanging_stage_abandoned [where w = hang_world and a = find_state and fuel = 1 and bufs = "replicate 252 ([10, 11, 12], 3)"]
    by (simp add: find_state_fields env_zero_def fsrv_results)
qed

definition slow_state :: afl_state where
  "slow_state = find_state\<lparr>fsrv := (fsrv find_state)\<lparr>exec_tmout := 20\<rparr>, hang_tmout := 1000, non_instrumented_mode := True,
     afl_env := env_zero\<lparr>afl_keep_timeouts := True\<rparr>\<rparr>"

theorem keep_timeouts_loops_witness:
  "save_if_interesting slow_world 1000 [10, 11, 12] 3 FSRV_RUN_TMOUT slow_state \<notin> range (\<lambda>r. Inr (Some r))"
proof -
  have q: "queue_frame find_state slow_state" by (simp add: slow_state_def queue_frame_def)
  have wf: "queue_wf slow_state" using queue_frame_wf [OF q] find_state_wf(1) by simp
  have f: "hang_tmout slow_state = 1000" "custom_mutators_count slow_state = 0" "crash_mode slow_state = 0" "queued_items slow_state = 0"
    "\<not> afl_ignore_timeouts (afl_env slow_state)" by (simp_all add: slow_state_def find_state_fields env_zero_def)
  have "slow_loop slow_state" using wf f(2) by (simp add: slow_loop_def slow_state_def find_state_fields limit_def KEEP_UNIQUE_HANG_def)
  moreover have "keeps_limit slow_world" by (simp add: keeps_limit_def slow_world_def)
  moreover have "disk_ok slow_world" using edge_disk by (simp add: disk_ok_def slow_world_def)
  moreover have "\<forall>f. fst (o_run slow_world f 1000) = FSRV_RUN_OK" by (simp add: slow_world_def fsrv_results)
  ultimately show ?thesis
    using keep_timeouts_loops [where w = slow_world and a = slow_state and fuel = 1000 and mem = "[10, 11, 12]" and len = 3] f by (auto simp: fsrv_results)
qed

section \<open>Names of queue files\<close>

text \<open>The id in the name of a queue file: the digits after the first colon of the base name.\<close>

definition id_of_name :: "string \<Rightarrow> string \<Rightarrow> nat" where
  "id_of_name dir fn = undec (takeWhile is_digit (drop (length dir + 10) fn))"

text \<open>
  A queue file is named after its entry. The name that \<open>save_if_interesting\<close> gives to a new
  queue file contains the number of the entry, which can be read back whatever description follows it; so
  files of different entries have different names.
\<close>

theorem queue_name_id:
  assumes "queue_name w new_bits mem a = Inr fn" and "\<not> afl_sha1_filenames (afl_env a)"
  shows "id_of_name (out_dir a) fn = unat (queued_items a)"
proof -
  obtain d where d: "fn = out_dir a @ ''/queue/id:'' @ dec06 (unat (queued_items a)) @ '','' @ d @ extension a"
    using assms by (auto simp: queue_name_def rbind_eq_Inr_iff)
  have "takeWhile is_digit (dec06 n @ CHR '','' # ys) = dec06 n" for n ys
    using dec06_facts(2) [of n] by (subst takeWhile_append2) (auto simp: is_digit_def)
  then show ?thesis using dec06_facts(1) by (simp add: d id_of_name_def)
qed

lemma find_state_name: "queue_name edge_world 2 [10] find_state = Inr (''/queue/id:000000,src:000000+000000,time:0,execs:0,op:,pos:0,+cov'')"
proof -
  have "digit 0 = CHR ''0''" by code_simp
  then have z: "dec 0 = ''0''" by (simp add: dec.simps)
  have r: "replicate 5 x = [x, x, x, x, x]" for x :: char by (simp add: numeral_eq_Suc)
  have "out_dir find_state = []" "file_extension find_state = None" "current_entry find_state = 0" "splicing_with find_state = 0"
    "prev_run_time find_state = 0" "start_time find_state = 0" "stage_short find_state = []" "stage_cur_byte find_state = 0"
    "stage_val_type find_state = STAGE_VAL_NONE" "syncing_party find_state = None" "san_case_status find_state = 0"
    by (simp_all add: find_state_def afl_zero_def)
  then show ?thesis
    by (simp add: queue_name_def describe_op_def describe_source_def describe_stage_def find_state_fields env_zero_def edge_world_def extension_def
        dec06_def dec_signed_def z r SAN_CRASH_ONLY_def NON_COV_INCREASE_BUG_def fsrv_zero_def)
qed

theorem queue_name_id_witness:
  "id_of_name (out_dir find_state) ''/queue/id:000000,src:000000+000000,time:0,execs:0,op:,pos:0,+cov'' = 0"
  using queue_name_id [OF find_state_name] by (simp add: find_state_fields env_zero_def)

end
