(* ===== verification/Detpred.thy ===== *)
theory Detpred
  imports Afl_State
begin

text \<open>
  The duplicate filters of the deterministic stages in src/afl-fuzz-one.c: \<open>could_be_bitflip\<close>,
  \<open>could_be_arith\<close> and \<open>could_be_interest\<close> decide whether a changed value could already have
  been produced by an earlier stage, and \<open>locate_diffs\<close> finds the span in which two inputs
  differ. A shift of an \<open>int\<close> keeps the low 32 bits.
\<close>

section \<open>Bit flips\<close>

lemma drop_bit_1_less: "(x :: u32) \<noteq> 0 \<Longrightarrow> unat (drop_bit 1 x) < unat x"
  by (simp only: unat_shiftr power_one_right) (simp add: word_unat_eq_iff)

function strip_shift :: "nat \<Rightarrow> u32 \<Rightarrow> nat \<times> u32" where
  "strip_shift sh x = (if x = 0 \<or> x AND 1 \<noteq> 0 then (sh, x) else strip_shift (Suc sh) (drop_bit 1 x))"
  by pat_completeness auto

termination
  by (relation "measure (\<lambda>(sh, x). unat x)") (use drop_bit_1_less in auto)

declare strip_shift.simps [simp del]

definition could_be_bitflip :: "u32 \<Rightarrow> bool" where
  "could_be_bitflip xor_val =
     (if xor_val = 0 then True
      else
        (let (sh, x) = strip_shift 0 xor_val
         in if x = 1 \<or> x = 3 \<or> x = 15 then True
            else if (word_of_nat sh :: u32) AND 7 \<noteq> 0 then False
            else x = 0xff \<or> x = 0xffff \<or> x = 0xffffffff))"

section \<open>Arithmetic\<close>

definition ARITH_MAX :: nat where
  "ARITH_MAX = 35"

text \<open>The scan for differing units of \<open>w\<close> bits: their number and the last differing pair.\<close>

definition diff_step :: "nat \<Rightarrow> u32 \<Rightarrow> u32 \<Rightarrow> nat \<Rightarrow> nat \<times> u32 \<times> u32 \<Rightarrow> nat \<times> u32 \<times> u32" where
  "diff_step w old_val new_val i = (\<lambda>(ndiff, ov, nv).
     let a = take_bit w (drop_bit (w * i) old_val); b = take_bit w (drop_bit (w * i) new_val)
     in if a \<noteq> b then (Suc ndiff, a, b) else (ndiff, ov, nv))"

definition scan_diffs :: "nat \<Rightarrow> nat \<Rightarrow> u32 \<Rightarrow> u32 \<Rightarrow> nat \<times> u32 \<times> u32" where
  "scan_diffs w n old_val new_val = fold (diff_step w old_val new_val) [0..<n] (0, 0, 0)"

definition near :: "nat \<Rightarrow> u32 \<Rightarrow> u32 \<Rightarrow> bool" where
  "near w ov nv \<longleftrightarrow> unat (take_bit w (ov - nv)) \<le> ARITH_MAX \<or> unat (take_bit w (nv - ov)) \<le> ARITH_MAX"

definition SWAP16 :: "u32 \<Rightarrow> u32" where
  "SWAP16 x = take_bit 16 (push_bit 8 (take_bit 16 x) OR drop_bit 8 (take_bit 16 x))"

definition SWAP32 :: "u32 \<Rightarrow> u32" where
  "SWAP32 x = push_bit 24 x OR drop_bit 24 x OR (push_bit 8 x AND 0x00FF0000) OR (drop_bit 8 x AND 0x0000FF00)"

definition could_be_arith :: "u32 \<Rightarrow> u32 \<Rightarrow> u8 \<Rightarrow> bool" where
  "could_be_arith old_val new_val blen =
     (if old_val = new_val then True
      else
        (let (ndiff, ov, nv) = scan_diffs 8 (unat blen) old_val new_val
         in if ndiff = 1 \<and> near 8 ov nv then True
            else if blen = 1 then False
            else
              (let (ndiff, ov, nv) = scan_diffs 16 (unat blen div 2) old_val new_val
               in if ndiff = 1 \<and> (near 16 ov nv \<or> near 16 (SWAP16 ov) (SWAP16 nv)) then True
                  else blen = 4 \<and> (near 32 old_val new_val \<or> near 32 (SWAP32 old_val) (SWAP32 new_val)))))"

section \<open>Interesting values\<close>

definition INTERESTING_8 :: "int list" where
  "INTERESTING_8 = [- 128, - 1, 0, 1, 16, 32, 64, 100, 127]"

definition INTERESTING_16 :: "int list" where
  "INTERESTING_16 = [- 32768, - 129, 128, 255, 256, 512, 1000, 1024, 4096, 32767]"

definition INTERESTING_32 :: "int list" where
  "INTERESTING_32 = [- 2147483648, - 100663046, - 32769, 32768, 65535, 65536, 100663045, 2139095040, 2147483647]"

definition interesting_8 :: "int list" where
  "interesting_8 = INTERESTING_8"

definition interesting_16 :: "int list" where
  "interesting_16 = INTERESTING_8 @ INTERESTING_16"

definition interesting_32 :: "int list" where
  "interesting_32 = INTERESTING_8 @ INTERESTING_16 @ INTERESTING_32"

definition insert_at :: "nat \<Rightarrow> u32 \<Rightarrow> nat \<Rightarrow> u32 \<Rightarrow> u32" where
  "insert_at w old_val i v = (old_val AND NOT (push_bit (8 * i) (mask w))) OR push_bit (8 * i) v"

definition could_be_interest :: "u32 \<Rightarrow> u32 \<Rightarrow> u8 \<Rightarrow> bool \<Rightarrow> bool" where
  "could_be_interest old_val new_val blen check_le =
     (if old_val = new_val then True
      else if \<exists>i \<in> set [0..<unat blen]. \<exists>v \<in> set interesting_8.
                new_val = insert_at 8 old_val i (take_bit 8 (word_of_int v)) then True
      else if blen = 2 \<and> \<not> check_le then False
      else if \<exists>i \<in> set [0..<unat blen - 1]. \<exists>v \<in> set interesting_16.
                new_val = insert_at 16 old_val i (take_bit 16 (word_of_int v)) \<or>
                2 < blen \<and> new_val = insert_at 16 old_val i (SWAP16 (word_of_int v)) then True
      else if blen = 4 \<and> check_le \<and> (\<exists>v \<in> set interesting_32. new_val = word_of_int v) then True
      else False)"

section \<open>Differing spans\<close>

definition locate_step :: "bytes \<Rightarrow> bytes \<Rightarrow> nat \<Rightarrow> int \<times> int \<Rightarrow> int \<times> int" where
  "locate_step p q pos = (\<lambda>(f_loc, l_loc).
     if p ! pos \<noteq> q ! pos then (if f_loc = - 1 then int pos else f_loc, int pos) else (f_loc, l_loc))"

definition locate_diffs :: "bytes \<Rightarrow> bytes \<Rightarrow> nat \<Rightarrow> int \<times> int" where
  "locate_diffs p q len = fold (locate_step p q) [0..<len] (- 1, - 1)"

section \<open>could_be_bitflip recognises exactly the flips of the bit-flip stages\<close>

lemma odd_word: "x AND 1 \<noteq> 0 \<longleftrightarrow> odd (unat (x :: u32))"
proof -
  have "odd (unat x) \<longleftrightarrow> bit (unat x) 0" by (simp only: bit_0)
  also have "\<dots> \<longleftrightarrow> bit x 0" by (simp add: bit_unsigned_iff)
  finally show ?thesis by (simp add: bit_0 and_one_eq mod_2_eq_odd)
qed

lemma strip_shift_spec:
  assumes "x \<noteq> 0"
  shows "\<exists>k y. strip_shift s x = (s + k, y) \<and> odd (unat y) \<and> unat x = 2 ^ k * unat y"
  using assms
proof (induction s x rule: strip_shift.induct)
  case (1 s x)
  show ?case
  proof (cases "x AND 1 \<noteq> 0")
    case True
    then show ?thesis using odd_word by (intro exI [of _ 0] exI [of _ x]) (simp add: strip_shift.simps)
  next
    case False
    then have ev: "even (unat x)" using odd_word by blast
    have half: "unat x = 2 * unat (drop_bit 1 x)" using ev by (simp only: unat_shiftr power_one_right) simp
    then have "drop_bit 1 x \<noteq> 0" using "1.prems" by (metis mult_0_right unat_0 unsigned_0 word_unat_eq_iff)
    then obtain k y where "strip_shift (Suc s) (drop_bit 1 x) = (Suc s + k, y)" "odd (unat y)" "unat (drop_bit 1 x) = 2 ^ k * unat y"
      using "1.IH" "1.prems" False by blast
    then show ?thesis using False "1.prems" half
      by (intro exI [of _ "Suc k"] exI [of _ y]) (simp add: strip_shift.simps [of s x])
  qed
qed

lemma odd_part_le:
  assumes "(2 :: nat) ^ k * m = 2 ^ l * n" and "odd m"
  shows "l \<le> k"
proof (rule ccontr)
  assume "\<not> l \<le> k"
  then obtain d where "l = k + Suc d" using less_imp_Suc_add [of k l] by auto
  then have "m = 2 * (2 ^ d * n)" using assms(1) by (simp add: power_add)
  then show False using assms(2) by simp
qed

lemma odd_part_unique:
  assumes "(2 :: nat) ^ k * m = 2 ^ l * n" and "odd m" and "odd n"
  shows "k = l \<and> m = n"
  using odd_part_le [OF assms(1,2)] odd_part_le [OF assms(1) [symmetric] assms(3)] assms(1) by simp

lemma unat_mask_shift:
  assumes "k + n \<le> 32"
  shows "unat (push_bit k (mask n) :: u32) = 2 ^ k * (2 ^ n - 1)"
proof -
  have "(2 :: nat) ^ (k + n) \<le> 2 ^ 32" using assms by (intro power_increasing) simp_all
  moreover have "(2 :: nat) ^ k * (2 ^ n - 1) = 2 ^ (k + n) - 2 ^ k" by (simp add: power_add diff_mult_distrib2)
  moreover have "(0 :: nat) < 2 ^ k" by simp
  ultimately have lt: "(2 :: nat) ^ k * (2 ^ n - 1) < 2 ^ 32" using zero_less_power [of "2 :: nat" "k + n"] by linarith
  have "push_bit k (mask n) = (of_nat (2 ^ k * (2 ^ n - 1)) :: u32)"
    by (simp add: push_bit_eq_mult mask_eq_decr_exp mult.commute)
  then show ?thesis using lt by (simp only: unsigned_of_nat of_nat_id) (simp add: take_bit_nat_eq_self)
qed

lemma sh_and_7: "sh < 32 \<Longrightarrow> (word_of_nat sh :: u32) AND 7 \<noteq> 0 \<longleftrightarrow> \<not> 8 dvd sh"
proof -
  assume sh: "sh < 32"
  have "(word_of_nat sh :: u32) AND 7 = take_bit 3 (word_of_nat sh)"
    by (simp add: take_bit_eq_mask mask_eq_decr_exp)
  then have "unat ((word_of_nat sh :: u32) AND 7) = take_bit 3 (unat (word_of_nat sh :: u32))"
    by (simp only: unsigned_take_bit_eq)
  also have "unat (word_of_nat sh :: u32) = sh" using sh by (simp add: unsigned_of_nat take_bit_nat_eq_self)
  finally have "unat ((word_of_nat sh :: u32) AND 7) = sh mod 8" by (simp add: take_bit_eq_mod)
  then show ?thesis by (metis dvd_eq_mod_eq_0 unat_eq_zero)
qed

definition flip_pattern :: "nat \<Rightarrow> nat \<Rightarrow> bool" where
  "flip_pattern k n \<longleftrightarrow> k + n \<le> 32 \<and> (n \<in> {1, 2, 4} \<or> n \<in> {8, 16, 32} \<and> 8 dvd k)"

lemma mask_values: "(1 :: u32) = mask 1" "(3 :: u32) = mask 2" "(15 :: u32) = mask 4" "(0xff :: u32) = mask 8"
  "(0xffff :: u32) = mask 16" "(0xffffffff :: u32) = mask 32"
  by (simp_all add: mask_eq_decr_exp)

lemma push_mask_iff:
  assumes "odd (unat y)" and "unat x = 2 ^ k * unat y" and "0 < n" and "k' + n \<le> 32"
  shows "(x :: u32) = push_bit k' (mask n) \<longleftrightarrow> k' = k \<and> (y :: u32) = mask n"
proof -
  have o: "odd ((2 :: nat) ^ n - 1)" using assms(3) by simp
  have u: "unat (mask n :: u32) = 2 ^ n - 1" using unat_mask_shift [of 0 n] assms(4) by simp
  have "x = push_bit k' (mask n) \<longleftrightarrow> 2 ^ k * unat y = 2 ^ k' * (2 ^ n - 1)"
    using unat_mask_shift [OF assms(4)] assms(2) by (metis word_unat_eq_iff)
  also have "\<dots> \<longleftrightarrow> k' = k \<and> unat y = 2 ^ n - 1" using odd_part_unique [OF _ assms(1) o, of k k'] by auto
  finally show ?thesis using u by (metis word_unat_eq_iff)
qed

lemma mask_fits:
  assumes "unat (x :: u32) = 2 ^ k * unat (mask n :: u32)" and "n \<le> 32" and "0 < n"
  shows "k + n \<le> 32"
proof (rule ccontr)
  assume "\<not> k + n \<le> 32"
  then have "(2 :: nat) ^ 32 \<le> 2 ^ k * 2 ^ (n - 1)"
    using assms(3) by (subst power_add [symmetric]) (intro power_increasing, simp_all)
  also have "\<dots> \<le> 2 ^ k * unat (mask n :: u32)"
    using unat_mask_shift [of 0 n] assms(2,3) by (intro mult_left_mono) (simp_all, cases n, simp_all)
  also have "\<dots> < 2 ^ 32" unfolding assms(1) [symmetric] using unsigned_less [of x] by simp
  finally show False by simp
qed

lemma could_be_bitflip_iff:
  "could_be_bitflip x \<longleftrightarrow> x = 0 \<or> (\<exists>k n. flip_pattern k n \<and> x = push_bit k (mask n))"
proof (cases "x = 0")
  case True
  then show ?thesis by (simp add: could_be_bitflip_def)
next
  case False
  then obtain k y where s: "strip_shift 0 x = (k, y)" and odd: "odd (unat y)" and x: "unat x = 2 ^ k * unat y"
    using strip_shift_spec [of x 0] by auto
  have "2 ^ k \<le> unat x" using x odd_pos [OF odd] by simp
  also have "unat x < 2 ^ 32" using unsigned_less [of x] by simp
  finally have k: "k < 32" using power_less_imp_less_exp [of "2 :: nat" k 32] by simp
  have test: "could_be_bitflip x \<longleftrightarrow> (\<exists>n. (n \<in> {1, 2, 4} \<or> n \<in> {8, 16, 32} \<and> 8 dvd k) \<and> y = mask n)"
  proof -
    have "could_be_bitflip x \<longleftrightarrow> (y = 1 \<or> y = 3 \<or> y = 15) \<or> 8 dvd k \<and> (y = 0xff \<or> y = 0xffff \<or> y = 0xffffffff)"
      using False sh_and_7 [OF k] by (simp add: could_be_bitflip_def s)
    then show ?thesis unfolding mask_values by blast
  qed
  have "(\<exists>k' n. flip_pattern k' n \<and> x = push_bit k' (mask n)) \<longleftrightarrow>
      (\<exists>n. (n \<in> {1, 2, 4} \<or> n \<in> {8, 16, 32} \<and> 8 dvd k) \<and> y = mask n)" (is "?L \<longleftrightarrow> ?R")
  proof
    assume ?L
    then obtain k' n where p: "flip_pattern k' n" "x = push_bit k' (mask n)" by blast
    then have "0 < n" "k' + n \<le> 32" by (auto simp: flip_pattern_def)
    then have "k' = k" "y = mask n" using push_mask_iff [OF odd x] p(2) by blast+
    then show ?R using p(1) by (auto simp: flip_pattern_def)
  next
    assume ?R
    then obtain n where n: "y = mask n" "n \<in> {1, 2, 4} \<or> n \<in> {8, 16, 32} \<and> 8 dvd k" by blast
    then have n': "0 < n" "n \<le> 32" by auto
    then have f: "k + n \<le> 32" using mask_fits x n(1) by blast
    then have "flip_pattern k n" using n(2) by (simp add: flip_pattern_def)
    moreover have "x = push_bit k (mask n)" using push_mask_iff [OF odd x n'(1) f] n(1) by blast
    ultimately show ?L by blast
  qed
  then show ?thesis using test False by simp
qed

text \<open>
  C35: \<open>could_be_bitflip\<close> accepts exactly these differences of two values: none, one, two or four adjacent
  bits anywhere, or a run of 8, 16 or 32 bits that starts on a byte boundary. Within a byte these are the
  differences that the walking bit-flip stages produce.
\<close>
theorem could_be_bitflip_exact:
  "could_be_bitflip x \<longleftrightarrow> x = 0 \<or> (\<exists>k n. flip_pattern k n \<and> x = push_bit k (mask n))"
  by (rule could_be_bitflip_iff)

section \<open>could_be_arith recognises exactly the results of the arithmetic stages\<close>

definition reach :: "nat \<Rightarrow> u32 \<Rightarrow> u32 \<Rightarrow> bool" where
  "reach w a b \<longleftrightarrow> (\<exists>d \<le> ARITH_MAX. b = take_bit w (a + of_nat d) \<or> b = take_bit w (a - of_nat d))"

lemma take_bit_diff_word: "take_bit w (take_bit w a - take_bit w b) = take_bit w (a - b)" for a b :: "'a::len word"
  by transfer (simp add: take_bit_diff)

lemma take_bit_add_word: "take_bit w (take_bit w a + take_bit w b) = take_bit w (a + b)" for a b :: "'a::len word"
  by transfer (simp add: take_bit_add)

lemma take_bit_diff_right: "take_bit w (a - take_bit w b) = take_bit w (a - b)" for a :: u32
  using take_bit_diff_word [of w a "take_bit w b"] take_bit_diff_word [of w a b] by simp

lemma take_bit_diff_left: "take_bit w (take_bit w a - b) = take_bit w (a - b)" for a :: u32
  using take_bit_diff_word [of w "take_bit w a" b] take_bit_diff_word [of w a b] by simp

lemma take_bit_add_right: "take_bit w (a + take_bit w b) = take_bit w (a + b)" for a :: u32
  using take_bit_add_word [of w a "take_bit w b"] take_bit_add_word [of w a b] by simp

lemma unat_take_bit_le: "unat (take_bit w (of_nat d :: u32)) \<le> d"
  by (simp add: unsigned_take_bit_eq unsigned_of_nat take_bit_nat_less_eq_self order_trans [OF take_bit_nat_less_eq_self])

lemma near_iff_reach:
  assumes "take_bit w b = b"
  shows "near w a b \<longleftrightarrow> reach w a b"
proof
  assume "near w a b"
  then consider "unat (take_bit w (a - b)) \<le> ARITH_MAX" | "unat (take_bit w (b - a)) \<le> ARITH_MAX"
    by (auto simp: near_def)
  then show "reach w a b"
  proof cases
    case 1
    have "take_bit w (a - take_bit w (a - b)) = b" by (simp only: take_bit_diff_right) (simp add: assms)
    then have "b = take_bit w (a - of_nat (unat (take_bit w (a - b))))" by (simp add: of_nat_unat)
    then show ?thesis using 1 unfolding reach_def by blast
  next
    case 2
    have "take_bit w (a + take_bit w (b - a)) = b" by (simp only: take_bit_add_right) (simp add: assms)
    then have "b = take_bit w (a + of_nat (unat (take_bit w (b - a))))" by (simp add: of_nat_unat)
    then show ?thesis using 2 unfolding reach_def by blast
  qed
next
  assume "reach w a b"
  then obtain d where d: "d \<le> ARITH_MAX" "b = take_bit w (a + of_nat d) \<or> b = take_bit w (a - of_nat d)"
    by (auto simp: reach_def)
  from d(2) show "near w a b"
  proof
    assume "b = take_bit w (a + of_nat d)"
    then have "take_bit w (b - a) = take_bit w (of_nat d)" by (simp add: take_bit_diff_left)
    then show ?thesis using d(1) unat_take_bit_le [of w d] unfolding near_def by (metis order_trans)
  next
    assume "b = take_bit w (a - of_nat d)"
    then have "take_bit w (a - b) = take_bit w (of_nat d)" by (simp add: take_bit_diff_right)
    then show ?thesis using d(1) unat_take_bit_le [of w d] unfolding near_def by (metis order_trans)
  qed
qed

text \<open>Unit \<open>i\<close> of \<open>w\<close> bits of a value.\<close>

definition unit_at :: "nat \<Rightarrow> nat \<Rightarrow> u32 \<Rightarrow> u32" where
  "unit_at w i v = take_bit w (drop_bit (w * i) v)"

lemma scan_diffs_spec:
  "fst (scan_diffs w n old new) = card {i. i < n \<and> unit_at w i old \<noteq> unit_at w i new} \<and>
   (0 < fst (scan_diffs w n old new) \<longrightarrow>
      (\<exists>i < n. unit_at w i old \<noteq> unit_at w i new \<and> snd (scan_diffs w n old new) = (unit_at w i old, unit_at w i new)))"
proof (induction n)
  case 0
  then show ?case by (simp add: scan_diffs_def)
next
  case (Suc n)
  let ?D = "\<lambda>n. {i. i < n \<and> unit_at w i old \<noteq> unit_at w i new}"
  have step: "scan_diffs w (Suc n) old new = diff_step w old new n (scan_diffs w n old new)" by (simp add: scan_diffs_def)
  obtain d ov nv where p: "scan_diffs w n old new = (d, ov, nv)" by (cases "scan_diffs w n old new")
  show ?case
  proof (cases "unit_at w n old = unit_at w n new")
    case True
    then have "?D (Suc n) = ?D n" by (auto simp: less_Suc_eq)
    moreover have "scan_diffs w (Suc n) old new = scan_diffs w n old new"
      using True by (simp add: step p diff_step_def unit_at_def)
    ultimately show ?thesis using Suc by (metis (no_types, lifting) less_SucI)
  next
    case False
    then have "?D (Suc n) = insert n (?D n)" by (auto simp: less_Suc_eq)
    moreover have "scan_diffs w (Suc n) old new = (Suc d, unit_at w n old, unit_at w n new)"
      using False by (simp add: step p diff_step_def unit_at_def)
    ultimately show ?thesis using Suc.IH p False by (auto simp: less_Suc_eq)
  qed
qed

definition one_unit :: "nat \<Rightarrow> nat \<Rightarrow> (u32 \<Rightarrow> u32 \<Rightarrow> bool) \<Rightarrow> u32 \<Rightarrow> u32 \<Rightarrow> bool" where
  "one_unit w n P old new \<longleftrightarrow> (\<exists>i < n. unit_at w i old \<noteq> unit_at w i new \<and>
     (\<forall>j < n. j \<noteq> i \<longrightarrow> unit_at w j old = unit_at w j new) \<and> P (unit_at w i old) (unit_at w i new))"

lemma scan_one_unit:
  "(case scan_diffs w n old new of (d, ov, nv) \<Rightarrow> d = 1 \<and> P ov nv) \<longleftrightarrow> one_unit w n P old new"
proof -
  let ?D = "{i. i < n \<and> unit_at w i old \<noteq> unit_at w i new}"
  obtain d ov nv where p: "scan_diffs w n old new = (d, ov, nv)" by (cases "scan_diffs w n old new")
  have d: "d = card ?D" and last: "0 < d \<Longrightarrow> \<exists>i \<in> ?D. (ov, nv) = (unit_at w i old, unit_at w i new)"
    using scan_diffs_spec [of w n old new] p by auto
  have "d = 1 \<longleftrightarrow> (\<exists>i. ?D = {i})" unfolding d by (rule card_1_singleton_iff [unfolded One_nat_def [symmetric]])
  moreover have "?D = {i} \<longleftrightarrow> i < n \<and> unit_at w i old \<noteq> unit_at w i new \<and> (\<forall>j < n. j \<noteq> i \<longrightarrow> unit_at w j old = unit_at w j new)" for i
    by auto
  ultimately show ?thesis using last by (auto simp: p one_unit_def)
qed

text \<open>
  C36: \<open>could_be_arith\<close> accepts exactly the pairs of values that are equal or that differ in one
  byte, in one of the 16-bit words the code splits the value into (in either byte order), or, for four
  bytes, as a 32-bit word (in either byte order), by an addition or subtraction of at most
  \<open>ARITH_MAX\<close> with wrap-around at that width. The words are the aligned ones only: a 16-bit
  addition at an odd offset, which the comment in the code promises to recognise and which
  the 16-bit stage performs, is in general not accepted (\<open>unaligned_word_rejected\<close>).
\<close>
theorem could_be_arith_exact:
  "could_be_arith old new blen \<longleftrightarrow> old = new \<or>
     one_unit 8 (unat blen) (reach 8) old new \<or>
     blen \<noteq> 1 \<and> one_unit 16 (unat blen div 2) (\<lambda>a b. reach 16 a b \<or> reach 16 (SWAP16 a) (SWAP16 b)) old new \<or>
     blen = 4 \<and> (reach 32 old new \<or> reach 32 (SWAP32 old) (SWAP32 new))"
proof -
  have tb: "take_bit w (unit_at w i v) = unit_at w i v" for w i v by (simp add: unit_at_def)
  have t16: "take_bit 16 (SWAP16 v) = SWAP16 v" for v by (simp add: SWAP16_def)
  have t32: "take_bit 32 v = v" for v :: u32 by (rule take_bit_word_eq_self) simp
  have n8: "one_unit 8 n (near 8) old new \<longleftrightarrow> one_unit 8 n (reach 8) old new" for n
    by (simp add: one_unit_def near_iff_reach [OF tb])
  have n16: "one_unit 16 n (\<lambda>a b. near 16 a b \<or> near 16 (SWAP16 a) (SWAP16 b)) old new \<longleftrightarrow>
      one_unit 16 n (\<lambda>a b. reach 16 a b \<or> reach 16 (SWAP16 a) (SWAP16 b)) old new" for n
    by (simp add: one_unit_def near_iff_reach [OF tb] near_iff_reach [OF t16])
  have "could_be_arith old new blen \<longleftrightarrow> old = new \<or> one_unit 8 (unat blen) (near 8) old new \<or>
     blen \<noteq> 1 \<and> one_unit 16 (unat blen div 2) (\<lambda>a b. near 16 a b \<or> near 16 (SWAP16 a) (SWAP16 b)) old new \<or>
     blen = 4 \<and> (near 32 old new \<or> near 32 (SWAP32 old) (SWAP32 new))"
    unfolding scan_one_unit [symmetric] by (auto simp: could_be_arith_def split: prod.splits)
  then show ?thesis unfolding n8 n16 by (simp add: near_iff_reach [OF t32])
qed

text \<open>
  The bytes \<open>00 ff 00 00\<close> become \<open>00 00 01 00\<close> when the 16-bit stage adds one at offset 1, but as a change of
  the four bytes this is not taken for a result of arithmetic.
\<close>

lemma unaligned_word_rejected:
  "\<not> could_be_arith 0xff00 0x10000 4"
  "store_le 4 (0xff00 :: u32) = [0, 0xff, 0, 0]" "store_le 4 (0x10000 :: u32) = [0, 0, 1, 0]"
  "load_le [0xff, 0] + 1 = (load_le [0, 1] :: u16)"
proof -
  have b: "scan_diffs 8 4 0xff00 0x10000 = (2, 0, 1)"
    by (simp add: scan_diffs_def diff_step_def upt_rec)
  have w: "scan_diffs 16 2 0xff00 0x10000 = (2, 0, 1)"
    by (simp add: scan_diffs_def diff_step_def upt_rec)
  have "SWAP32 0xff00 = 0xff0000" "SWAP32 0x10000 = 0x100" by (simp_all add: SWAP32_def)
  then show "\<not> could_be_arith 0xff00 0x10000 4"
    by (simp add: could_be_arith_def b w near_def ARITH_MAX_def)
  show "store_le 4 (0xff00 :: u32) = [0, 0xff, 0, 0]" "store_le 4 (0x10000 :: u32) = [0, 0, 1, 0]"
    by (simp_all add: store_le_def byte_of_def upt_rec)
  show "load_le [0xff, 0] + 1 = (load_le [0, 1] :: u16)" by simp
qed

lemma locate_diffs_scan:
  "locate_diffs p q len =
     (if \<forall>i < len. p ! i = q ! i then (- 1, - 1)
      else (int (LEAST i. i < len \<and> p ! i \<noteq> q ! i), int (GREATEST i. i < len \<and> p ! i \<noteq> q ! i)))"
proof (induction len)
  case 0
  then show ?case by (simp add: locate_diffs_def)
next
  case (Suc n)
  have step: "locate_diffs p q (Suc n) = locate_step p q n (locate_diffs p q n)" by (simp add: locate_diffs_def)
  show ?case
  proof (cases "p ! n = q ! n")
    case True
    then have same: "(i < Suc n \<and> p ! i \<noteq> q ! i) \<longleftrightarrow> (i < n \<and> p ! i \<noteq> q ! i)" for i by (auto simp: less_Suc_eq)
    have "locate_diffs p q (Suc n) = locate_diffs p q n" using True by (simp add: step locate_step_def split_beta)
    moreover have "(\<forall>i < Suc n. p ! i = q ! i) \<longleftrightarrow> (\<forall>i < n. p ! i = q ! i)" using same by blast
    ultimately show ?thesis using Suc by (simp only: same)
  next
    case False
    have g: "(GREATEST i. i < Suc n \<and> p ! i \<noteq> q ! i) = n" using False by (intro Greatest_equality) auto
    have "(LEAST i. i < Suc n \<and> p ! i \<noteq> q ! i) = (if \<forall>i < n. p ! i = q ! i then n else (LEAST i. i < n \<and> p ! i \<noteq> q ! i))"
    proof (cases "\<forall>i < n. p ! i = q ! i")
      case True
      then show ?thesis using False by (auto intro!: Least_equality simp: less_Suc_eq not_less [symmetric])
    next
      case ne: False
      then obtain j where "j < n \<and> p ! j \<noteq> q ! j" by blast
      then have L: "(LEAST i. i < n \<and> p ! i \<noteq> q ! i) < n \<and> p ! (LEAST i. i < n \<and> p ! i \<noteq> q ! i) \<noteq> q ! (LEAST i. i < n \<and> p ! i \<noteq> q ! i)"
        by (rule LeastI)
      have "(LEAST i. i < Suc n \<and> p ! i \<noteq> q ! i) = (LEAST i. i < n \<and> p ! i \<noteq> q ! i)"
      proof (rule Least_equality)
        fix y assume y: "y < Suc n \<and> p ! y \<noteq> q ! y"
        show "(LEAST i. i < n \<and> p ! i \<noteq> q ! i) \<le> y"
          using y L by (cases "y = n") (auto intro: Least_le)
      qed (use L in auto)
      then show ?thesis using ne by (simp only: if_False)
    qed
    then show ?thesis using Suc False g by (auto simp: step locate_step_def)
  qed
qed

text \<open>
  \<open>locate_diffs\<close> returns the first and the last offset at which two buffers differ, or -1
  twice when they agree.
\<close>
theorem locate_diffs_correct:
  "locate_diffs p q len =
     (if \<exists>i < len. p ! i \<noteq> q ! i
      then (int (LEAST i. i < len \<and> p ! i \<noteq> q ! i), int (GREATEST i. i < len \<and> p ! i \<noteq> q ! i))
      else (- 1, - 1))"
  unfolding locate_diffs_scan by (rule if_split [THEN iffD2]) auto

section \<open>could_be_interest\<close>

lemma insert_at_bytes:
  assumes "w = 8 * n" and "take_bit w v = v" and "i + n \<le> 4" and "j < 4"
  shows "byte_of (insert_at w old i v) j = (if i \<le> j \<and> j < i + n then byte_of v (j - i) else byte_of old j)"
proof (rule bit_word_eqI)
  fix b assume "b < LENGTH(8)"
  then have b: "b < 8" by simp
  have inb: "8 * j + b < 32" using b assms(4) by simp
  have v: "bit v m \<Longrightarrow> m < w" for m using assms(2) by (metis bit_take_bit_iff)
  have "bit (insert_at w old i v) (8 * j + b) \<longleftrightarrow>
      bit old (8 * j + b) \<and> \<not> (8 * i \<le> 8 * j + b \<and> 8 * j + b < 8 * i + w) \<or> 8 * i \<le> 8 * j + b \<and> bit v (8 * j + b - 8 * i)"
    using inb by (auto simp: insert_at_def bit_simps)
  moreover have "8 * i \<le> 8 * j + b \<and> 8 * j + b < 8 * i + w \<longleftrightarrow> i \<le> j \<and> j < i + n"
    using b assms(1) by auto
  moreover have "i \<le> j \<Longrightarrow> 8 * j + b - 8 * i = 8 * (j - i) + b" by simp
  moreover have "8 * i \<le> 8 * j + b \<and> bit v (8 * j + b - 8 * i) \<Longrightarrow> i \<le> j \<and> j < i + n"
    using v [of "8 * j + b - 8 * i"] b assms(1) by auto
  ultimately show "bit (byte_of (insert_at w old i v) j) b \<longleftrightarrow>
      bit (if i \<le> j \<and> j < i + n then byte_of v (j - i) else byte_of old j) b"
    using b by (auto simp: bytes_simps)
qed

lemma word_eq_4bytes: "(x :: u32) = y \<longleftrightarrow> (\<forall>j < 4. byte_of x j = byte_of y j)"
  by (rule word_eq_bytes) simp

text \<open>
  For a single byte, and for the byte insertions into wider values, \<open>could_be_interest\<close> reports
  a duplicate when the new value is the old one with one byte replaced by an interesting 8-bit
  value; for one byte it reports nothing else.
\<close>
theorem could_be_interest_byte:
  assumes "unat blen \<le> 4"
  shows "(\<forall>i < unat blen. \<forall>v \<in> set interesting_8.
       (\<forall>j < 4. byte_of new j = (if j = i then word_of_int v else byte_of old j)) \<longrightarrow>
       could_be_interest old new blen check_le) \<and>
     (blen = 1 \<longrightarrow> could_be_interest old new blen check_le \<longrightarrow>
       old = new \<or> (\<exists>v \<in> set interesting_8. \<forall>j < 4. byte_of new j = (if j = 0 then word_of_int v else byte_of old j)))"
proof -
  have eq: "new = insert_at 8 old i (take_bit 8 (word_of_int v)) \<longleftrightarrow>
      (\<forall>j < 4. byte_of new j = (if j = i then word_of_int v else byte_of old j))" if "i < unat blen" for i v
  proof -
    have "byte_of (take_bit 8 (word_of_int v) :: u32) 0 = word_of_int v"
      by (rule bit_word_eqI) (auto simp: bytes_simps bit_simps)
    then have "byte_of (insert_at 8 old i (take_bit 8 (word_of_int v))) j = (if j = i then word_of_int v else byte_of old j)" if "j < 4" for j
      using insert_at_bytes [of 8 1 "take_bit 8 (word_of_int v)" i j old] that \<open>i < unat blen\<close> assms by auto
    then show ?thesis by (simp add: word_eq_4bytes [of new])
  qed
  then have "\<forall>i < unat blen. \<forall>v \<in> set interesting_8.
       (\<forall>j < 4. byte_of new j = (if j = i then word_of_int v else byte_of old j)) \<longrightarrow>
       could_be_interest old new blen check_le"
    unfolding could_be_interest_def by (metis (no_types, lifting) atLeast_upt lessThan_iff)
  moreover have "old = new \<or> (\<exists>v \<in> set interesting_8. \<forall>j < 4. byte_of new j = (if j = 0 then word_of_int v else byte_of old j))"
    if "blen = 1" "could_be_interest old new blen check_le"
  proof -
    have "old = new \<or> (\<exists>v \<in> set interesting_8. new = insert_at 8 old 0 (take_bit 8 (word_of_int v)))"
      using that by (auto simp: could_be_interest_def split: if_splits)
    then show ?thesis using eq [of 0] that(1) by (simp only: unat_1 zero_less_one)
  qed
  ultimately show ?thesis by blast
qed

theorem could_be_interest_byte_witness:
  "could_be_interest 0x11223344 0x11643344 4 False"
proof -
  have "byte_of (0x11643344 :: u32) j = (if j = 2 then word_of_int 100 else byte_of (0x11223344 :: u32) j)" if "j < 4" for j
  proof -
    have "j = 0 \<or> j = 1 \<or> j = 2 \<or> j = 3" using that by auto
    then show ?thesis by (elim disjE) (simp_all add: byte_of_def)
  qed
  moreover have "100 \<in> set interesting_8" by (simp add: interesting_8_def INTERESTING_8_def)
  ultimately show ?thesis
    using could_be_interest_byte [of 4 "0x11643344" "0x11223344" False, THEN conjunct1, rule_format, of 2 100] by simp
qed

end
