(* ===== verification/Extras.thy ===== *)
theory Extras
  imports Finds Detpred "HOL-Library.Multiset"
begin

text \<open>
  Dictionaries (src/afl-fuzz-extras.c): the parser of dictionary files, the loading of files and
  directories, the removal of duplicates and the decoding of wide characters. The automatic tokens are in
  theory \<open>Auto_Extras\<close>. A token is its bytes; \<open>len\<close> is their number, and \<open>hit_cnt\<close> of
  \<open>struct extra_data\<close> is never used. Messages and the memory of tokens are left out.
\<close>

section \<open>Data\<close>

record auto_extra_data =
  ae_data :: bytes
  ae_hit_cnt :: u32

record dictionary =
  extras :: "bytes list"
  a_extras :: "auto_extra_data list"
  auto_changed :: bool
  max_det_extras :: u32

definition MAX_DICT_FILE :: nat where
  "MAX_DICT_FILE = 128"

definition MIN_AUTO_EXTRA :: nat where
  "MIN_AUTO_EXTRA = 3"

definition MAX_AUTO_EXTRA :: nat where
  "MAX_AUTO_EXTRA = 32"

definition USE_AUTO_EXTRAS :: nat where
  "USE_AUTO_EXTRAS = 4096"

definition MAX_AUTO_EXTRAS :: nat where
  "MAX_AUTO_EXTRAS = USE_AUTO_EXTRAS * 8"

definition MAX_LINE :: nat where
  "MAX_LINE = 8192"

lemmas dict_sizes = MAX_DICT_FILE_def MIN_AUTO_EXTRA_def MAX_AUTO_EXTRA_def USE_AUTO_EXTRAS_def MAX_AUTO_EXTRAS_def MAX_LINE_def

text \<open>
  The C library's \<open>qsort\<close>, at the two types it is used with. The order of elements that compare equal is
  unspecified, so it is a parameter.
\<close>

record libc =
  qsort_extras :: "(bytes \<Rightarrow> bytes \<Rightarrow> int) \<Rightarrow> bytes list \<Rightarrow> bytes list"
  qsort_autos :: "(auto_extra_data \<Rightarrow> auto_extra_data \<Rightarrow> int) \<Rightarrow> auto_extra_data list \<Rightarrow> auto_extra_data list"

definition compare_extras_len :: "bytes \<Rightarrow> bytes \<Rightarrow> int" where
  "compare_extras_len e1 e2 = sint (word_of_nat (length e1) - word_of_nat (length e2) :: u32)"

definition compare_auto_extras_len :: "auto_extra_data \<Rightarrow> auto_extra_data \<Rightarrow> int" where
  "compare_auto_extras_len e1 e2 = sint (word_of_nat (length (ae_data e1)) - word_of_nat (length (ae_data e2)) :: u32)"

definition compare_auto_extras_use_d :: "auto_extra_data \<Rightarrow> auto_extra_data \<Rightarrow> int" where
  "compare_auto_extras_use_d e1 e2 = sint (ae_hit_cnt e2 - ae_hit_cnt e1)"

section \<open>Characters\<close>

text \<open>The classes of <ctype.h> in the C locale.\<close>

definition isspace :: "u8 \<Rightarrow> bool" where
  "isspace c \<longleftrightarrow> c = 32 \<or> 9 \<le> c \<and> c \<le> 13"

definition isdigit :: "u8 \<Rightarrow> bool" where
  "isdigit c \<longleftrightarrow> 48 \<le> c \<and> c \<le> 57"

definition isalnum :: "u8 \<Rightarrow> bool" where
  "isalnum c \<longleftrightarrow> isdigit c \<or> 65 \<le> c \<and> c \<le> 90 \<or> 97 \<le> c \<and> c \<le> 122"

definition isxdigit :: "u8 \<Rightarrow> bool" where
  "isxdigit c \<longleftrightarrow> isdigit c \<or> 65 \<le> c \<and> c \<le> 70 \<or> 97 \<le> c \<and> c \<le> 102"

definition tolower :: "u8 \<Rightarrow> u8" where
  "tolower c = (if 65 \<le> c \<and> c \<le> 90 then c + 32 else c)"

text \<open>\<open>atoi\<close>: white space, a sign and digits. A value that does not fit an \<open>int\<close> is undefined.\<close>

definition digits_value :: "bytes \<Rightarrow> int" where
  "digits_value ds = fold (\<lambda>d v. 10 * v + uint (d - 48)) ds 0"

definition atoi :: "bytes \<Rightarrow> int res" where
  "atoi s =
     (let s = dropWhile isspace s;
          neg = (s \<noteq> [] \<and> hd s = 45);
          s = (if s \<noteq> [] \<and> (hd s = 45 \<or> hd s = 43) then tl s else s);
          v = digits_value (takeWhile isdigit s);
          v = (if neg then - v else v)
      in if - (2 ^ 31) \<le> v \<and> v < 2 ^ 31 then Inr v else Inl (UB ''atoi out of range''))"

section \<open>Dictionary files\<close>

text \<open>\<open>fgets\<close>: up to and including a newline, at most \<open>MAX_LINE - 1\<close> bytes.\<close>

definition line_length :: "bytes \<Rightarrow> nat" where
  "line_length f = min (MAX_LINE - 1) (min (length f) (length (takeWhile (\<lambda>c. c \<noteq> 10) f) + 1))"

lemma line_length_pos: "f \<noteq> [] \<Longrightarrow> 0 < line_length f"
  by (simp add: line_length_def MAX_LINE_def)

function fgets_lines :: "bytes \<Rightarrow> bytes list" where
  "fgets_lines f = (if f = [] then [] else take (line_length f) f # fgets_lines (drop (line_length f) f))"
  by pat_completeness auto
termination
  by (relation "measure length") (use line_length_pos in auto)

declare fgets_lines.simps [simp del]

definition hex_value :: "u8 \<Rightarrow> u8" where
  "hex_value c = (let c = tolower c in if isdigit c then c - 48 else c - 87)"

text \<open>The copy of the data between the quotes.\<close>

fun unescape :: "bytes \<Rightarrow> bytes" where
  "unescape [] = []"
| "unescape (c # s) =
     (if 1 \<le> c \<and> c \<le> 31 \<or> 128 \<le> c then unescape s
      else if c = 92
      then (case s of
              [] \<Rightarrow> []
            | d # s' \<Rightarrow>
                if d = 92 \<or> d = 34 then d # unescape s'
                else if d \<noteq> 120 then unescape (d # s')
                else (case s' of
                        h # l # s'' \<Rightarrow>
                          if isxdigit h \<and> isxdigit l
                          then (push_bit 4 (hex_value h) OR hex_value l) # unescape s''
                          else unescape (d # s')
                      | _ \<Rightarrow> unescape (d # s')))
      else c # unescape s)"

text \<open>The part of a line before the opening quote.\<close>

definition skip_level :: "u32 \<Rightarrow> bytes \<Rightarrow> bytes option res" where
  "skip_level dict_level s =
     (if s \<noteq> [] \<and> hd s = 64
      then rbind (atoi (tl s)) (\<lambda>v. Inr (if sint dict_level < v then None else Some (dropWhile isdigit (tl s))))
      else Inr (Some s))"

definition skip_number :: "bytes \<Rightarrow> bytes" where
  "skip_number s =
     (if s \<noteq> [] \<and> hd s = 91
      then let s = dropWhile isdigit (tl s) in if s \<noteq> [] \<and> hd s = 93 then tl s else s
      else s)"

text \<open>
  One line: \<open>None\<close> when it is skipped, be it empty, a comment, malformed, or of a higher level.
\<close>

definition parse_line :: "u32 \<Rightarrow> bytes \<Rightarrow> bytes option res" where
  "parse_line dict_level buf =
     (let s = dropWhile isspace (takeWhile (\<lambda>c. c \<noteq> 0) buf);
          s = rev (dropWhile isspace (rev s))
      in if s = [] \<or> hd s = 35 then Inr None
         else if last s \<noteq> 34 then Inr None
         else rbind (skip_level dict_level (dropWhile (\<lambda>c. isalnum c \<or> c = 95) (butlast s))) (\<lambda>r.
           case r of
             None \<Rightarrow> Inr None
           | Some s \<Rightarrow>
               let s = dropWhile (\<lambda>c. isspace c \<or> c = 61) (skip_number s)
               in if s = [] \<or> hd s \<noteq> 34 then Inr None
                  else if tl s = [] then Inr None
                  else Inr (Some (unescape (tl s)))))"

definition load_line :: "u32 \<Rightarrow> bytes \<Rightarrow> dictionary \<times> nat \<times> nat \<Rightarrow> (dictionary \<times> nat \<times> nat) res" where
  "load_line dict_level buf = (\<lambda>(d, min_len, max_len).
     rbind (parse_line dict_level buf) (\<lambda>r.
       case r of
         None \<Rightarrow> Inr (d, min_len, max_len)
       | Some t \<Rightarrow>
           if MAX_DICT_FILE < length t then Inr (d, min_len, max_len)
           else Inr (d\<lparr>extras := extras d @ [t]\<rparr>, min min_len (length t), max max_len (length t))))"

text \<open>\<open>content\<close> is what \<open>fopen\<close> gives to read, \<open>None\<close> when it fails.\<close>

definition load_extras_file ::
  "bytes option \<Rightarrow> u32 \<Rightarrow> dictionary \<times> nat \<times> nat \<Rightarrow> (dictionary \<times> nat \<times> nat) res" where
  "load_extras_file content dict_level s =
     (case content of
        None \<Rightarrow> Inl (PFATAL ''Unable to open'')
      | Some f \<Rightarrow> rfold (load_line dict_level) (fgets_lines f) s)"

definition extras_check_and_sort :: "libc \<Rightarrow> dictionary \<Rightarrow> dictionary" where
  "extras_check_and_sort c d =
     (if extras d = [] then d else d\<lparr>extras := qsort_extras c compare_extras_len (extras d)\<rparr>)"

section \<open>Files and directories\<close>

text \<open>
  A directory entry: whether \<open>lstat\<close> and \<open>access\<close> succeed, whether it is a regular file, its size, and what
  opening and reading it gives (\<open>None\<close> when it cannot be opened).
\<close>

record dir_entry =
  de_accessible :: bool
  de_regular :: bool
  de_size :: nat
  de_content :: "bytes option"

datatype opened = Directory "dir_entry list" | NotDirectory "bytes option" | Failed

definition load_dir_entry :: "dir_entry \<Rightarrow> dictionary \<times> nat \<times> nat \<Rightarrow> (dictionary \<times> nat \<times> nat) res" where
  "load_dir_entry e = (\<lambda>(d, min_len, max_len).
     if \<not> de_accessible e then Inl (PFATAL ''Unable to access'')
     else if \<not> de_regular e \<or> de_size e = 0 then Inr (d, min_len, max_len)
     else if MAX_DICT_FILE < de_size e then Inr (d, min_len, max_len)
     else case de_content e of
            None \<Rightarrow> Inl (PFATAL ''Unable to open'')
          | Some bs \<Rightarrow>
              if length bs < de_size e then Inl (PFATAL ''Short read'')
              else Inr (d\<lparr>extras := extras d @ [take (de_size e) bs]\<rparr>, min min_len (de_size e), max max_len (de_size e)))"

text \<open>\<open>dir\<close> is the argument of the option, \<open>fs\<close> the result of opening the path.\<close>

definition load_extras :: "libc \<Rightarrow> (bytes \<Rightarrow> opened) \<Rightarrow> bytes \<Rightarrow> dictionary \<Rightarrow> dictionary res" where
  "load_extras c fs dir d =
     (let path = takeWhile (\<lambda>x. x \<noteq> 64) dir; level = dropWhile (\<lambda>x. x \<noteq> 64) dir
      in rbind (if level = [] then Inr 0 else atoi (tl level)) (\<lambda>dict_level.
         case fs path of
           Failed \<Rightarrow> Inl (PFATAL ''Unable to open'')
         | NotDirectory content \<Rightarrow>
             rbind (load_extras_file content (word_of_int dict_level) (d, MAX_DICT_FILE, 0)) (\<lambda>(d, _).
               Inr (extras_check_and_sort c d))
         | Directory es \<Rightarrow>
             if level \<noteq> [] then Inl (FATAL ''Dictionary levels not supported for directories.'')
             else rbind (rfold load_dir_entry es (d, MAX_DICT_FILE, 0)) (\<lambda>(d, _). Inr (extras_check_and_sort c d))))"

section \<open>Adding tokens\<close>

definition add_extra_nocheck :: "bytes \<Rightarrow> dictionary \<Rightarrow> dictionary" where
  "add_extra_nocheck mem d = d\<lparr>extras := extras d @ [mem]\<rparr>"

definition zeros_at :: "(nat \<Rightarrow> bool) \<Rightarrow> bytes \<Rightarrow> nat" where
  "zeros_at P t = length (filter (\<lambda>j. P j \<and> t ! j = 0) [0..<length t])"

definition pick_at :: "nat \<Rightarrow> nat \<Rightarrow> bytes \<Rightarrow> bytes" where
  "pick_at m r t = map ((!) t) (filter (\<lambda>j. j mod m = r) [0..<length t])"

definition deunicode_one :: "bytes \<Rightarrow> dictionary \<Rightarrow> dictionary" where
  "deunicode_one t d =
     (let n = length t; half = n div 2; quarter = half div 2;
          z1 = zeros_at (\<lambda>j. j mod 4 = 0 \<or> j mod 4 = 2) t; z2 = zeros_at (\<lambda>j. j mod 4 = 1 \<or> j mod 4 = 3) t;
          z3 = zeros_at (\<lambda>j. j mod 4 = 2) t; z4 = zeros_at (\<lambda>j. j mod 4 = 3) t
      in if n < 6 \<or> 64 < n \<or> odd n then d
         else if z1 < half \<and> z2 < half \<or> z1 + z2 = n then d
         else
           (let d = (if n mod 4 = 0 \<and> 12 \<le> n \<and> (z3 = quarter \<or> z4 = quarter) \<and> z1 + z2 = quarter * 3
                     then add_extra_nocheck
                            (pick_at 4 (if z4 < quarter then 3 else if z3 < quarter then 2 else if z2 < half then 1 else 0) t) d
                     else d)
            in add_extra_nocheck (pick_at 2 (if z1 < half then 0 else 1) t) d))"

definition deunicode_extras :: "libc \<Rightarrow> dictionary \<Rightarrow> dictionary" where
  "deunicode_extras c d =
     (if extras d = [] then d
      else let d = fold deunicode_one (extras d) d
           in d\<lparr>extras := qsort_extras c compare_extras_len (extras d)\<rparr>)"

text \<open>The inner loop of \<open>dedup_extras\<close> at \<open>i\<close> and \<open>j\<close>; removing a token leaves \<open>j\<close> where it is.\<close>

function dedup_inner :: "nat \<Rightarrow> nat \<Rightarrow> bytes list \<Rightarrow> bytes list" where
  "dedup_inner i j xs =
     (if length xs \<le> j \<or> length (xs ! i) \<noteq> length (xs ! j) then xs
      else if xs ! i = xs ! j then dedup_inner i j (take j xs @ drop (Suc j) xs)
      else dedup_inner i (Suc j) xs)"
  by pat_completeness auto
termination
  by (relation "measure (\<lambda>(i, j, xs). length xs - j)") auto

declare dedup_inner.simps [simp del]

lemma length_dedup_inner: "length (dedup_inner i j xs) \<le> length xs"
proof (induction i j xs rule: dedup_inner.induct)
  case (1 i j xs)
  then show ?case by (subst dedup_inner.simps) auto
qed

function dedup_outer :: "nat \<Rightarrow> bytes list \<Rightarrow> bytes list" where
  "dedup_outer i xs = (if i < length xs - 1 then dedup_outer (Suc i) (dedup_inner i (Suc i) xs) else xs)"
  by pat_completeness auto
termination
proof (relation "measure (\<lambda>(i, xs). length xs - i)")
  fix i :: nat and xs :: "bytes list"
  assume "i < length xs - 1"
  then show "((Suc i, dedup_inner i (Suc i) xs), (i, xs)) \<in> measure (\<lambda>(i, xs). length xs - i)"
    using length_dedup_inner [of i "Suc i" xs] by simp
qed simp

declare dedup_outer.simps [simp del]

definition dedup_extras :: "dictionary \<Rightarrow> dictionary" where
  "dedup_extras d = (if length (extras d) < 2 then d else d\<lparr>extras := dedup_outer 0 (extras d)\<rparr>)"

text \<open>The search of \<open>add_extra\<close>: whether it returns early.\<close>

fun extra_listed :: "bytes \<Rightarrow> bool \<Rightarrow> bytes list \<Rightarrow> bool" where
  "extra_listed mem found [] = False"
| "extra_listed mem found (e # es) =
     (if length e = length mem then e = mem \<or> extra_listed mem True es
      else \<not> found \<and> extra_listed mem found es)"

definition add_extra :: "libc \<Rightarrow> bytes \<Rightarrow> dictionary \<Rightarrow> dictionary" where
  "add_extra c mem d =
     (if extra_listed mem False (extras d) then d
      else if MAX_DICT_FILE < length mem then d
      else let d = add_extra_nocheck mem d
           in d\<lparr>extras := qsort_extras c compare_extras_len (extras d)\<rparr>)"

section \<open>Sorting\<close>

text \<open>
  What the C standard promises of \<open>qsort\<close>: the result is a permutation, and it is in order whenever
  the comparison function is consistent on the array.
\<close>

definition consistent_cmp :: "('a \<Rightarrow> 'a \<Rightarrow> int) \<Rightarrow> 'a set \<Rightarrow> bool" where
  "consistent_cmp cmp A \<longleftrightarrow>
     (\<forall>x \<in> A. \<forall>y \<in> A. sgn (cmp y x) = - sgn (cmp x y)) \<and>
     (\<forall>x \<in> A. \<forall>y \<in> A. \<forall>z \<in> A. cmp x y \<le> 0 \<longrightarrow> cmp y z \<le> 0 \<longrightarrow> cmp x z \<le> 0)"

locale sorter =
  fixes qs :: "('a \<Rightarrow> 'a \<Rightarrow> int) \<Rightarrow> 'a list \<Rightarrow> 'a list"
  assumes permutes: "consistent_cmp cmp (set xs) \<Longrightarrow> mset (qs cmp xs) = mset xs"
    and sorts: "consistent_cmp cmp (set xs) \<Longrightarrow> sorted_wrt (\<lambda>x y. cmp x y \<le> 0) (qs cmp xs)"
begin

lemma by_key:
  assumes key: "\<And>x y. x \<in> set xs \<Longrightarrow> y \<in> set xs \<Longrightarrow> cmp x y = f x - f y"
  shows "mset (qs cmp xs) = mset xs" and "sorted (map f (qs cmp xs))"
proof -
  have c: "consistent_cmp cmp (set xs)"
    unfolding consistent_cmp_def using key by (auto simp: sgn_if)
  show m: "mset (qs cmp xs) = mset xs" using permutes [OF c] .
  then have "set (qs cmp xs) = set xs" by (rule mset_eq_setD)
  with sorts [OF c] show "sorted (map f (qs cmp xs))"
    unfolding sorted_map using key by (auto intro: sorted_wrt_mono_rel [rotated])
qed

lemma key_length: "(\<And>x y. x \<in> set xs \<Longrightarrow> y \<in> set xs \<Longrightarrow> cmp x y = f x - f y) \<Longrightarrow> length (qs cmp xs) = length xs"
  by (metis by_key(1) size_mset)

lemma key_set: "(\<And>x y. x \<in> set xs \<Longrightarrow> y \<in> set xs \<Longrightarrow> cmp x y = f x - f y) \<Longrightarrow> set (qs cmp xs) = set xs"
  by (metis by_key(1) set_mset_mset)

end

text \<open>A stable sort, as the merge sort of glibc is.\<close>

fun insert_cmp :: "('a \<Rightarrow> 'a \<Rightarrow> int) \<Rightarrow> 'a \<Rightarrow> 'a list \<Rightarrow> 'a list" where
  "insert_cmp cmp x [] = [x]"
| "insert_cmp cmp x (y # ys) = (if cmp x y \<le> 0 then x # y # ys else y # insert_cmp cmp x ys)"

fun stable_sort :: "('a \<Rightarrow> 'a \<Rightarrow> int) \<Rightarrow> 'a list \<Rightarrow> 'a list" where
  "stable_sort cmp [] = []"
| "stable_sort cmp (x # xs) = insert_cmp cmp x (stable_sort cmp xs)"

lemma mset_insert_cmp: "mset (insert_cmp cmp x xs) = add_mset x (mset xs)"
  by (induction xs) auto

lemma mset_stable_sort: "mset (stable_sort cmp xs) = mset xs"
  by (induction xs) (auto simp: mset_insert_cmp)

lemma set_insert_cmp: "set (insert_cmp cmp x xs) = insert x (set xs)"
  by (simp add: mset_insert_cmp flip: set_mset_mset)

lemma consistent_subset: "consistent_cmp cmp A \<Longrightarrow> B \<subseteq> A \<Longrightarrow> consistent_cmp cmp B"
  unfolding consistent_cmp_def by blast

lemma consistent_flip: "consistent_cmp cmp A \<Longrightarrow> x \<in> A \<Longrightarrow> y \<in> A \<Longrightarrow> \<not> cmp x y \<le> 0 \<Longrightarrow> cmp y x \<le> 0"
proof -
  assume "consistent_cmp cmp A" "x \<in> A" "y \<in> A" and n: "\<not> cmp x y \<le> 0"
  then have "sgn (cmp y x) = - sgn (cmp x y)" unfolding consistent_cmp_def by blast
  with n have "sgn (cmp y x) = - 1" by simp
  then show "cmp y x \<le> 0" by (simp add: sgn_1_neg)
qed

lemma consistent_trans:
  "consistent_cmp cmp A \<Longrightarrow> x \<in> A \<Longrightarrow> y \<in> A \<Longrightarrow> z \<in> A \<Longrightarrow> cmp x y \<le> 0 \<Longrightarrow> cmp y z \<le> 0 \<Longrightarrow> cmp x z \<le> 0"
  unfolding consistent_cmp_def by blast

lemma insert_cmp_sorted:
  assumes "consistent_cmp cmp (insert x (set xs))" and "sorted_wrt (\<lambda>x y. cmp x y \<le> 0) xs"
  shows "sorted_wrt (\<lambda>x y. cmp x y \<le> 0) (insert_cmp cmp x xs)"
  using assms
proof (induction xs)
  case Nil
  then show ?case by simp
next
  case (Cons y ys)
  have sub: "consistent_cmp cmp (insert x (set ys))"
    by (rule consistent_subset [OF Cons.prems(1)]) auto
  have flip: "\<not> cmp x y \<le> 0 \<Longrightarrow> cmp y x \<le> 0"
    by (rule consistent_flip [OF Cons.prems(1)]) simp_all
  have trans: "cmp x y \<le> 0 \<Longrightarrow> z \<in> set ys \<Longrightarrow> cmp x z \<le> 0" for z
    by (rule consistent_trans [OF Cons.prems(1), of x y z]) (use Cons.prems(2) in simp_all)
  show ?case using Cons.IH [OF sub] Cons.prems(2) flip trans by (auto simp: set_insert_cmp)
qed

lemma stable_sort_sorted:
  "consistent_cmp cmp (set xs) \<Longrightarrow> sorted_wrt (\<lambda>x y. cmp x y \<le> 0) (stable_sort cmp xs)"
proof (induction xs)
  case (Cons x xs)
  have "set (stable_sort cmp xs) = set xs" by (metis mset_stable_sort set_mset_mset)
  with Cons show ?case by (auto intro!: insert_cmp_sorted intro: consistent_subset)
qed simp

interpretation st: sorter stable_sort
  by unfold_locales (simp_all add: mset_stable_sort stable_sort_sorted)

definition glibc :: libc where
  "glibc = \<lparr>qsort_extras = stable_sort, qsort_autos = stable_sort\<rparr>"

definition libc_ok :: "libc \<Rightarrow> bool" where
  "libc_ok c \<longleftrightarrow> sorter (qsort_extras c) \<and> sorter (qsort_autos c)"

lemma glibc_ok: "libc_ok glibc"
  by (simp add: libc_ok_def glibc_def st.sorter_axioms)

lemma sint_diff:
  assumes "a < 2 ^ 31" and "b < 2 ^ 31"
  shows "sint (word_of_nat a - word_of_nat b :: u32) = int a - int b"
proof -
  have "(word_of_nat a - word_of_nat b :: u32) = word_of_int (int a - int b)" by simp
  moreover have "signed_take_bit 31 (int a - int b) = int a - int b"
    using assms by (intro signed_take_bit_int_eq_self) simp_all
  moreover have "sint (word_of_int (int a - int b) :: u32) = signed_take_bit 31 (int a - int b)" by (simp only: signed_of_int) simp
  ultimately show ?thesis by simp
qed

lemma sint_diff_word:
  assumes "a < 2 ^ 31" and "b < 2 ^ 31"
  shows "sint (a - b :: u32) = uint a - uint b"
proof -
  have "unat a < 2 ^ 31" "unat b < 2 ^ 31" using assms by (simp_all add: word_less_nat_alt)
  from sint_diff [OF this] show ?thesis by simp
qed

lemma sort_extras:
  assumes "libc_ok c" and "\<forall>e \<in> set xs. length e < 2 ^ 31"
  shows "mset (qsort_extras c compare_extras_len xs) = mset xs"
    and "sorted (map length (qsort_extras c compare_extras_len xs))"
    and "set (qsort_extras c compare_extras_len xs) = set xs"
proof -
  have s: "sorter (qsort_extras c)" using assms(1) by (simp add: libc_ok_def)
  have k: "compare_extras_len x y = int (length x) - int (length y)" if "x \<in> set xs" "y \<in> set xs" for x y
    using that assms(2) by (auto simp: compare_extras_len_def intro!: sint_diff)
  show m: "mset (qsort_extras c compare_extras_len xs) = mset xs" by (rule sorter.by_key(1) [OF s k])
  have "sorted (map (int \<circ> length) (qsort_extras c compare_extras_len xs))"
    using sorter.by_key(2) [OF s, of xs compare_extras_len "int \<circ> length"] k by simp
  then show "sorted (map length (qsort_extras c compare_extras_len xs))" by (simp add: sorted_map)
  show "set (qsort_extras c compare_extras_len xs) = set xs" using m by (rule mset_eq_setD)
qed

section \<open>Reading back a dictionary file\<close>

text \<open>
  A reference printer: a token between quotes, with quotes and backslashes escaped and every byte outside
  the printable range written as \<open>\xNN\<close>.
\<close>

definition hex_digit :: "u8 \<Rightarrow> u8" where
  "hex_digit v = (if v < 10 then v + 48 else v + 87)"

definition escape_byte :: "u8 \<Rightarrow> bytes" where
  "escape_byte b =
     (if b = 92 \<or> b = 34 then [92, b]
      else if 32 \<le> b \<and> b < 128 then [b]
      else [92, 120, hex_digit (drop_bit 4 b), hex_digit (b AND 15)])"

definition dict_line :: "bytes \<Rightarrow> bytes \<Rightarrow> bytes" where
  "dict_line name t = name @ [61, 34] @ concat (map escape_byte t) @ [34, 10]"

definition label_char :: "u8 \<Rightarrow> bool" where
  "label_char c \<longleftrightarrow> isalnum c \<or> c = 95"

lemma byte_exhaust:
  assumes "\<forall>n \<in> set [0..<256]. P (word_of_nat n :: u8)"
  shows "P b"
proof -
  have "unat b \<in> set [0..<256]" using unsigned_less [of b] by simp
  with assms have "P (word_of_nat (unat b))" by blast
  then show ?thesis by simp
qed

lemma nibble_exhaust:
  assumes "\<forall>n \<in> set [0..<16]. P (word_of_nat n :: u8)" and "v < 16"
  shows "P v"
proof -
  have "unat v \<in> set [0..<16]" using assms(2) by (simp add: word_less_nat_alt)
  with assms(1) have "P (word_of_nat (unat v))" by blast
  then show ?thesis by simp
qed

lemma hex_digit_nibble: "v < 16 \<Longrightarrow> isxdigit (hex_digit v) \<and> hex_value (hex_digit v) = v"
proof -
  have "\<forall>n \<in> set [0..<16]. isxdigit (hex_digit (word_of_nat n)) \<and> hex_value (hex_digit (word_of_nat n)) = word_of_nat n" by code_simp
  then show "v < 16 \<Longrightarrow> isxdigit (hex_digit v) \<and> hex_value (hex_digit v) = v" by (rule nibble_exhaust)
qed

lemma nibbles: "drop_bit 4 b < (16 :: u8)" "b AND 15 < (16 :: u8)" "push_bit 4 (drop_bit 4 b) OR (b AND 15) = (b :: u8)"
proof -
  have "unat b < 256" using unsigned_less [of b] by simp
  then show "drop_bit 4 b < 16" by (simp add: word_less_nat_alt unat_shiftr)
  have m: "(15 :: u8) = mask 4" by (simp add: mask_eq_decr_exp)
  show "b AND 15 < 16" unfolding m by (rule order_le_less_trans [OF word_and_le1]) (simp add: mask_eq_decr_exp)
  show "push_bit 4 (drop_bit 4 b) OR (b AND 15) = b" unfolding m
    by (rule bit_word_eqI) (auto simp: bit_simps)
qed

lemma hex_digits_ok:
  "isxdigit (hex_digit (drop_bit 4 b)) \<and> isxdigit (hex_digit (b AND 15)) \<and>
   push_bit 4 (hex_value (hex_digit (drop_bit 4 b))) OR hex_value (hex_digit (b AND 15)) = b"
  using hex_digit_nibble nibbles [of b] by simp

lemma escape_clean: "\<forall>c \<in> set (escape_byte b). c \<noteq> 0 \<and> c \<noteq> 10"
  by (rule byte_exhaust [of _ b]) code_simp

lemma label_clean: "label_char c \<longrightarrow> c \<noteq> 0 \<and> c \<noteq> 10 \<and> \<not> isspace c \<and> c \<noteq> 35"
  by (rule byte_exhaust [of _ c]) code_simp

lemma unescape_escape_byte: "unescape (escape_byte b @ s) = b # unescape s"
proof -
  consider "b = 92 \<or> b = 34" | "b \<noteq> 92" "b \<noteq> 34" "32 \<le> b" "b < 128" | "b \<noteq> 92" "b \<noteq> 34" "\<not> (32 \<le> b \<and> b < 128)" by blast
  then show ?thesis
  proof cases
    case 1
    then show ?thesis by (auto simp: escape_byte_def)
  next
    case 2
    then have "\<not> (1 \<le> b \<and> b \<le> 31 \<or> 128 \<le> b)" by (auto simp: word_le_nat_alt word_less_nat_alt)
    with 2 show ?thesis by (simp add: escape_byte_def)
  next
    case 3
    then show ?thesis using hex_digits_ok [of b] by (simp add: escape_byte_def)
  qed
qed

lemma unescape_escape: "unescape (concat (map escape_byte t)) = t"
  by (induction t) (simp_all add: unescape_escape_byte)

lemma escape_nonempty: "escape_byte b \<noteq> []"
  by (simp add: escape_byte_def)

lemma takeWhile_all: "\<forall>x \<in> set xs. P x \<Longrightarrow> takeWhile P xs = xs"
  by simp

lemma parse_dict_line:
  assumes "\<forall>c \<in> set name. label_char c" and "t \<noteq> []"
  shows "parse_line dict_level (dict_line name t) = Inr (Some t)"
proof -
  let ?e = "concat (map escape_byte t)"
  have clean: "\<forall>c \<in> set (dict_line name t). c \<noteq> 0"
    using assms(1) label_clean escape_clean by (auto simp: dict_line_def)
  have left: "dropWhile isspace (dict_line name t) = dict_line name t"
    using assms(1) label_clean by (cases name) (auto simp: dict_line_def isspace_def)
  have right: "rev (dropWhile isspace (rev (dict_line name t))) = name @ [61, 34] @ ?e @ [34]"
    by (simp add: dict_line_def isspace_def)
  have label: "dropWhile (\<lambda>c. isalnum c \<or> c = 95) (name @ 61 # 34 # ?e) = 61 # 34 # ?e"
    using assms(1) unfolding label_char_def by (subst dropWhile_append2) (auto simp: isalnum_def isdigit_def)
  have ne: "?e \<noteq> []" using assms(2) escape_nonempty by (cases t) auto
  have hd: "hd (name @ [61, 34] @ ?e @ [34]) \<noteq> 35" using assms(1) label_clean by (cases name) auto
  have bl: "butlast (name @ [61, 34] @ ?e @ [34]) = name @ 61 # 34 # ?e" by (simp add: butlast_append)
  have "takeWhile (\<lambda>c. c \<noteq> 0) (dict_line name t) = dict_line name t" using clean by simp
  then show ?thesis
    using hd ne unescape_escape [of t]
    by (simp only: parse_line_def Let_def left right bl label skip_level_def skip_number_def) (simp add: isspace_def)
qed

lemma fgets_dict_line:
  assumes "\<forall>c \<in> set name. label_char c" and "length (dict_line name t) < MAX_LINE"
  shows "fgets_lines (dict_line name t @ f) = dict_line name t # fgets_lines f"
proof -
  let ?l = "name @ [61, 34] @ concat (map escape_byte t) @ [34]"
  have l: "dict_line name t = ?l @ [10]" by (simp add: dict_line_def)
  have c: "\<forall>c \<in> set ?l. c \<noteq> 10" using assms(1) label_clean escape_clean by fastforce
  then have "takeWhile (\<lambda>c. c \<noteq> 10) (?l @ 10 # f) = ?l" by (subst takeWhile_append2) auto
  then have "takeWhile (\<lambda>c. c \<noteq> 10) (dict_line name t @ f) = ?l" unfolding l by (simp only: append_assoc append_Cons append_Nil)
  then have "line_length (dict_line name t @ f) = length (dict_line name t)"
    using assms(2) by (simp add: line_length_def l)
  moreover have "dict_line name t \<noteq> []" by (simp add: l)
  ultimately show ?thesis by (subst fgets_lines.simps) simp
qed

lemma length_if_le: "length x \<le> n \<Longrightarrow> length y \<le> n \<Longrightarrow> length (if b then x else y) \<le> n"
  by simp

lemma length_case_le:
  "(s = [] \<Longrightarrow> length x \<le> n) \<Longrightarrow> (\<And>a r. s = a # r \<Longrightarrow> length (f a r) \<le> n) \<Longrightarrow>
   length (case s of [] \<Rightarrow> x | a # r \<Rightarrow> f a r) \<le> n"
  by (cases s) simp_all

text \<open>What is written never exceeds the buffer \<open>ck_alloc (rptr - lptr)\<close>.\<close>

lemma unescape_length: "length (unescape s) \<le> length s"
proof (induction s rule: length_induct)
  case (1 s)
  then have ih: "length t < length s \<Longrightarrow> length (unescape t) \<le> length t" for t by blast
  show ?case
  proof (cases s)
    case (Cons c r)
    have le: "length (unescape t) \<le> length s" if "length t \<le> length r" for t
      using ih [of t] that Cons by simp
    have le1: "length (b # unescape t) \<le> length s" if "length t \<le> length r" for b t
      using ih [of t] that Cons by simp
    have "length (unescape (c # r)) \<le> length s"
      by (subst unescape.simps(2)) (intro length_if_le length_case_le le le1; simp)
    then show ?thesis using Cons by simp
  qed simp
qed

lemma load_dict_lines:
  assumes "\<forall>(name, t) \<in> set es. (\<forall>c \<in> set name. label_char c) \<and> t \<noteq> [] \<and> length (dict_line name t) < MAX_LINE"
  shows "\<exists>lo' hi'. rfold (load_line dict_level) (fgets_lines (concat (map (\<lambda>(name, t). dict_line name t) es))) (d, lo, hi) =
    Inr (d\<lparr>extras := extras d @ filter (\<lambda>t. length t \<le> MAX_DICT_FILE) (map snd es)\<rparr>, lo', hi')"
  using assms
proof (induction es arbitrary: d lo hi)
  case Nil
  then show ?case by (simp add: fgets_lines.simps)
next
  case (Cons e es)
  obtain name t where e: "e = (name, t)" by (cases e)
  have ok: "\<forall>c \<in> set name. label_char c" "t \<noteq> []" "length (dict_line name t) < MAX_LINE" using Cons.prems e by auto
  have "\<exists>d' lo' hi'. load_line dict_level (dict_line name t) (d, lo, hi) = Inr (d', lo', hi') \<and>
      d' = d\<lparr>extras := extras d @ filter (\<lambda>t. length t \<le> MAX_DICT_FILE) [t]\<rparr>"
    by (auto simp: load_line_def parse_dict_line [OF ok(1,2)])
  then obtain lo' hi' where
    one: "load_line dict_level (dict_line name t) (d, lo, hi) =
      Inr (d\<lparr>extras := extras d @ filter (\<lambda>t. length t \<le> MAX_DICT_FILE) [t]\<rparr>, lo', hi')" by blast
  have "\<forall>(name, t) \<in> set es. (\<forall>c \<in> set name. label_char c) \<and> t \<noteq> [] \<and> length (dict_line name t) < MAX_LINE"
    using Cons.prems by simp
  from Cons.IH [OF this, of "d\<lparr>extras := extras d @ filter (\<lambda>t. length t \<le> MAX_DICT_FILE) [t]\<rparr>" lo' hi'] show ?case
    unfolding e by (simp add: fgets_dict_line [OF ok(1,3)] one split: if_splits)
qed

text \<open>
  C14: Reading back a dictionary. A file that lists tokens as \<open>name="value"\<close> lines, with quotes and
  backslashes escaped and unprintable bytes written as \<open>\xNN\<close>, is parsed into exactly those tokens, in
  order, at every dictionary level; tokens longer than \<open>MAX_DICT_FILE\<close> are left out.
\<close>

theorem load_extras_file_reads_back:
  assumes "\<forall>(name, t) \<in> set es. (\<forall>c \<in> set name. label_char c) \<and> t \<noteq> [] \<and> length (dict_line name t) < MAX_LINE"
  shows "\<exists>lo' hi'. load_extras_file (Some (concat (map (\<lambda>(name, t). dict_line name t) es))) dict_level (d, lo, hi) =
    Inr (d\<lparr>extras := extras d @ filter (\<lambda>t. length t \<le> MAX_DICT_FILE) (map snd es)\<rparr>, lo', hi')"
  using load_dict_lines [OF assms] by (simp add: load_extras_file_def)

definition dict_zero :: dictionary where
  "dict_zero = \<lparr>extras = [], a_extras = [], auto_changed = False, max_det_extras = 256\<rparr>"

theorem load_extras_file_reads_back_witness:
  "\<exists>lo hi. load_extras_file (Some (dict_line [107, 49] [34, 0, 255] @ dict_line [] [65])) 0 (dict_zero, 128, 0) =
    Inr (dict_zero\<lparr>extras := [[34, 0, 255], [65]]\<rparr>, lo, hi)"
  using load_extras_file_reads_back [of "[([107, 49], [34, 0, 255]), ([], [65])]" 0 dict_zero 128 0]
  by (simp add: label_char_def isalnum_def isdigit_def dict_line_def escape_byte_def hex_digit_def dict_sizes dict_zero_def)

section \<open>Removing duplicates\<close>

text \<open>The reference: keep the first occurrence of every token.\<close>

primrec keep_first :: "'a list \<Rightarrow> 'a list" where
  "keep_first [] = []"
| "keep_first (x # xs) = x # filter (\<lambda>y. y \<noteq> x) (keep_first xs)"

lemma keep_first_filter: "keep_first (filter P xs) = filter P (keep_first xs)"
  by (induction xs) (auto intro: filter_cong)

lemma set_keep_first: "set (keep_first xs) = set xs"
  by (induction xs) auto

lemma distinct_keep_first: "distinct (keep_first xs)"
  by (induction xs) auto

lemma sorted_keep_first: "sorted (map f xs) \<Longrightarrow> sorted (map f (keep_first xs))"
  by (induction xs) (auto simp: sorted_filter set_keep_first)

lemma sorted_replace_tail:
  assumes "sorted (map f xs)" and "set zs \<subseteq> set (drop j xs)" and "sorted (map f zs)"
  shows "sorted (map f (take j xs @ zs))"
proof -
  have "sorted (map f (take j xs) @ map f (drop j xs))" using assms(1) by (simp flip: map_append)
  then show ?thesis using assms(2,3) by (auto simp: sorted_append)
qed

lemma dedup_inner_sorted:
  assumes "sorted (map length xs)" and "i < j" and "j \<le> length xs"
  shows "dedup_inner i j xs = take j xs @ filter (\<lambda>y. y \<noteq> xs ! i) (drop j xs)"
  using assms
proof (induction i j xs rule: dedup_inner.induct)
  case (1 i j xs)
  consider "j = length xs" | "j < length xs" "length (xs ! i) \<noteq> length (xs ! j)"
    | "j < length xs" "xs ! i = xs ! j" | "j < length xs" "length (xs ! i) = length (xs ! j)" "xs ! i \<noteq> xs ! j"
    using "1.prems" by linarith
  then show ?case
  proof cases
    case 1
    then show ?thesis by (subst dedup_inner.simps) simp
  next
    case 2
    have "length (xs ! i) \<le> length (xs ! k)" "length (xs ! j) \<le> length (xs ! k)" if "j \<le> k" "k < length xs" for k
      using sorted_nth_mono [OF "1.prems"(1), of i k] sorted_nth_mono [OF "1.prems"(1), of j k] "1.prems" that by auto
    moreover have "length (xs ! i) \<le> length (xs ! j)"
      using sorted_nth_mono [OF "1.prems"(1), of i j] "1.prems" 2 by auto
    ultimately have "xs ! i \<noteq> xs ! k" if "j \<le> k" "k < length xs" for k using that 2 by (metis le_antisym)
    then have "\<forall>y \<in> set (drop j xs). y \<noteq> xs ! i" by (auto simp: in_set_conv_nth) (metis le_add1 less_diff_conv add.commute)
    then have "filter (\<lambda>y. y \<noteq> xs ! i) (drop j xs) = drop j xs" by simp
    then show ?thesis using 2 by (subst dedup_inner.simps) simp
  next
    case 3
    let ?ys = "take j xs @ drop (Suc j) xs"
    have "sorted (map length (drop (Suc j) xs))" using sorted_wrt_drop [OF "1.prems"(1), of "Suc j"] by (simp add: drop_map)
    then have "sorted (map length ?ys)"
      using "1.prems"(1) set_drop_subset_set_drop [of j "Suc j" xs] by (intro sorted_replace_tail) simp_all
    moreover have "?ys ! i = xs ! i" using "1.prems" 3 by (simp add: nth_append)
    ultimately have "dedup_inner i j ?ys = take j ?ys @ filter (\<lambda>y. y \<noteq> xs ! i) (drop j ?ys)"
      using "1.IH"(1) "1.prems" 3 by simp
    also have "\<dots> = take j xs @ filter (\<lambda>y. y \<noteq> xs ! i) (drop (Suc j) xs)" using 3 by simp
    finally show ?thesis using 3 by (subst dedup_inner.simps) (simp add: Cons_nth_drop_Suc [symmetric, of j])
  next
    case 4
    then have "dedup_inner i j xs = dedup_inner i (Suc j) xs" by (subst dedup_inner.simps) simp
    also have "\<dots> = take (Suc j) xs @ filter (\<lambda>y. y \<noteq> xs ! i) (drop (Suc j) xs)" using "1.IH"(2) "1.prems" 4 by simp
    finally show ?thesis using 4 by (simp add: take_Suc_conv_app_nth Cons_nth_drop_Suc [symmetric, of j])
  qed
qed

lemma dedup_outer_sorted:
  assumes "sorted (map length xs)"
  shows "dedup_outer i xs = take i xs @ keep_first (drop i xs)"
  using assms
proof (induction i xs rule: dedup_outer.induct)
  case (1 i xs)
  show ?case
  proof (cases "i < length xs - 1")
    case True
    then have i: "i < length xs" by simp
    let ?x = "xs ! i" and ?ys = "take (Suc i) xs @ filter (\<lambda>y. y \<noteq> xs ! i) (drop (Suc i) xs)"
    have step: "dedup_inner i (Suc i) xs = ?ys" using dedup_inner_sorted [OF "1.prems"] i by simp
    have "sorted (map length (drop (Suc i) xs))" using sorted_wrt_drop [OF "1.prems", of "Suc i"] by (simp add: drop_map)
    then have "sorted (map length ?ys)" using "1.prems" by (intro sorted_replace_tail sorted_filter) auto
    then have "dedup_outer i xs = take (Suc i) ?ys @ keep_first (drop (Suc i) ?ys)"
      using "1.IH" True step by (subst dedup_outer.simps) simp
    then show ?thesis using i by (simp add: keep_first_filter take_Suc_conv_app_nth Cons_nth_drop_Suc [symmetric])
  next
    case False
    then have "length (drop i xs) \<le> 1" by simp
    then have "keep_first (drop i xs) = drop i xs" by (cases "drop i xs") auto
    then show ?thesis using False by (subst dedup_outer.simps) simp
  qed
qed

text \<open>
  C16: \<open>dedup_extras\<close> on a dictionary that is sorted by length keeps exactly the first occurrence of every
  token: no token is lost, none occurs twice, and the list stays sorted.
\<close>

theorem dedup_extras_exact:
  assumes "sorted (map length (extras d))"
  shows "dedup_extras d = d\<lparr>extras := keep_first (extras d)\<rparr> \<and> distinct (extras (dedup_extras d)) \<and>
    set (extras (dedup_extras d)) = set (extras d) \<and> sorted (map length (extras (dedup_extras d)))"
proof -
  have "dedup_extras d = d\<lparr>extras := keep_first (extras d)\<rparr>"
  proof (cases "length (extras d) < 2")
    case True
    then have "keep_first (extras d) = extras d" by (cases "extras d"; cases "tl (extras d)") auto
    then show ?thesis using True by (simp add: dedup_extras_def)
  next
    case False
    then show ?thesis using dedup_outer_sorted [OF assms, of 0] by (simp add: dedup_extras_def)
  qed
  then show ?thesis using sorted_keep_first [OF assms] by (simp add: distinct_keep_first set_keep_first)
qed

theorem dedup_extras_exact_witness:
  "extras (dedup_extras (dict_zero\<lparr>extras := [[1], [2], [1], [1], [3, 4], [3, 5], [3, 4]]\<rparr>)) = [[1], [2], [3, 4], [3, 5]]"
  using dedup_extras_exact [of "dict_zero\<lparr>extras := [[1], [2], [1], [1], [3, 4], [3, 5], [3, 4]]\<rparr>"] by simp

section \<open>Wide characters\<close>

text \<open>A token written with \<open>k\<close> bytes per character, the character in byte \<open>r\<close> of each group.\<close>

definition widen :: "nat \<Rightarrow> nat \<Rightarrow> bytes \<Rightarrow> bytes" where
  "widen k r t = concat (map (\<lambda>b. (replicate k 0)[r := b]) t)"

lemma length_widen [simp]: "length (widen k r t) = k * length t"
  by (induction t) (simp_all add: widen_def)

lemma nth_widen:
  assumes "r < k" and "j < k * length t"
  shows "widen k r t ! j = (if j mod k = r then t ! (j div k) else 0)"
  using assms(2)
proof (induction t arbitrary: j)
  case (Cons b t)
  have w: "widen k r (b # t) = (replicate k 0)[r := b] @ widen k r t" by (simp add: widen_def)
  show ?case
  proof (cases "j < k")
    case True
    then show ?thesis using assms(1) by (auto simp: w nth_append nth_list_update)
  next
    case False
    then have "j - k < k * length t" using Cons.prems by simp
    with Cons.IH [of "j - k"] False assms(1) show ?thesis
      by (simp add: w nth_append le_mod_geq le_div_geq)
  qed
qed simp

lemma upt_block: "[0..<m * Suc n] = [0..<m * n] @ map (\<lambda>i. m * n + i) [0..<m]"
  using upt_add_eq_append [of 0 "m * n" m] map_add_upt [of "m * n" m] by (simp add: add.commute)

lemma filter_mod_upt:
  assumes "0 < m"
  shows "length (filter (\<lambda>j. Q (j mod m)) [0..<m * n]) = n * length (filter Q [0..<m])"
proof (induction n)
  case (Suc n)
  have "length (filter (\<lambda>j. Q (j mod m)) (map (\<lambda>i. m * n + i) [0..<m])) = length (filter Q [0..<m])"
    by (simp add: filter_map comp_def) (rule arg_cong [of _ _ length], rule filter_cong, auto)
  then show ?case using Suc by (simp only: upt_block) simp
qed simp

lemma zeros_at_widen:
  assumes "r < k" and "\<forall>b \<in> set t. b \<noteq> 0" and "\<And>j. P j \<longleftrightarrow> Q (j mod k)"
  shows "zeros_at P (widen k r t) = length t * length (filter (\<lambda>i. Q i \<and> i \<noteq> r) [0..<k])"
proof -
  have "(P j \<and> widen k r t ! j = 0) \<longleftrightarrow> (Q (j mod k) \<and> j mod k \<noteq> r)" if "j \<in> set [0..<k * length t]" for j
  proof -
    have "j < k * length t" using that by simp
    moreover have "j div k < length t" using \<open>j < k * length t\<close> by (simp add: less_mult_imp_div_less mult.commute)
    ultimately show ?thesis using nth_widen [OF assms(1)] assms(2,3) by (auto simp: in_set_conv_nth)
  qed
  then have "filter (\<lambda>j. P j \<and> widen k r t ! j = 0) [0..<k * length t] = filter (\<lambda>j. Q (j mod k) \<and> j mod k \<noteq> r) [0..<k * length t]"
    by (rule filter_cong [OF refl])
  then show ?thesis using filter_mod_upt [of k "\<lambda>i. Q i \<and> i \<noteq> r" "length t"] assms(1) by (simp add: zeros_at_def)
qed

lemma filter_mod_eq:
  assumes "r < m"
  shows "filter (\<lambda>j. j mod m = r) [0..<m * n] = map (\<lambda>i. m * i + r) [0..<n]"
proof (induction n)
  case (Suc n)
  have "filter (\<lambda>i. i mod m = r) [0..<m] = [r]"
  proof -
    have "filter (\<lambda>i. i mod m = r) [0..<m] = filter (\<lambda>i. i = r) [0..<m]" by (rule filter_cong) auto
    moreover have "filter (\<lambda>i. i = r) [0..<m] = [r]" using assms by (induction m) (auto simp: less_Suc_eq)
    ultimately show ?thesis by simp
  qed
  then show ?case using Suc by (simp only: upt_block) (simp add: filter_map comp_def)
qed simp

lemma pick_at_widen:
  assumes "r < k"
  shows "pick_at k r (widen k r t) = t"
proof -
  have "pick_at k r (widen k r t) = map (\<lambda>i. widen k r t ! (k * i + r)) [0..<length t]"
    by (simp add: pick_at_def filter_mod_eq [OF assms] comp_def)
  also have "\<dots> = map ((!) t) [0..<length t]"
  proof (rule map_cong [OF refl])
    fix i assume "i \<in> set [0..<length t]"
    then have "k * i + r < k * Suc i" "Suc i \<le> length t" using assms by simp_all
    moreover from this(2) have "k * Suc i \<le> k * length t" by (rule mult_le_mono2)
    ultimately have "k * i + r < k * length t" by linarith
    then show "widen k r t ! (k * i + r) = t ! i" using nth_widen [OF assms] assms by simp
  qed
  finally show ?thesis by (simp add: map_nth)
qed

definition wide_form :: "bytes \<Rightarrow> bytes set" where
  "wide_form t = (if 3 \<le> length t \<and> length t \<le> 32 then {widen 2 0 t, widen 2 1 t} else {}) \<union>
     (if 3 \<le> length t \<and> length t \<le> 16 then {widen 4 0 t, widen 4 1 t, widen 4 2 t, widen 4 3 t} else {})"

lemma filter_upt_numerals: "[0..<2] = [0, 1 :: nat]" "[0..<4] = [0, 1, 2, 3 :: nat]"
  by (simp_all add: upt_conv_Cons)

lemma zeros_widen2:
  assumes "r < 2" and "\<forall>b \<in> set t. b \<noteq> 0"
  shows "zeros_at (\<lambda>j. j mod 4 = 0 \<or> j mod 4 = 2) (widen 2 r t) = (if r = 0 then 0 else length t)"
    and "zeros_at (\<lambda>j. j mod 4 = 1 \<or> j mod 4 = 3) (widen 2 r t) = (if r = 0 then length t else 0)"
proof -
  have e: "(j mod 4 = 0 \<or> j mod 4 = 2) \<longleftrightarrow> j mod 2 = 0" "(j mod 4 = 1 \<or> j mod 4 = 3) \<longleftrightarrow> j mod 2 = 1" for j :: nat
    by presburger+
  show "zeros_at (\<lambda>j. j mod 4 = 0 \<or> j mod 4 = 2) (widen 2 r t) = (if r = 0 then 0 else length t)"
    using zeros_at_widen [OF assms, of "\<lambda>j. j mod 4 = 0 \<or> j mod 4 = 2" "\<lambda>i. i = 0"] e(1) assms(1) by (auto simp: filter_upt_numerals)
  show "zeros_at (\<lambda>j. j mod 4 = 1 \<or> j mod 4 = 3) (widen 2 r t) = (if r = 0 then length t else 0)"
    using zeros_at_widen [OF assms, of "\<lambda>j. j mod 4 = 1 \<or> j mod 4 = 3" "\<lambda>i. i = 1"] e(2) assms(1) by (auto simp: filter_upt_numerals)
qed

lemma deunicode_widen2:
  assumes "r < 2" and "\<forall>b \<in> set t. b \<noteq> 0" and "3 \<le> length t" and "length t \<le> 32"
  shows "t \<in> set (extras (deunicode_one (widen 2 r t) d))"
proof -
  have "r = 0 \<or> r = 1" using assms(1) by linarith
  moreover have "pick_at 2 r (widen 2 r t) = t" using pick_at_widen [OF assms(1)] .
  moreover have "\<not> 2 * length t < 6" "\<not> 64 < 2 * length t" "t \<noteq> []" using assms(3,4) by auto
  ultimately show ?thesis unfolding deunicode_one_def Let_def zeros_widen2 [OF assms(1,2)] length_widen add_extra_nocheck_def
    by (elim disjE) simp_all
qed

lemma zeros_widen4:
  assumes "r < 4" and "\<forall>b \<in> set t. b \<noteq> 0"
  shows "zeros_at (\<lambda>j. j mod 4 = 0 \<or> j mod 4 = 2) (widen 4 r t) = length t * (if r = 0 \<or> r = 2 then 1 else 2)"
    and "zeros_at (\<lambda>j. j mod 4 = 1 \<or> j mod 4 = 3) (widen 4 r t) = length t * (if r = 1 \<or> r = 3 then 1 else 2)"
    and "zeros_at (\<lambda>j. j mod 4 = 2) (widen 4 r t) = length t * (if r = 2 then 0 else 1)"
    and "zeros_at (\<lambda>j. j mod 4 = 3) (widen 4 r t) = length t * (if r = 3 then 0 else 1)"
proof -
  have z: "zeros_at (\<lambda>j. Q (j mod 4)) (widen 4 r t) = length t * length (filter (\<lambda>i. Q i \<and> i \<noteq> r) [0..<4])" for Q
    by (rule zeros_at_widen [OF assms refl])
  have r: "r = 0 \<or> r = 1 \<or> r = 2 \<or> r = 3" using assms(1) by linarith
  show "zeros_at (\<lambda>j. j mod 4 = 0 \<or> j mod 4 = 2) (widen 4 r t) = length t * (if r = 0 \<or> r = 2 then 1 else 2)"
    using z [of "\<lambda>i. i = 0 \<or> i = 2"] r by (auto simp: filter_upt_numerals)
  show "zeros_at (\<lambda>j. j mod 4 = 1 \<or> j mod 4 = 3) (widen 4 r t) = length t * (if r = 1 \<or> r = 3 then 1 else 2)"
    using z [of "\<lambda>i. i = 1 \<or> i = 3"] r by (auto simp: filter_upt_numerals)
  show "zeros_at (\<lambda>j. j mod 4 = 2) (widen 4 r t) = length t * (if r = 2 then 0 else 1)"
    using z [of "\<lambda>i. i = 2"] r by (auto simp: filter_upt_numerals)
  show "zeros_at (\<lambda>j. j mod 4 = 3) (widen 4 r t) = length t * (if r = 3 then 0 else 1)"
    using z [of "\<lambda>i. i = 3"] r by (auto simp: filter_upt_numerals)
qed

lemma deunicode_widen4:
  assumes "r < 4" and "\<forall>b \<in> set t. b \<noteq> 0" and "3 \<le> length t" and "length t \<le> 16"
  shows "t \<in> set (extras (deunicode_one (widen 4 r t) d))"
proof -
  have "r = 0 \<or> r = 1 \<or> r = 2 \<or> r = 3" using assms(1) by linarith
  moreover have "pick_at 4 r (widen 4 r t) = t" using pick_at_widen [OF assms(1)] .
  moreover have "\<not> 4 * length t < 6" "\<not> 64 < 4 * length t" "12 \<le> 4 * length t" "0 < length t" using assms(3,4) by linarith+
  ultimately show ?thesis unfolding deunicode_one_def Let_def zeros_widen4 [OF assms(1,2)] length_widen add_extra_nocheck_def
    by (elim disjE) simp_all
qed

section \<open>The user's dictionary\<close>

definition short_tokens :: "bytes list \<Rightarrow> bool" where
  "short_tokens xs \<longleftrightarrow> (\<forall>e \<in> set xs. length e \<le> MAX_DICT_FILE)"

definition extras_ok :: "dictionary \<Rightarrow> bool" where
  "extras_ok d \<longleftrightarrow> sorted (map length (extras d)) \<and> short_tokens (extras d)"

lemma sort_short:
  assumes "libc_ok c" and "short_tokens xs"
  shows "mset (qsort_extras c compare_extras_len xs) = mset xs"
    and "extras_ok (d\<lparr>extras := qsort_extras c compare_extras_len xs\<rparr>)"
    and "set (qsort_extras c compare_extras_len xs) = set xs"
proof -
  have l: "\<forall>e \<in> set xs. length e < 2 ^ 31" using assms(2) by (auto simp: short_tokens_def MAX_DICT_FILE_def)
  show "mset (qsort_extras c compare_extras_len xs) = mset xs" by (rule sort_extras(1) [OF assms(1) l])
  show s: "set (qsort_extras c compare_extras_len xs) = set xs" by (rule sort_extras(3) [OF assms(1) l])
  show "extras_ok (d\<lparr>extras := qsort_extras c compare_extras_len xs\<rparr>)"
    using sort_extras(2) [OF assms(1) l] assms(2) by (simp add: extras_ok_def short_tokens_def s)
qed

lemma load_line_short:
  assumes "load_line dict_level buf s = Inr t" and "short_tokens (extras (fst s))"
  shows "short_tokens (extras (fst t)) \<and> set (extras (fst s)) \<subseteq> set (extras (fst t))"
proof -
  obtain d lo hi where s: "s = (d, lo, hi)" by (cases s)
  obtain r where r: "parse_line dict_level buf = Inr r" using assms(1) s by (auto simp: load_line_def rbind_eq_Inr_iff)
  show ?thesis using assms s r by (cases r) (auto simp: load_line_def short_tokens_def split: if_splits)
qed

lemma load_dir_entry_short:
  assumes "load_dir_entry e s = Inr t" and "short_tokens (extras (fst s))"
  shows "short_tokens (extras (fst t)) \<and> set (extras (fst s)) \<subseteq> set (extras (fst t))"
  using assms by (cases s) (auto simp: load_dir_entry_def short_tokens_def split: option.splits if_splits)

lemma rfold_short:
  assumes "rfold f is s = Inr t" and "short_tokens (extras (fst s))"
    and "\<And>i s t. f i s = Inr t \<Longrightarrow> short_tokens (extras (fst s)) \<Longrightarrow> short_tokens (extras (fst t)) \<and> set (extras (fst s)) \<subseteq> set (extras (fst t))"
  shows "short_tokens (extras (fst t)) \<and> set (extras (fst s)) \<subseteq> set (extras (fst t))"
  by (rule rfold_invariant [where P = "\<lambda>t. short_tokens (extras (fst t)) \<and> set (extras (fst s)) \<subseteq> set (extras (fst t))", OF assms(1)])
    (use assms(2,3) in blast)+

lemma check_and_sort_ok:
  assumes "libc_ok c" and "short_tokens (extras d)"
  shows "extras_ok (extras_check_and_sort c d) \<and> set (extras (extras_check_and_sort c d)) = set (extras d)"
  using sort_short [OF assms] assms(2) by (auto simp: extras_check_and_sort_def extras_ok_def short_tokens_def)

lemma load_extras_ok:
  assumes "libc_ok c" and "short_tokens (extras d)" and "load_extras c fs dir d = Inr d'"
  shows "extras_ok d' \<and> set (extras d) \<subseteq> set (extras d')"
proof -
  let ?path = "takeWhile (\<lambda>x. x \<noteq> 64) dir"
  obtain t where t: "(\<exists>lvl content. load_extras_file content lvl (d, MAX_DICT_FILE, 0) = Inr t) \<or>
      (\<exists>es. rfold load_dir_entry es (d, MAX_DICT_FILE, 0) = Inr t)" and d': "d' = extras_check_and_sort c (fst t)"
  proof (cases "fs ?path")
    case (Directory es)
    then obtain t where "rfold load_dir_entry es (d, MAX_DICT_FILE, 0) = Inr t" "d' = extras_check_and_sort c (fst t)"
      using assms(3) unfolding load_extras_def by (auto simp: Let_def rbind_eq_Inr_iff split_beta split: if_splits)
    then show ?thesis using that by blast
  next
    case (NotDirectory content)
    then obtain t lvl where "load_extras_file content lvl (d, MAX_DICT_FILE, 0) = Inr t" "d' = extras_check_and_sort c (fst t)"
      using assms(3) unfolding load_extras_def by (auto simp: Let_def rbind_eq_Inr_iff split_beta)
    then show ?thesis using that by blast
  next
    case Failed
    then show ?thesis using assms(3) unfolding load_extras_def by (auto simp: Let_def rbind_eq_Inr_iff)
  qed
  from t have "short_tokens (extras (fst t)) \<and> set (extras d) \<subseteq> set (extras (fst t))"
  proof (elim disjE exE)
    fix lvl content assume "load_extras_file content lvl (d, MAX_DICT_FILE, 0) = Inr t"
    then obtain f where "rfold (load_line lvl) (fgets_lines f) (d, MAX_DICT_FILE, 0) = Inr t"
      by (auto simp: load_extras_file_def split: option.splits)
    from rfold_short [OF this _ load_line_short] assms(2) show ?thesis by simp
  next
    fix es assume "rfold load_dir_entry es (d, MAX_DICT_FILE, 0) = Inr t"
    from rfold_short [OF this _ load_dir_entry_short] assms(2) show ?thesis by simp
  qed
  then show ?thesis using check_and_sort_ok [OF assms(1)] d' by auto
qed

lemma extra_listed_sorted:
  assumes "sorted (map length xs)" and "found \<longrightarrow> (\<forall>e \<in> set xs. length mem \<le> length e)"
  shows "extra_listed mem found xs \<longleftrightarrow> mem \<in> set xs"
  using assms
proof (induction xs arbitrary: found)
  case (Cons e es)
  show ?case
  proof (cases "length e = length mem")
    case True
    then have "extra_listed mem True es \<longleftrightarrow> mem \<in> set es" using Cons by simp
    then show ?thesis using True by auto
  next
    case False
    have "mem \<notin> set es" if found using Cons.prems that False by fastforce
    then show ?thesis using False Cons.IH [of False] Cons.prems by auto
  qed
qed simp

lemma deunicode_one_extends: "\<exists>ys. extras (deunicode_one t d) = extras d @ ys \<and> (\<forall>y \<in> set ys. length y \<le> length t)"
proof -
  have p: "length (pick_at m r t) \<le> length t" for m r by (simp add: pick_at_def) (metis length_filter_le length_upt diff_zero)
  show ?thesis unfolding deunicode_one_def Let_def add_extra_nocheck_def using p by (auto split: if_splits)
qed

lemma deunicode_fold:
  "\<exists>ys. extras (fold deunicode_one ts d) = extras d @ ys \<and> (\<forall>y \<in> set ys. \<exists>t \<in> set ts. length y \<le> length t) \<and>
     (\<forall>t \<in> set ts. \<exists>d'. set (extras (deunicode_one t d')) \<subseteq> set (extras (fold deunicode_one ts d)))"
proof (induction ts arbitrary: d)
  case (Cons t ts)
  obtain ys where ys: "extras (deunicode_one t d) = extras d @ ys" "\<forall>y \<in> set ys. length y \<le> length t"
    using deunicode_one_extends by blast
  obtain zs where zs: "extras (fold deunicode_one ts (deunicode_one t d)) = extras (deunicode_one t d) @ zs"
    "\<forall>z \<in> set zs. \<exists>t \<in> set ts. length z \<le> length t"
    "\<forall>u \<in> set ts. \<exists>d'. set (extras (deunicode_one u d')) \<subseteq> set (extras (fold deunicode_one ts (deunicode_one t d)))"
    using Cons.IH by blast
  have "\<exists>d'. set (extras (deunicode_one u d')) \<subseteq> set (extras (fold deunicode_one ts (deunicode_one t d)))" if "u \<in> set (t # ts)" for u
  proof (cases "u = t")
    case True
    then show ?thesis using zs(1) by (intro exI [of _ d]) simp
  next
    case False
    then show ?thesis using that zs(3) by simp
  qed
  then show ?case using ys zs by (intro exI [of _ "ys @ zs"]) auto
qed simp

lemma deunicode_ok:
  assumes "libc_ok c" and "extras_ok d"
  shows "extras_ok (deunicode_extras c d)" and "set (extras d) \<subseteq> set (extras (deunicode_extras c d))"
    and "u \<in> set (extras d) \<Longrightarrow> \<exists>d'. set (extras (deunicode_one u d')) \<subseteq> set (extras (deunicode_extras c d))"
proof -
  let ?f = "fold deunicode_one (extras d) d"
  obtain ys where ys: "extras ?f = extras d @ ys" "\<forall>y \<in> set ys. \<exists>t \<in> set (extras d). length y \<le> length t"
    and dec: "\<forall>t \<in> set (extras d). \<exists>d'. set (extras (deunicode_one t d')) \<subseteq> set (extras ?f)"
    using deunicode_fold by blast
  have "short_tokens (extras ?f)" using assms(2) ys by (force simp: extras_ok_def short_tokens_def)
  note st = sort_short [OF assms(1) this]
  show "extras_ok (deunicode_extras c d)" using st(2) assms(2) by (simp add: deunicode_extras_def Let_def)
  show "set (extras d) \<subseteq> set (extras (deunicode_extras c d))" using st(3) ys(1) by (simp add: deunicode_extras_def Let_def)
  show "\<exists>d'. set (extras (deunicode_one u d')) \<subseteq> set (extras (deunicode_extras c d))" if "u \<in> set (extras d)"
    using dec that st(3) by (auto simp: deunicode_extras_def Let_def)
qed

text \<open>
  C15: The user's dictionary stays sorted by length with no token longer than \<open>MAX_DICT_FILE\<close>, whatever is
  loaded or added; loading and decoding wide characters lose no token, and \<open>add_extra\<close> adds a
  token exactly when it is short enough and not yet there.
\<close>

theorem extras_stay_sorted:
  assumes "libc_ok c" and "extras_ok d"
  shows "(load_extras c fs dir d = Inr d' \<longrightarrow> extras_ok d' \<and> set (extras d) \<subseteq> set (extras d')) \<and>
    extras_ok (deunicode_extras c d) \<and> set (extras d) \<subseteq> set (extras (deunicode_extras c d)) \<and>
    extras_ok (dedup_extras d) \<and> extras_ok (add_extra c mem d) \<and>
    mset (extras (add_extra c mem d)) =
      mset (extras d) + (if mem \<in> set (extras d) \<or> MAX_DICT_FILE < length mem then {#} else {#mem#})"
proof (intro conjI impI)
  have short: "short_tokens (extras d)" and sorted: "sorted (map length (extras d))" using assms(2) by (simp_all add: extras_ok_def)
  show "extras_ok d'" "set (extras d) \<subseteq> set (extras d')" if "load_extras c fs dir d = Inr d'"
    using load_extras_ok [OF assms(1) short that] by simp_all
  show "extras_ok (deunicode_extras c d)" "set (extras d) \<subseteq> set (extras (deunicode_extras c d))"
    using deunicode_ok [OF assms] by simp_all
  show "extras_ok (dedup_extras d)"
    using sorted_keep_first [OF sorted] short dedup_outer_sorted [OF sorted, of 0] assms(2)
    by (simp add: dedup_extras_def extras_ok_def short_tokens_def set_keep_first)
  note listed = extra_listed_sorted [OF sorted, of False mem]
  show "extras_ok (add_extra c mem d)" and "mset (extras (add_extra c mem d)) =
      mset (extras d) + (if mem \<in> set (extras d) \<or> MAX_DICT_FILE < length mem then {#} else {#mem#})"
  proof (atomize (full), cases "mem \<in> set (extras d) \<or> MAX_DICT_FILE < length mem")
    case True
    then show "extras_ok (add_extra c mem d) \<and> mset (extras (add_extra c mem d)) =
      mset (extras d) + (if mem \<in> set (extras d) \<or> MAX_DICT_FILE < length mem then {#} else {#mem#})"
      using listed assms(2) by (auto simp: add_extra_def)
  next
    case False
    then have "short_tokens (extras d @ [mem])" using short by (auto simp: short_tokens_def)
    from sort_short [OF assms(1) this] False listed
    show "extras_ok (add_extra c mem d) \<and> mset (extras (add_extra c mem d)) =
      mset (extras d) + (if mem \<in> set (extras d) \<or> MAX_DICT_FILE < length mem then {#} else {#mem#})"
      by (simp add: add_extra_def add_extra_nocheck_def)
  qed
qed

theorem extras_stay_sorted_witness:
  "extras_ok (add_extra glibc [7] (dict_zero\<lparr>extras := [[1], [2, 3]]\<rparr>)) \<and>
   mset (extras (add_extra glibc [7] (dict_zero\<lparr>extras := [[1], [2, 3]]\<rparr>))) = {#[1], [2, 3], [7]#}"
  using extras_stay_sorted [OF glibc_ok, of "dict_zero\<lparr>extras := [[1], [2, 3]]\<rparr>" "\<lambda>_. Failed" "[]" dict_zero "[7]"]
  by (simp add: extras_ok_def short_tokens_def dict_sizes)

text \<open>
  Wide characters. When the dictionary has a token in UTF-16 or UTF-32 style, in either byte order,
  with a single byte per character and of a length that is considered, \<open>deunicode_extras\<close> adds the narrow token.
\<close>

theorem deunicode_extras_decodes:
  assumes "libc_ok c" and "extras_ok d" and "\<forall>b \<in> set t. b \<noteq> 0" and "u \<in> wide_form t" and "u \<in> set (extras d)"
  shows "t \<in> set (extras (deunicode_extras c d))"
proof -
  have "t \<in> set (extras (deunicode_one u d'))" for d'
    using assms(4) deunicode_widen2 [OF _ assms(3), of _ d'] deunicode_widen4 [OF _ assms(3), of _ d']
    by (auto simp: wide_form_def split: if_splits)
  then show ?thesis using deunicode_ok(3) [OF assms(1,2,5)] by blast
qed

theorem deunicode_extras_decodes_witness:
  "[65, 66, 67] \<in> set (extras (deunicode_extras glibc (dict_zero\<lparr>extras := [[0, 0, 0, 65, 0, 0, 0, 66, 0, 0, 0, 67]]\<rparr>)))"
proof -
  have w: "widen 4 3 [65, 66, 67] = [0, 0, 0, 65, 0, 0, 0, 66, 0, 0, 0, 67]" by code_simp
  show ?thesis
    using deunicode_extras_decodes [OF glibc_ok, of "dict_zero\<lparr>extras := [[0, 0, 0, 65, 0, 0, 0, 66, 0, 0, 0, 67]]\<rparr>" "[65, 66, 67]" "widen 4 3 [65, 66, 67]"]
    by (simp add: extras_ok_def short_tokens_def dict_sizes wide_form_def w)
qed

section \<open>Labels\<close>

text \<open>A label may contain an underscore but no dash, although the comment in the code speaks of dashes.\<close>

lemma dashes_rejected:
  "parse_line 0 [107, 45, 49, 61, 34, 65, 34, 10] = Inr None" "parse_line 0 [107, 95, 49, 61, 34, 65, 34, 10] = Inr (Some [65])"
  by code_simp+

end
