(* ===== verification/Auto_Extras.thy ===== *)
theory Auto_Extras
  imports Extras
begin

text \<open>
  The automatic tokens of src/afl-fuzz-extras.c, which are found while fuzzing: \<open>maybe_add_auto\<close> decides
  whether a token is taken and keeps the list of tokens in order, \<open>save_auto\<close> and \<open>load_auto\<close> carry the tokens in use
  over a restart.
\<close>

section \<open>Automatic tokens\<close>

definition identical_run :: "bytes \<Rightarrow> bool" where
  "identical_run mem \<longleftrightarrow> mem \<noteq> [] \<and> (\<forall>b \<in> set (tl mem). b = hd mem)"

text \<open>
  The 16-bit values are compared after promotion to \<open>int\<close>, so a negative one never equals the unsigned token;
  the 32-bit values are converted to \<open>u32\<close> first.
\<close>

definition builtin_token :: "bytes \<Rightarrow> bool" where
  "builtin_token mem \<longleftrightarrow>
     length mem = 2 \<and> (\<exists>v \<in> set interesting_16. uint (load_le mem :: u16) = v \<or>
       ucast (load_le mem :: u16) = SWAP16 (word_of_int v)) \<or>
     length mem = 4 \<and> (\<exists>v \<in> set interesting_32. (load_le mem :: u32) = word_of_int v \<or> load_le mem = SWAP32 (word_of_int v))"

definition memcmp_nocase :: "bytes \<Rightarrow> bytes \<Rightarrow> bool" where
  "memcmp_nocase m1 m2 \<longleftrightarrow> map tolower m1 \<noteq> map tolower m2"

definition matches_extra :: "bytes \<Rightarrow> bytes list \<Rightarrow> bool" where
  "matches_extra mem xs \<longleftrightarrow>
     (\<exists>e \<in> set (takeWhile (\<lambda>e. length e = length mem) (dropWhile (\<lambda>e. length e < length mem) xs)). \<not> memcmp_nocase e mem)"

fun find_auto :: "bytes \<Rightarrow> auto_extra_data list \<Rightarrow> nat option" where
  "find_auto mem [] = None"
| "find_auto mem (e # es) =
     (if length (ae_data e) = length mem \<and> \<not> memcmp_nocase (ae_data e) mem then Some 0
      else map_option Suc (find_auto mem es))"

definition sort_a_extras :: "libc \<Rightarrow> dictionary \<Rightarrow> dictionary" where
  "sort_a_extras c d =
     (let xs = qsort_autos c compare_auto_extras_use_d (a_extras d); n = min USE_AUTO_EXTRAS (length xs)
      in d\<lparr>a_extras := qsort_autos c compare_auto_extras_len (take n xs) @ drop n xs\<rparr>)"

definition maybe_add_auto ::
  "libc \<Rightarrow> nat \<Rightarrow> (u64 \<times> u64 \<times> u64) res \<Rightarrow> bytes \<Rightarrow> dictionary \<Rightarrow> afl_state \<Rightarrow> (dictionary \<times> afl_state) option res" where
  "maybe_add_auto c fuel urandom mem d a =
     (if identical_run mem \<or> MAX_AUTO_EXTRA < length mem then Inr (Some (d, a))
      else if builtin_token mem then Inr (Some (d, a))
      else if matches_extra mem (extras d) then Inr (Some (d, a))
      else
        let d = d\<lparr>auto_changed := True\<rparr>; xs = a_extras d
        in case find_auto mem xs of
             Some i \<Rightarrow> Inr (Some (sort_a_extras c (d\<lparr>a_extras := xs[i := (xs ! i)\<lparr>ae_hit_cnt := ae_hit_cnt (xs ! i) + 1\<rparr>]\<rparr>), a))
           | None \<Rightarrow>
               if length xs < MAX_AUTO_EXTRAS
               then Inr (Some (sort_a_extras c (d\<lparr>a_extras := xs @ [\<lparr>ae_data = mem, ae_hit_cnt = 0\<rparr>]\<rparr>), a))
               else rbind (rand_below fuel urandom (word_of_nat ((MAX_AUTO_EXTRAS + 1) div 2)) a) (\<lambda>r.
                      case r of
                        None \<Rightarrow> Inr None
                      | Some (v, a) \<Rightarrow>
                          Inr (Some (sort_a_extras c (d\<lparr>a_extras :=
                            xs[MAX_AUTO_EXTRAS div 2 + unat v := \<lparr>ae_data = mem, ae_hit_cnt = 0\<rparr>]\<rparr>), a))))"

definition auto_name :: "string \<Rightarrow> nat \<Rightarrow> string" where
  "auto_name dir i = dir @ ''/.state/auto_extras/auto_'' @ dec06 i"

definition save_one_auto :: "outside \<Rightarrow> nat \<times> auto_extra_data \<Rightarrow> afl_state option \<Rightarrow> afl_state option res" where
  "save_one_auto w = (\<lambda>(i, e) r.
     case r of
       None \<Rightarrow> Inr None
     | Some a \<Rightarrow>
         let fn = auto_name (out_dir a @ ''/queue'') i
         in if \<not> o_create w fn then Inl (PFATAL ''Unable to create'')
            else if o_chown w = Some False then Inl (PFATAL ''fchown() failed'')
            else case ck_write (o_write w fn (length (ae_data e))) (ae_data e) of
                   None \<Rightarrow> Inr None
                 | Some bs \<Rightarrow> Inr (Some (a\<lparr>disk := disk a @ [(fn, bs)]\<rparr>)))"

definition save_auto :: "outside \<Rightarrow> dictionary \<Rightarrow> afl_state \<Rightarrow> (dictionary \<times> afl_state) option res" where
  "save_auto w d a =
     (if \<not> auto_changed d then Inr (Some (d, a))
      else let d = d\<lparr>auto_changed := False\<rparr>; n = min USE_AUTO_EXTRAS (length (a_extras d))
           in rbind (rfold (save_one_auto w) (zip [0..<n] (take n (a_extras d))) (Some a)) (\<lambda>r.
                Inr (map_option (\<lambda>a. (d, a)) r)))"

text \<open>Opening a saved token: its contents, absence (\<open>ENOENT\<close>), another error, or a failing \<open>read\<close>.\<close>

datatype saved = Content bytes | Absent | Unreadable | ReadError

fun load_auto_from ::
  "libc \<Rightarrow> nat \<Rightarrow> (u64 \<times> u64 \<times> u64) res \<Rightarrow> (string \<Rightarrow> saved) \<Rightarrow> string \<Rightarrow> nat list \<Rightarrow> dictionary \<Rightarrow> afl_state \<Rightarrow>
   (dictionary \<times> afl_state) option res" where
  "load_auto_from c fuel urandom fs in_dir [] d a = Inr (Some (d, a))"
| "load_auto_from c fuel urandom fs in_dir (i # is) d a =
     (case fs (auto_name in_dir i) of
        Absent \<Rightarrow> Inr (Some (d, a))
      | Unreadable \<Rightarrow> Inl (PFATAL ''Unable to open'')
      | ReadError \<Rightarrow> Inl (PFATAL ''Unable to read'')
      | Content bs \<Rightarrow>
          let tmp = take (MAX_AUTO_EXTRA + 1) bs
          in if MIN_AUTO_EXTRA \<le> length tmp \<and> length tmp \<le> MAX_AUTO_EXTRA
             then rbind (maybe_add_auto c fuel urandom tmp d a) (\<lambda>r.
                    case r of
                      None \<Rightarrow> Inr None
                    | Some (d, a) \<Rightarrow> load_auto_from c fuel urandom fs in_dir is d a)
             else load_auto_from c fuel urandom fs in_dir is d a)"

definition load_auto ::
  "libc \<Rightarrow> nat \<Rightarrow> (u64 \<times> u64 \<times> u64) res \<Rightarrow> (string \<Rightarrow> saved) \<Rightarrow> string \<Rightarrow> dictionary \<Rightarrow> afl_state \<Rightarrow> (dictionary \<times> afl_state) option res" where
  "load_auto c fuel urandom fs in_dir d a = load_auto_from c fuel urandom fs in_dir [0..<USE_AUTO_EXTRAS] d a"

section \<open>Which tokens are refused\<close>

text \<open>
  What the filter is meant to reject: the bytes of a built-in value, in either order.
\<close>

definition encodes_builtin :: "bytes \<Rightarrow> bool" where
  "encodes_builtin mem \<longleftrightarrow>
     (\<exists>v \<in> set interesting_16. let bs = store_le 2 (word_of_int v :: u16) in mem = bs \<or> mem = rev bs) \<or>
     (\<exists>v \<in> set interesting_32. let bs = store_le 4 (word_of_int v :: u32) in mem = bs \<or> mem = rev bs)"

lemma load_le_iff:
  assumes "LENGTH('a::len) = 8 * n" and "length mem = n"
  shows "(load_le mem :: 'a word) = w \<longleftrightarrow> mem = store_le n w"
proof
  assume "load_le mem = w"
  then show "mem = store_le n w" using store_load_le [of mem, where 'a = 'a] assms by auto
next
  assume "mem = store_le n w"
  then show "load_le mem = w" using assms by (simp add: word_eq_bytes [OF assms(1)])
qed

lemma ucast_u16: "(ucast (x :: u16) :: u32) = ucast y \<longleftrightarrow> x = y"
proof
  assume "(ucast x :: u32) = ucast y"
  then have "bit x n = bit y n" if "n < 16" for n using that by (auto simp: bit_eq_iff bit_simps)
  then show "x = y" by (intro bit_word_eqI) simp
qed simp

lemma swap16_bytes:
  assumes "length mem = 2"
  shows "ucast (load_le mem :: u16) = SWAP16 (word_of_int v) \<longleftrightarrow> mem = rev (store_le 2 (word_of_int v :: u16))"
proof -
  let ?r = "rev (store_le 2 (word_of_int v :: u16))"
  have r: "?r = [byte_of (word_of_int v :: u16) 1, byte_of (word_of_int v :: u16) 0]" by (simp add: store_le_def upt_rec)
  have "SWAP16 (word_of_int v) = ucast (load_le ?r :: u16)" unfolding r
    by (rule bit_word_eqI) (auto simp: SWAP16_def bytes_simps bit_simps nth_Cons split: nat.splits)
  then have "ucast (load_le mem :: u16) = SWAP16 (word_of_int v) \<longleftrightarrow> (load_le mem :: u16) = load_le ?r"
    by (simp only: ucast_u16)
  also have "\<dots> \<longleftrightarrow> mem = store_le 2 (load_le ?r :: u16)" using assms by (intro load_le_iff) simp_all
  also have "store_le 2 (load_le ?r :: u16) = ?r" using store_load_le [of ?r, where 'a = 16] by simp
  finally show ?thesis .
qed

lemma byte_of_SWAP32: "i < 4 \<Longrightarrow> byte_of (SWAP32 w) i = byte_of w (3 - i)"
proof -
  have m: "0x00FF0000 = push_bit 16 (mask 8 :: u32)" "0x0000FF00 = push_bit 8 (mask 8 :: u32)" by (simp_all add: mask_eq_exp_minus_1)
  have z: "\<not> bit w (32 + n)" "\<not> bit w (40 + n)" "\<not> bit w (48 + n)" for n using bit_imp_le_length [of w] by force+
  assume "i < 4"
  then consider "i = 0" | "i = 1" | "i = 2" | "i = 3" by linarith
  then show ?thesis
    unfolding SWAP32_def m by cases (auto intro!: bit_word_eqI simp: bytes_simps bit_simps simp: z)
qed

lemma swap32_bytes:
  assumes "length mem = 4"
  shows "load_le mem = SWAP32 w \<longleftrightarrow> mem = rev (store_le 4 w)"
proof -
  have "store_le 4 (SWAP32 w) = rev (store_le 4 w)"
    by (rule nth_equalityI) (simp_all add: byte_of_SWAP32 rev_nth)
  then show ?thesis using load_le_iff [of 4 mem "SWAP32 w"] assms by simp
qed

lemma builtin_token_bytes:
  "builtin_token mem \<longleftrightarrow>
     (\<exists>v \<in> set interesting_16. 0 \<le> v \<and> mem = store_le 2 (word_of_int v :: u16) \<or> mem = rev (store_le 2 (word_of_int v :: u16))) \<or>
     (\<exists>v \<in> set interesting_32. mem = store_le 4 (word_of_int v :: u32) \<or> mem = rev (store_le 4 (word_of_int v :: u32)))"
proof -
  have r: "v < 2 ^ 16" if "v \<in> set interesting_16" for v
    using that by (auto simp: interesting_16_def INTERESTING_8_def INTERESTING_16_def)
  have u: "uint (load_le mem :: u16) = v \<longleftrightarrow> 0 \<le> v \<and> mem = store_le 2 (word_of_int v :: u16)"
    if "length mem = 2" "v \<in> set interesting_16" for v
  proof -
    have "uint (load_le mem :: u16) = v \<longleftrightarrow> 0 \<le> v \<and> (load_le mem :: u16) = word_of_int v"
    proof
      assume "uint (load_le mem :: u16) = v"
      then show "0 \<le> v \<and> (load_le mem :: u16) = word_of_int v" by auto
    next
      assume a: "0 \<le> v \<and> (load_le mem :: u16) = word_of_int v"
      have "uint (word_of_int v :: u16) = v" using a r [OF that(2)] by (simp add: uint_word_of_int)
      then show "uint (load_le mem :: u16) = v" using a by simp
    qed
    then show ?thesis using load_le_iff [of 2 mem "word_of_int v :: u16"] that(1) by simp
  qed
  have two: "length mem = 2 \<and> (\<exists>v \<in> set interesting_16. uint (load_le mem :: u16) = v \<or> ucast (load_le mem :: u16) = SWAP16 (word_of_int v)) \<longleftrightarrow>
      (\<exists>v \<in> set interesting_16. 0 \<le> v \<and> mem = store_le 2 (word_of_int v :: u16) \<or> mem = rev (store_le 2 (word_of_int v :: u16)))"
    using u swap16_bytes [of mem] by (metis length_rev length_store_le)
  have four: "length mem = 4 \<and> (\<exists>v \<in> set interesting_32. (load_le mem :: u32) = word_of_int v \<or> load_le mem = SWAP32 (word_of_int v)) \<longleftrightarrow>
      (\<exists>v \<in> set interesting_32. mem = store_le 4 (word_of_int v :: u32) \<or> mem = rev (store_le 4 (word_of_int v :: u32)))"
    using load_le_iff [where 'a = 32, of 4 mem] swap32_bytes [of mem] by (cases "length mem = 4") (auto simp del: length_0_conv)
  show ?thesis unfolding builtin_token_def two four ..
qed

text \<open>
  One built-in value slips through: as a \<open>u16\<close>, -128 is promoted to a positive \<open>int\<close>. The bytes of the other
  negative values, -32768, -129 and -1, are those of 128, 32767 and -1 in the other order.
\<close>

lemma encodes_minus_128: "encodes_builtin [0x80, 0xff]" "\<not> builtin_token [0x80, 0xff]"
proof -
  have "store_le 2 (word_of_int (- 128) :: u16) = [0x80, 0xff]" "- 128 \<in> set interesting_16"
    by (simp_all add: store_le_def byte_of_def upt_rec interesting_16_def INTERESTING_8_def)
  then show "encodes_builtin [0x80, 0xff]" unfolding encodes_builtin_def Let_def by metis
  show "\<not> builtin_token [0x80, 0xff]" by code_simp
qed

lemma builtin_token_iff: "builtin_token mem \<longleftrightarrow> encodes_builtin mem \<and> mem \<noteq> [0x80, 0xff]"
proof -
  have neg: "mem = [0x80, 0xff] \<or> (\<exists>u \<in> set interesting_16. 0 \<le> u \<and> mem = store_le 2 (word_of_int u :: u16) \<or> mem = rev (store_le 2 (word_of_int u :: u16)))"
    if "v \<in> set interesting_16" "v < 0" "mem = store_le 2 (word_of_int v :: u16)" for v
  proof -
    have "v \<in> {- 32768, - 129, - 128, - 1}" using that by (auto simp: interesting_16_def INTERESTING_8_def INTERESTING_16_def)
    moreover have "store_le 2 (word_of_int (- 32768) :: u16) = rev (store_le 2 (word_of_int 128 :: u16))"
      "store_le 2 (word_of_int (- 129) :: u16) = rev (store_le 2 (word_of_int 32767 :: u16))"
      "store_le 2 (word_of_int (- 128) :: u16) = [0x80, 0xff]"
      "store_le 2 (word_of_int (- 1) :: u16) = rev (store_le 2 (word_of_int (- 1) :: u16))" by code_simp+
    ultimately have "mem \<in> {[0x80, 0xff], rev (store_le 2 (word_of_int 128 :: u16)), rev (store_le 2 (word_of_int 32767 :: u16)), rev (store_le 2 (word_of_int (- 1) :: u16))}"
      using that(3) by (elim insertE emptyE) (simp_all only: insert_iff simp_thms)
    moreover have "128 \<in> set interesting_16" "32767 \<in> set interesting_16" "- 1 \<in> set interesting_16"
      by (simp_all add: interesting_16_def INTERESTING_8_def INTERESTING_16_def)
    ultimately show ?thesis by blast
  qed
  have "builtin_token mem \<Longrightarrow> encodes_builtin mem" unfolding builtin_token_bytes encodes_builtin_def Let_def by blast
  moreover have "builtin_token mem \<or> mem = [0x80, 0xff]" if "encodes_builtin mem"
    using that neg unfolding builtin_token_bytes encodes_builtin_def Let_def by (meson not_le)
  ultimately show ?thesis using encodes_minus_128(2) by metis
qed

text \<open>The search in the user's dictionary may stop early because the dictionary is sorted by length.\<close>

lemma takeWhile_dropWhile_sorted:
  "sorted (map f xs) \<Longrightarrow> set (takeWhile (\<lambda>e. f e = n) (dropWhile (\<lambda>e. f e < n) xs)) = {e \<in> set xs. f e = (n :: nat)}"
proof (induction xs)
  case (Cons x xs)
  show ?case
  proof (cases "f x < n")
    case True
    then show ?thesis using Cons by auto
  next
    case False
    have "{e \<in> set (x # xs). f e = n} = set (takeWhile (\<lambda>e. f e = n) (x # xs))" if "n \<le> f x" "sorted (map f (x # xs))" for x xs
      using that
    proof (induction xs arbitrary: x)
      case (Cons y ys)
      then show ?case by (cases "f x = n") (auto dest: order_antisym)
    qed auto
    then show ?thesis using False Cons.prems by simp
  qed
qed simp

lemma matches_extra_sorted:
  assumes "sorted (map length (xs :: bytes list))"
  shows "matches_extra mem xs \<longleftrightarrow> (\<exists>e \<in> set xs. map tolower e = map tolower mem)"
proof -
  have "length e = length mem" if "map tolower e = map tolower mem" for e :: bytes using arg_cong [OF that, of length] by simp
  then show ?thesis
    unfolding matches_extra_def takeWhile_dropWhile_sorted [OF assms, of "length mem"] memcmp_nocase_def not_not by blast
qed

section \<open>The invariant of the automatic tokens\<close>

definition token_ok :: "bytes \<Rightarrow> bool" where
  "token_ok mem \<longleftrightarrow> \<not> identical_run mem \<and> length mem \<le> MAX_AUTO_EXTRA \<and> \<not> builtin_token mem"

definition folded :: "auto_extra_data \<Rightarrow> bytes" where
  "folded e = map tolower (ae_data e)"

text \<open>
  There is room for the tokens, each is acceptable, no two differ only in case; those in use are the
  ones with the highest counts, sorted by length.
\<close>

definition autos_ok :: "auto_extra_data list \<Rightarrow> bool" where
  "autos_ok xs \<longleftrightarrow> length xs \<le> MAX_AUTO_EXTRAS \<and> (\<forall>e \<in> set xs. token_ok (ae_data e)) \<and> distinct (map folded xs) \<and>
     sorted (map (\<lambda>e. length (ae_data e)) (take USE_AUTO_EXTRAS xs)) \<and>
     (\<forall>x \<in> set (take USE_AUTO_EXTRAS xs). \<forall>y \<in> set (drop USE_AUTO_EXTRAS xs). ae_hit_cnt y \<le> ae_hit_cnt x)"

definition tokens :: "dictionary \<Rightarrow> bytes multiset" where
  "tokens d = image_mset ae_data (mset (a_extras d))"

lemma sort_uses:
  assumes "libc_ok c" and "\<forall>e \<in> set xs. ae_hit_cnt e < 2 ^ 31"
  shows "mset (qsort_autos c compare_auto_extras_use_d xs) = mset xs"
    and "sorted (map (\<lambda>e. - uint (ae_hit_cnt e)) (qsort_autos c compare_auto_extras_use_d xs))"
proof -
  have s: "sorter (qsort_autos c)" using assms(1) by (simp add: libc_ok_def)
  have k: "compare_auto_extras_use_d x y = - uint (ae_hit_cnt x) - - uint (ae_hit_cnt y)" if "x \<in> set xs" "y \<in> set xs" for x y
    using that assms(2) by (simp add: compare_auto_extras_use_d_def sint_diff_word)
  show "mset (qsort_autos c compare_auto_extras_use_d xs) = mset xs"
    "sorted (map (\<lambda>e. - uint (ae_hit_cnt e)) (qsort_autos c compare_auto_extras_use_d xs))"
    by (rule sorter.by_key [OF s k]; assumption)+
qed

lemma sort_lens:
  assumes "libc_ok c" and "\<forall>e \<in> set xs. length (ae_data e) \<le> MAX_AUTO_EXTRA"
  shows "mset (qsort_autos c compare_auto_extras_len xs) = mset xs"
    and "sorted (map (\<lambda>e. length (ae_data e)) (qsort_autos c compare_auto_extras_len xs))"
proof -
  have s: "sorter (qsort_autos c)" using assms(1) by (simp add: libc_ok_def)
  have k: "compare_auto_extras_len x y = int (length (ae_data x)) - int (length (ae_data y))" if "x \<in> set xs" "y \<in> set xs" for x y
    using that assms(2) by (auto simp: compare_auto_extras_len_def MAX_AUTO_EXTRA_def intro!: sint_diff)
  show "mset (qsort_autos c compare_auto_extras_len xs) = mset xs" by (rule sorter.by_key(1) [OF s k]; assumption)
  have "sorted (map (\<lambda>e. int (length (ae_data e))) (qsort_autos c compare_auto_extras_len xs))"
    by (rule sorter.by_key(2) [OF s k]; assumption)
  then show "sorted (map (\<lambda>e. length (ae_data e)) (qsort_autos c compare_auto_extras_len xs))" by (simp add: sorted_map)
qed

lemma sort_a_extras_ok:
  assumes "libc_ok c" and "length (a_extras d) \<le> MAX_AUTO_EXTRAS" and "\<forall>e \<in> set (a_extras d). token_ok (ae_data e)"
    and "distinct (map folded (a_extras d))" and "\<forall>e \<in> set (a_extras d). ae_hit_cnt e < 2 ^ 31"
  shows "autos_ok (a_extras (sort_a_extras c d))" and "mset (a_extras (sort_a_extras c d)) = mset (a_extras d)"
proof -
  define xs where "xs = qsort_autos c compare_auto_extras_use_d (a_extras d)"
  define n where "n = min USE_AUTO_EXTRAS (length xs)"
  define ys where "ys = qsort_autos c compare_auto_extras_len (take n xs)"
  have xs: "mset xs = mset (a_extras d)" "sorted (map (\<lambda>e. - uint (ae_hit_cnt e)) xs)"
    using sort_uses [OF assms(1,5)] by (simp_all add: xs_def)
  have sx: "set xs = set (a_extras d)" using xs(1) by (rule mset_eq_setD)
  have "\<forall>e \<in> set (take n xs). length (ae_data e) \<le> MAX_AUTO_EXTRA"
    using assms(3) sx by (auto simp: token_ok_def dest!: in_set_takeD)
  note ys = sort_lens [OF assms(1) this, folded ys_def]
  have sy: "set ys = set (take n xs)" using ys(1) by (rule mset_eq_setD)
  have ly: "length ys = n" using arg_cong [OF ys(1), of size] by (simp add: n_def)
  have res: "a_extras (sort_a_extras c d) = ys @ drop n xs"
    by (simp add: sort_a_extras_def Let_def xs_def n_def ys_def)
  show m: "mset (a_extras (sort_a_extras c d)) = mset (a_extras d)"
    using xs(1) ys(1) res by (metis append_take_drop_id mset_append)
  have top: "take USE_AUTO_EXTRAS (ys @ drop n xs) = ys" "drop USE_AUTO_EXTRAS (ys @ drop n xs) = drop n xs"
    using ly by (auto simp: n_def min_def split: if_splits)
  have "sorted (map (\<lambda>e. - uint (ae_hit_cnt e)) (take n xs @ drop n xs))" using xs(2) by simp
  then have "ae_hit_cnt y \<le> ae_hit_cnt x" if "x \<in> set (take n xs)" "y \<in> set (drop n xs)" for x y
    using that unfolding map_append sorted_append by (auto simp: word_le_def)
  moreover have "length (a_extras (sort_a_extras c d)) = length (a_extras d)" "set (a_extras (sort_a_extras c d)) = set (a_extras d)"
    using m by (metis size_mset, metis mset_eq_setD)
  moreover have "distinct (map folded (a_extras (sort_a_extras c d)))"
    using m assms(4) by (metis mset_map mset_eq_imp_distinct_iff)
  ultimately show "autos_ok (a_extras (sort_a_extras c d))"
    unfolding autos_ok_def using assms(2,3) ys(2) top sy by (simp add: res)
qed

lemma find_auto_Some:
  "find_auto mem xs = Some i \<Longrightarrow> i < length xs \<and> folded (xs ! i) = map tolower mem"
  by (induction xs arbitrary: i) (auto simp: memcmp_nocase_def folded_def split: if_splits)

lemma find_auto_None: "find_auto mem xs = None \<longleftrightarrow> map tolower mem \<notin> folded ` set xs"
proof (induction xs)
  case (Cons e es)
  have "length (ae_data e) = length mem" if "map tolower (ae_data e) = map tolower mem" using arg_cong [OF that, of length] by simp
  then show ?case using Cons by (auto simp: memcmp_nocase_def folded_def)
qed simp

lemma hits_bound: "ae_hit_cnt e < 2 ^ 31 - 1 \<Longrightarrow> ae_hit_cnt e + 1 < 2 ^ 31"
  by (simp add: word_less_nat_alt unat_word_ariths)

lemma autos_okD:
  assumes "autos_ok xs"
  shows "length xs \<le> MAX_AUTO_EXTRAS" "\<forall>e \<in> set xs. token_ok (ae_data e)" "distinct (map folded xs)"
  using assms by (simp_all add: autos_ok_def)

text \<open>Sorting after a change of the list; the other fields stay.\<close>

lemma resort:
  assumes "libc_ok c" and "length zs \<le> MAX_AUTO_EXTRAS" and "\<forall>e \<in> set zs. token_ok (ae_data e)" and "distinct (map folded zs)"
    and "\<forall>e \<in> set zs. ae_hit_cnt e < 2 ^ 31"
  shows "autos_ok (a_extras (sort_a_extras c (d\<lparr>a_extras := zs\<rparr>)))"
    and "tokens (sort_a_extras c (d\<lparr>a_extras := zs\<rparr>)) = image_mset ae_data (mset zs)"
    and "mset (a_extras (sort_a_extras c (d\<lparr>a_extras := zs\<rparr>))) = mset zs"
    and "extras (sort_a_extras c (d\<lparr>a_extras := zs\<rparr>)) = extras d"
proof -
  have s: "autos_ok (a_extras (sort_a_extras c (d\<lparr>a_extras := zs\<rparr>)))" "mset (a_extras (sort_a_extras c (d\<lparr>a_extras := zs\<rparr>))) = mset zs"
    using sort_a_extras_ok [of c "d\<lparr>a_extras := zs\<rparr>"] assms by simp_all
  show "autos_ok (a_extras (sort_a_extras c (d\<lparr>a_extras := zs\<rparr>)))" by (rule s(1))
  show "mset (a_extras (sort_a_extras c (d\<lparr>a_extras := zs\<rparr>))) = mset zs" by (rule s(2))
  then show "tokens (sort_a_extras c (d\<lparr>a_extras := zs\<rparr>)) = image_mset ae_data (mset zs)" by (simp add: tokens_def)
  show "extras (sort_a_extras c (d\<lparr>a_extras := zs\<rparr>)) = extras d" by (simp add: sort_a_extras_def Let_def)
qed

lemma append_ok:
  assumes "autos_ok xs" and "token_ok mem" and "map tolower mem \<notin> folded ` set xs" and "length xs < MAX_AUTO_EXTRAS"
    and "\<forall>e \<in> set xs. ae_hit_cnt e < 2 ^ 31 - 1"
  shows "length (xs @ [\<lparr>ae_data = mem, ae_hit_cnt = 0\<rparr>]) \<le> MAX_AUTO_EXTRAS"
    "\<forall>e \<in> set (xs @ [\<lparr>ae_data = mem, ae_hit_cnt = 0\<rparr>]). token_ok (ae_data e)"
    "distinct (map folded (xs @ [\<lparr>ae_data = mem, ae_hit_cnt = 0\<rparr>]))"
    "\<forall>e \<in> set (xs @ [\<lparr>ae_data = mem, ae_hit_cnt = 0\<rparr>]). ae_hit_cnt e < 2 ^ 31"
proof -
  have lt: "x < 2 ^ 31 - 1 \<Longrightarrow> x < 2 ^ 31" for x :: u32 by (simp add: word_less_nat_alt)
  show "\<forall>e \<in> set (xs @ [\<lparr>ae_data = mem, ae_hit_cnt = 0\<rparr>]). ae_hit_cnt e < 2 ^ 31" using assms(5) lt by auto
qed (use autos_okD [OF assms(1)] assms(2,3,4) in \<open>auto simp: folded_def\<close>)

lemma evict_ok:
  assumes "autos_ok xs" and "token_ok mem" and "map tolower mem \<notin> folded ` set xs" and "i < length xs"
    and "\<forall>e \<in> set xs. ae_hit_cnt e < 2 ^ 31 - 1"
  shows "length (xs[i := \<lparr>ae_data = mem, ae_hit_cnt = 0\<rparr>]) \<le> MAX_AUTO_EXTRAS"
    "\<forall>e \<in> set (xs[i := \<lparr>ae_data = mem, ae_hit_cnt = 0\<rparr>]). token_ok (ae_data e)"
    "distinct (map folded (xs[i := \<lparr>ae_data = mem, ae_hit_cnt = 0\<rparr>]))"
    "\<forall>e \<in> set (xs[i := \<lparr>ae_data = mem, ae_hit_cnt = 0\<rparr>]). ae_hit_cnt e < 2 ^ 31"
proof -
  note ok = autos_okD [OF assms(1)]
  have sub: "set (xs[i := \<lparr>ae_data = mem, ae_hit_cnt = 0\<rparr>]) \<subseteq> insert \<lparr>ae_data = mem, ae_hit_cnt = 0\<rparr> (set xs)" by (rule set_update_subset_insert)
  have lt: "x < 2 ^ 31 - 1 \<Longrightarrow> x < 2 ^ 31" for x :: u32 by (simp add: word_less_nat_alt)
  show "length (xs[i := \<lparr>ae_data = mem, ae_hit_cnt = 0\<rparr>]) \<le> MAX_AUTO_EXTRAS" using ok(1) by simp
  show "\<forall>e \<in> set (xs[i := \<lparr>ae_data = mem, ae_hit_cnt = 0\<rparr>]). token_ok (ae_data e)" using sub ok(2) assms(2) by auto
  show "\<forall>e \<in> set (xs[i := \<lparr>ae_data = mem, ae_hit_cnt = 0\<rparr>]). ae_hit_cnt e < 2 ^ 31" using sub assms(5) lt by auto
  have "map tolower mem \<notin> set (map folded xs) - {map folded xs ! i}" using assms(3) by simp
  from distinct_list_update [OF ok(3) this] show "distinct (map folded (xs[i := \<lparr>ae_data = mem, ae_hit_cnt = 0\<rparr>]))"
    by (simp add: map_update folded_def)
qed

lemma hit_ok:
  assumes "autos_ok xs" and "i < length xs" and "\<forall>e \<in> set xs. ae_hit_cnt e < 2 ^ 31 - 1"
  defines "zs \<equiv> xs[i := (xs ! i)\<lparr>ae_hit_cnt := ae_hit_cnt (xs ! i) + 1\<rparr>]"
  shows "length zs \<le> MAX_AUTO_EXTRAS" "\<forall>e \<in> set zs. token_ok (ae_data e)" "distinct (map folded zs)"
    "\<forall>e \<in> set zs. ae_hit_cnt e < 2 ^ 31" "map ae_data zs = map ae_data xs"
proof -
  note ok = autos_okD [OF assms(1)]
  have sub: "set zs \<subseteq> insert ((xs ! i)\<lparr>ae_hit_cnt := ae_hit_cnt (xs ! i) + 1\<rparr>) (set xs)" unfolding zs_def by (rule set_update_subset_insert)
  have i: "xs ! i \<in> set xs" using assms(2) by simp
  have lt: "x < 2 ^ 31 - 1 \<Longrightarrow> x < 2 ^ 31" for x :: u32 by (simp add: word_less_nat_alt)
  show "length zs \<le> MAX_AUTO_EXTRAS" using ok(1) by (simp add: zs_def)
  show "\<forall>e \<in> set zs. token_ok (ae_data e)" using sub ok(2) i by auto
  have h: "ae_hit_cnt (xs ! i) + 1 < 2 ^ 31" using assms(3) i hits_bound by blast
  show "\<forall>e \<in> set zs. ae_hit_cnt e < 2 ^ 31"
  proof
    fix e assume "e \<in> set zs"
    with sub consider "e = (xs ! i)\<lparr>ae_hit_cnt := ae_hit_cnt (xs ! i) + 1\<rparr>" | "e \<in> set xs" by blast
    then show "ae_hit_cnt e < 2 ^ 31" by cases (use h assms(3) lt in \<open>simp, blast\<close>)
  qed
  show m: "map ae_data zs = map ae_data xs" using assms(2) by (simp add: zs_def map_update list_update_same_conv)
  have "map folded ys = map (map tolower) (map ae_data ys)" for ys by (simp add: folded_def)
  then have "map folded zs = map folded xs" using m by metis
  then show "distinct (map folded zs)" using ok(3) by simp
qed

lemma evict_tokens:
  "i < length xs \<Longrightarrow> image_mset ae_data (mset (xs[i := \<lparr>ae_data = mem, ae_hit_cnt = 0\<rparr>])) =
     add_mset mem (image_mset ae_data (mset xs) - {#ae_data (xs ! i)#})"
  by (simp add: mset_update image_mset_Diff)

lemma maybe_add_auto_skip:
  "\<not> token_ok mem \<or> matches_extra mem (extras d) \<Longrightarrow> maybe_add_auto c fuel u mem d a = Inr (Some (d, a))"
  by (auto simp: maybe_add_auto_def token_ok_def)

lemma maybe_add_auto_take:
  assumes "token_ok mem" and "\<not> matches_extra mem (extras d)"
  shows "maybe_add_auto c fuel u mem d a =
    (let d = d\<lparr>auto_changed := True\<rparr>; xs = a_extras d
     in case find_auto mem xs of
          Some i \<Rightarrow> Inr (Some (sort_a_extras c (d\<lparr>a_extras := xs[i := (xs ! i)\<lparr>ae_hit_cnt := ae_hit_cnt (xs ! i) + 1\<rparr>]\<rparr>), a))
        | None \<Rightarrow>
            if length xs < MAX_AUTO_EXTRAS
            then Inr (Some (sort_a_extras c (d\<lparr>a_extras := xs @ [\<lparr>ae_data = mem, ae_hit_cnt = 0\<rparr>]\<rparr>), a))
            else rbind (rand_below fuel u (word_of_nat ((MAX_AUTO_EXTRAS + 1) div 2)) a) (\<lambda>r.
                   case r of
                     None \<Rightarrow> Inr None
                   | Some (v, a) \<Rightarrow>
                       Inr (Some (sort_a_extras c (d\<lparr>a_extras :=
                         xs[MAX_AUTO_EXTRAS div 2 + unat v := \<lparr>ae_data = mem, ae_hit_cnt = 0\<rparr>]\<rparr>), a))))"
  using assms by (simp add: maybe_add_auto_def token_ok_def)

lemma hit_counts:
  assumes "i < length xs" and "\<forall>e \<in> set xs. unat (ae_hit_cnt e) \<le> n"
  shows "\<forall>e \<in> set (xs[i := (xs ! i)\<lparr>ae_hit_cnt := ae_hit_cnt (xs ! i) + 1\<rparr>]). unat (ae_hit_cnt e) \<le> Suc n"
proof
  fix e assume "e \<in> set (xs[i := (xs ! i)\<lparr>ae_hit_cnt := ae_hit_cnt (xs ! i) + 1\<rparr>])"
  then consider "e = (xs ! i)\<lparr>ae_hit_cnt := ae_hit_cnt (xs ! i) + 1\<rparr>" | "e \<in> set xs"
    using set_update_subset_insert by fastforce
  then show "unat (ae_hit_cnt e) \<le> Suc n"
  proof cases
    case 1
    have "unat (ae_hit_cnt (xs ! i) + 1) \<le> unat (ae_hit_cnt (xs ! i)) + 1" by (simp add: unat_word_ariths)
    moreover have "unat (ae_hit_cnt (xs ! i)) \<le> n" using assms by simp
    ultimately show ?thesis using 1 by simp
  next
    case 2
    then show ?thesis using assms(2) by (simp add: le_SucI)
  qed
qed

lemma maybe_add_auto_effect:
  assumes "libc_ok c" and "autos_ok (a_extras d)" and "\<forall>e \<in> set (a_extras d). ae_hit_cnt e < 2 ^ 31 - 1"
    and "maybe_add_auto c fuel u mem d a = Inr (Some (d', a'))"
    and "\<forall>e \<in> set (a_extras d). unat (ae_hit_cnt e) \<le> n"
  shows "autos_ok (a_extras d') \<and> (\<forall>e \<in> set (a_extras d'). unat (ae_hit_cnt e) \<le> Suc n) \<and> extras d' = extras d \<and> rand_core a' = rand_core a \<and>
    (if \<not> token_ok mem \<or> matches_extra mem (extras d) then d' = d
     else if map tolower mem \<in> folded ` set (a_extras d) then tokens d' = tokens d
     else if length (a_extras d) < MAX_AUTO_EXTRAS then tokens d' = add_mset mem (tokens d)
     else \<exists>i. MAX_AUTO_EXTRAS div 2 \<le> i \<and> i < MAX_AUTO_EXTRAS \<and>
            tokens d' = add_mset mem (tokens d - {#ae_data (a_extras d ! i)#}))"
proof (cases "\<not> token_ok mem \<or> matches_extra mem (extras d)")
  case True
  then show ?thesis using maybe_add_auto_skip [OF True] assms by (auto intro: le_SucI)
next
  case False
  then have t: "token_ok mem" "\<not> matches_extra mem (extras d)" by simp_all
  let ?d = "d\<lparr>auto_changed := True\<rparr>" and ?xs = "a_extras d"
  note run = assms(4) [unfolded maybe_add_auto_take [OF t] Let_def, simplified]
  show ?thesis
  proof (cases "find_auto mem ?xs")
    case (Some i)
    then have i: "i < length ?xs" "map tolower mem \<in> folded ` set ?xs" using find_auto_Some [OF Some] by (metis, metis image_eqI nth_mem)
    note ok = hit_ok [OF assms(2) i(1) assms(3)]
    note r = resort [OF assms(1) ok(1-4), of ?d]
    have "\<forall>e \<in> set (a_extras d'). unat (ae_hit_cnt e) \<le> Suc n"
      using mset_eq_setD [OF r(3)] run Some hit_counts [OF i(1) assms(5)] by simp
    moreover have "tokens d' = tokens d" using r(2) run Some ok(5) by (simp add: tokens_def flip: mset_map)
    ultimately show ?thesis using r(1,4) run Some i(2) t by simp
  next
    case None
    then have n: "map tolower mem \<notin> folded ` set ?xs" by (simp add: find_auto_None)
    show ?thesis
    proof (cases "length ?xs < MAX_AUTO_EXTRAS")
      case True
      note ok = append_ok [OF assms(2) t(1) n True assms(3)]
      note r = resort [OF assms(1) ok, of ?d]
      have "\<forall>e \<in> set (a_extras d'). unat (ae_hit_cnt e) \<le> Suc n"
        using mset_eq_setD [OF r(3)] run None True assms(5) by (auto intro: le_SucI)
      then show ?thesis using r(1,2,4) run None n t True by (simp add: tokens_def)
    next
      case full: False
      then have len: "length ?xs = MAX_AUTO_EXTRAS" using autos_okD(1) [OF assms(2)] by simp
      obtain v where v: "rand_below fuel u (word_of_nat ((MAX_AUTO_EXTRAS + 1) div 2)) a = Inr (Some (v, a'))"
        and d': "d' = sort_a_extras c (?d\<lparr>a_extras := ?xs[MAX_AUTO_EXTRAS div 2 + unat v := \<lparr>ae_data = mem, ae_hit_cnt = 0\<rparr>]\<rparr>)"
        using run None full by (auto simp: rbind_eq_Inr_iff split: option.splits)
      have "v < word_of_nat ((MAX_AUTO_EXTRAS + 1) div 2)" by (rule rand_below_less [OF v]) (simp add: dict_sizes)
      then have "unat v < MAX_AUTO_EXTRAS div 2" by (simp add: dict_sizes word_less_nat_alt)
      then have i: "MAX_AUTO_EXTRAS div 2 + unat v < length ?xs" unfolding len by (simp add: dict_sizes)
      note ok = evict_ok [OF assms(2) t(1) n i assms(3)]
      note r = resort [OF assms(1) ok, of ?d]
      have tk: "tokens d' = add_mset mem (tokens d - {#ae_data (a_extras d ! (MAX_AUTO_EXTRAS div 2 + unat v))#})"
        using r(2) evict_tokens [OF i] d' by (simp add: tokens_def)
      have "\<exists>i. MAX_AUTO_EXTRAS div 2 \<le> i \<and> i < MAX_AUTO_EXTRAS \<and> tokens d' = add_mset mem (tokens d - {#ae_data (a_extras d ! i)#})"
        by (rule exI, intro conjI, rule le_add1, rule i [unfolded len], rule tk)
      moreover have "\<forall>e \<in> set (a_extras d'). unat (ae_hit_cnt e) \<le> Suc n"
        using mset_eq_setD [OF r(3)] d' assms(5) set_update_subset_insert [of ?xs _ "\<lparr>ae_data = mem, ae_hit_cnt = 0\<rparr>"]
        by (fastforce intro: le_SucI)
      ultimately show ?thesis using r(1,4) d' n t full rand_core_below [OF v] by simp
    qed
  qed
qed

text \<open>The same on whole entries, with the slot that is given up.\<close>

lemma maybe_add_auto_entries:
  assumes "libc_ok c" and "autos_ok (a_extras d)" and "\<forall>e \<in> set (a_extras d). ae_hit_cnt e < 2 ^ 31 - 1"
    and "maybe_add_auto c fuel u mem d a = Inr (Some (d', a'))" and "token_ok mem" and "\<not> matches_extra mem (extras d)"
  shows "if map tolower mem \<in> folded ` set (a_extras d)
    then a' = a \<and> (\<exists>e \<in> set (a_extras d). folded e = map tolower mem \<and>
           mset (a_extras d') = add_mset (e\<lparr>ae_hit_cnt := ae_hit_cnt e + 1\<rparr>) (mset (a_extras d) - {#e#}))
    else if length (a_extras d) < MAX_AUTO_EXTRAS
    then a' = a \<and> mset (a_extras d') = add_mset \<lparr>ae_data = mem, ae_hit_cnt = 0\<rparr> (mset (a_extras d))
    else \<exists>v. rand_below fuel u (word_of_nat ((MAX_AUTO_EXTRAS + 1) div 2)) a = Inr (Some (v, a')) \<and> unat v < MAX_AUTO_EXTRAS div 2 \<and>
           mset (a_extras d') = add_mset \<lparr>ae_data = mem, ae_hit_cnt = 0\<rparr> (mset (a_extras d) - {#a_extras d ! (MAX_AUTO_EXTRAS div 2 + unat v)#})"
proof -
  let ?d = "d\<lparr>auto_changed := True\<rparr>" and ?xs = "a_extras d" and ?new = "\<lparr>ae_data = mem, ae_hit_cnt = 0\<rparr>"
  note run = assms(4) [unfolded maybe_add_auto_take [OF assms(5,6)] Let_def, simplified]
  show ?thesis
  proof (cases "find_auto mem ?xs")
    case (Some i)
    then have i: "i < length ?xs" "folded (?xs ! i) = map tolower mem" using find_auto_Some [OF Some] by simp_all
    note r = resort [OF assms(1) hit_ok(1-4) [OF assms(2) i(1) assms(3)], of ?d]
    have "mset (a_extras d') = add_mset ((?xs ! i)\<lparr>ae_hit_cnt := ae_hit_cnt (?xs ! i) + 1\<rparr>) (mset ?xs - {#?xs ! i#})"
      using r(3) run Some mset_update [OF i(1)] by simp
    moreover have "?xs ! i \<in> set ?xs" using i(1) by simp
    ultimately show ?thesis using run Some i(2) by (force simp: image_iff)
  next
    case None
    then have n: "map tolower mem \<notin> folded ` set ?xs" by (simp add: find_auto_None)
    show ?thesis
    proof (cases "length ?xs < MAX_AUTO_EXTRAS")
      case True
      note r = resort [OF assms(1) append_ok [OF assms(2,5) n True assms(3)], of ?d]
      show ?thesis using r(3) run None n True by simp
    next
      case full: False
      then have len: "length ?xs = MAX_AUTO_EXTRAS" using autos_okD(1) [OF assms(2)] by simp
      obtain v where v: "rand_below fuel u (word_of_nat ((MAX_AUTO_EXTRAS + 1) div 2)) a = Inr (Some (v, a'))"
        and d': "d' = sort_a_extras c (?d\<lparr>a_extras := ?xs[MAX_AUTO_EXTRAS div 2 + unat v := ?new]\<rparr>)"
        using run None full by (auto simp: rbind_eq_Inr_iff split: option.splits)
      have "v < word_of_nat ((MAX_AUTO_EXTRAS + 1) div 2)" by (rule rand_below_less [OF v]) (simp add: dict_sizes)
      then have lt: "unat v < MAX_AUTO_EXTRAS div 2" by (simp add: dict_sizes word_less_nat_alt)
      then have i: "MAX_AUTO_EXTRAS div 2 + unat v < length ?xs" unfolding len by (simp add: dict_sizes)
      note r = resort [OF assms(1) evict_ok [OF assms(2,5) n i assms(3)], of ?d]
      have "mset (a_extras d') = add_mset ?new (mset ?xs - {#?xs ! (MAX_AUTO_EXTRAS div 2 + unat v)#})"
        using r(3) mset_update [OF i] by (simp add: d')
      with v lt n full show ?thesis by auto
    qed
  qed
qed

text \<open>
  C13: \<open>maybe_add_auto\<close> keeps the invariant of the automatic tokens, and its effect is exact. A run of identical
  bytes, a token that is too long, the bytes of a built-in interesting value in either order (but for
  those of -128 in little-endian order, which the filter misses against its comment), or a token of the
  user's dictionary up to case changes nothing. A token that is known up to case gains one use. Any other
  token is added unused; when the array is full it replaces the entry in the slot of the lower
  half that \<open>rand_below\<close> draws.
\<close>

theorem maybe_add_auto_exact:
  assumes "libc_ok c" and "autos_ok (a_extras d)" and "\<forall>e \<in> set (a_extras d). ae_hit_cnt e < 2 ^ 31 - 1" and "sorted (map length (extras d))"
    and "maybe_add_auto c fuel u mem d a = Inr (Some (d', a'))"
  shows "autos_ok (a_extras d') \<and> extras d' = extras d \<and> rand_core a' = rand_core a \<and>
    (if identical_run mem \<or> MAX_AUTO_EXTRA < length mem \<or> encodes_builtin mem \<and> mem \<noteq> [0x80, 0xff] \<or>
        (\<exists>e \<in> set (extras d). map tolower e = map tolower mem)
     then d' = d \<and> a' = a
     else if map tolower mem \<in> folded ` set (a_extras d)
     then a' = a \<and> (\<exists>e \<in> set (a_extras d). folded e = map tolower mem \<and>
            mset (a_extras d') = add_mset (e\<lparr>ae_hit_cnt := ae_hit_cnt e + 1\<rparr>) (mset (a_extras d) - {#e#}))
     else if length (a_extras d) < MAX_AUTO_EXTRAS
     then a' = a \<and> mset (a_extras d') = add_mset \<lparr>ae_data = mem, ae_hit_cnt = 0\<rparr> (mset (a_extras d))
     else \<exists>v. rand_below fuel u (word_of_nat ((MAX_AUTO_EXTRAS + 1) div 2)) a = Inr (Some (v, a')) \<and> unat v < MAX_AUTO_EXTRAS div 2 \<and>
            mset (a_extras d') = add_mset \<lparr>ae_data = mem, ae_hit_cnt = 0\<rparr> (mset (a_extras d) - {#a_extras d ! (MAX_AUTO_EXTRAS div 2 + unat v)#}))"
proof -
  have "unat x \<le> 2 ^ 32" for x :: u32 using unsigned_less [of x, where 'a = nat] by simp
  then have "\<forall>e \<in> set (a_extras d). unat (ae_hit_cnt e) \<le> 2 ^ 32" by blast
  from maybe_add_auto_effect [OF assms(1-3,5) this]
  have keep: "autos_ok (a_extras d')" "extras d' = extras d" "rand_core a' = rand_core a" by blast+
  have skip: "identical_run mem \<or> MAX_AUTO_EXTRA < length mem \<or> encodes_builtin mem \<and> mem \<noteq> [0x80, 0xff] \<or>
        (\<exists>e \<in> set (extras d). map tolower e = map tolower mem) \<longleftrightarrow> \<not> token_ok mem \<or> matches_extra mem (extras d)"
    by (auto simp: token_ok_def builtin_token_iff matches_extra_sorted [OF assms(4)])
  show ?thesis
  proof (cases "\<not> token_ok mem \<or> matches_extra mem (extras d)")
    case True
    then show ?thesis using maybe_add_auto_skip [OF True, of c fuel u a] assms(5) keep unfolding skip by simp
  next
    case False
    then show ?thesis using maybe_add_auto_entries [OF assms(1-3,5)] keep unfolding skip by (simp only: if_False) blast
  qed
qed

theorem maybe_add_auto_exact_witness:
  "\<exists>d. maybe_add_auto glibc 1 (Inl (PFATAL ''urandom'')) [73, 72, 68, 82] dict_zero afl_zero = Inr (Some (d, afl_zero)) \<and>
     autos_ok (a_extras d) \<and> a_extras d = [\<lparr>ae_data = [73, 72, 68, 82], ae_hit_cnt = 0\<rparr>]"
proof -
  have t: "token_ok [73, 72, 68, 82]" by code_simp
  then have k: "\<not> identical_run [73, 72, 68, 82]" "\<not> encodes_builtin [73, 72, 68, 82]" by (simp_all add: token_ok_def builtin_token_iff)
  have m: "\<not> matches_extra [73, 72, 68, 82] (extras dict_zero)" by (simp add: matches_extra_def dict_zero_def)
  obtain d where d: "maybe_add_auto glibc 1 (Inl (PFATAL ''urandom'')) [73, 72, 68, 82] dict_zero afl_zero = Inr (Some (d, afl_zero))"
    unfolding maybe_add_auto_take [OF t m] by (simp add: Let_def dict_zero_def dict_sizes)
  have z: "autos_ok (a_extras dict_zero)" "\<forall>e \<in> set (a_extras dict_zero). ae_hit_cnt e < 2 ^ 31 - 1" "sorted (map length (extras dict_zero))"
    by (simp_all add: autos_ok_def dict_zero_def)
  have "autos_ok (a_extras d) \<and> mset (a_extras d) = {#\<lparr>ae_data = [73, 72, 68, 82], ae_hit_cnt = 0\<rparr>#}"
    using maybe_add_auto_exact [OF glibc_ok z d] k by (auto simp: dict_zero_def dict_sizes MAX_AUTO_EXTRA_def)
  then have "autos_ok (a_extras d) \<and> a_extras d = [\<lparr>ae_data = [73, 72, 68, 82], ae_hit_cnt = 0\<rparr>]" by (metis mset_single_iff)
  then show ?thesis using d by blast
qed

section \<open>Saving and loading automatic tokens\<close>

definition fresh_auto :: "bytes \<Rightarrow> auto_extra_data" where
  "fresh_auto t = \<lparr>ae_data = t, ae_hit_cnt = 0\<rparr>"

text \<open>What is on the disk: the latest contents of a file.\<close>

definition read_disk :: "afl_state \<Rightarrow> string \<Rightarrow> saved" where
  "read_disk a fn = (case map_of (rev (disk a)) fn of Some bs \<Rightarrow> Content bs | None \<Rightarrow> Absent)"

lemma auto_name_inject: "auto_name dir i = auto_name dir j \<longleftrightarrow> i = j"
proof -
  have "auto_name dir i = auto_name dir j \<longleftrightarrow> dec06 i = dec06 j" by (simp only: auto_name_def same_append_eq)
  then show ?thesis by (metis dec06_facts(1))
qed

lemma save_one_auto_ok:
  assumes "disk_ok w"
  shows "save_one_auto w (i, e) (Some a) = Inr (Some (a\<lparr>disk := disk a @ [(auto_name (out_dir a @ ''/queue'') i, ae_data e)]\<rparr>))"
proof -
  have "ck_write [int (length (ae_data e))] (ae_data e) = Some (ae_data e)" by (rule ck_write_full) simp_all
  then show ?thesis using assms by (simp add: save_one_auto_def disk_ok_def Let_def)
qed

lemma save_autos:
  assumes "disk_ok w"
  shows "rfold (save_one_auto w) (zip [k..<k + length es] es) (Some a) =
    Inr (Some (a\<lparr>disk := disk a @ map (\<lambda>(i, e). (auto_name (out_dir a @ ''/queue'') i, ae_data e)) (zip [k..<k + length es] es)\<rparr>))"
proof (induction es arbitrary: k a)
  case (Cons e es)
  have z: "zip [k..<k + length (e # es)] (e # es) = (k, e) # zip [Suc k..<Suc k + length es] es"
  proof -
    have "[k..<k + length (e # es)] = k # [Suc k..<Suc k + length es]" by (subst upt_conv_Cons) simp_all
    then show ?thesis by (simp only: zip_Cons_Cons)
  qed
  show ?case unfolding z using Cons.IH [of "Suc k" "a\<lparr>disk := disk a @ [(auto_name (out_dir a @ ''/queue'') k, ae_data e)]\<rparr>"]
    by (simp add: save_one_auto_ok [OF assms])
qed simp

lemma map_of_saved:
  assumes "\<forall>i. auto_name dir i \<notin> fst ` set old"
  shows "map_of (rev (old @ map (\<lambda>(i, e). (auto_name dir i, ae_data e)) (zip [0..<length es] es))) (auto_name dir i) =
    (if i < length es then Some (ae_data (es ! i)) else None)"
proof -
  let ?new = "map (\<lambda>(i, e). (auto_name dir i, ae_data e)) (zip [0..<length es] es)"
  have fst: "map fst ?new = map (auto_name dir) [0..<length es]"
    by (rule nth_equalityI) simp_all
  have d: "distinct (map fst ?new)" unfolding fst by (simp add: distinct_map inj_on_def auto_name_inject)
  then have dr: "distinct (map fst (rev ?new))" by (simp add: rev_map [symmetric])
  have old: "map_of (rev old) (auto_name dir i) = None" using assms by (simp add: map_of_eq_None_iff)
  show ?thesis
  proof (cases "i < length es")
    case True
    then have "(auto_name dir i, ae_data (es ! i)) \<in> set (rev ?new)" by (auto simp: set_zip intro!: image_eqI [of _ _ "(i, es ! i)"] exI [of _ i])
    with dr have "map_of (rev ?new) (auto_name dir i) = Some (ae_data (es ! i))" by (rule map_of_is_SomeI)
    then show ?thesis using True by (simp add: map_add_Some_iff)
  next
    case False
    have "auto_name dir i \<notin> fst ` set (rev ?new)"
    proof
      assume "auto_name dir i \<in> fst ` set (rev ?new)"
      then have "auto_name dir i \<in> set (map fst ?new)" by (simp only: set_map set_rev)
      then show False unfolding fst using False by (auto simp: auto_name_inject)
    qed
    then have "map_of (rev ?new) (auto_name dir i) = None" by (simp add: map_of_eq_None_iff)
    then show ?thesis using False old by (simp add: map_add_None)
  qed
qed

lemma maybe_add_auto_new:
  assumes "libc_ok c" and "autos_ok (a_extras d)" and "\<forall>e \<in> set (a_extras d). ae_hit_cnt e = 0" and "length (a_extras d) < MAX_AUTO_EXTRAS"
    and "token_ok t" and "\<not> matches_extra t (extras d)" and "map tolower t \<notin> folded ` set (a_extras d)"
  shows "\<exists>d'. maybe_add_auto c fuel u t d a = Inr (Some (d', a)) \<and> autos_ok (a_extras d') \<and> extras d' = extras d \<and>
    mset (a_extras d') = add_mset (fresh_auto t) (mset (a_extras d))"
proof -
  have "\<forall>e \<in> set (a_extras d). ae_hit_cnt e < 2 ^ 31 - 1" using assms(3) by (simp add: word_less_nat_alt)
  note ok = append_ok [OF assms(2,5,7,4) this]
  note r = resort [OF assms(1) ok, of "d\<lparr>auto_changed := True\<rparr>"]
  have "find_auto t (a_extras d) = None" using assms(7) by (simp add: find_auto_None)
  then have "maybe_add_auto c fuel u t d a =
      Inr (Some (sort_a_extras c (d\<lparr>auto_changed := True, a_extras := a_extras d @ [\<lparr>ae_data = t, ae_hit_cnt = 0\<rparr>]\<rparr>), a))"
    unfolding maybe_add_auto_take [OF assms(5,6)] using assms(4) by (simp add: Let_def)
  then show ?thesis using r(1,3,4) by (simp add: fresh_auto_def)
qed

lemma load_tokens:
  assumes "libc_ok c" and "\<forall>j < length ts. fs (auto_name dir (k + j)) = Content (ts ! j)"
    and "fs (auto_name dir (k + length ts)) = Absent" and "k + length ts \<le> n"
    and "\<forall>t \<in> set ts. token_ok t \<and> MIN_AUTO_EXTRA \<le> length t \<and> \<not> matches_extra t (extras d)"
    and "distinct (map (map tolower) ts)" and "\<forall>t \<in> set ts. map tolower t \<notin> folded ` set (a_extras d)"
    and "autos_ok (a_extras d)" and "\<forall>e \<in> set (a_extras d). ae_hit_cnt e = 0" and "length (a_extras d) + length ts \<le> MAX_AUTO_EXTRAS"
  shows "\<exists>d'. load_auto_from c fuel u fs dir [k..<n] d a = Inr (Some (d', a)) \<and>
    mset (a_extras d') = mset (a_extras d) + mset (map fresh_auto ts)"
  using assms(2-)
proof (induction ts arbitrary: k d)
  case Nil
  then show ?case by (cases "k < n") (simp_all add: upt_conv_Cons)
next
  case (Cons t ts)
  have kn: "[k..<n] = k # [Suc k..<n]" using Cons.prems(3) by (simp add: upt_conv_Cons)
  have f: "fs (auto_name dir k) = Content t" using Cons.prems(1) by force
  have t: "token_ok t" "MIN_AUTO_EXTRA \<le> length t" "\<not> matches_extra t (extras d)" "map tolower t \<notin> folded ` set (a_extras d)"
    using Cons.prems(4,6) by simp_all
  have l: "length t \<le> MAX_AUTO_EXTRA" using t(1) by (simp add: token_ok_def)
  have "length (a_extras d) < MAX_AUTO_EXTRAS" using Cons.prems(9) by simp
  then obtain d1 where d1: "maybe_add_auto c fuel u t d a = Inr (Some (d1, a))" "autos_ok (a_extras d1)" "extras d1 = extras d"
      "mset (a_extras d1) = add_mset (fresh_auto t) (mset (a_extras d))"
    using maybe_add_auto_new [OF assms(1) Cons.prems(7,8) _ t(1,3,4)] by blast
  have s1: "set (a_extras d1) = insert (fresh_auto t) (set (a_extras d))" using arg_cong [OF d1(4), of set_mset] by simp
  have n1: "length (a_extras d1) = Suc (length (a_extras d))" using arg_cong [OF d1(4), of size] by simp
  have "\<exists>d'. load_auto_from c fuel u fs dir [Suc k..<n] d1 a = Inr (Some (d', a)) \<and>
      mset (a_extras d') = mset (a_extras d1) + mset (map fresh_auto ts)"
  proof (rule Cons.IH)
    show "\<forall>j < length ts. fs (auto_name dir (Suc k + j)) = Content (ts ! j)"
    proof (intro allI impI)
      fix j assume "j < length ts"
      then show "fs (auto_name dir (Suc k + j)) = Content (ts ! j)" using Cons.prems(1) [rule_format, of "Suc j"] by simp
    qed
    have ne: "map tolower v \<noteq> map tolower t" if "v \<in> set ts" for v using Cons.prems(5) that by (auto intro: rev_image_eqI)
    show "\<forall>t \<in> set ts. map tolower t \<notin> folded ` set (a_extras d1)"
      using Cons.prems(6) ne by (simp add: s1 folded_def fresh_auto_def)
    show "\<forall>e \<in> set (a_extras d1). ae_hit_cnt e = 0" using Cons.prems(8) by (simp add: s1 fresh_auto_def)
  qed (use Cons.prems d1 n1 in simp_all)
  then show ?case unfolding kn using f t(2) l d1(1,4) by (simp add: Let_def)
qed

text \<open>
  C17: The automatic tokens in use survive a restart. What \<open>save_auto\<close> writes to the queue directory,
  \<open>load_auto\<close> reads back into an empty list of automatic tokens: the same tokens, their use counts at zero,
  provided the files can be written, none was there before, and the user's dictionary does not
  contain them.
\<close>

theorem autos_saved_and_loaded:
  assumes "libc_ok c" and "disk_ok w" and "auto_changed d" and "autos_ok (a_extras d)"
    and "\<forall>e \<in> set (a_extras d). MIN_AUTO_EXTRA \<le> length (ae_data e) \<and> \<not> matches_extra (ae_data e) (extras d0)"
    and "\<forall>i. auto_name (out_dir a @ ''/queue'') i \<notin> fst ` set (disk a)" and "a_extras d0 = []"
  shows "\<exists>a1 d1. save_auto w d a = Inr (Some (d\<lparr>auto_changed := False\<rparr>, a1)) \<and>
    load_auto c fuel u (read_disk a1) (out_dir a @ ''/queue'') d0 b = Inr (Some (d1, b)) \<and>
    mset (a_extras d1) = mset (map (\<lambda>e. fresh_auto (ae_data e)) (take USE_AUTO_EXTRAS (a_extras d)))"
proof -
  let ?dir = "out_dir a @ ''/queue''"
  define es where "es = take USE_AUTO_EXTRAS (a_extras d)"
  define a1 where "a1 = a\<lparr>disk := disk a @ map (\<lambda>(i, e). (auto_name ?dir i, ae_data e)) (zip [0..<length es] es)\<rparr>"
  have n: "length es = min USE_AUTO_EXTRAS (length (a_extras d))" "take (min USE_AUTO_EXTRAS (length (a_extras d))) (a_extras d) = es"
    by (auto simp: es_def min_def)
  have save: "save_auto w d a = Inr (Some (d\<lparr>auto_changed := False\<rparr>, a1))"
    using save_autos [OF assms(2), of 0 es a] assms(3) n by (simp add: save_auto_def Let_def a1_def)
  have fs: "read_disk a1 (auto_name ?dir i) = (if i < length es then Content (ae_data (es ! i)) else Absent)" for i
    using map_of_saved [OF assms(6), of es i] by (simp add: read_disk_def a1_def)
  have sub: "set es \<subseteq> set (a_extras d)" by (simp add: es_def set_take_subset)
  have tok: "\<forall>t \<in> set (map ae_data es). token_ok t \<and> MIN_AUTO_EXTRA \<le> length t \<and> \<not> matches_extra t (extras d0)"
    using autos_okD(2) [OF assms(4)] assms(5) sub by auto
  have "distinct (map folded es)" using autos_okD(3) [OF assms(4)] by (simp add: es_def distinct_take flip: take_map)
  then have dis: "distinct (map (map tolower) (map ae_data es))" by (simp add: folded_def [abs_def] comp_def)
  have "\<exists>d1. load_auto_from c fuel u (read_disk a1) ?dir [0..<USE_AUTO_EXTRAS] d0 b = Inr (Some (d1, b)) \<and>
      mset (a_extras d1) = mset (a_extras d0) + mset (map fresh_auto (map ae_data es))"
    by (rule load_tokens [OF assms(1)])
      (use tok dis n assms(7) in \<open>auto simp: fs autos_ok_def dict_sizes\<close>)
  then show ?thesis using save assms(7) by (auto simp: load_auto_def es_def comp_def)
qed

theorem autos_saved_and_loaded_witness:
  "\<exists>w d a a1 d1. save_auto w d a = Inr (Some (d\<lparr>auto_changed := False\<rparr>, a1)) \<and>
     load_auto glibc 1 (Inl (PFATAL ''urandom'')) (read_disk a1) (out_dir a @ ''/queue'') dict_zero afl_zero = Inr (Some (d1, afl_zero)) \<and>
     a_extras d1 = [fresh_auto [73, 72, 68, 82]] \<and> a_extras d = [\<lparr>ae_data = [73, 72, 68, 82], ae_hit_cnt = 5\<rparr>]"
proof -
  let ?e = "\<lparr>ae_data = [73, 72, 68, 82], ae_hit_cnt = 5\<rparr>"
  let ?d = "dict_zero\<lparr>auto_changed := True, a_extras := [?e]\<rparr>"
  have t: "token_ok [73, 72, 68, 82]" by code_simp
  have d: "auto_changed ?d" "autos_ok (a_extras ?d)"
    "\<forall>e \<in> set (a_extras ?d). MIN_AUTO_EXTRA \<le> length (ae_data e) \<and> \<not> matches_extra (ae_data e) (extras dict_zero)"
    using t by (simp_all add: autos_ok_def dict_sizes matches_extra_def dict_zero_def)
  have a: "\<forall>i. auto_name (out_dir afl_zero @ ''/queue'') i \<notin> fst ` set (disk afl_zero)" by (simp add: afl_zero_def)
  have z: "a_extras dict_zero = []" by (simp add: dict_zero_def)
  have w: "disk_ok edge_world" by (simp add: disk_ok_def edge_world_def)
  obtain a1 d1 where s: "save_auto edge_world ?d afl_zero = Inr (Some (?d\<lparr>auto_changed := False\<rparr>, a1))"
    and l: "load_auto glibc 1 (Inl (PFATAL ''urandom'')) (read_disk a1) (out_dir afl_zero @ ''/queue'') dict_zero afl_zero = Inr (Some (d1, afl_zero))"
    and m: "mset (a_extras d1) = mset (map (\<lambda>e. fresh_auto (ae_data e)) (take USE_AUTO_EXTRAS (a_extras ?d)))"
    using autos_saved_and_loaded [OF glibc_ok w d a z, of 1 "Inl (PFATAL ''urandom'')" afl_zero] by blast
  from m have "mset (a_extras d1) = {#fresh_auto [73, 72, 68, 82]#}" by (simp add: dict_sizes)
  then have "a_extras d1 = [fresh_auto [73, 72, 68, 82]]" by (simp add: mset_single_iff)
  with s l show ?thesis by (intro exI [of _ edge_world] exI [of _ ?d] exI [of _ afl_zero] exI [of _ a1] exI [of _ d1]) simp
qed

end
