(* ===== verification/Det_Stages.thy ===== *)
theory Det_Stages
  imports Auto_Extras "HOL-Library.Sublist"
begin

text \<open>
  The deterministic stages of \<open>fuzz_one_original\<close> (src/afl-fuzz-one.c): walking bit and byte flips with
  the collection of automatic tokens, additions and subtractions, interesting values, and the
  overwriting and inserting of dictionary tokens. Every stage edits \<open>out_buf\<close>, runs the target through
  \<open>common_fuzz_stuff\<close> and undoes the edit. The introspection log and the display names of the stages are left out.
\<close>

section \<open>State and control\<close>

text \<open>
  What is fixed while the stages run: the world outside, the test case \<open>in_buf\<close>, the map of effective
  bytes, the time at which they began, and the option \<open>no_arith\<close>.
\<close>

record det_env =
  e_world :: outside
  e_fuel :: nat
  e_libc :: libc
  e_urandom :: "(u64 \<times> u64 \<times> u64) res"
  e_in_buf :: bytes
  e_skip_eff_map :: bytes
  e_before_det_time :: u64
  e_no_arith :: bool

text \<open>
  The local variables, the dictionary and the statistics. \<open>d_a_collect\<close> are the first \<open>a_len\<close> bytes of
  \<open>a_collect\<close>, at most \<open>MAX_AUTO_EXTRA\<close>.
\<close>

record det =
  d_afl :: afl_state
  d_out_buf :: bytes
  d_ex_tmp :: bytes
  d_dict :: dictionary
  d_a_collect :: bytes
  d_a_len :: u32
  d_prev_cksum :: u64
  d_clean_cksum :: u64
  d_last_len :: nat
  d_orig_hit_cnt :: u64
  d_stage_finds :: "nat \<Rightarrow> u64"
  d_stage_cycles :: "nat \<Rightarrow> u64"
  d_blocks_eff_select :: u32
  d_blocks_eff_total :: u32

text \<open>Where control goes: on to the next statement, or to one of two labels.\<close>

datatype label = Go_on | Custom_mutator_stage | Abandon_entry

type_synonym det_res = "(label \<times> det) option res"

definition dret :: "det \<Rightarrow> det_res" where
  "dret s = Inr (Some (Go_on, s))"

definition dbind :: "det_res \<Rightarrow> (det \<Rightarrow> det_res) \<Rightarrow> det_res" where
  "dbind m f = rbind m (\<lambda>r. case r of None \<Rightarrow> Inr None | Some (l, s) \<Rightarrow> if l = Go_on then f s else Inr (Some (l, s)))"

fun dfor :: "('i \<Rightarrow> det \<Rightarrow> det_res) \<Rightarrow> 'i list \<Rightarrow> det \<Rightarrow> det_res" where
  "dfor f [] s = dret s"
| "dfor f (i # is) s = dbind (f i s) (dfor f is)"

definition on_afl :: "(afl_state \<Rightarrow> afl_state) \<Rightarrow> det \<Rightarrow> det" where
  "on_afl f s = s\<lparr>d_afl := f (d_afl s)\<rparr>"

definition in_len :: "det_env \<Rightarrow> nat" where
  "in_len e = length (e_in_buf e)"

text \<open>Running the target on a buffer.\<close>

definition try_buf :: "det_env \<Rightarrow> bytes \<Rightarrow> det \<Rightarrow> det_res" where
  "try_buf e buf s =
     rbind (common_fuzz_stuff (e_world e) (e_fuel e) buf (word_of_nat (length buf)) (d_afl s)) (\<lambda>r.
       case r of
         None \<Rightarrow> Inr None
       | Some (abandon, a) \<Rightarrow> Inr (Some (if abandon then Abandon_entry else Go_on, s\<lparr>d_afl := a\<rparr>)))"

definition MAX_DET_TIMEOUT :: u64 where
  "MAX_DET_TIMEOUT = 15 * 60 * 1000"

definition is_det_timeout :: "det_env \<Rightarrow> det \<Rightarrow> bool" where
  "is_det_timeout e s \<longleftrightarrow> MAX_DET_TIMEOUT < o_time (e_world e) (d_afl s) - e_before_det_time e"

definition effective :: "det_env \<Rightarrow> nat \<Rightarrow> bool" where
  "effective e i \<longleftrightarrow> bit (e_skip_eff_map e ! (i div 8)) (i mod 8)"

text \<open>The two checks at the head of every iteration.\<close>

definition at_byte :: "det_env \<Rightarrow> nat \<Rightarrow> (det \<Rightarrow> det_res) \<Rightarrow> det \<Rightarrow> det_res" where
  "at_byte e i body s =
     (if length (e_skip_eff_map e) \<le> i div 8 then Inl (UB ''read past skip_eff_map'')
      else if \<not> effective e i then dret s
      else if is_det_timeout e s then Inr (Some (Custom_mutator_stage, s))
      else body s)"

definition begin_stage :: "string \<Rightarrow> u32 \<Rightarrow> det \<Rightarrow> det" where
  "begin_stage name n = on_afl (\<lambda>a. a\<lparr>stage_short := name, stage_cur := 0, stage_max := n\<rparr>)"

definition end_stage :: "nat \<Rightarrow> det \<Rightarrow> det" where
  "end_stage k s =
     (let new_hit_cnt = ucast (queued_items (d_afl s)) + saved_crashes (d_afl s)
      in s\<lparr>d_stage_finds := (d_stage_finds s)(k := d_stage_finds s k + (new_hit_cnt - d_orig_hit_cnt s)),
           d_stage_cycles := (d_stage_cycles s)(k := d_stage_cycles s k + ucast (stage_max (d_afl s))),
           d_orig_hit_cnt := new_hit_cnt\<rparr>)"

section \<open>Edits\<close>

definition FLIP_BIT :: "nat \<Rightarrow> bytes \<Rightarrow> bytes" where
  "FLIP_BIT b ar = ar[b div 8 := ar ! (b div 8) XOR drop_bit (b mod 8) 128]"

definition flip_bits :: "nat \<Rightarrow> nat \<Rightarrow> bytes \<Rightarrow> bytes" where
  "flip_bits n b ar = fold FLIP_BIT [b..<b + n] ar"

text \<open>A little-endian value of \<open>k\<close> bytes at offset \<open>i\<close>.\<close>

definition get_val :: "nat \<Rightarrow> nat \<Rightarrow> bytes \<Rightarrow> u32" where
  "get_val k i buf = load_le (take k (drop i buf))"

definition memcpy_at :: "nat \<Rightarrow> bytes \<Rightarrow> bytes \<Rightarrow> bytes" where
  "memcpy_at i t buf = take i buf @ t @ drop (i + length t) buf"

definition put_val :: "nat \<Rightarrow> nat \<Rightarrow> u32 \<Rightarrow> bytes \<Rightarrow> bytes" where
  "put_val k i v buf = memcpy_at i (store_le k v) buf"

definition flip_bytes :: "nat \<Rightarrow> nat \<Rightarrow> bytes \<Rightarrow> bytes" where
  "flip_bytes k i buf = put_val k i (get_val k i buf XOR mask (8 * k)) buf"

section \<open>Bit flips\<close>

text \<open>The collection of tokens while the lowest bit of every byte is flipped.\<close>

definition collect :: "nat \<Rightarrow> det \<Rightarrow> det" where
  "collect i s =
     s\<lparr>d_a_collect := if d_a_len s < word_of_nat MAX_AUTO_EXTRA then d_a_collect s @ [d_out_buf s ! i] else d_a_collect s,
       d_a_len := d_a_len s + 1\<rparr>"

definition offer_token :: "det_env \<Rightarrow> det \<Rightarrow> det_res" where
  "offer_token e s =
     (if word_of_nat MIN_AUTO_EXTRA \<le> d_a_len s \<and> d_a_len s \<le> word_of_nat MAX_AUTO_EXTRA
      then rbind (maybe_add_auto (e_libc e) (e_fuel e) (e_urandom e) (d_a_collect s) (d_dict s) (d_afl s)) (\<lambda>r.
             case r of None \<Rightarrow> Inr None | Some (d, a) \<Rightarrow> dret (s\<lparr>d_dict := d, d_afl := a\<rparr>))
      else dret s)"

definition collect_token :: "det_env \<Rightarrow> nat \<Rightarrow> det \<Rightarrow> det_res" where
  "collect_token e b s =
     (if non_instrumented_mode (d_afl s) \<or> b mod 8 \<noteq> 7 then dret s
      else
        let f = fsrv (d_afl s);
            cksum = o_hash64 (e_world e) (take (unat (map_size f)) (trace_bits f))
        in dbind
             (if stage_cur (d_afl s) = stage_max (d_afl s) - 1 \<and> cksum = d_prev_cksum s then offer_token e (collect (b div 8) s)
              else if cksum \<noteq> d_prev_cksum s
              then dbind (offer_token e s) (\<lambda>s. dret (s\<lparr>d_a_collect := [], d_a_len := 0, d_prev_cksum := cksum\<rparr>))
              else dret s)
             (\<lambda>s. dret (if cksum \<noteq> d_clean_cksum s then collect (b div 8) s else s)))"

definition walk_bits :: "det_env \<Rightarrow> nat \<Rightarrow> (nat \<Rightarrow> det \<Rightarrow> det_res) \<Rightarrow> nat \<Rightarrow> det \<Rightarrow> det_res" where
  "walk_bits e n after b s =
     at_byte e (b div 8) (\<lambda>s.
       let s = s\<lparr>d_out_buf := flip_bits n b (d_out_buf s)\<rparr>
       in dbind (try_buf e (d_out_buf s) s) (\<lambda>s. after b (s\<lparr>d_out_buf := flip_bits n b (d_out_buf s)\<rparr>)))
       (on_afl (\<lambda>a. a\<lparr>stage_cur := word_of_nat b, stage_cur_byte := int (b div 8)\<rparr>) s)"

definition clean_run :: "det_env \<Rightarrow> det \<Rightarrow> det_res" where
  "clean_run e s =
     dbind (try_buf e (d_out_buf s) s) (\<lambda>s.
       let f = fsrv (d_afl s); cksum = o_hash64 (e_world e) (take (unat (map_size f)) (trace_bits f))
       in dret (s\<lparr>d_prev_cksum := cksum, d_clean_cksum := cksum\<rparr>))"

definition flip1_stage :: "det_env \<Rightarrow> det \<Rightarrow> det_res" where
  "flip1_stage e s =
     (let s = on_afl (\<lambda>a. a\<lparr>stage_short := ''flip1'', stage_max := word_of_nat (8 * in_len e), stage_val_type := STAGE_VAL_NONE\<rparr>) s;
          s = s\<lparr>d_orig_hit_cnt := ucast (queued_items (d_afl s)) + saved_crashes (d_afl s)\<rparr>
      in dbind (clean_run e s) (\<lambda>s.
         dbind (dfor (walk_bits e 1 (collect_token e)) [0..<8 * in_len e] s) (\<lambda>s. dret (end_stage 0 s))))"

definition flip_stage :: "det_env \<Rightarrow> nat \<Rightarrow> string \<Rightarrow> nat \<Rightarrow> det \<Rightarrow> det_res" where
  "flip_stage e n name k s =
     (let s = begin_stage name (word_of_nat (8 * in_len e) - word_of_nat (n - 1)) s
      in dbind (dfor (walk_bits e n (\<lambda>b. dret)) [0..<unat (stage_max (d_afl s))] s) (\<lambda>s. dret (end_stage k s)))"

definition walk_byte :: "det_env \<Rightarrow> nat \<Rightarrow> det \<Rightarrow> det_res" where
  "walk_byte e i s =
     at_byte e i (\<lambda>s.
       let s = s\<lparr>d_out_buf := (d_out_buf s)[i := d_out_buf s ! i XOR 0xFF]\<rparr>
       in dbind (try_buf e (d_out_buf s) s) (\<lambda>s. dret (s\<lparr>d_out_buf := (d_out_buf s)[i := d_out_buf s ! i XOR 0xFF]\<rparr>)))
       (on_afl (\<lambda>a. a\<lparr>stage_cur := word_of_nat i, stage_cur_byte := int i\<rparr>) s)"

definition count_effective :: "det_env \<Rightarrow> det \<Rightarrow> det" where
  "count_effective e s =
     s\<lparr>d_blocks_eff_select := d_blocks_eff_select s + word_of_nat (length (filter (effective e) [0..<in_len e])),
       d_blocks_eff_total := d_blocks_eff_total s + word_of_nat (in_len e)\<rparr>"

definition flip8_stage :: "det_env \<Rightarrow> det \<Rightarrow> det_res" where
  "flip8_stage e s =
     (let s = begin_stage ''flip8'' (word_of_nat (in_len e)) (s\<lparr>d_prev_cksum := d_clean_cksum s\<rparr>)
      in dbind (dfor (walk_byte e) [0..<in_len e] s) (\<lambda>s. dret (end_stage 3 (count_effective e s))))"

text \<open>Flips of two and of four bytes.\<close>

definition walk_word :: "det_env \<Rightarrow> nat \<Rightarrow> nat \<Rightarrow> det \<Rightarrow> det_res" where
  "walk_word e k i s =
     at_byte e i (\<lambda>s.
       let s = on_afl (\<lambda>a. a\<lparr>stage_cur_byte := int i\<rparr>) (s\<lparr>d_out_buf := flip_bytes k i (d_out_buf s)\<rparr>)
       in dbind (try_buf e (d_out_buf s) s) (\<lambda>s.
            dret (on_afl (\<lambda>a. a\<lparr>stage_cur := stage_cur a + 1\<rparr>) (s\<lparr>d_out_buf := flip_bytes k i (d_out_buf s)\<rparr>)))) s"

definition flip_word_stage :: "det_env \<Rightarrow> nat \<Rightarrow> string \<Rightarrow> nat \<Rightarrow> det \<Rightarrow> det_res" where
  "flip_word_stage e k name idx s =
     (let s = begin_stage name (word_of_nat (in_len e - (k - 1))) s
      in dbind (dfor (walk_word e k) [0..<in_len e - (k - 1)] s) (\<lambda>s. dret (end_stage idx s)))"

definition bitflips :: "det_env \<Rightarrow> det \<Rightarrow> det_res" where
  "bitflips e s =
     dbind (flip1_stage e s) (\<lambda>s.
     dbind (flip_stage e 2 ''flip2'' 1 s) (\<lambda>s.
     dbind (flip_stage e 4 ''flip4'' 2 s) (\<lambda>s.
     dbind (flip8_stage e s) (\<lambda>s.
       if in_len e < 2 then dret s
       else dbind (flip_word_stage e 2 ''flip16'' 4 s) (\<lambda>s.
         if in_len e < 4 then dret s else flip_word_stage e 4 ''flip32'' 5 s)))))"

section \<open>Arithmetic\<close>

text \<open>
  One candidate value of \<open>k\<close> bytes: it is tried when the condition holds, and otherwise the stage gets shorter.
\<close>

definition attempt :: "det_env \<Rightarrow> nat \<Rightarrow> nat \<Rightarrow> bool \<Rightarrow> int \<Rightarrow> u32 \<Rightarrow> det \<Rightarrow> det_res" where
  "attempt e k i wanted val v s =
     (if wanted
      then let s = on_afl (\<lambda>a. a\<lparr>stage_cur_val := val\<rparr>) (s\<lparr>d_out_buf := put_val k i v (d_out_buf s)\<rparr>)
           in dbind (try_buf e (d_out_buf s) s) (\<lambda>s. dret (on_afl (\<lambda>a. a\<lparr>stage_cur := stage_cur a + 1\<rparr>) s))
      else dret (on_afl (\<lambda>a. a\<lparr>stage_max := stage_max a - 1\<rparr>) s))"

definition restore_val :: "nat \<Rightarrow> nat \<Rightarrow> u32 \<Rightarrow> det \<Rightarrow> det_res" where
  "restore_val k i orig s = dret (s\<lparr>d_out_buf := put_val k i orig (d_out_buf s)\<rparr>)"

definition val_type :: "stage_val_type \<Rightarrow> det \<Rightarrow> det" where
  "val_type t = on_afl (\<lambda>a. a\<lparr>stage_val_type := t\<rparr>)"

definition arith8_step :: "det_env \<Rightarrow> nat \<Rightarrow> u32 \<Rightarrow> nat \<Rightarrow> det \<Rightarrow> det_res" where
  "arith8_step e i orig j s =
     (let up = take_bit 8 (orig + word_of_nat j); down = take_bit 8 (orig - word_of_nat j)
      in dbind (attempt e 1 i (\<not> could_be_bitflip (orig XOR up)) (int j) up s) (\<lambda>s.
         dbind (attempt e 1 i (\<not> could_be_bitflip (orig XOR down)) (- int j) down s) (restore_val 1 i orig)))"

definition arith16_step :: "det_env \<Rightarrow> nat \<Rightarrow> u32 \<Rightarrow> nat \<Rightarrow> det \<Rightarrow> det_res" where
  "arith16_step e i orig j s =
     (let d = word_of_nat j;
          v1 = take_bit 16 (orig + d); v2 = take_bit 16 (orig - d);
          v3 = SWAP16 (SWAP16 orig + d); v4 = SWAP16 (SWAP16 orig - d)
      in dbind (attempt e 2 i (0xff < (orig AND 0xff) + d \<and> \<not> could_be_bitflip (orig XOR v1)) (int j) v1 (val_type STAGE_VAL_LE s)) (\<lambda>s.
         dbind (attempt e 2 i ((orig AND 0xff) < d \<and> \<not> could_be_bitflip (orig XOR v2)) (- int j) v2 s) (\<lambda>s.
         dbind (attempt e 2 i (0xff < drop_bit 8 orig + d \<and> \<not> could_be_bitflip (orig XOR v3)) (int j) v3 (val_type STAGE_VAL_BE s)) (\<lambda>s.
         dbind (attempt e 2 i (drop_bit 8 orig < d \<and> \<not> could_be_bitflip (orig XOR v4)) (- int j) v4 s) (restore_val 2 i orig)))))"

definition arith32_step :: "det_env \<Rightarrow> nat \<Rightarrow> u32 \<Rightarrow> nat \<Rightarrow> det \<Rightarrow> det_res" where
  "arith32_step e i orig j s =
     (let d = word_of_nat j;
          v1 = orig + d; v2 = orig - d; v3 = SWAP32 (SWAP32 orig + d); v4 = SWAP32 (SWAP32 orig - d)
      in dbind (attempt e 4 i (0xffff < (orig AND 0xffff) + d \<and> \<not> could_be_bitflip (orig XOR v1)) (int j) v1 (val_type STAGE_VAL_LE s)) (\<lambda>s.
         dbind (attempt e 4 i ((orig AND 0xffff) < d \<and> \<not> could_be_bitflip (orig XOR v2)) (- int j) v2 s) (\<lambda>s.
         dbind (attempt e 4 i (0xffff < (SWAP32 orig AND 0xffff) + d \<and> \<not> could_be_bitflip (orig XOR v3)) (int j) v3 (val_type STAGE_VAL_BE s)) (\<lambda>s.
         dbind (attempt e 4 i ((SWAP32 orig AND 0xffff) < d \<and> \<not> could_be_bitflip (orig XOR v4)) (- int j) v4 s) (restore_val 4 i orig)))))"

text \<open>All values at one offset, then at all offsets.\<close>

definition arith_at :: "det_env \<Rightarrow> nat \<Rightarrow> (nat \<Rightarrow> u32 \<Rightarrow> nat \<Rightarrow> det \<Rightarrow> det_res) \<Rightarrow> nat \<Rightarrow> det \<Rightarrow> det_res" where
  "arith_at e k step i s =
     (let orig = get_val k i (d_out_buf s)
      in at_byte e i (\<lambda>s. dfor (step i orig) [1..<ARITH_MAX + 1] (on_afl (\<lambda>a. a\<lparr>stage_cur_byte := int i\<rparr>) s)) s)"

definition arith_stage ::
  "det_env \<Rightarrow> nat \<Rightarrow> (nat \<Rightarrow> u32 \<Rightarrow> nat \<Rightarrow> det \<Rightarrow> det_res) \<Rightarrow> string \<Rightarrow> u32 \<Rightarrow> nat \<Rightarrow> det \<Rightarrow> det_res" where
  "arith_stage e k step name per_byte idx s =
     dbind (dfor (arith_at e k step) [0..<in_len e - (k - 1)]
              (begin_stage name (per_byte * word_of_nat (in_len e - (k - 1)) * word_of_nat ARITH_MAX) s))
       (\<lambda>s. dret (end_stage idx s))"

definition ariths :: "det_env \<Rightarrow> det \<Rightarrow> det_res" where
  "ariths e s =
     (if e_no_arith e then dret s
      else dbind (arith_stage e 1 (arith8_step e) ''arith8'' 2 6 (val_type STAGE_VAL_LE s)) (\<lambda>s.
        if in_len e < 2 then dret s
        else dbind (arith_stage e 2 (arith16_step e) ''arith16'' 4 7 s) (\<lambda>s.
          if in_len e < 4 then dret s else arith_stage e 4 (arith32_step e) ''arith32'' 4 8 s)))"

section \<open>Interesting values\<close>

definition interest8_step :: "det_env \<Rightarrow> nat \<Rightarrow> u32 \<Rightarrow> int \<Rightarrow> det \<Rightarrow> det_res" where
  "interest8_step e i orig v s =
     (let x = take_bit 8 (word_of_int v)
      in if could_be_bitflip (orig XOR x) \<or> could_be_arith orig x 1
         then dret (on_afl (\<lambda>a. a\<lparr>stage_max := stage_max a - 1\<rparr>) s)
         else let s = on_afl (\<lambda>a. a\<lparr>stage_cur_val := v\<rparr>) (s\<lparr>d_out_buf := put_val 1 i x (d_out_buf s)\<rparr>)
              in dbind (try_buf e (d_out_buf s) s) (\<lambda>s.
                   dret (on_afl (\<lambda>a. a\<lparr>stage_cur := stage_cur a + 1\<rparr>) (s\<lparr>d_out_buf := put_val 1 i orig (d_out_buf s)\<rparr>))))"

definition interest_try :: "det_env \<Rightarrow> nat \<Rightarrow> nat \<Rightarrow> bool \<Rightarrow> stage_val_type \<Rightarrow> u32 \<Rightarrow> det \<Rightarrow> det_res" where
  "interest_try e k i wanted t x s =
     (if wanted
      then let s = val_type t (s\<lparr>d_out_buf := put_val k i x (d_out_buf s)\<rparr>)
           in dbind (try_buf e (d_out_buf s) s) (\<lambda>s. dret (on_afl (\<lambda>a. a\<lparr>stage_cur := stage_cur a + 1\<rparr>) s))
      else dret (on_afl (\<lambda>a. a\<lparr>stage_max := stage_max a - 1\<rparr>) s))"

definition interest_step :: "det_env \<Rightarrow> nat \<Rightarrow> (u32 \<Rightarrow> u32) \<Rightarrow> nat \<Rightarrow> u32 \<Rightarrow> int \<Rightarrow> det \<Rightarrow> det_res" where
  "interest_step e k swap i orig v s =
     (let x = take_bit (8 * k) (word_of_int v); y = swap (word_of_int v); blen = word_of_nat k
      in dbind (interest_try e k i
                 (\<not> could_be_bitflip (orig XOR x) \<and> \<not> could_be_arith orig x blen \<and> \<not> could_be_interest orig x blen False)
                 STAGE_VAL_LE x (on_afl (\<lambda>a. a\<lparr>stage_cur_val := v\<rparr>) s))
           (interest_try e k i
              (x \<noteq> y \<and> \<not> could_be_bitflip (orig XOR y) \<and> \<not> could_be_arith orig y blen \<and> \<not> could_be_interest orig y blen True)
              STAGE_VAL_BE y))"

text \<open>The bytes are restored after every value in the 8-bit stage, after the last value in the others.\<close>

definition finish :: "nat \<Rightarrow> nat \<Rightarrow> u32 \<Rightarrow> det \<Rightarrow> det_res" where
  "finish k i orig = (if k = 1 then dret else restore_val k i orig)"

definition interest_at ::
  "det_env \<Rightarrow> nat \<Rightarrow> int list \<Rightarrow> (nat \<Rightarrow> u32 \<Rightarrow> int \<Rightarrow> det \<Rightarrow> det_res) \<Rightarrow> nat \<Rightarrow> det \<Rightarrow> det_res" where
  "interest_at e k vs step i s =
     (let orig = get_val k i (d_out_buf s)
      in at_byte e i (\<lambda>s. dbind (dfor (step i orig) vs (on_afl (\<lambda>a. a\<lparr>stage_cur_byte := int i\<rparr>) s)) (finish k i orig)) s)"

definition interest_stage ::
  "det_env \<Rightarrow> nat \<Rightarrow> int list \<Rightarrow> (nat \<Rightarrow> u32 \<Rightarrow> int \<Rightarrow> det \<Rightarrow> det_res) \<Rightarrow> string \<Rightarrow> u32 \<Rightarrow> nat \<Rightarrow> det \<Rightarrow> det_res" where
  "interest_stage e k vs step name per_byte idx s =
     dbind (dfor (interest_at e k vs step) [0..<in_len e - (k - 1)]
              (begin_stage name (per_byte * word_of_nat (in_len e - (k - 1)) * word_of_nat (length vs)) s))
       (\<lambda>s. dret (end_stage idx s))"

definition interests :: "det_env \<Rightarrow> det \<Rightarrow> det_res" where
  "interests e s =
     dbind (interest_stage e 1 interesting_8 (interest8_step e) ''int8'' 1 9 (val_type STAGE_VAL_LE s)) (\<lambda>s.
       if e_no_arith e \<or> in_len e < 2 then dret s
       else dbind (interest_stage e 2 interesting_16 (interest_step e 2 SWAP16) ''int16'' 2 10 s) (\<lambda>s.
         if in_len e < 4 then dret s
         else interest_stage e 4 interesting_32 (interest_step e 4 SWAP32) ''int32'' 2 11 s))"

section \<open>Dictionary tokens\<close>

text \<open>Whether a token of the user's dictionary is skipped at random, because there are many.\<close>

definition skip_at_random :: "det_env \<Rightarrow> det \<Rightarrow> (bool \<times> afl_state) option res" where
  "skip_at_random e s =
     (let n = word_of_nat (length (extras (d_dict s))) :: u32; m = max_det_extras (d_dict s)
      in if n \<le> m then Inr (Some (False, d_afl s))
         else rbind (rand_below (e_fuel e) (e_urandom e) n (d_afl s)) (\<lambda>r.
                Inr (map_option (\<lambda>(v, a). (m \<le> v, a)) r)))"

text \<open>One token over the bytes at \<open>i\<close>.\<close>

definition over_token :: "det_env \<Rightarrow> nat \<Rightarrow> bytes \<Rightarrow> det \<Rightarrow> det_res" where
  "over_token e i t s =
     (if in_len e - i < length t \<or> t = take (length t) (drop i (d_out_buf s))
      then dret (on_afl (\<lambda>a. a\<lparr>stage_max := stage_max a - 1\<rparr>) s)
      else let s = s\<lparr>d_last_len := length t, d_out_buf := memcpy_at i t (d_out_buf s)\<rparr>
           in dbind (try_buf e (d_out_buf s) s) (\<lambda>s. dret (on_afl (\<lambda>a. a\<lparr>stage_cur := stage_cur a + 1\<rparr>) s)))"

definition over_user_token :: "det_env \<Rightarrow> nat \<Rightarrow> bytes \<Rightarrow> det \<Rightarrow> det_res" where
  "over_user_token e i t s =
     rbind (skip_at_random e s) (\<lambda>r.
       case r of
         None \<Rightarrow> Inr None
       | Some (skip, a) \<Rightarrow>
           let s = s\<lparr>d_afl := a\<rparr>
           in if skip then dret (on_afl (\<lambda>a. a\<lparr>stage_max := stage_max a - 1\<rparr>) s) else over_token e i t s)"

definition over_at :: "det_env \<Rightarrow> (nat \<Rightarrow> bytes \<Rightarrow> det \<Rightarrow> det_res) \<Rightarrow> (det \<Rightarrow> bytes list) \<Rightarrow> nat \<Rightarrow> det \<Rightarrow> det_res" where
  "over_at e step ts i s =
     at_byte e i (\<lambda>s.
       dbind (dfor (step i) (ts s) (on_afl (\<lambda>a. a\<lparr>stage_cur_byte := int i\<rparr>) (s\<lparr>d_last_len := 0\<rparr>))) (\<lambda>s.
         dret (s\<lparr>d_out_buf := memcpy_at i (take (d_last_len s) (drop i (e_in_buf e))) (d_out_buf s)\<rparr>))) s"

definition over_stage ::
  "det_env \<Rightarrow> (nat \<Rightarrow> bytes \<Rightarrow> det \<Rightarrow> det_res) \<Rightarrow> (det \<Rightarrow> bytes list) \<Rightarrow> string \<Rightarrow> nat \<Rightarrow> det \<Rightarrow> det_res" where
  "over_stage e step ts name idx s =
     (let s = val_type STAGE_VAL_NONE (begin_stage name (word_of_nat (length (ts s)) * word_of_nat (in_len e)) s)
      in dbind (dfor (over_at e step ts) [0..<in_len e] s) (\<lambda>s. dret (end_stage idx s)))"

text \<open>
  One token inserted at \<open>i\<close> in \<open>ex_tmp\<close>. Its first \<open>i\<close> bytes are what earlier iterations left there.
\<close>

definition insert_token :: "det_env \<Rightarrow> nat \<Rightarrow> bytes \<Rightarrow> det \<Rightarrow> det_res" where
  "insert_token e i t s =
     (if unat MAX_FILE < in_len e + length t
      then dret (on_afl (\<lambda>a. a\<lparr>stage_max := stage_max a - 1\<rparr>) s)
      else let s = s\<lparr>d_ex_tmp := memcpy_at (i + length t) (drop i (d_out_buf s)) (memcpy_at i t (d_ex_tmp s))\<rparr>
           in dbind (try_buf e (take (in_len e + length t) (d_ex_tmp s)) s) (\<lambda>s.
                dret (on_afl (\<lambda>a. a\<lparr>stage_cur := stage_cur a + 1\<rparr>) s)))"

text \<open>
  The last iteration copies the byte after the test case, which is not used any more: it is left out.
\<close>

definition insert_at_byte :: "det_env \<Rightarrow> (det \<Rightarrow> bytes list) \<Rightarrow> nat \<Rightarrow> det \<Rightarrow> det_res" where
  "insert_at_byte e ts i s =
     at_byte e (i mod in_len e) (\<lambda>s.
       dbind (dfor (insert_token e i) (ts s) (on_afl (\<lambda>a. a\<lparr>stage_cur_byte := int i\<rparr>) s)) (\<lambda>s.
         dret (if i < in_len e then s\<lparr>d_ex_tmp := (d_ex_tmp s)[i := d_out_buf s ! i]\<rparr> else s))) s"

text \<open>\<open>afl_realloc\<close> makes room for a token of any size; what is new in the buffer is unspecified.\<close>

definition grow_ex_tmp :: "bytes \<Rightarrow> det_env \<Rightarrow> det \<Rightarrow> det" where
  "grow_ex_tmp junk e s = s\<lparr>d_ex_tmp := d_ex_tmp s @ take (in_len e + MAX_DICT_FILE - length (d_ex_tmp s)) junk\<rparr>"

definition insert_stage :: "bytes \<Rightarrow> det_env \<Rightarrow> (det \<Rightarrow> bytes list) \<Rightarrow> string \<Rightarrow> nat \<Rightarrow> det \<Rightarrow> det_res" where
  "insert_stage junk e ts name idx s =
     (let s = grow_ex_tmp junk e (begin_stage name (word_of_nat (length (ts s)) * (word_of_nat (in_len e) + 1)) s)
      in dbind (dfor (insert_at_byte e ts) [0..<in_len e + 1] s) (\<lambda>s. dret (end_stage idx s)))"

definition user_tokens :: "det \<Rightarrow> bytes list" where
  "user_tokens s = extras (d_dict s)"

definition used_autos :: "det \<Rightarrow> bytes list" where
  "used_autos s = map ae_data (take USE_AUTO_EXTRAS (a_extras (d_dict s)))"

definition all_autos :: "det \<Rightarrow> bytes list" where
  "all_autos s = map ae_data (a_extras (d_dict s))"

definition user_extras :: "bytes \<Rightarrow> det_env \<Rightarrow> det \<Rightarrow> det_res" where
  "user_extras junk e s =
     (if extras (d_dict s) = [] then dret s
      else dbind (over_stage e (over_user_token e) user_tokens ''ext_UO'' 12 s) (insert_stage junk e user_tokens ''ext_UI'' 13))"

definition auto_extras :: "bytes \<Rightarrow> det_env \<Rightarrow> det \<Rightarrow> det_res" where
  "auto_extras junk e s =
     (if a_extras (d_dict s) = [] then dret s
      else dbind (over_stage e (over_token e) used_autos ''ext_AO'' 14 s) (insert_stage junk e all_autos ''ext_AI'' 15))"

section \<open>All stages\<close>

text \<open>
  Whether \<open>fuzz_one_original\<close> passes over the deterministic stages for the current entry, once the effective bytes
  are known: on request, when the entry went through them before or has no effective byte, when its score is low for
  its depth, and when another main instance is responsible for it.
\<close>

definition skips_det :: "bool \<Rightarrow> u32 \<Rightarrow> u32 \<Rightarrow> u32 \<Rightarrow> afl_state \<Rightarrow> bool res" where
  "skips_det skip_deterministic main_node_id main_node_max perf_score a =
     (case queue_cur a of
        None \<Rightarrow> Inl (UB ''null pointer'')
      | Some k \<Rightarrow>
          let q = queue_buf a ! k; limit = ucast (havoc_max_mult a) * 100 :: u64
          in case q_skipdet_e q of
               None \<Rightarrow> Inl (UB ''null pointer'')
             | Some d \<Rightarrow> Inr (skip_deterministic \<or> q_passed_det q \<or> quick_eff_bytes d = 0 \<or>
                 ucast perf_score < (if q_depth q * 30 \<le> limit then q_depth q * 30 else limit) \<or>
                 (main_node_max \<noteq> 0 \<and> q_exec_cksum q mod ucast main_node_max \<noteq> ucast (main_node_id - 1))))"

text \<open>
  From the first flip to the label \<open>custom_mutator_stage\<close>. \<open>created\<close>, \<open>chown_needed\<close> and \<open>owned\<close> are the outcomes of creating
  the marker file.
\<close>

definition finish_det :: "bool \<Rightarrow> bool \<Rightarrow> bool \<Rightarrow> det \<Rightarrow> det_res" where
  "finish_det created chown_needed owned s =
     (case queue_cur (d_afl s) of
        None \<Rightarrow> Inl (UB ''null pointer'')
      | Some k \<Rightarrow>
          if q_passed_det (queue_buf (d_afl s) ! k) then Inr (Some (Custom_mutator_stage, s))
          else rbind (mark_as_det_done created chown_needed owned k (d_afl s)) (\<lambda>a.
                 Inr (Some (Custom_mutator_stage, s\<lparr>d_afl := a\<rparr>))))"

definition deterministic_stages :: "bytes \<Rightarrow> bool \<Rightarrow> bool \<Rightarrow> bool \<Rightarrow> det_env \<Rightarrow> det \<Rightarrow> det_res" where
  "deterministic_stages junk created chown_needed owned e s =
     dbind (bitflips e s) (\<lambda>s.
     dbind (ariths e s) (\<lambda>s.
     dbind (interests e s) (\<lambda>s.
     dbind (user_extras junk e s) (\<lambda>s.
     dbind (auto_extras junk e s) (finish_det created chown_needed owned)))))"

end
