(* ===== verification/Det_Runs.thy ===== *)
theory Det_Runs
  imports Det_Stages
begin

text \<open>
  The test cases that the deterministic stages run, in which order, and that the stages leave the
  buffer as they found it. The first part is a logic of stages; every stage then gets its rule, and
  the rules compose as the stages do.
\<close>

section \<open>Traces of executed test cases\<close>

text \<open>
  \<open>executes e a xs b\<close>: between the states \<open>a\<close> and \<open>b\<close> the target was run on the test cases \<open>xs\<close>, in this
  order, and nothing else happened except to the variables that describe the stage and to the
  random seeds.
\<close>

definition stage_core :: "afl_state \<Rightarrow> afl_state" where
  "stage_core a = a\<lparr>stage_short := [], stage_cur := 0, stage_max := 0, stage_cur_byte := 0, stage_val_type := STAGE_VAL_NONE,
     stage_cur_val := 0, rand_cnt := 0, rand_seed0 := 0, rand_seed1 := 0, rand_seed2 := 0\<rparr>"

inductive executes :: "det_env \<Rightarrow> afl_state \<Rightarrow> bytes list \<Rightarrow> afl_state \<Rightarrow> bool" for e where
  executes_none: "stage_core b = stage_core a \<Longrightarrow> executes e a [] b"
| executes_run: "executes e a xs b \<Longrightarrow>
    common_fuzz_stuff (e_world e) (e_fuel e) x (word_of_nat (length x)) b = Inr (Some (r, c)) \<Longrightarrow>
    stage_core d = stage_core c \<Longrightarrow> executes e a (xs @ [x]) d"

lemma executes_core: "executes e a xs b \<Longrightarrow> stage_core c = stage_core b \<Longrightarrow> executes e a xs c"
  by (cases rule: executes.cases) (auto intro: executes.intros)

lemma executes_append:
  assumes "executes e b ys c" and "executes e a xs b"
  shows "executes e a (xs @ ys) c"
  using assms
proof (induction rule: executes.induct)
  case (executes_none c b)
  then show ?case by (simp add: executes_core)
next
  case (executes_run b ys c x r d c')
  then show ?case using executes.executes_run by (metis append_assoc)
qed

lemma executes_prepend: "executes e b xs c \<Longrightarrow> stage_core b = stage_core a \<Longrightarrow> executes e a xs c"
  using executes_append [of e b xs c a "[]"] executes_none [of b a e] by simp

lemma stage_core_rand: "rand_core b = rand_core a \<Longrightarrow> stage_core b = stage_core a"
proof -
  assume r: "rand_core b = rand_core a"
  have "stage_core x = (rand_core x)\<lparr>stage_short := [], stage_cur := 0, stage_max := 0, stage_cur_byte := 0,
      stage_val_type := STAGE_VAL_NONE, stage_cur_val := 0\<rparr>" for x by (simp add: stage_core_def rand_core_def)
  then show ?thesis using r by metis
qed

section \<open>A logic of stages\<close>

text \<open>
  \<open>follows\<close>: whenever the step returns, it has executed a prefix of the planned test cases; when control goes on
  it has executed all of them and \<open>Q\<close> holds, and when it jumps to the custom mutators \<open>C\<close> holds.
\<close>

definition follows :: "det_env \<Rightarrow> det \<Rightarrow> det_res \<Rightarrow> bytes list \<Rightarrow> (det \<Rightarrow> bool) \<Rightarrow> (det \<Rightarrow> bool) \<Rightarrow> bool" where
  "follows e s R P Q C \<longleftrightarrow> (\<forall>l s'. R = Inr (Some (l, s')) \<longrightarrow>
     (\<exists>xs. executes e (d_afl s) xs (d_afl s') \<and> prefix xs P \<and> (l = Go_on \<longrightarrow> xs = P \<and> Q s') \<and> (l = Custom_mutator_stage \<longrightarrow> C s')))"

text \<open>\<open>keeps\<close>: the same for a step whose test cases are only known to lie in \<open>S\<close>.\<close>

definition keeps :: "det_env \<Rightarrow> det \<Rightarrow> det_res \<Rightarrow> bytes set \<Rightarrow> (det \<Rightarrow> bool) \<Rightarrow> (det \<Rightarrow> bool) \<Rightarrow> bool" where
  "keeps e s R S Q C \<longleftrightarrow> (\<forall>l s'. R = Inr (Some (l, s')) \<longrightarrow>
     (\<exists>xs. executes e (d_afl s) xs (d_afl s') \<and> set xs \<subseteq> S \<and> (l = Go_on \<longrightarrow> Q s') \<and> (l = Custom_mutator_stage \<longrightarrow> C s')))"

lemma follows_keeps: "follows e s R P Q C \<Longrightarrow> set P \<subseteq> S \<Longrightarrow> keeps e s R S Q C"
  unfolding follows_def keeps_def using set_mono_prefix by fastforce

lemma dbind_ret [simp]: "dbind (dret s) f = f s"
  by (simp add: dbind_def dret_def)

lemma dbind_cases:
  assumes "dbind m f = Inr (Some (l, s'))"
  obtains s1 where "m = Inr (Some (Go_on, s1))" "f s1 = Inr (Some (l, s'))" | "m = Inr (Some (l, s'))" "l \<noteq> Go_on"
  using assms unfolding dbind_def by (auto simp: rbind_eq_Inr_iff split: option.splits if_splits)

lemma follows_ret: "Q s \<Longrightarrow> stage_core (d_afl s) = stage_core (d_afl s0) \<Longrightarrow> follows e s0 (dret s) [] Q C"
  by (auto simp: follows_def dret_def intro: executes_none)

lemma follows_pre: "follows e s R P Q C \<Longrightarrow> stage_core (d_afl s) = stage_core (d_afl s0) \<Longrightarrow> follows e s0 R P Q C"
  unfolding follows_def using executes_prepend by blast

lemma keeps_pre: "keeps e s R S Q C \<Longrightarrow> stage_core (d_afl s) = stage_core (d_afl s0) \<Longrightarrow> keeps e s0 R S Q C"
  unfolding keeps_def using executes_prepend by blast

lemma follows_bind:
  assumes "follows e s m P1 Q1 C" and "\<And>s1. Q1 s1 \<Longrightarrow> follows e s1 (f s1) P2 Q2 C"
  shows "follows e s (dbind m f) (P1 @ P2) Q2 C"
  unfolding follows_def
proof (intro allI impI)
  fix l s' assume "dbind m f = Inr (Some (l, s'))"
  then show "\<exists>xs. executes e (d_afl s) xs (d_afl s') \<and> prefix xs (P1 @ P2) \<and> (l = Go_on \<longrightarrow> xs = P1 @ P2 \<and> Q2 s') \<and>
      (l = Custom_mutator_stage \<longrightarrow> C s')"
  proof (cases rule: dbind_cases)
    case (1 s1)
    then have m: "executes e (d_afl s) P1 (d_afl s1)" "Q1 s1" using assms(1) unfolding follows_def by auto
    obtain ys where "executes e (d_afl s1) ys (d_afl s')" "prefix ys P2" "l = Go_on \<longrightarrow> ys = P2 \<and> Q2 s'" "l = Custom_mutator_stage \<longrightarrow> C s'"
      using assms(2) [OF m(2)] 1(2) unfolding follows_def by blast
    then show ?thesis using executes_append [OF _ m(1)] by (intro exI [of _ "P1 @ ys"]) auto
  next
    case 2
    then show ?thesis using assms(1) unfolding follows_def by (metis prefix_prefix)
  qed
qed

lemma keeps_bind:
  assumes "keeps e s m S Q1 C" and "\<And>s1. Q1 s1 \<Longrightarrow> keeps e s1 (f s1) S Q2 C"
  shows "keeps e s (dbind m f) S Q2 C"
  unfolding keeps_def
proof (intro allI impI)
  fix l s' assume "dbind m f = Inr (Some (l, s'))"
  then show "\<exists>xs. executes e (d_afl s) xs (d_afl s') \<and> set xs \<subseteq> S \<and> (l = Go_on \<longrightarrow> Q2 s') \<and> (l = Custom_mutator_stage \<longrightarrow> C s')"
  proof (cases rule: dbind_cases)
    case (1 s1)
    then obtain xs where m: "executes e (d_afl s) xs (d_afl s1)" "set xs \<subseteq> S" "Q1 s1" using assms(1) unfolding keeps_def by blast
    obtain ys where "executes e (d_afl s1) ys (d_afl s')" "set ys \<subseteq> S" "l = Go_on \<longrightarrow> Q2 s'" "l = Custom_mutator_stage \<longrightarrow> C s'"
      using assms(2) [OF m(3)] 1(2) unfolding keeps_def by blast
    then show ?thesis using executes_append [OF _ m(1)] m(2) by (intro exI [of _ "xs @ ys"]) auto
  next
    case 2
    then show ?thesis using assms(1) unfolding keeps_def by blast
  qed
qed

lemma follows_try: "(\<And>a. Q (s\<lparr>d_afl := a\<rparr>)) \<Longrightarrow> follows e s (try_buf e x s) [x] Q C"
proof (unfold follows_def, intro allI impI)
  fix l s' assume q: "\<And>a. Q (s\<lparr>d_afl := a\<rparr>)" and "try_buf e x s = Inr (Some (l, s'))"
  then obtain r a where "common_fuzz_stuff (e_world e) (e_fuel e) x (word_of_nat (length x)) (d_afl s) = Inr (Some (r, a))"
    and s': "s' = s\<lparr>d_afl := a\<rparr>" "l = (if r then Abandon_entry else Go_on)"
    by (auto simp: try_buf_def rbind_eq_Inr_iff split: option.splits)
  from executes_run [OF executes_none [OF refl] this(1) refl]
  have "executes e (d_afl s) [x] (d_afl s')" using s'(1) by simp
  then show "\<exists>xs. executes e (d_afl s) xs (d_afl s') \<and> prefix xs [x] \<and> (l = Go_on \<longrightarrow> xs = [x] \<and> Q s') \<and> (l = Custom_mutator_stage \<longrightarrow> C s')"
    using s' q by (intro exI [of _ "[x]"]) auto
qed

lemma follows_for:
  assumes "\<And>i s. i \<in> set is \<Longrightarrow> I s \<Longrightarrow> follows e s (f i s) (P i) I C" and "I s"
  shows "follows e s (dfor f is s) (concat (map P is)) I C"
  using assms
proof (induction "is" arbitrary: s)
  case (Cons i "is")
  then show ?case using follows_bind [of e s "f i s" "P i" I C "dfor f is" "concat (map P is)" I] by simp
qed (simp add: follows_ret)

lemma keeps_upt:
  assumes "\<And>i s. m \<le> i \<Longrightarrow> i < n \<Longrightarrow> I i s \<Longrightarrow> keeps e s (f i s) S (I (Suc i)) C" and "I m s" and "m \<le> n"
  shows "keeps e s (dfor f [m..<n] s) S (I n) C"
  using assms
proof (induction "n - m" arbitrary: m s)
  case 0
  then show ?case using follows_keeps [OF follows_ret [of "I n" s s e C]] by simp
next
  case (Suc k)
  then have "[m..<n] = m # [Suc m..<n]" by (simp add: upt_conv_Cons)
  moreover have "keeps e s (dbind (f m s) (dfor f [Suc m..<n])) S (I n) C"
  proof (rule keeps_bind)
    show "keeps e s (f m s) S (I (Suc m)) C" using Suc by simp
    show "keeps e s1 (dfor f [Suc m..<n] s1) S (I n) C" if "I (Suc m) s1" for s1
      using Suc.hyps(1) [of "Suc m" s1] Suc.hyps(2) Suc.prems that by simp
  qed
  ultimately show ?case by simp
qed

lemma follows_weaken:
  "follows e s R P Q C \<Longrightarrow> (\<And>s. Q s \<Longrightarrow> Q' s) \<Longrightarrow> (\<And>s. C s \<Longrightarrow> C' s) \<Longrightarrow> follows e s R P Q' C'"
  unfolding follows_def by blast

lemma keeps_weaken:
  "keeps e s R S Q C \<Longrightarrow> S \<subseteq> S' \<Longrightarrow> (\<And>s. Q s \<Longrightarrow> Q' s) \<Longrightarrow> (\<And>s. C s \<Longrightarrow> C' s) \<Longrightarrow> keeps e s R S' Q' C'"
  unfolding keeps_def by blast

lemma follows_at_byte:
  assumes "effective e i \<Longrightarrow> follows e s (body s) P Q C" and "\<not> effective e i \<Longrightarrow> Q s" and "C s"
  shows "follows e s (at_byte e i body s) (if effective e i then P else []) Q C"
proof (cases "effective e i")
  case True
  then show ?thesis using assms(1,3) unfolding at_byte_def follows_def dret_def by (auto intro: executes_none)
next
  case False
  then show ?thesis using assms(2) unfolding at_byte_def follows_def dret_def by (auto intro: executes_none)
qed

lemma keeps_at_byte:
  assumes "keeps e s (body s) S Q C" and "Q s" and "C s"
  shows "keeps e s (at_byte e i body s) S Q C"
  using assms unfolding at_byte_def keeps_def dret_def by (auto intro!: exI [of _ "[]"] executes_none)

section \<open>Edits that undo themselves\<close>

lemma on_afl_fields [simp]:
  "d_afl (on_afl f s) = f (d_afl s)" "d_out_buf (on_afl f s) = d_out_buf s" "d_dict (on_afl f s) = d_dict s"
  "d_ex_tmp (on_afl f s) = d_ex_tmp s" "d_last_len (on_afl f s) = d_last_len s"
  by (simp_all add: on_afl_def)

lemma stage_core_upd [simp]:
  "stage_core (a\<lparr>stage_short := n\<rparr>) = stage_core a" "stage_core (a\<lparr>stage_cur := x\<rparr>) = stage_core a"
  "stage_core (a\<lparr>stage_max := x\<rparr>) = stage_core a" "stage_core (a\<lparr>stage_cur_byte := i\<rparr>) = stage_core a"
  "stage_core (a\<lparr>stage_val_type := t\<rparr>) = stage_core a" "stage_core (a\<lparr>stage_cur_val := i\<rparr>) = stage_core a"
  by (simp_all add: stage_core_def)

lemma begin_end_fields [simp]:
  "d_out_buf (begin_stage n x s) = d_out_buf s" "d_dict (begin_stage n x s) = d_dict s" "d_ex_tmp (begin_stage n x s) = d_ex_tmp s"
  "stage_core (d_afl (begin_stage n x s)) = stage_core (d_afl s)"
  "d_out_buf (end_stage k s) = d_out_buf s" "d_dict (end_stage k s) = d_dict s" "d_afl (end_stage k s) = d_afl s"
  "d_out_buf (val_type t s) = d_out_buf s" "d_dict (val_type t s) = d_dict s" "d_ex_tmp (val_type t s) = d_ex_tmp s"
  "d_last_len (val_type t s) = d_last_len s" "stage_core (d_afl (val_type t s)) = stage_core (d_afl s)"
  by (simp_all add: begin_stage_def end_stage_def val_type_def Let_def)

lemma length_FLIP_BIT [simp]: "length (FLIP_BIT b ar) = length ar"
  by (simp add: FLIP_BIT_def)

lemma FLIP_BIT_twice: "FLIP_BIT b (FLIP_BIT b ar) = ar"
  by (cases "b div 8 < length ar") (simp_all add: FLIP_BIT_def xor.assoc list_update_beyond)

lemma FLIP_BIT_commute: "FLIP_BIT b (FLIP_BIT c ar) = FLIP_BIT c (FLIP_BIT b ar)"
proof (cases "b div 8 = c div 8")
  case True
  then show ?thesis by (cases "c div 8 < length ar") (simp_all add: FLIP_BIT_def ac_simps list_update_beyond)
next
  case False
  then show ?thesis by (simp add: FLIP_BIT_def list_update_swap)
qed

lemma fold_FLIP_BIT_commute: "FLIP_BIT b (fold FLIP_BIT bs ar) = fold FLIP_BIT bs (FLIP_BIT b ar)"
  by (induction bs arbitrary: ar) (simp_all add: FLIP_BIT_commute)

lemma flip_bits_twice: "flip_bits n b (flip_bits n b ar) = ar"
proof -
  have "fold FLIP_BIT bs (fold FLIP_BIT bs ar) = ar" for bs ar
    by (induction bs arbitrary: ar) (simp_all add: fold_FLIP_BIT_commute FLIP_BIT_twice)
  then show ?thesis by (simp add: flip_bits_def)
qed

lemma length_flip_bits [simp]: "length (flip_bits n b ar) = length ar"
proof -
  have "length (fold FLIP_BIT bs ar) = length ar" for bs by (induction bs arbitrary: ar) simp_all
  then show ?thesis by (simp add: flip_bits_def)
qed

lemma memcpy_memcpy:
  assumes "length t' \<le> length t" and "i + length t \<le> length buf"
  shows "memcpy_at i t (memcpy_at i t' buf) = memcpy_at i t buf"
  using assms by (simp add: memcpy_at_def add.commute)

lemma memcpy_id: "i + n \<le> length buf \<Longrightarrow> memcpy_at i (take n (drop i buf)) buf = buf"
  by (simp add: memcpy_at_def min_def) (metis append_take_drop_id drop_drop add.commute)

lemma length_memcpy [simp]: "i + length t \<le> length buf \<Longrightarrow> length (memcpy_at i t buf) = length buf"
  by (simp add: memcpy_at_def)

lemma put_put:
  "i + k \<le> length buf \<Longrightarrow> put_val k i v (put_val k i u buf) = put_val k i v buf"
  by (simp add: put_val_def memcpy_memcpy)

lemma put_get: "i + k \<le> length buf \<Longrightarrow> k \<le> 4 \<Longrightarrow> put_val k i (get_val k i buf) buf = buf"
proof -
  assume l: "i + k \<le> length buf" "k \<le> 4"
  then have n: "length (take k (drop i buf)) = k" by simp
  have "store_le (length (take k (drop i buf))) (load_le (take k (drop i buf)) :: u32) = take k (drop i buf)"
    by (rule store_load_le) (use l n in simp)
  then show ?thesis using memcpy_id [of i k buf] l n by (simp add: put_val_def get_val_def)
qed

lemma length_put_val [simp]: "i + k \<le> length buf \<Longrightarrow> length (put_val k i v buf) = length buf"
  by (simp add: put_val_def)

lemma get_memcpy: "i + length t \<le> length buf \<Longrightarrow> take (length t) (drop i (memcpy_at i t buf)) = t"
  by (simp add: memcpy_at_def)

lemma store_le_cong: "(\<And>m. m < 8 * k \<Longrightarrow> bit u m = bit v m) \<Longrightarrow> store_le k u = store_le k v"
  by (rule nth_equalityI) (auto intro!: bit_word_eqI simp: bytes_simps)

lemma bit_load_store: "bit (load_le (store_le k v) :: u32) m \<longleftrightarrow> m < 32 \<and> m < 8 * k \<and> bit (v :: u32) m"
  by (auto simp: bytes_simps less_mult_imp_div_less mult.commute)

lemma flip_bytes_twice:
  assumes "i + k \<le> length buf" and "k \<le> 4"
  shows "flip_bytes k i (flip_bytes k i buf) = buf"
proof -
  let ?g = "get_val k i buf" and ?m = "mask (8 * k) :: u32"
  have "get_val k i (put_val k i (?g XOR ?m) buf) = load_le (store_le k (?g XOR ?m))"
    using get_memcpy [of i "store_le k (?g XOR ?m)" buf] assms(1) by (simp add: get_val_def put_val_def)
  then have "store_le k (get_val k i (put_val k i (?g XOR ?m) buf) XOR ?m) = store_le k ?g"
    by (intro store_le_cong) (auto simp: bit_load_store bit_simps dest: bit_imp_le_length)
  then have "flip_bytes k i (flip_bytes k i buf) = put_val k i ?g (put_val k i (?g XOR ?m) buf)"
    by (simp add: flip_bytes_def put_val_def)
  then show ?thesis using assms by (simp add: put_put put_get)
qed

section \<open>Bit flips: what is executed\<close>

definition holds :: "det_env \<Rightarrow> (dictionary \<Rightarrow> bool) \<Rightarrow> det \<Rightarrow> bool" where
  "holds e K s \<longleftrightarrow> d_out_buf s = e_in_buf e \<and> K (d_dict s)"

lemma follows_upt:
  assumes "\<And>i s. m \<le> i \<Longrightarrow> i < n \<Longrightarrow> I i s \<Longrightarrow> follows e s (f i s) (P i) (I (Suc i)) C" and "I m s" and "m \<le> n"
  shows "follows e s (dfor f [m..<n] s) (concat (map P [m..<n])) (I n) C"
  using assms
proof (induction "n - m" arbitrary: m s)
  case 0
  then show ?case by (simp add: follows_ret)
next
  case (Suc k)
  then have "[m..<n] = m # [Suc m..<n]" by (simp add: upt_conv_Cons)
  moreover have "follows e s (dbind (f m s) (dfor f [Suc m..<n])) (P m @ concat (map P [Suc m..<n])) (I n) C"
  proof (rule follows_bind)
    show "follows e s (f m s) (P m) (I (Suc m)) C" using Suc by simp
    show "follows e s1 (dfor f [Suc m..<n] s1) (concat (map P [Suc m..<n])) (I n) C" if "I (Suc m) s1" for s1
      using Suc.hyps(1) [of "Suc m" s1] Suc.hyps(2) Suc.prems that by simp
  qed
  ultimately show ?case by simp
qed

lemma concat_optional: "concat (map (\<lambda>i. if p i then [g i] else []) xs) = map g (filter p xs)"
  by (induction xs) simp_all

text \<open>Run the target on an edited buffer, then go on.\<close>

lemma follows_edit:
  assumes "\<And>a. follows e (s\<lparr>d_afl := a\<rparr>) (f (s\<lparr>d_afl := a\<rparr>)) [] Q C" and "stage_core (d_afl s) = stage_core (d_afl s0)"
  shows "follows e s0 (dbind (try_buf e x s) f) [x] Q C"
proof -
  have "follows e s (dbind (try_buf e x s) f) ([x] @ []) Q C"
    by (rule follows_bind [where ?Q1.0 = "\<lambda>s1. \<exists>a. s1 = s\<lparr>d_afl := a\<rparr>"]) (use assms(1) in \<open>auto intro: follows_try\<close>)
  then show ?thesis using follows_pre [OF _ assms(2)] by simp
qed

lemma walk_bits_follows:
  assumes "holds e K s" and after: "\<And>s1. holds e K s1 \<Longrightarrow> follows e s1 (after b s1) [] (holds e K') (holds e L)"
    and "\<And>d. K d \<Longrightarrow> K' d \<and> L d"
  shows "follows e s (walk_bits e n after b s) (if effective e (b div 8) then [flip_bits n b (e_in_buf e)] else []) (holds e K') (holds e L)"
proof -
  let ?s = "on_afl (\<lambda>a. a\<lparr>stage_cur := word_of_nat b, stage_cur_byte := int (b div 8)\<rparr>) s"
  have h: "holds e K ?s" using assms(1) by (simp add: holds_def)
  then have out: "d_out_buf ?s = e_in_buf e" "K (d_dict ?s)" by (simp_all only: holds_def)
  have "follows e ?s (walk_bits e n after b s) (if effective e (b div 8) then [flip_bits n b (e_in_buf e)] else []) (holds e K') (holds e L)"
    unfolding walk_bits_def Let_def
  proof (rule follows_at_byte)
    show "follows e ?s (dbind (try_buf e (d_out_buf (?s\<lparr>d_out_buf := flip_bits n b (d_out_buf ?s)\<rparr>)) (?s\<lparr>d_out_buf := flip_bits n b (d_out_buf ?s)\<rparr>))
        (\<lambda>s. after b (s\<lparr>d_out_buf := flip_bits n b (d_out_buf s)\<rparr>))) [flip_bits n b (e_in_buf e)] (holds e K') (holds e L)"
      unfolding out(1)
    proof (simp del: on_afl_fields, rule follows_edit)
      fix a
      let ?t = "?s\<lparr>d_out_buf := flip_bits n b (e_in_buf e), d_afl := a\<rparr>"
      have "holds e K (?t\<lparr>d_out_buf := flip_bits n b (d_out_buf ?t)\<rparr>)" using out(2) by (simp add: holds_def flip_bits_twice)
      from after [OF this] show "follows e (?s\<lparr>d_out_buf := flip_bits n b (e_in_buf e), d_afl := a\<rparr>)
          (after b (?t\<lparr>d_out_buf := flip_bits n b (d_out_buf ?t)\<rparr>)) [] (holds e K') (holds e L)"
        by (rule follows_pre) simp
    qed simp
  qed (use h assms(3) in \<open>simp_all add: holds_def\<close>)
  then show ?thesis by (rule follows_pre) simp
qed

lemma maybe_add_auto_frame:
  assumes "maybe_add_auto c fuel u mem d a = Inr (Some (d', a'))"
  shows "rand_core a' = rand_core a"
  using assms unfolding maybe_add_auto_def Let_def
  by (auto simp: rbind_eq_Inr_iff dest: rand_core_below split: if_splits option.splits)

text \<open>What \<open>maybe_add_auto\<close> may do to the dictionary.\<close>

definition offers :: "det_env \<Rightarrow> (dictionary \<Rightarrow> bool) \<Rightarrow> (dictionary \<Rightarrow> bool) \<Rightarrow> bool" where
  "offers e K K' \<longleftrightarrow> (\<forall>d. K d \<longrightarrow> K' d) \<and>
     (\<forall>d d' a a' mem. K d \<longrightarrow> maybe_add_auto (e_libc e) (e_fuel e) (e_urandom e) mem d a = Inr (Some (d', a')) \<longrightarrow> K' d')"

lemma offer_token_follows:
  assumes "offers e K K'" and "holds e K s"
  shows "follows e s (offer_token e s) [] (\<lambda>s'. holds e K' s') C"
proof (cases "word_of_nat MIN_AUTO_EXTRA \<le> d_a_len s \<and> d_a_len s \<le> word_of_nat MAX_AUTO_EXTRA")
  case True
  show ?thesis unfolding follows_def
  proof (intro allI impI)
    fix l s' assume "offer_token e s = Inr (Some (l, s'))"
    then obtain d a where m: "maybe_add_auto (e_libc e) (e_fuel e) (e_urandom e) (d_a_collect s) (d_dict s) (d_afl s) = Inr (Some (d, a))"
      and s': "l = Go_on" "s' = s\<lparr>d_dict := d, d_afl := a\<rparr>"
      using True unfolding offer_token_def dret_def by (auto simp: rbind_eq_Inr_iff split: option.splits)
    have "executes e (d_afl s) [] (d_afl s')"
      using stage_core_rand [OF maybe_add_auto_frame [OF m]] s' by (intro executes_none) simp
    moreover have "K' d" using assms m unfolding offers_def holds_def by blast
    ultimately show "\<exists>xs. executes e (d_afl s) xs (d_afl s') \<and> prefix xs [] \<and> (l = Go_on \<longrightarrow> xs = [] \<and> holds e K' s') \<and>
        (l = Custom_mutator_stage \<longrightarrow> C s')"
      using s' assms(2) by (intro exI [of _ "[]"]) (simp add: holds_def)
  qed
next
  case False
  then show ?thesis using assms by (auto simp: offer_token_def offers_def holds_def intro!: follows_ret)
qed

lemma collect_fields [simp]: "d_afl (collect i s) = d_afl s" "d_out_buf (collect i s) = d_out_buf s" "d_dict (collect i s) = d_dict s"
  by (simp_all add: collect_def)

lemma collect_token_follows:
  assumes "offers e K K'" and "holds e K s"
  shows "follows e s (collect_token e b s) [] (holds e K') C"
proof (cases "non_instrumented_mode (d_afl s) \<or> b mod 8 \<noteq> 7")
  case True
  then show ?thesis using assms by (auto simp: collect_token_def offers_def holds_def intro!: follows_ret)
next
  case False
  let ?f = "fsrv (d_afl s)"
  let ?c = "o_hash64 (e_world e) (take (unat (map_size ?f)) (trace_bits ?f))"
  let ?m = "if stage_cur (d_afl s) = stage_max (d_afl s) - 1 \<and> ?c = d_prev_cksum s then offer_token e (collect (b div 8) s)
      else if ?c \<noteq> d_prev_cksum s
      then dbind (offer_token e s) (\<lambda>s. dret (s\<lparr>d_a_collect := [], d_a_len := 0, d_prev_cksum := ?c\<rparr>)) else dret s"
  have "follows e s ?m [] (holds e K') C"
  proof -
    have c: "follows e s (offer_token e (collect (b div 8) s)) [] (holds e K') C"
      by (rule follows_pre [OF offer_token_follows [OF assms(1)]]) (use assms(2) in \<open>simp_all add: holds_def\<close>)
    have "follows e s (dbind (offer_token e s) (\<lambda>s. dret (s\<lparr>d_a_collect := [], d_a_len := 0, d_prev_cksum := ?c\<rparr>))) ([] @ []) (holds e K') C"
      by (rule follows_bind [OF offer_token_follows [OF assms]]) (auto intro!: follows_ret simp: holds_def)
    moreover have "follows e s (dret s) [] (holds e K') C"
      using assms by (auto simp: offers_def holds_def intro!: follows_ret)
    ultimately show ?thesis using c by simp
  qed
  then have "follows e s (dbind ?m (\<lambda>s. dret (if ?c \<noteq> d_clean_cksum s then collect (b div 8) s else s))) ([] @ []) (holds e K') C"
    by (rule follows_bind) (auto intro!: follows_ret simp: holds_def)
  then show ?thesis using False by (simp add: collect_token_def Let_def)
qed

definition flips_plan :: "det_env \<Rightarrow> nat \<Rightarrow> nat \<Rightarrow> bytes list" where
  "flips_plan e n m = map (\<lambda>b. flip_bits n b (e_in_buf e)) (filter (\<lambda>b. effective e (b div 8)) [0..<m])"

lemma clean_run_follows:
  assumes "holds e K s"
  shows "follows e s (clean_run e s) [e_in_buf e] (holds e K) C"
proof -
  have "follows e s (clean_run e s) [d_out_buf s] (holds e K) C"
    unfolding clean_run_def by (rule follows_edit) (use assms in \<open>auto simp: holds_def Let_def intro!: follows_ret\<close>)
  then show ?thesis using assms by (simp add: holds_def)
qed

lemma follows_end: "follows e s m P (holds e K) C \<Longrightarrow> follows e s (dbind m (\<lambda>s. dret (end_stage k s))) P (holds e K) C"
proof -
  assume "follows e s m P (holds e K) C"
  then have "follows e s (dbind m (\<lambda>s. dret (end_stage k s))) (P @ []) (holds e K) C"
    by (rule follows_bind) (auto simp: holds_def intro!: follows_ret)
  then show ?thesis by simp
qed

lemma flip1_stage_follows:
  assumes "holds e (K 0) s" and "\<And>i. i < 8 * in_len e \<Longrightarrow> offers e (K i) (K (Suc i))"
    and "\<And>i d. i \<le> 8 * in_len e \<Longrightarrow> K i d \<Longrightarrow> L d"
  shows "follows e s (flip1_stage e s) (e_in_buf e # flips_plan e 1 (8 * in_len e)) (holds e (K (8 * in_len e))) (holds e L)"
proof -
  let ?n = "8 * in_len e"
  have walk: "follows e s1 (dfor (walk_bits e 1 (collect_token e)) [0..<?n] s1) (flips_plan e 1 ?n) (holds e (K ?n)) (holds e L)"
    if h: "holds e (K 0) s1" for s1
  proof -
    have "follows e s1 (dfor (walk_bits e 1 (collect_token e)) [0..<?n] s1)
        (concat (map (\<lambda>b. if effective e (b div 8) then [flip_bits 1 b (e_in_buf e)] else []) [0..<?n])) (holds e (K ?n)) (holds e L)"
    proof (rule follows_upt [where I = "\<lambda>i. holds e (K i)"])
      fix b s2 assume b: "b < ?n" and h2: "holds e (K b) s2"
      show "follows e s2 (walk_bits e 1 (collect_token e) b s2) (if effective e (b div 8) then [flip_bits 1 b (e_in_buf e)] else [])
          (holds e (K (Suc b))) (holds e L)"
        by (rule walk_bits_follows [OF h2 collect_token_follows [OF assms(2) [OF b]]])
          (use assms(2) [OF b] assms(3) [of b] b in \<open>auto simp: offers_def\<close>)
    qed (use h in simp_all)
    then show ?thesis by (simp add: flips_plan_def concat_optional)
  qed
  define s0 where "s0 = on_afl (\<lambda>a. a\<lparr>stage_short := ''flip1'', stage_max := word_of_nat (8 * in_len e), stage_val_type := STAGE_VAL_NONE\<rparr>) s"
  define s1 where "s1 = s0\<lparr>d_orig_hit_cnt := ucast (queued_items (d_afl s0)) + saved_crashes (d_afl s0)\<rparr>"
  have s1: "holds e (K 0) s1" "stage_core (d_afl s1) = stage_core (d_afl s)" using assms(1) by (simp_all add: s1_def s0_def holds_def)
  have "follows e s1 (dbind (clean_run e s1) (\<lambda>s. dbind (dfor (walk_bits e 1 (collect_token e)) [0..<?n] s) (\<lambda>s. dret (end_stage 0 s))))
      ([e_in_buf e] @ flips_plan e 1 ?n) (holds e (K ?n)) (holds e L)"
    by (rule follows_bind [OF clean_run_follows [OF s1(1)]]) (rule follows_end, rule walk)
  then show ?thesis using follows_pre [OF _ s1(2)] by (simp add: flip1_stage_def Let_def s0_def s1_def)
qed

lemma unat_stage_max:
  assumes "8 * in_len e < 2 ^ 32" and "n \<le> 8 * in_len e"
  shows "unat (word_of_nat (8 * in_len e) - word_of_nat n :: u32) = 8 * in_len e - n"
proof -
  have "(word_of_nat (8 * in_len e) - word_of_nat n :: u32) = word_of_nat (8 * in_len e - n)" using assms(2) by (simp add: of_nat_diff)
  moreover have "unat (word_of_nat (8 * in_len e - n) :: u32) = 8 * in_len e - n"
    using assms(1) by (simp only: unsigned_of_nat of_nat_id) (simp add: take_bit_nat_eq_self)
  ultimately show ?thesis by simp
qed

lemma flip_stage_follows:
  assumes "holds e K s" and "8 * in_len e < 2 ^ 32" and "n \<le> 8 * in_len e"
  shows "follows e s (flip_stage e n name k s) (flips_plan e n (8 * in_len e - (n - 1))) (holds e K) (holds e K)"
proof -
  define s1 where "s1 = begin_stage name (word_of_nat (8 * in_len e) - word_of_nat (n - 1)) s"
  have m: "unat (stage_max (d_afl s1)) = 8 * in_len e - (n - 1)"
    using unat_stage_max [OF assms(2), of "n - 1"] assms(3) by (simp add: s1_def begin_stage_def)
  have s1: "holds e K s1" "stage_core (d_afl s1) = stage_core (d_afl s)" using assms(1) by (simp_all add: s1_def holds_def)
  have "follows e s1 (dfor (walk_bits e n (\<lambda>b. dret)) [0..<unat (stage_max (d_afl s1))] s1)
      (concat (map (\<lambda>b. if effective e (b div 8) then [flip_bits n b (e_in_buf e)] else []) [0..<unat (stage_max (d_afl s1))]))
      (holds e K) (holds e K)"
    by (rule follows_for, rule walk_bits_follows) (auto intro: s1(1) follows_ret)
  then have "follows e s1 (dfor (walk_bits e n (\<lambda>b. dret)) [0..<unat (stage_max (d_afl s1))] s1)
      (flips_plan e n (8 * in_len e - (n - 1))) (holds e K) (holds e K)" by (simp add: flips_plan_def concat_optional m)
  from follows_pre [OF follows_end [OF this] s1(2)] show ?thesis by (simp add: flip_stage_def Let_def s1_def)
qed

text \<open>The same for an edit of bytes at \<open>i\<close> that undoes itself.\<close>

lemma edit_follows:
  assumes "holds e K s" and "undo (edit (e_in_buf e)) = e_in_buf e" and "\<And>a. stage_core (g a) = stage_core a" and "\<And>a. stage_core (h a) = stage_core a"
  shows "follows e s (at_byte e i (\<lambda>s. let s = on_afl g (s\<lparr>d_out_buf := edit (d_out_buf s)\<rparr>)
      in dbind (try_buf e (d_out_buf s) s) (\<lambda>s. dret (on_afl h (s\<lparr>d_out_buf := undo (d_out_buf s)\<rparr>)))) s)
    (if effective e i then [edit (e_in_buf e)] else []) (holds e K) (holds e K)"
  unfolding Let_def
proof (rule follows_at_byte)
  let ?s = "on_afl g (s\<lparr>d_out_buf := edit (d_out_buf s)\<rparr>)"
  have "follows e s (dbind (try_buf e (d_out_buf ?s) ?s) (\<lambda>s. dret (on_afl h (s\<lparr>d_out_buf := undo (d_out_buf s)\<rparr>)))) [d_out_buf ?s] (holds e K) (holds e K)"
    by (rule follows_edit) (use assms in \<open>auto simp: holds_def intro!: follows_ret\<close>)
  then show "follows e s (dbind (try_buf e (d_out_buf ?s) ?s) (\<lambda>s. dret (on_afl h (s\<lparr>d_out_buf := undo (d_out_buf s)\<rparr>)))) [edit (e_in_buf e)] (holds e K) (holds e K)"
    using assms(1) by (simp add: holds_def)
qed (use assms in simp_all)

definition flip8_plan :: "det_env \<Rightarrow> bytes list" where
  "flip8_plan e = map (\<lambda>i. (e_in_buf e)[i := e_in_buf e ! i XOR 0xFF]) (filter (effective e) [0..<in_len e])"

lemma on_afl_id [simp]: "on_afl (\<lambda>a. a) s = s"
  by (simp add: on_afl_def)

lemma xor_byte_twice: "(buf[i := buf ! i XOR m])[i := (buf[i := buf ! i XOR m]) ! i XOR m] = (buf :: bytes)"
  by (cases "i < length buf") (simp_all add: xor.assoc list_update_beyond)

lemma flip8_stage_follows:
  assumes "holds e K s"
  shows "follows e s (flip8_stage e s) (flip8_plan e) (holds e K) (holds e K)"
proof -
  define s1 where "s1 = begin_stage ''flip8'' (word_of_nat (in_len e)) (s\<lparr>d_prev_cksum := d_clean_cksum s\<rparr>)"
  have s1: "holds e K s1" "stage_core (d_afl s1) = stage_core (d_afl s)" using assms by (simp_all add: s1_def holds_def)
  have step: "follows e t (walk_byte e i t) (if effective e i then [(e_in_buf e)[i := e_in_buf e ! i XOR 0xFF]] else []) (holds e K) (holds e K)"
    if t: "holds e K t" for i t
  proof -
    let ?t = "on_afl (\<lambda>a. a\<lparr>stage_cur := word_of_nat i, stage_cur_byte := int i\<rparr>) t" and ?f = "\<lambda>b :: bytes. b[i := b ! i XOR 0xFF]"
    have "holds e K ?t" using t by (simp add: holds_def)
    then have "follows e ?t (at_byte e i (\<lambda>s. let s = on_afl (\<lambda>a. a) (s\<lparr>d_out_buf := ?f (d_out_buf s)\<rparr>)
        in dbind (try_buf e (d_out_buf s) s) (\<lambda>s. dret (on_afl (\<lambda>a. a) (s\<lparr>d_out_buf := ?f (d_out_buf s)\<rparr>)))) ?t)
      (if effective e i then [?f (e_in_buf e)] else []) (holds e K) (holds e K)"
      by (rule edit_follows) (simp_all only: xor_byte_twice)
    then have "follows e ?t (walk_byte e i t) (if effective e i then [?f (e_in_buf e)] else []) (holds e K) (holds e K)"
      by (simp only: walk_byte_def on_afl_id)
    then show ?thesis by (rule follows_pre) simp
  qed
  have "follows e s1 (dfor (walk_byte e) [0..<in_len e] s1)
      (concat (map (\<lambda>i. if effective e i then [(e_in_buf e)[i := e_in_buf e ! i XOR 0xFF]] else []) [0..<in_len e])) (holds e K) (holds e K)"
    by (rule follows_for [OF step]) (use s1 in simp_all)
  then have "follows e s1 (dfor (walk_byte e) [0..<in_len e] s1) (flip8_plan e) (holds e K) (holds e K)"
    by (simp add: flip8_plan_def concat_optional)
  then have "follows e s1 (dbind (dfor (walk_byte e) [0..<in_len e] s1) (\<lambda>s. dret (end_stage 3 (count_effective e s)))) (flip8_plan e @ []) (holds e K) (holds e K)"
    by (rule follows_bind) (auto intro!: follows_ret simp: holds_def count_effective_def)
  from follows_pre [OF this s1(2)] show ?thesis by (simp add: flip8_stage_def Let_def s1_def)
qed

definition flip_word_plan :: "det_env \<Rightarrow> nat \<Rightarrow> bytes list" where
  "flip_word_plan e k = map (\<lambda>i. flip_bytes k i (e_in_buf e)) (filter (effective e) [0..<in_len e - (k - 1)])"

lemma flip_word_stage_follows:
  assumes "holds e K s" and "0 < k" and "k \<le> 4"
  shows "follows e s (flip_word_stage e k name idx s) (flip_word_plan e k) (holds e K) (holds e K)"
proof -
  define s1 where "s1 = begin_stage name (word_of_nat (in_len e - (k - 1))) s"
  have s1: "holds e K s1" "stage_core (d_afl s1) = stage_core (d_afl s)" using assms by (simp_all add: s1_def holds_def)
  have step: "follows e t (walk_word e k i t) (if effective e i then [flip_bytes k i (e_in_buf e)] else []) (holds e K) (holds e K)"
    if t: "holds e K t" and i: "i \<in> set [0..<in_len e - (k - 1)]" for i t
  proof -
    have "i + k \<le> length (e_in_buf e)" using i assms(2) by (auto simp: in_len_def)
    then show ?thesis unfolding walk_word_def by (intro edit_follows [OF t]) (simp_all add: flip_bytes_twice assms(3))
  qed
  have "follows e s1 (dfor (walk_word e k) [0..<in_len e - (k - 1)] s1)
      (concat (map (\<lambda>i. if effective e i then [flip_bytes k i (e_in_buf e)] else []) [0..<in_len e - (k - 1)])) (holds e K) (holds e K)"
    by (rule follows_for [OF step]) (use s1 in simp_all)
  then have "follows e s1 (dfor (walk_word e k) [0..<in_len e - (k - 1)] s1) (flip_word_plan e k) (holds e K) (holds e K)"
    by (simp add: flip_word_plan_def concat_optional)
  from follows_pre [OF follows_end [OF this] s1(2)] show ?thesis by (simp add: flip_word_stage_def Let_def s1_def)
qed

section \<open>Arithmetic and interesting values: what is executed\<close>

text \<open>Only the \<open>k\<close> bytes at \<open>i\<close> may differ from the test case.\<close>

definition touched :: "det_env \<Rightarrow> nat \<Rightarrow> nat \<Rightarrow> (dictionary \<Rightarrow> bool) \<Rightarrow> det \<Rightarrow> bool" where
  "touched e k i K s \<longleftrightarrow> (\<exists>v. d_out_buf s = put_val k i v (e_in_buf e)) \<and> K (d_dict s)"

lemma holds_touched: "holds e K s \<Longrightarrow> i + k \<le> in_len e \<Longrightarrow> k \<le> 4 \<Longrightarrow> touched e k i K s"
  using put_get [of i k "e_in_buf e"] by (auto simp: holds_def touched_def in_len_def) metis

definition opt :: "bool \<Rightarrow> bytes \<Rightarrow> bytes list" where
  "opt p x = (if p then [x] else [])"

lemma put_touched:
  "touched e k i K s \<Longrightarrow> i + k \<le> in_len e \<Longrightarrow> put_val k i v (d_out_buf s) = put_val k i v (e_in_buf e)"
  by (auto simp: touched_def in_len_def put_put)

lemma attempt_follows:
  assumes "touched e k i K s" and "i + k \<le> in_len e"
  shows "follows e s (attempt e k i wanted val v s) (opt wanted (put_val k i v (e_in_buf e))) (touched e k i K) C"
proof (cases wanted)
  case True
  let ?s = "on_afl (\<lambda>a. a\<lparr>stage_cur_val := val\<rparr>) (s\<lparr>d_out_buf := put_val k i v (d_out_buf s)\<rparr>)"
  have "follows e s (dbind (try_buf e (d_out_buf ?s) ?s) (\<lambda>s. dret (on_afl (\<lambda>a. a\<lparr>stage_cur := stage_cur a + 1\<rparr>) s))) [d_out_buf ?s] (touched e k i K) C"
    by (rule follows_edit) (use assms put_touched [OF assms] in \<open>auto simp: touched_def intro!: follows_ret\<close>)
  then show ?thesis using True put_touched [OF assms] by (simp add: attempt_def opt_def Let_def)
next
  case False
  then show ?thesis using assms(1) by (auto simp: attempt_def opt_def touched_def intro!: follows_ret)
qed

lemma restore_val_follows:
  assumes "touched e k i K s" and "i + k \<le> in_len e" and "k \<le> 4"
  shows "follows e s (restore_val k i (get_val k i (e_in_buf e)) s) [] (holds e K) C"
  unfolding restore_val_def
  by (rule follows_ret) (use put_touched [OF assms(1,2)] put_get [of i k "e_in_buf e"] assms in \<open>auto simp: holds_def touched_def in_len_def\<close>)

lemma touched_val_type [simp]: "touched e k i K (val_type t s) = touched e k i K s"
  by (simp add: touched_def)

definition arith8_values :: "u32 \<Rightarrow> nat \<Rightarrow> u32 list" where
  "arith8_values orig j =
     filter (\<lambda>v. \<not> could_be_bitflip (orig XOR v)) [take_bit 8 (orig + word_of_nat j), take_bit 8 (orig - word_of_nat j)]"

lemma arith8_step_follows:
  assumes "holds e K s" and "i < in_len e"
  defines "orig \<equiv> get_val 1 i (e_in_buf e)"
  shows "follows e s (arith8_step e i orig j s) (map (\<lambda>v. put_val 1 i v (e_in_buf e)) (arith8_values orig j)) (holds e K) C"
proof -
  have i: "i + 1 \<le> in_len e" using assms(2) by simp
  have t: "touched e 1 i K s" using holds_touched [OF assms(1) i] by simp
  let ?u = "take_bit 8 (orig + word_of_nat j)" and ?d = "take_bit 8 (orig - word_of_nat j)"
  have "follows e s (arith8_step e i orig j s)
      (opt (\<not> could_be_bitflip (orig XOR ?u)) (put_val 1 i ?u (e_in_buf e)) @
       opt (\<not> could_be_bitflip (orig XOR ?d)) (put_val 1 i ?d (e_in_buf e)) @ []) (holds e K) C"
    unfolding arith8_step_def Let_def
    by (rule follows_bind [OF attempt_follows [OF t i]], rule follows_bind [OF attempt_follows [OF _ i]], assumption)
      (use restore_val_follows [OF _ i] in \<open>simp add: orig_def\<close>)
  then show ?thesis by (simp add: opt_def arith8_values_def split: if_splits)
qed

lemma arith_word_keeps:
  assumes "touched e k i K s" and "i + k \<le> in_len e" and "effective e i"
  shows "keeps e s (attempt e k i wanted val v s) {put_val k i v (e_in_buf e) | i v. effective e i \<and> i + k \<le> in_len e} (touched e k i K) C"
  by (rule follows_keeps [OF attempt_follows [OF assms(1,2)]]) (use assms in \<open>auto simp: opt_def\<close>)

definition edits :: "det_env \<Rightarrow> nat \<Rightarrow> bytes set" where
  "edits e k = {put_val k i v (e_in_buf e) | i v. effective e i \<and> i + k \<le> in_len e}"

lemmas attempt_keeps = arith_word_keeps [folded edits_def]

lemma four_attempts_keeps:
  assumes "touched e k i K s" and i: "i + k \<le> in_len e" "effective e i" "k \<le> 4"
  shows "keeps e s (dbind (attempt e k i w1 x1 v1 (val_type STAGE_VAL_LE s)) (\<lambda>s. dbind (attempt e k i w2 x2 v2 s) (\<lambda>s.
      dbind (attempt e k i w3 x3 v3 (val_type STAGE_VAL_BE s)) (\<lambda>s. dbind (attempt e k i w4 x4 v4 s)
        (restore_val k i (get_val k i (e_in_buf e))))))) (edits e k) (holds e K) C"
proof (rule keeps_bind)
  show "keeps e s (attempt e k i w1 x1 v1 (val_type STAGE_VAL_LE s)) (edits e k) (touched e k i K) C"
    by (rule keeps_pre [OF attempt_keeps]) (use assms in simp_all)
  fix s1 assume t1: "touched e k i K s1"
  show "keeps e s1 (dbind (attempt e k i w2 x2 v2 s1) (\<lambda>s. dbind (attempt e k i w3 x3 v3 (val_type STAGE_VAL_BE s)) (\<lambda>s.
      dbind (attempt e k i w4 x4 v4 s) (restore_val k i (get_val k i (e_in_buf e)))))) (edits e k) (holds e K) C"
  proof (rule keeps_bind [OF attempt_keeps [OF t1 i(1,2)]])
    fix s2 assume t2: "touched e k i K s2"
    show "keeps e s2 (dbind (attempt e k i w3 x3 v3 (val_type STAGE_VAL_BE s2)) (\<lambda>s.
        dbind (attempt e k i w4 x4 v4 s) (restore_val k i (get_val k i (e_in_buf e))))) (edits e k) (holds e K) C"
    proof (rule keeps_bind)
      show "keeps e s2 (attempt e k i w3 x3 v3 (val_type STAGE_VAL_BE s2)) (edits e k) (touched e k i K) C"
        by (rule keeps_pre [OF attempt_keeps]) (use t2 i in simp_all)
      fix s3 assume t3: "touched e k i K s3"
      show "keeps e s3 (dbind (attempt e k i w4 x4 v4 s3) (restore_val k i (get_val k i (e_in_buf e)))) (edits e k) (holds e K) C"
        by (rule keeps_bind [OF attempt_keeps [OF t3 i(1,2)]]) (rule follows_keeps [OF restore_val_follows], use i in simp_all)
    qed
  qed
qed

text \<open>All offsets.\<close>

lemma arith_stage_keeps:
  assumes "holds e K s" and "0 < k" and "k \<le> 4"
    and step: "\<And>i j t. holds e K t \<Longrightarrow> i + k \<le> in_len e \<Longrightarrow> effective e i \<Longrightarrow>
      keeps e t (step i (get_val k i (e_in_buf e)) j t) (edits e k) (holds e K) (holds e K)"
  shows "keeps e s (arith_stage e k step name per_byte idx s) (edits e k) (holds e K) (holds e K)"
proof -
  define s1 where "s1 = begin_stage name (per_byte * word_of_nat (in_len e - (k - 1)) * word_of_nat ARITH_MAX) s"
  have s1: "holds e K s1" "stage_core (d_afl s1) = stage_core (d_afl s)" using assms by (simp_all add: s1_def holds_def)
  have at: "keeps e t (arith_at e k step i t) (edits e k) (holds e K) (holds e K)" if i: "i < in_len e - (k - 1)" and t: "holds e K t" for i t
  proof (cases "effective e i")
    case True
    have g: "get_val k i (d_out_buf t) = get_val k i (e_in_buf e)" using t by (simp add: holds_def)
    have "keeps e t (dfor (step i (get_val k i (e_in_buf e))) [1..<ARITH_MAX + 1] (on_afl (\<lambda>a. a\<lparr>stage_cur_byte := int i\<rparr>) t)) (edits e k)
        (holds e K) (holds e K)"
    proof (rule keeps_pre)
      show "keeps e (on_afl (\<lambda>a. a\<lparr>stage_cur_byte := int i\<rparr>) t) (dfor (step i (get_val k i (e_in_buf e))) [1..<ARITH_MAX + 1]
          (on_afl (\<lambda>a. a\<lparr>stage_cur_byte := int i\<rparr>) t)) (edits e k) (holds e K) (holds e K)"
        by (rule keeps_upt [where I = "\<lambda>_. holds e K"], rule step) (use t i True assms(2) in \<open>auto simp: holds_def ARITH_MAX_def\<close>)
    qed simp
    then have "keeps e t (at_byte e i (\<lambda>s. dfor (step i (get_val k i (e_in_buf e))) [1..<ARITH_MAX + 1]
        (on_afl (\<lambda>a. a\<lparr>stage_cur_byte := int i\<rparr>) s)) t) (edits e k) (holds e K) (holds e K)"
      by (rule keeps_at_byte) (use t in simp_all)
    then show ?thesis by (simp add: arith_at_def g)
  next
    case False
    then show ?thesis using t unfolding arith_at_def at_byte_def Let_def keeps_def dret_def
      by (auto intro!: exI [of _ "[]"] executes_none)
  qed
  have loop: "keeps e s1 (dfor (arith_at e k step) [0..<in_len e - (k - 1)] s1) (edits e k) (holds e K) (holds e K)"
    by (rule keeps_upt [where I = "\<lambda>_. holds e K"], rule at) (use s1 in simp_all)
  have "keeps e s1 (dbind (dfor (arith_at e k step) [0..<in_len e - (k - 1)] s1) (\<lambda>s. dret (end_stage idx s))) (edits e k) (holds e K) (holds e K)"
    by (rule keeps_bind [OF loop], rule follows_keeps [OF follows_ret]) (auto simp: holds_def)
  from keeps_pre [OF this s1(2)] show ?thesis by (simp add: arith_stage_def s1_def)
qed

lemma concat_guarded: "concat (map (\<lambda>i. if p i then g i else []) xs) = concat (map g (filter p xs))"
  by (induction xs) simp_all

definition arith8_plan :: "det_env \<Rightarrow> bytes list" where
  "arith8_plan e = concat (map (\<lambda>i. concat (map (\<lambda>j. map (\<lambda>v. put_val 1 i v (e_in_buf e)) (arith8_values (get_val 1 i (e_in_buf e)) j))
     [1..<ARITH_MAX + 1])) (filter (effective e) [0..<in_len e]))"

lemma follows_loop_at:
  assumes "holds e K s" and "\<And>x t. holds e K t \<Longrightarrow> x \<in> set xs \<Longrightarrow> follows e t (step x t) (P x) (holds e K) (holds e K)"
    and "\<And>t. holds e K t \<Longrightarrow> follows e t (fin t) [] (holds e K) (holds e K)"
  shows "follows e s (at_byte e i (\<lambda>s. dbind (dfor step xs (on_afl (\<lambda>a. a\<lparr>stage_cur_byte := int i\<rparr>) s)) fin) s)
    (if effective e i then concat (map P xs) else []) (holds e K) (holds e K)"
proof (rule follows_at_byte)
  let ?t = "on_afl (\<lambda>a. a\<lparr>stage_cur_byte := int i\<rparr>) s"
  have t: "holds e K ?t" using assms(1) by (simp add: holds_def)
  have loop: "follows e ?t (dfor step xs ?t) (concat (map P xs)) (holds e K) (holds e K)"
    by (rule follows_for) (use assms(2) t in simp_all)
  have "follows e ?t (dbind (dfor step xs ?t) fin) (concat (map P xs) @ []) (holds e K) (holds e K)"
    by (rule follows_bind [OF loop assms(3)])
  then have "follows e ?t (dbind (dfor step xs ?t) fin) (concat (map P xs)) (holds e K) (holds e K)" by simp
  then show "follows e s (dbind (dfor step xs ?t) fin) (concat (map P xs)) (holds e K) (holds e K)" by (rule follows_pre) simp
qed (use assms(1) in simp_all)

lemma dbind_dret [simp]: "dbind m dret = m"
proof (cases m)
  case (Inr r)
  then show ?thesis by (cases r) (auto simp: dbind_def dret_def)
qed (simp add: dbind_def)

lemma arith8_stage_follows:
  assumes "holds e K s"
  shows "follows e s (arith_stage e 1 (arith8_step e) name per_byte idx s) (arith8_plan e) (holds e K) (holds e K)"
proof -
  define s1 where "s1 = begin_stage name (per_byte * word_of_nat (in_len e - (1 - 1)) * word_of_nat ARITH_MAX) s"
  have s1: "holds e K s1" "stage_core (d_afl s1) = stage_core (d_afl s)" using assms by (simp_all add: s1_def holds_def)
  let ?P = "\<lambda>i. concat (map (\<lambda>j. map (\<lambda>v. put_val 1 i v (e_in_buf e)) (arith8_values (get_val 1 i (e_in_buf e)) j)) [1..<ARITH_MAX + 1])"
  have at: "follows e t (arith_at e 1 (arith8_step e) i t) (if effective e i then ?P i else []) (holds e K) (holds e K)"
    if i: "i \<in> set [0..<in_len e]" and t: "holds e K t" for i t
  proof -
    have g: "get_val 1 i (d_out_buf t) = get_val 1 i (e_in_buf e)" using t by (simp add: holds_def)
    have "follows e t (at_byte e i (\<lambda>s. dbind (dfor (arith8_step e i (get_val 1 i (e_in_buf e))) [1..<ARITH_MAX + 1]
        (on_afl (\<lambda>a. a\<lparr>stage_cur_byte := int i\<rparr>) s)) dret) t) (if effective e i then ?P i else []) (holds e K) (holds e K)"
    proof (rule follows_loop_at [OF t])
      show "follows e u (arith8_step e i (get_val 1 i (e_in_buf e)) j u) (map (\<lambda>v. put_val 1 i v (e_in_buf e)) (arith8_values (get_val 1 i (e_in_buf e)) j))
          (holds e K) (holds e K)" if "holds e K u" for j u
        by (rule arith8_step_follows [OF that]) (use i in simp)
    qed (rule follows_ret, simp_all)
    then show ?thesis by (simp only: arith_at_def g Let_def dbind_dret)
  qed
  have "follows e s1 (dfor (arith_at e 1 (arith8_step e)) [0..<in_len e] s1) (concat (map (\<lambda>i. if effective e i then ?P i else []) [0..<in_len e]))
      (holds e K) (holds e K)"
    by (rule follows_for [OF at]) (use s1 in simp_all)
  then have "follows e s1 (dfor (arith_at e 1 (arith8_step e)) [0..<in_len e] s1) (arith8_plan e) (holds e K) (holds e K)"
    by (simp only: arith8_plan_def concat_guarded)
  from follows_pre [OF follows_end [OF this] s1(2)] show ?thesis by (simp add: arith_stage_def s1_def)
qed

definition interest8_values :: "u32 \<Rightarrow> u32 list" where
  "interest8_values orig =
     filter (\<lambda>x. \<not> (could_be_bitflip (orig XOR x) \<or> could_be_arith orig x 1)) (map (\<lambda>v. take_bit 8 (word_of_int v)) interesting_8)"

definition interest8_plan :: "det_env \<Rightarrow> bytes list" where
  "interest8_plan e = concat (map (\<lambda>i. map (\<lambda>v. put_val 1 i v (e_in_buf e)) (interest8_values (get_val 1 i (e_in_buf e))))
     (filter (effective e) [0..<in_len e]))"

lemma interest8_step_follows:
  assumes "holds e K s" and "i < in_len e"
  defines "orig \<equiv> get_val 1 i (e_in_buf e)"
  shows "follows e s (interest8_step e i orig v s)
    (let x = take_bit 8 (word_of_int v) in opt (\<not> (could_be_bitflip (orig XOR x) \<or> could_be_arith orig x 1)) (put_val 1 i x (e_in_buf e)))
    (holds e K) C"
proof (cases "could_be_bitflip (orig XOR take_bit 8 (word_of_int v)) \<or> could_be_arith orig (take_bit 8 (word_of_int v)) 1")
  case True
  then show ?thesis using assms(1) by (auto simp: interest8_step_def opt_def Let_def holds_def intro!: follows_ret)
next
  case False
  let ?x = "take_bit 8 (word_of_int v)"
  let ?s = "on_afl (\<lambda>a. a\<lparr>stage_cur_val := v\<rparr>) (s\<lparr>d_out_buf := put_val 1 i ?x (d_out_buf s)\<rparr>)"
  have b: "put_val 1 i orig (put_val 1 i ?x (e_in_buf e)) = e_in_buf e"
    using assms(2) by (simp add: put_put put_get in_len_def orig_def)
  have "follows e s (dbind (try_buf e (d_out_buf ?s) ?s) (\<lambda>s. dret (on_afl (\<lambda>a. a\<lparr>stage_cur := stage_cur a + 1\<rparr>)
      (s\<lparr>d_out_buf := put_val 1 i orig (d_out_buf s)\<rparr>)))) [d_out_buf ?s] (holds e K) C"
    by (rule follows_edit) (use assms(1) b in \<open>auto simp: holds_def intro!: follows_ret\<close>)
  then show ?thesis using False assms(1) by (simp add: interest8_step_def opt_def Let_def holds_def)
qed

lemma interest8_stage_follows:
  assumes "holds e K s"
  shows "follows e s (interest_stage e 1 interesting_8 (interest8_step e) name per_byte idx s) (interest8_plan e) (holds e K) (holds e K)"
proof -
  define s1 where "s1 = begin_stage name (per_byte * word_of_nat (in_len e - (1 - 1)) * word_of_nat (length interesting_8)) s"
  have s1: "holds e K s1" "stage_core (d_afl s1) = stage_core (d_afl s)" using assms by (simp_all add: s1_def holds_def)
  let ?o = "\<lambda>i. get_val 1 i (e_in_buf e)"
  let ?P = "\<lambda>i v. let x = take_bit 8 (word_of_int v) in
    opt (\<not> (could_be_bitflip (?o i XOR x) \<or> could_be_arith (?o i) x 1)) (put_val 1 i x (e_in_buf e))"
  have plan: "concat (map (?P i) interesting_8) = map (\<lambda>v. put_val 1 i v (e_in_buf e)) (interest8_values (?o i))" for i
    by (simp add: Let_def opt_def interest8_values_def concat_optional filter_map comp_def)
  have at: "follows e t (interest_at e 1 interesting_8 (interest8_step e) i t) (if effective e i then concat (map (?P i) interesting_8) else [])
      (holds e K) (holds e K)" if i: "i \<in> set [0..<in_len e]" and t: "holds e K t" for i t
  proof -
    have g: "get_val 1 i (d_out_buf t) = ?o i" using t by (simp add: holds_def)
    have "follows e t (at_byte e i (\<lambda>s. dbind (dfor (interest8_step e i (?o i)) interesting_8
        (on_afl (\<lambda>a. a\<lparr>stage_cur_byte := int i\<rparr>) s)) dret) t) (if effective e i then concat (map (?P i) interesting_8) else []) (holds e K) (holds e K)"
      by (rule follows_loop_at [OF t]) (use i in \<open>auto intro!: interest8_step_follows [simplified] follows_ret\<close>)
    then show ?thesis by (simp only: interest_at_def g Let_def finish_def refl if_True)
  qed
  have "follows e s1 (dfor (interest_at e 1 interesting_8 (interest8_step e)) [0..<in_len e] s1)
      (concat (map (\<lambda>i. if effective e i then concat (map (?P i) interesting_8) else []) [0..<in_len e])) (holds e K) (holds e K)"
    by (rule follows_for [OF at]) (use s1 in simp_all)
  then have "follows e s1 (dfor (interest_at e 1 interesting_8 (interest8_step e)) [0..<in_len e] s1) (interest8_plan e) (holds e K) (holds e K)"
    by (simp only: interest8_plan_def concat_guarded plan)
  from follows_pre [OF follows_end [OF this] s1(2)] show ?thesis by (simp add: interest_stage_def s1_def)
qed

lemma interest_try_keeps:
  assumes "touched e k i K s" and "i + k \<le> in_len e" and "effective e i"
  shows "keeps e s (interest_try e k i wanted ty x s) (edits e k) (touched e k i K) C"
proof (cases wanted)
  case True
  let ?s = "val_type ty (s\<lparr>d_out_buf := put_val k i x (d_out_buf s)\<rparr>)"
  have "follows e s (dbind (try_buf e (d_out_buf ?s) ?s) (\<lambda>s. dret (on_afl (\<lambda>a. a\<lparr>stage_cur := stage_cur a + 1\<rparr>) s))) [d_out_buf ?s] (touched e k i K) C"
    by (rule follows_edit) (use assms put_touched [OF assms(1,2)] in \<open>auto simp: touched_def intro!: follows_ret\<close>)
  then have "keeps e s (interest_try e k i wanted ty x s) {d_out_buf ?s} (touched e k i K) C"
    using True follows_keeps [of e s _ "[d_out_buf ?s]"] by (simp add: interest_try_def Let_def)
  then show ?thesis by (rule keeps_weaken) (use put_touched [OF assms(1,2)] assms in \<open>auto simp: edits_def\<close>)
next
  case False
  have "follows e s (interest_try e k i wanted ty x s) [] (touched e k i K) C"
    using False assms(1) by (auto simp: interest_try_def touched_def intro!: follows_ret)
  then show ?thesis by (rule follows_keeps) simp
qed

lemma interest_stage_keeps:
  assumes "holds e K s" and "1 < k" and "k \<le> 4"
  shows "keeps e s (interest_stage e k vs (interest_step e k swap) name per_byte idx s) (edits e k) (holds e K) (holds e K)"
proof -
  define s1 where "s1 = begin_stage name (per_byte * word_of_nat (in_len e - (k - 1)) * word_of_nat (length vs)) s"
  have s1: "holds e K s1" "stage_core (d_afl s1) = stage_core (d_afl s)" using assms by (simp_all add: s1_def holds_def)
  have step: "keeps e t (interest_step e k swap i orig v t) (edits e k) (touched e k i K) C"
    if "touched e k i K t" "i + k \<le> in_len e" "effective e i" for i orig v t C
    unfolding interest_step_def Let_def
    by (rule keeps_bind [where ?Q1.0 = "touched e k i K"], rule keeps_pre [OF interest_try_keeps])
      (use that interest_try_keeps in \<open>auto simp: touched_def\<close>)
  have loop: "keeps e t (dfor (interest_step e k swap i orig) us t) (edits e k) (touched e k i K) C"
    if "touched e k i K t" "i + k \<le> in_len e" "effective e i" for i orig t us C
    using that(1)
  proof (induction us arbitrary: t)
    case Nil
    then show ?case using follows_keeps [OF follows_ret] by simp
  next
    case (Cons u us)
    then show ?case using keeps_bind [OF step [OF Cons.prems that(2,3)] Cons.IH] by simp
  qed
  have at: "keeps e t (interest_at e k vs (interest_step e k swap) i t) (edits e k) (holds e K) (holds e K)"
    if i: "i < in_len e - (k - 1)" and t: "holds e K t" for i t
  proof (cases "effective e i")
    case True
    have ik: "i + k \<le> in_len e" using i assms(2) by simp
    let ?o = "get_val k i (e_in_buf e)" and ?t = "on_afl (\<lambda>a. a\<lparr>stage_cur_byte := int i\<rparr>) t"
    have g: "get_val k i (d_out_buf t) = ?o" using t by (simp add: holds_def)
    have "holds e K ?t" using t by (simp add: holds_def)
    from holds_touched [OF this ik assms(3)] have "touched e k i K ?t" .
    note l = loop [OF this ik True, of ?o vs "holds e K"]
    have "keeps e ?t (dbind (dfor (interest_step e k swap i ?o) vs ?t) (finish k i ?o)) (edits e k) (holds e K) (holds e K)"
      by (rule keeps_bind [OF l], rule follows_keeps [where P = "[]"])
        (use restore_val_follows [OF _ ik assms(3)] assms(2) in \<open>simp_all add: finish_def\<close>)
    then have "keeps e t (dbind (dfor (interest_step e k swap i ?o) vs ?t) (finish k i ?o)) (edits e k) (holds e K) (holds e K)"
      by (rule keeps_pre) simp
    then have "keeps e t (at_byte e i (\<lambda>s. dbind (dfor (interest_step e k swap i ?o) vs (on_afl (\<lambda>a. a\<lparr>stage_cur_byte := int i\<rparr>) s)) (finish k i ?o)) t)
        (edits e k) (holds e K) (holds e K)" by (rule keeps_at_byte) (use t in simp_all)
    then show ?thesis by (simp add: interest_at_def g Let_def)
  next
    case False
    then show ?thesis using t unfolding interest_at_def at_byte_def Let_def keeps_def dret_def
      by (auto intro!: exI [of _ "[]"] executes_none)
  qed
  have all: "keeps e s1 (dfor (interest_at e k vs (interest_step e k swap)) [0..<in_len e - (k - 1)] s1) (edits e k) (holds e K) (holds e K)"
    by (rule keeps_upt [where I = "\<lambda>_. holds e K"], rule at) (use s1 in simp_all)
  have "keeps e s1 (dbind (dfor (interest_at e k vs (interest_step e k swap)) [0..<in_len e - (k - 1)] s1) (\<lambda>s. dret (end_stage idx s))) (edits e k) (holds e K) (holds e K)"
    by (rule keeps_bind [OF all], rule follows_keeps [OF follows_ret]) (auto simp: holds_def)
  from keeps_pre [OF this s1(2)] show ?thesis by (simp add: interest_stage_def s1_def)
qed

section \<open>Dictionary tokens: what is executed\<close>

text \<open>While tokens are written over the bytes at \<open>i\<close>: only the last \<open>last_len\<close> bytes differ.\<close>

definition covered :: "det_env \<Rightarrow> nat \<Rightarrow> (dictionary \<Rightarrow> bool) \<Rightarrow> det \<Rightarrow> bool" where
  "covered e i K s \<longleftrightarrow> (\<exists>t. length t = d_last_len s \<and> i + length t \<le> in_len e \<and> d_out_buf s = memcpy_at i t (e_in_buf e)) \<and> K (d_dict s)"

definition over_edits :: "det_env \<Rightarrow> bytes set \<Rightarrow> bytes set" where
  "over_edits e T = {memcpy_at i t (e_in_buf e) | i t. effective e i \<and> t \<in> T \<and> i + length t \<le> in_len e}"

lemma over_token_keeps:
  assumes "covered e i K s" and "d_last_len s \<le> length t" and "t \<in> T" and "effective e i" and "i \<le> in_len e"
  shows "keeps e s (over_token e i t s) (over_edits e T) (\<lambda>s'. covered e i K s' \<and> d_last_len s' \<le> length t) C"
proof (cases "in_len e - i < length t \<or> t = take (length t) (drop i (d_out_buf s))")
  case True
  have "follows e s (over_token e i t s) [] (\<lambda>s'. covered e i K s' \<and> d_last_len s' \<le> length t) C"
    using True assms(1,2) by (auto simp: over_token_def covered_def intro!: follows_ret)
  then show ?thesis by (rule follows_keeps) simp
next
  case False
  then have l: "i + length t \<le> in_len e" using assms(5) by linarith
  let ?s = "s\<lparr>d_last_len := length t, d_out_buf := memcpy_at i t (d_out_buf s)\<rparr>"
  have out: "d_out_buf ?s = memcpy_at i t (e_in_buf e)"
    using assms(1,2) l by (auto simp: covered_def in_len_def memcpy_memcpy)
  have "follows e s (dbind (try_buf e (d_out_buf ?s) ?s) (\<lambda>s. dret (on_afl (\<lambda>a. a\<lparr>stage_cur := stage_cur a + 1\<rparr>) s))) [d_out_buf ?s]
      (\<lambda>s'. covered e i K s' \<and> d_last_len s' \<le> length t) C"
    by (rule follows_edit) (use assms(1) l out in \<open>auto simp: covered_def intro!: follows_ret\<close>)
  then have "keeps e s (over_token e i t s) {d_out_buf ?s} (\<lambda>s'. covered e i K s' \<and> d_last_len s' \<le> length t) C"
    using False follows_keeps [of e s _ "[d_out_buf ?s]"] by (simp add: over_token_def Let_def)
  then show ?thesis by (rule keeps_weaken) (use out l assms(3,4) in \<open>auto simp: over_edits_def\<close>)
qed

lemma over_user_token_keeps:
  assumes "covered e i K s" and "d_last_len s \<le> length t" and "t \<in> T" and "effective e i" and "i \<le> in_len e"
  shows "keeps e s (over_user_token e i t s) (over_edits e T) (\<lambda>s'. covered e i K s' \<and> d_last_len s' \<le> length t) C"
  unfolding keeps_def
proof (intro allI impI)
  fix l s' assume run: "over_user_token e i t s = Inr (Some (l, s'))"
  then obtain skip a where r: "skip_at_random e s = Inr (Some (skip, a))"
    by (auto simp: over_user_token_def rbind_eq_Inr_iff split: option.splits)
  have "rand_core a = rand_core (d_afl s)"
  proof (cases "(word_of_nat (length (extras (d_dict s))) :: u32) \<le> max_det_extras (d_dict s)")
    case True
    then show ?thesis using r by (simp add: skip_at_random_def)
  next
    case False
    then obtain v where "rand_below (e_fuel e) (e_urandom e) (word_of_nat (length (extras (d_dict s)))) (d_afl s) = Inr (Some (v, a))"
      using r by (auto simp: skip_at_random_def rbind_eq_Inr_iff)
    then show ?thesis by (rule rand_core_below)
  qed
  from stage_core_rand [OF this] have core: "stage_core (d_afl (s\<lparr>d_afl := a\<rparr>)) = stage_core (d_afl s)" by simp
  have cov: "covered e i K (s\<lparr>d_afl := a\<rparr>)" "d_last_len (s\<lparr>d_afl := a\<rparr>) \<le> length t" using assms(1,2) by (simp_all add: covered_def)
  have "keeps e s (if skip then dret (on_afl (\<lambda>a. a\<lparr>stage_max := stage_max a - 1\<rparr>) (s\<lparr>d_afl := a\<rparr>)) else over_token e i t (s\<lparr>d_afl := a\<rparr>))
      (over_edits e T) (\<lambda>s'. covered e i K s' \<and> d_last_len s' \<le> length t) C"
  proof (cases skip)
    case True
    have "follows e s (dret (on_afl (\<lambda>a. a\<lparr>stage_max := stage_max a - 1\<rparr>) (s\<lparr>d_afl := a\<rparr>))) [] (\<lambda>s'. covered e i K s' \<and> d_last_len s' \<le> length t) C"
      by (rule follows_ret) (use cov core in \<open>simp_all add: covered_def\<close>)
    then show ?thesis using True follows_keeps by fastforce
  next
    case False
    then show ?thesis using keeps_pre [OF over_token_keeps [OF cov assms(3-5)] core] by simp
  qed
  then show "\<exists>xs. executes e (d_afl s) xs (d_afl s') \<and> set xs \<subseteq> over_edits e T \<and> (l = Go_on \<longrightarrow> covered e i K s' \<and> d_last_len s' \<le> length t) \<and>
      (l = Custom_mutator_stage \<longrightarrow> C s')"
    using run r unfolding keeps_def over_user_token_def by (simp add: Let_def)
qed

definition token_step :: "det_env \<Rightarrow> (nat \<Rightarrow> bytes \<Rightarrow> det \<Rightarrow> det_res) \<Rightarrow> bool" where
  "token_step e step \<longleftrightarrow> (\<forall>i K s t T C. covered e i K s \<longrightarrow> d_last_len s \<le> length t \<longrightarrow> t \<in> T \<longrightarrow> effective e i \<longrightarrow> i \<le> in_len e \<longrightarrow>
     keeps e s (step i t s) (over_edits e T) (\<lambda>s'. covered e i K s' \<and> d_last_len s' \<le> length t) C)"

lemma token_steps: "token_step e (over_token e)" "token_step e (over_user_token e)"
  by (simp_all add: token_step_def over_token_keeps over_user_token_keeps)

lemma over_loop_keeps:
  assumes "token_step e step" and "sorted (map length ts)" and "\<forall>t \<in> set ts. d_last_len s \<le> length t" and "covered e i K s"
    and "set ts \<subseteq> T" and "effective e i" and "i \<le> in_len e"
  shows "keeps e s (dfor (step i) ts s) (over_edits e T) (covered e i K) C"
  using assms(2-5)
proof (induction ts arbitrary: s)
  case Nil
  then show ?case using follows_keeps [OF follows_ret] by simp
next
  case (Cons t ts)
  have "keeps e s (step i t s) (over_edits e T) (\<lambda>s'. covered e i K s' \<and> d_last_len s' \<le> length t) C"
    using assms(1,6,7) Cons.prems unfolding token_step_def by simp
  then have "keeps e s (dbind (step i t s) (dfor (step i) ts)) (over_edits e T) (covered e i K) C"
    by (rule keeps_bind) (use Cons in \<open>auto intro!: Cons.IH intro: order_trans\<close>)
  then show ?case by simp
qed

lemma over_stage_keeps:
  assumes "holds e K s" and "token_step e step" and "\<And>s. K (d_dict s) \<Longrightarrow> sorted (map length (ts s)) \<and> set (ts s) \<subseteq> T"
  shows "keeps e s (over_stage e step ts name idx s) (over_edits e T) (holds e K) (holds e K)"
proof -
  define s1 where "s1 = val_type STAGE_VAL_NONE (begin_stage name (word_of_nat (length (ts s)) * word_of_nat (in_len e)) s)"
  have s1: "holds e K s1" "stage_core (d_afl s1) = stage_core (d_afl s)" using assms by (simp_all add: s1_def holds_def)
  have at: "keeps e u (over_at e step ts i u) (over_edits e T) (holds e K) (holds e K)" if i: "i < in_len e" and u: "holds e K u" for i u
  proof (cases "effective e i")
    case True
    let ?u = "on_afl (\<lambda>a. a\<lparr>stage_cur_byte := int i\<rparr>) (u\<lparr>d_last_len := 0\<rparr>)"
    have cov: "covered e i K ?u" using u i by (auto simp: covered_def holds_def memcpy_at_def)
    have "keeps e ?u (dfor (step i) (ts u) ?u) (over_edits e T) (covered e i K) (holds e K)"
      by (rule over_loop_keeps [OF assms(2)]) (use assms(3) u cov True i in \<open>simp_all add: holds_def\<close>)
    then have "keeps e ?u (dbind (dfor (step i) (ts u) ?u) (\<lambda>s. dret (s\<lparr>d_out_buf := memcpy_at i (take (d_last_len s) (drop i (e_in_buf e))) (d_out_buf s)\<rparr>)))
        (over_edits e T) (holds e K) (holds e K)"
    proof (rule keeps_bind)
      fix v assume "covered e i K v"
      then have "holds e K (v\<lparr>d_out_buf := memcpy_at i (take (d_last_len v) (drop i (e_in_buf e))) (d_out_buf v)\<rparr>)"
        by (auto simp: covered_def holds_def in_len_def memcpy_memcpy memcpy_id)
      then have "follows e v (dret (v\<lparr>d_out_buf := memcpy_at i (take (d_last_len v) (drop i (e_in_buf e))) (d_out_buf v)\<rparr>)) [] (holds e K) (holds e K)"
        by (rule follows_ret) simp
      then show "keeps e v (dret (v\<lparr>d_out_buf := memcpy_at i (take (d_last_len v) (drop i (e_in_buf e))) (d_out_buf v)\<rparr>)) (over_edits e T) (holds e K) (holds e K)"
        by (rule follows_keeps) simp
    qed
    then have "keeps e u (dbind (dfor (step i) (ts u) ?u) (\<lambda>s. dret (s\<lparr>d_out_buf := memcpy_at i (take (d_last_len s) (drop i (e_in_buf e))) (d_out_buf s)\<rparr>)))
        (over_edits e T) (holds e K) (holds e K)" by (rule keeps_pre) simp
    then show ?thesis unfolding over_at_def by (rule keeps_at_byte) (use u in simp_all)
  next
    case False
    then show ?thesis using u unfolding over_at_def at_byte_def keeps_def dret_def by (auto intro!: exI [of _ "[]"] executes_none)
  qed
  have all: "keeps e s1 (dfor (over_at e step ts) [0..<in_len e] s1) (over_edits e T) (holds e K) (holds e K)"
    by (rule keeps_upt [where I = "\<lambda>_. holds e K"], rule at) (use s1 in simp_all)
  have "keeps e s1 (dbind (dfor (over_at e step ts) [0..<in_len e] s1) (\<lambda>s. dret (end_stage idx s))) (over_edits e T) (holds e K) (holds e K)"
    by (rule keeps_bind [OF all], rule follows_keeps [OF follows_ret]) (auto simp: holds_def)
  from keeps_pre [OF this s1(2)] show ?thesis by (simp add: over_stage_def s1_def Let_def)
qed

lemma insert_token_keeps:
  assumes "holds e K s"
  shows "keeps e s (insert_token e i t s) UNIV (holds e K) C"
proof (cases "unat MAX_FILE < in_len e + length t")
  case True
  have "follows e s (insert_token e i t s) [] (holds e K) C"
    using True assms by (auto simp: insert_token_def holds_def intro!: follows_ret)
  then show ?thesis by (rule follows_keeps) simp
next
  case False
  let ?s = "s\<lparr>d_ex_tmp := memcpy_at (i + length t) (drop i (d_out_buf s)) (memcpy_at i t (d_ex_tmp s))\<rparr>"
  have "follows e s (dbind (try_buf e (take (in_len e + length t) (d_ex_tmp ?s)) ?s) (\<lambda>s. dret (on_afl (\<lambda>a. a\<lparr>stage_cur := stage_cur a + 1\<rparr>) s)))
      [take (in_len e + length t) (d_ex_tmp ?s)] (holds e K) C"
    by (rule follows_edit) (use assms in \<open>auto simp: holds_def intro!: follows_ret\<close>)
  then show ?thesis using False follows_keeps [of e s _ _ _ _ UNIV] by (auto simp: insert_token_def Let_def)
qed

lemma insert_stage_keeps:
  assumes "holds e K s"
  shows "keeps e s (insert_stage junk e ts name idx s) UNIV (holds e K) (holds e K)"
proof -
  define s1 where "s1 = grow_ex_tmp junk e (begin_stage name (word_of_nat (length (ts s)) * (word_of_nat (in_len e) + 1)) s)"
  have s1: "holds e K s1" "stage_core (d_afl s1) = stage_core (d_afl s)" using assms by (simp_all add: s1_def holds_def grow_ex_tmp_def)
  have loop: "keeps e u (dfor (insert_token e i) us u) UNIV (holds e K) C" if "holds e K u" for i us u C
    using that
  proof (induction us arbitrary: u)
    case Nil
    then show ?case using follows_keeps [OF follows_ret] by simp
  next
    case (Cons t us)
    then show ?case using keeps_bind [OF insert_token_keeps [OF Cons.prems] Cons.IH] by simp
  qed
  have at: "keeps e u (insert_at_byte e ts i u) UNIV (holds e K) (holds e K)" if u: "holds e K u" for i u
  proof -
    let ?u = "on_afl (\<lambda>a. a\<lparr>stage_cur_byte := int i\<rparr>) u"
    have h: "holds e K ?u" using u by (simp add: holds_def)
    have "keeps e ?u (dbind (dfor (insert_token e i) (ts u) ?u) (\<lambda>s. dret (if i < in_len e then s\<lparr>d_ex_tmp := (d_ex_tmp s)[i := d_out_buf s ! i]\<rparr> else s)))
        UNIV (holds e K) (holds e K)"
      by (rule keeps_bind [OF loop [OF h]], rule follows_keeps [OF follows_ret]) (auto simp: holds_def)
    then have "keeps e u (dbind (dfor (insert_token e i) (ts u) ?u) (\<lambda>s. dret (if i < in_len e then s\<lparr>d_ex_tmp := (d_ex_tmp s)[i := d_out_buf s ! i]\<rparr> else s)))
        UNIV (holds e K) (holds e K)" by (rule keeps_pre) simp
    then show ?thesis unfolding insert_at_byte_def by (rule keeps_at_byte) (use u in simp_all)
  qed
  have all: "keeps e s1 (dfor (insert_at_byte e ts) [0..<in_len e + 1] s1) UNIV (holds e K) (holds e K)"
    by (rule keeps_upt [where I = "\<lambda>_. holds e K"], rule at) (use s1 in simp_all)
  have "keeps e s1 (dbind (dfor (insert_at_byte e ts) [0..<in_len e + 1] s1) (\<lambda>s. dret (end_stage idx s))) UNIV (holds e K) (holds e K)"
    by (rule keeps_bind [OF all], rule follows_keeps [OF follows_ret]) (auto simp: holds_def)
  from keeps_pre [OF this s1(2)] show ?thesis by (simp add: insert_stage_def s1_def Let_def)
qed

section \<open>All stages together\<close>

definition bitflips_plan :: "det_env \<Rightarrow> bytes list" where
  "bitflips_plan e =
     (e_in_buf e # flips_plan e 1 (8 * in_len e)) @ flips_plan e 2 (8 * in_len e - 1) @ flips_plan e 4 (8 * in_len e - 3) @ flip8_plan e @
     (if in_len e < 2 then [] else flip_word_plan e 2 @ (if in_len e < 4 then [] else flip_word_plan e 4))"

definition fits_file :: "det_env \<Rightarrow> bool" where
  "fits_file e \<longleftrightarrow> 0 < in_len e \<and> in_len e \<le> unat MAX_FILE"

lemma fits_file_bits: "fits_file e \<Longrightarrow> 8 * in_len e < 2 ^ 32 \<and> 4 \<le> 8 * in_len e"
  by (auto simp: fits_file_def MAX_FILE_def)

lemma bitflips_follows:
  assumes "holds e (K 0) s" and "\<And>i. i < 8 * in_len e \<Longrightarrow> offers e (K i) (K (Suc i))"
    and "\<And>i d. i \<le> 8 * in_len e \<Longrightarrow> K i d \<Longrightarrow> L d" and "fits_file e"
  shows "follows e s (bitflips e s) (bitflips_plan e) (holds e L) (holds e L)"
proof -
  note len = fits_file_bits [OF assms(4)]
  have f1: "follows e s (flip1_stage e s) (e_in_buf e # flips_plan e 1 (8 * in_len e)) (holds e L) (holds e L)"
    by (rule follows_weaken [OF flip1_stage_follows [OF assms(1-3)]]) (use assms(3) in \<open>auto simp: holds_def\<close>)
  have f2: "follows e t (flip_stage e 2 ''flip2'' 1 t) (flips_plan e 2 (8 * in_len e - 1)) (holds e L) (holds e L)" if "holds e L t" for t
    using flip_stage_follows [OF that, of 2] len by simp
  have f4: "follows e t (flip_stage e 4 ''flip4'' 2 t) (flips_plan e 4 (8 * in_len e - 3)) (holds e L) (holds e L)" if "holds e L t" for t
    using flip_stage_follows [OF that, of 4] len by simp
  have words: "follows e t (if in_len e < 2 then dret t else dbind (flip_word_stage e 2 ''flip16'' 4 t) (\<lambda>s.
        if in_len e < 4 then dret s else flip_word_stage e 4 ''flip32'' 5 s))
      (if in_len e < 2 then [] else flip_word_plan e 2 @ (if in_len e < 4 then [] else flip_word_plan e 4)) (holds e L) (holds e L)"
    if t: "holds e L t" for t
  proof (cases "in_len e < 2")
    case True
    then show ?thesis using t by (simp add: follows_ret)
  next
    case False
    have "follows e t (dbind (flip_word_stage e 2 ''flip16'' 4 t) (\<lambda>s. if in_len e < 4 then dret s else flip_word_stage e 4 ''flip32'' 5 s))
        (flip_word_plan e 2 @ (if in_len e < 4 then [] else flip_word_plan e 4)) (holds e L) (holds e L)"
      by (rule follows_bind [OF flip_word_stage_follows [OF t]]) (auto intro!: follows_ret flip_word_stage_follows)
    then show ?thesis using False by simp
  qed
  show ?thesis unfolding bitflips_def bitflips_plan_def
    by (rule follows_bind [OF f1], rule follows_bind [OF f2], assumption, rule follows_bind [OF f4], assumption,
        rule follows_bind [OF flip8_stage_follows], assumption, rule words)
qed

lemma keeps_dret: "Q s \<Longrightarrow> keeps e s (dret s) S Q C"
  using follows_keeps [OF follows_ret [of Q s s e C], of S] by simp

lemma keeps_UNIV: "keeps e s R S Q C \<Longrightarrow> keeps e s R UNIV Q C"
  by (rule keeps_weaken) auto

lemma word_steps_keep:
  assumes "holds e K t" and "effective e i"
  shows "i + 2 \<le> in_len e \<Longrightarrow> keeps e t (arith16_step e i (get_val 2 i (e_in_buf e)) j t) (edits e 2) (holds e K) (holds e K)"
    and "i + 4 \<le> in_len e \<Longrightarrow> keeps e t (arith32_step e i (get_val 4 i (e_in_buf e)) j t) (edits e 4) (holds e K) (holds e K)"
  using four_attempts_keeps [OF holds_touched [OF assms(1)] _ assms(2)] by (simp_all add: arith16_step_def arith32_step_def Let_def)

lemma arith_words_keep:
  assumes "holds e K s"
  shows "keeps e s (if in_len e < 2 then dret s else dbind (arith_stage e 2 (arith16_step e) ''arith16'' 4 7 s) (\<lambda>s.
      if in_len e < 4 then dret s else arith_stage e 4 (arith32_step e) ''arith32'' 4 8 s)) UNIV (holds e K) (holds e K)"
proof (cases "in_len e < 2")
  case True
  then show ?thesis using assms by (simp add: keeps_dret)
next
  case False
  have a16: "keeps e t (arith_stage e 2 (arith16_step e) ''arith16'' 4 7 t) UNIV (holds e K) (holds e K)" if "holds e K t" for t
    by (rule keeps_UNIV, rule arith_stage_keeps [OF that]) (use word_steps_keep in auto)
  have a32: "keeps e t (arith_stage e 4 (arith32_step e) ''arith32'' 4 8 t) UNIV (holds e K) (holds e K)" if "holds e K t" for t
    by (rule keeps_UNIV, rule arith_stage_keeps [OF that]) (use word_steps_keep in auto)
  show ?thesis using False by simp (rule keeps_bind [OF a16 [OF assms]], auto intro: keeps_dret a32)
qed

lemma ariths_keeps:
  assumes "holds e K s"
  shows "keeps e s (ariths e s) UNIV (holds e K) (holds e K)"
proof (cases "e_no_arith e")
  case True
  then show ?thesis using assms by (simp add: ariths_def keeps_dret)
next
  case False
  have v: "holds e K (val_type STAGE_VAL_LE s)" using assms by (simp add: holds_def)
  have "keeps e (val_type STAGE_VAL_LE s) (ariths e s) UNIV (holds e K) (holds e K)"
    unfolding ariths_def if_not_P [OF False]
    by (rule keeps_bind [OF follows_keeps [OF arith8_stage_follows [OF v]]], simp, rule arith_words_keep)
  then show ?thesis by (rule keeps_pre) simp
qed

lemma interest_words_keep:
  assumes "holds e K s"
  shows "keeps e s (if e_no_arith e \<or> in_len e < 2 then dret s
      else dbind (interest_stage e 2 interesting_16 (interest_step e 2 SWAP16) ''int16'' 2 10 s) (\<lambda>s.
        if in_len e < 4 then dret s else interest_stage e 4 interesting_32 (interest_step e 4 SWAP32) ''int32'' 2 11 s)) UNIV (holds e K) (holds e K)"
proof (cases "e_no_arith e \<or> in_len e < 2")
  case True
  then show ?thesis using assms by (simp add: keeps_dret)
next
  case False
  have i: "keeps e t (interest_stage e k vs (interest_step e k swap) name pb idx t) UNIV (holds e K) (holds e K)"
    if "holds e K t" "1 < k" "k \<le> 4" for t k vs swap name pb idx
    by (rule keeps_UNIV, rule interest_stage_keeps [OF that])
  show ?thesis using False by simp (rule keeps_bind [OF i [OF assms]], auto intro: keeps_dret i)
qed

lemma interests_keeps:
  assumes "holds e K s"
  shows "keeps e s (interests e s) UNIV (holds e K) (holds e K)"
proof -
  have v: "holds e K (val_type STAGE_VAL_LE s)" using assms by (simp add: holds_def)
  have "keeps e (val_type STAGE_VAL_LE s) (interests e s) UNIV (holds e K) (holds e K)"
    unfolding interests_def by (rule keeps_bind [OF follows_keeps [OF interest8_stage_follows [OF v]]], simp, rule interest_words_keep)
  then show ?thesis by (rule keeps_pre) simp
qed

lemma user_extras_keeps:
  assumes "holds e K s" and "\<And>d. K d \<Longrightarrow> sorted (map length (extras d))"
  shows "keeps e s (user_extras junk e s) UNIV (holds e K) (holds e K)"
proof (cases "extras (d_dict s) = []")
  case True
  then show ?thesis using assms by (simp add: user_extras_def keeps_dret)
next
  case False
  have "keeps e s (over_stage e (over_user_token e) user_tokens ''ext_UO'' 12 s) (over_edits e UNIV) (holds e K) (holds e K)"
    by (rule over_stage_keeps [OF assms(1) token_steps(2)]) (use assms(2) in \<open>simp add: user_tokens_def\<close>)
  then show ?thesis using False unfolding user_extras_def
    by simp (rule keeps_bind [OF keeps_UNIV], assumption, rule insert_stage_keeps)
qed

lemma auto_extras_keeps:
  assumes "holds e K s" and "\<And>d. K d \<Longrightarrow> sorted (map (\<lambda>x. length (ae_data x)) (take USE_AUTO_EXTRAS (a_extras d)))"
  shows "keeps e s (auto_extras junk e s) UNIV (holds e K) (holds e K)"
proof (cases "a_extras (d_dict s) = []")
  case True
  then show ?thesis using assms by (simp add: auto_extras_def keeps_dret)
next
  case False
  have "keeps e s (over_stage e (over_token e) used_autos ''ext_AO'' 14 s) (over_edits e UNIV) (holds e K) (holds e K)"
    by (rule over_stage_keeps [OF assms(1) token_steps(1)]) (use assms(2) in \<open>simp add: used_autos_def comp_def\<close>)
  then show ?thesis using False unfolding auto_extras_def
    by simp (rule keeps_bind [OF keeps_UNIV], assumption, rule insert_stage_keeps)
qed

lemma dbind_assoc: "dbind (dbind m f) g = dbind m (\<lambda>s. dbind (f s) g)"
proof (cases m)
  case (Inr r)
  then show ?thesis by (cases r) (auto simp: dbind_def)
qed (simp add: dbind_def)

text \<open>The dictionary while the first stage offers tokens: use counts grow by at most one per bit.\<close>

definition dict_at :: "bytes list \<Rightarrow> nat \<Rightarrow> dictionary \<Rightarrow> bool" where
  "dict_at X n d \<longleftrightarrow> extras d = X \<and> autos_ok (a_extras d) \<and> (\<forall>x \<in> set (a_extras d). unat (ae_hit_cnt x) \<le> n)"

lemma dict_at_offers:
  assumes "libc_ok (e_libc e)" and "n < 2 ^ 31 - 1"
  shows "offers e (dict_at X n) (dict_at X (Suc n))"
  unfolding offers_def
proof (intro conjI allI impI)
  show "dict_at X (Suc n) d" if "dict_at X n d" for d using that by (auto simp: dict_at_def intro: le_SucI)
  fix d d' a a' mem
  assume k: "dict_at X n d" and m: "maybe_add_auto (e_libc e) (e_fuel e) (e_urandom e) mem d a = Inr (Some (d', a'))"
  have ok: "autos_ok (a_extras d)" and le: "\<forall>x \<in> set (a_extras d). unat (ae_hit_cnt x) \<le> n" using k by (simp_all add: dict_at_def)
  have "\<forall>x \<in> set (a_extras d). ae_hit_cnt x < 2 ^ 31 - 1"
  proof
    fix x assume "x \<in> set (a_extras d)"
    then have "unat (ae_hit_cnt x) < 2147483647" using le assms(2) by fastforce
    then show "ae_hit_cnt x < 2 ^ 31 - 1" by (simp add: word_less_nat_alt)
  qed
  from maybe_add_auto_effect [OF assms(1) ok this m le] show "dict_at X (Suc n) d'" using k by (simp add: dict_at_def)
qed

lemma before_finish_keeps:
  assumes "libc_ok (e_libc e)" and "fits_file e" and "d_out_buf s = e_in_buf e" and "extras_ok (d_dict s)"
    and "dict_at (extras (d_dict s)) n (d_dict s)" and "n + 8 * in_len e < 2 ^ 31 - 1"
  defines "L \<equiv> (\<lambda>d. extras d = extras (d_dict s) \<and> autos_ok (a_extras d))"
  shows "keeps e s (dbind (bitflips e s) (\<lambda>s. dbind (ariths e s) (\<lambda>s. dbind (interests e s) (\<lambda>s.
      dbind (user_extras junk e s) (auto_extras junk e))))) UNIV (holds e L) (holds e L)"
proof -
  have "follows e s (bitflips e s) (bitflips_plan e) (holds e L) (holds e L)"
  proof (rule bitflips_follows [where K = "\<lambda>i. dict_at (extras (d_dict s)) (n + i)"])
    show "offers e (dict_at (extras (d_dict s)) (n + i)) (dict_at (extras (d_dict s)) (n + Suc i))" if "i < 8 * in_len e" for i
      using dict_at_offers [OF assms(1), of "n + i"] assms(6) that by simp
  qed (use assms(2,3,5) in \<open>auto simp: holds_def L_def dict_at_def\<close>)
  then have bf: "keeps e s (bitflips e s) UNIV (holds e L) (holds e L)" by (rule follows_keeps) simp
  have sorted: "sorted (map length (extras d))" "sorted (map (\<lambda>x. length (ae_data x)) (take USE_AUTO_EXTRAS (a_extras d)))" if "L d" for d
    using that assms(4) by (simp_all add: L_def extras_ok_def autos_ok_def)
  show ?thesis
    by (rule keeps_bind [OF bf], rule keeps_bind [OF ariths_keeps], assumption, rule keeps_bind [OF interests_keeps], assumption,
        rule keeps_bind [OF user_extras_keeps [OF _ sorted(1)]], assumption+, rule auto_extras_keeps [OF _ sorted(2)])
qed

end
