(* ===== verification/Det_Progress.thy ===== *)
theory Det_Progress
  imports Det_Runs
begin

text \<open>
  The deterministic stages return: rules for runs that go on to the next stage, under the assumption
  that the target cooperates.
\<close>

section \<open>The stages come to an end\<close>

text \<open>
  A target that cooperates: from a state in \<open>J\<close> every run returns to a state in \<open>J\<close> and does not ask to
  abandon the entry, and the time for the deterministic stages is not used up. \<open>J\<close> does not depend on
  the variables that describe the stage.
\<close>

definition cooperates :: "det_env \<Rightarrow> (afl_state \<Rightarrow> bool) \<Rightarrow> bool" where
  "cooperates e J \<longleftrightarrow>
     (\<forall>a b. J a \<longrightarrow> stage_core b = stage_core a \<longrightarrow> J b) \<and>
     (\<forall>a x. J a \<longrightarrow> (\<exists>b. common_fuzz_stuff (e_world e) (e_fuel e) x (word_of_nat (length x)) a = Inr (Some (False, b)) \<and> J b)) \<and>
     (\<forall>a. J a \<longrightarrow> o_time (e_world e) a - e_before_det_time e \<le> MAX_DET_TIMEOUT)"

definition completes :: "det_res \<Rightarrow> (det \<Rightarrow> bool) \<Rightarrow> bool" where
  "completes R Q \<longleftrightarrow> (\<exists>s. R = Inr (Some (Go_on, s)) \<and> Q s)"

definition ready :: "(afl_state \<Rightarrow> bool) \<Rightarrow> (dictionary \<Rightarrow> bool) \<Rightarrow> det \<Rightarrow> bool" where
  "ready J K s \<longleftrightarrow> J (d_afl s) \<and> K (d_dict s)"

lemma ready_upd [simp]:
  "ready J K (s\<lparr>d_out_buf := b\<rparr>) = ready J K s" "ready J K (s\<lparr>d_ex_tmp := b\<rparr>) = ready J K s" "ready J K (s\<lparr>d_last_len := n\<rparr>) = ready J K s"
  "ready J K (s\<lparr>d_a_collect := b, d_a_len := l\<rparr>) = ready J K s" "ready J K (s\<lparr>d_prev_cksum := c\<rparr>) = ready J K s"
  "ready J K (s\<lparr>d_orig_hit_cnt := h\<rparr>) = ready J K s" "ready J K (s\<lparr>d_prev_cksum := c, d_clean_cksum := c'\<rparr>) = ready J K s"
  "ready J K (end_stage k s) = ready J K s" "ready J K (count_effective e s) = ready J K s"
  by (simp_all add: ready_def count_effective_def)

lemma completes_ret: "Q s \<Longrightarrow> completes (dret s) Q"
  by (simp add: completes_def dret_def)

lemma completes_bind: "completes m Q1 \<Longrightarrow> (\<And>s. Q1 s \<Longrightarrow> completes (f s) Q2) \<Longrightarrow> completes (dbind m f) Q2"
  unfolding completes_def dbind_def by fastforce

lemma completes_weaken: "completes m Q \<Longrightarrow> (\<And>s. Q s \<Longrightarrow> Q' s) \<Longrightarrow> completes m Q'"
  unfolding completes_def by blast

lemma completes_for:
  "(\<And>i s. i \<in> set is \<Longrightarrow> I s \<Longrightarrow> completes (f i s) I) \<Longrightarrow> I s \<Longrightarrow> completes (dfor f is s) I"
  by (induction "is" arbitrary: s) (auto intro!: completes_ret intro: completes_bind)

lemma completes_upt:
  assumes "\<And>i s. m \<le> i \<Longrightarrow> i < n \<Longrightarrow> I i s \<Longrightarrow> completes (f i s) (I (Suc i))" and "I m s" and "m \<le> n"
  shows "completes (dfor f [m..<n] s) (I n)"
  using assms
proof (induction "n - m" arbitrary: m s)
  case 0
  then show ?case by (simp add: completes_ret)
next
  case (Suc k)
  then have e: "[m..<n] = m # [Suc m..<n]" by (simp add: upt_conv_Cons)
  have "completes (dbind (f m s) (dfor f [Suc m..<n])) (I n)"
  proof (rule completes_bind)
    show "completes (f m s) (I (Suc m))" using Suc by simp
    show "completes (dfor f [Suc m..<n] s1) (I n)" if "I (Suc m) s1" for s1
      using Suc.hyps(1) [of "Suc m" s1] Suc.hyps(2) Suc.prems that by simp
  qed
  then show ?case unfolding e by simp
qed

lemma completes_end: "completes m (ready J K) \<Longrightarrow> completes (dbind m (\<lambda>s. dret (end_stage k s))) (ready J K)"
  by (erule completes_bind) (auto simp: ready_def intro!: completes_ret)

definition mapped :: "det_env \<Rightarrow> bool" where
  "mapped e \<longleftrightarrow> in_len e \<le> 8 * length (e_skip_eff_map e)"

lemma mapped_byte: "mapped e \<Longrightarrow> i < in_len e \<Longrightarrow> i div 8 < length (e_skip_eff_map e)"
  by (auto simp: mapped_def)

lemma ready_stage:
  assumes "cooperates e J" and "ready J K s" and "stage_core (d_afl t) = stage_core (d_afl s)" and "d_dict t = d_dict s"
  shows "ready J K t"
proof -
  have "J (d_afl s)" "K (d_dict s)" using assms(2) by (simp_all add: ready_def)
  moreover have "J (d_afl t)" using assms(1,3) \<open>J (d_afl s)\<close> unfolding cooperates_def by blast
  ultimately show ?thesis using assms(4) by (simp add: ready_def)
qed

lemma completes_try:
  assumes "cooperates e J" and "ready J K s"
  shows "completes (try_buf e x s) (ready J K)"
proof -
  have j: "J (d_afl s)" "K (d_dict s)" using assms(2) by (simp_all add: ready_def)
  obtain b where "common_fuzz_stuff (e_world e) (e_fuel e) x (word_of_nat (length x)) (d_afl s) = Inr (Some (False, b))" "J b"
    using assms(1) j(1) unfolding cooperates_def by blast
  then show ?thesis using j(2) by (simp add: try_buf_def completes_def ready_def)
qed

lemma completes_at_byte:
  assumes "cooperates e J" and "mapped e" and "i < in_len e" and "ready J K s" and "K' (d_dict s)" and "completes (body s) (ready J K')"
  shows "completes (at_byte e i body s) (ready J K')"
proof -
  have "J (d_afl s)" using assms(4) by (simp add: ready_def)
  then have "\<not> is_det_timeout e s" using assms(1) by (auto simp: cooperates_def is_det_timeout_def not_less)
  then show ?thesis
    using mapped_byte [OF assms(2,3)] assms(4-6) by (auto simp: at_byte_def ready_def intro: completes_ret)
qed

text \<open>One run with what is done before and after it.\<close>

lemma completes_run:
  assumes "cooperates e J" and "ready J K s" and "\<And>t. ready J K t \<Longrightarrow> completes (f t) Q"
  shows "completes (dbind (try_buf e x s) f) Q"
  by (rule completes_bind [OF completes_try [OF assms(1,2)]]) (rule assms(3))

text \<open>Bit and byte flips.\<close>

lemma walk_bits_completes:
  assumes co: "cooperates e J" and mp: "mapped e" and "b < 8 * in_len e" and r: "ready J K s"
    and kk: "\<And>d. K d \<Longrightarrow> K' d" and after: "\<And>t. ready J K t \<Longrightarrow> completes (after b t) (ready J K')"
  shows "completes (walk_bits e n after b s) (ready J K')"
proof -
  let ?s = "on_afl (\<lambda>a. a\<lparr>stage_cur := word_of_nat b, stage_cur_byte := int (b div 8)\<rparr>) s"
  have r1: "ready J K ?s" by (rule ready_stage [OF co r]) simp_all
  have "completes (dbind (try_buf e (flip_bits n b (d_out_buf ?s)) (?s\<lparr>d_out_buf := flip_bits n b (d_out_buf ?s)\<rparr>))
      (\<lambda>s. after b (s\<lparr>d_out_buf := flip_bits n b (d_out_buf s)\<rparr>))) (ready J K')"
    by (rule completes_run [OF co, where K = K]) (use r1 after in simp_all)
  moreover have "K' (d_dict ?s)" using r1 kk by (simp add: ready_def)
  ultimately show ?thesis
    unfolding walk_bits_def Let_def using assms(3) by (intro completes_at_byte [OF co mp _ r1]) simp_all
qed

lemma flip_stage_completes:
  assumes co: "cooperates e J" and mp: "mapped e" and r: "ready J K s" and len: "8 * in_len e < 2 ^ 32" "n - 1 \<le> 8 * in_len e"
  shows "completes (flip_stage e n name k s) (ready J K)"
proof -
  let ?s = "begin_stage name (word_of_nat (8 * in_len e) - word_of_nat (n - 1)) s"
  have m: "unat (stage_max (d_afl ?s)) = 8 * in_len e - (n - 1)"
    using unat_stage_max [OF len(1), of "n - 1"] len(2) by (simp add: begin_stage_def)
  show ?thesis unfolding flip_stage_def Let_def m
    by (rule completes_end, rule completes_for, rule walk_bits_completes [OF co mp])
      (use ready_stage [OF co r, of ?s] in \<open>auto intro: completes_ret\<close>)
qed

lemma walk_byte_completes:
  assumes co: "cooperates e J" and mp: "mapped e" and "i < in_len e" and r: "ready J K s"
  shows "completes (walk_byte e i s) (ready J K)"
proof -
  let ?s = "on_afl (\<lambda>a. a\<lparr>stage_cur := word_of_nat i, stage_cur_byte := int i\<rparr>) s"
  have r1: "ready J K ?s" by (rule ready_stage [OF co r]) simp_all
  show ?thesis unfolding walk_byte_def Let_def
    by (rule completes_at_byte [OF co mp assms(3) r1], use r1 in \<open>simp add: ready_def\<close>, rule completes_run [OF co, where K = K])
      (use r1 in \<open>simp_all add: completes_ret\<close>)
qed

lemma flip8_stage_completes:
  assumes co: "cooperates e J" and mp: "mapped e" and r: "ready J K s"
  shows "completes (flip8_stage e s) (ready J K)"
  unfolding flip8_stage_def Let_def
proof (rule completes_bind, rule completes_for)
  show "ready J K (begin_stage ''flip8'' (word_of_nat (in_len e)) (s\<lparr>d_prev_cksum := d_clean_cksum s\<rparr>))"
    by (rule ready_stage [OF co r]) simp_all
qed (auto intro: completes_ret walk_byte_completes [OF co mp])

lemma walk_word_completes:
  assumes co: "cooperates e J" and mp: "mapped e" and "i < in_len e" and r: "ready J K s"
  shows "completes (walk_word e k i s) (ready J K)"
proof -
  have r1: "ready J K (on_afl (\<lambda>a. a\<lparr>stage_cur_byte := int i\<rparr>) (s\<lparr>d_out_buf := b\<rparr>))" for b by (rule ready_stage [OF co r]) simp_all
  have r2: "ready J K (on_afl (\<lambda>a. a\<lparr>stage_cur := stage_cur a + 1\<rparr>) (t\<lparr>d_out_buf := b\<rparr>))" if "ready J K t" for t b
    by (rule ready_stage [OF co that]) simp_all
  show ?thesis unfolding walk_word_def Let_def
    by (rule completes_at_byte [OF co mp assms(3) r], use r in \<open>simp add: ready_def\<close>, rule completes_run [OF co r1])
      (rule completes_ret, erule r2)
qed

lemma flip_word_stage_completes:
  assumes co: "cooperates e J" and mp: "mapped e" and r: "ready J K s"
  shows "completes (flip_word_stage e k name idx s) (ready J K)"
  unfolding flip_word_stage_def Let_def
  by (rule completes_end, rule completes_for, rule walk_word_completes [OF co mp])
    (use ready_stage [OF co r, of "begin_stage name x s" for x] in auto)

text \<open>The first stage, with the offering of tokens.\<close>

definition accepts_tokens :: "det_env \<Rightarrow> (dictionary \<Rightarrow> bool) \<Rightarrow> (dictionary \<Rightarrow> bool) \<Rightarrow> bool" where
  "accepts_tokens e K K' \<longleftrightarrow> (\<forall>d. K d \<longrightarrow> K' d) \<and>
     (\<forall>d a mem. K d \<longrightarrow> (\<exists>d'. maybe_add_auto (e_libc e) (e_fuel e) (e_urandom e) mem d a = Inr (Some (d', a)) \<and> K' d'))"

lemma offer_token_completes:
  assumes "accepts_tokens e K K'" and "ready J K s"
  shows "completes (offer_token e s) (ready J K')"
proof -
  obtain d' where "maybe_add_auto (e_libc e) (e_fuel e) (e_urandom e) (d_a_collect s) (d_dict s) (d_afl s) = Inr (Some (d', d_afl s))" "K' d'"
    using assms unfolding accepts_tokens_def ready_def by blast
  then show ?thesis using assms by (auto simp: offer_token_def completes_def dret_def ready_def accepts_tokens_def)
qed

lemma collect_token_completes:
  assumes "b mod 8 = 7 \<Longrightarrow> accepts_tokens e K K'" and "\<And>d. K d \<Longrightarrow> K' d" and "ready J K s"
  shows "completes (collect_token e b s) (ready J K')"
proof (cases "non_instrumented_mode (d_afl s) \<or> b mod 8 \<noteq> 7")
  case True
  then show ?thesis using assms(2,3) by (auto simp: collect_token_def ready_def intro: completes_ret)
next
  case False
  have acc: "accepts_tokens e K K'" using assms(1) False by simp
  have c: "ready J L (collect i t) = ready J L t" for i t L by (simp add: collect_def ready_def)
  have k: "ready J K' t" if "ready J K t" for t using that assms(2) by (simp add: ready_def)
  have reset: "completes (dbind (offer_token e s) (\<lambda>s. dret (s\<lparr>d_a_collect := [], d_a_len := 0, d_prev_cksum := x\<rparr>))) (ready J K')" for x
    by (rule completes_bind [OF offer_token_completes [OF acc assms(3)]]) (simp add: ready_def completes_ret)
  have m: "completes (if stage_cur (d_afl s) = stage_max (d_afl s) - 1 \<and> x = d_prev_cksum s then offer_token e (collect (b div 8) s)
      else if x \<noteq> d_prev_cksum s then dbind (offer_token e s) (\<lambda>s. dret (s\<lparr>d_a_collect := [], d_a_len := 0, d_prev_cksum := x\<rparr>))
      else dret s) (ready J K')" for x
    using offer_token_completes [OF acc, of J] assms(3) c k reset by (auto intro: completes_ret)
  show ?thesis unfolding collect_token_def Let_def if_not_P [OF False]
    by (rule completes_bind [OF m]) (auto simp: c intro: completes_ret)
qed

lemma flip1_stage_completes:
  assumes co: "cooperates e J" and mp: "mapped e" and r: "ready J (K 0) s"
    and acc: "\<And>b. b < 8 * in_len e \<Longrightarrow> b mod 8 = 7 \<Longrightarrow> accepts_tokens e (K b) (K (Suc b))"
    and mono: "\<And>b d. K b d \<Longrightarrow> K (Suc b) d"
  shows "completes (flip1_stage e s) (ready J (K (8 * in_len e)))"
proof -
  let ?n = "8 * in_len e"
  let ?s = "on_afl (\<lambda>a. a\<lparr>stage_short := ''flip1'', stage_max := word_of_nat ?n, stage_val_type := STAGE_VAL_NONE\<rparr>) s"
  have r1: "ready J (K 0) (?s\<lparr>d_orig_hit_cnt := h\<rparr>)" for h by (rule ready_stage [OF co r]) simp_all
  have clean: "completes (clean_run e (?s\<lparr>d_orig_hit_cnt := h\<rparr>)) (ready J (K 0))" for h
    unfolding clean_run_def Let_def by (rule completes_run [OF co r1]) (simp add: completes_ret)
  have walk: "completes (dfor (walk_bits e 1 (collect_token e)) [0..<?n] t) (ready J (K ?n))" if "ready J (K 0) t" for t
    by (rule completes_upt [where I = "\<lambda>b. ready J (K b)"])
      (auto intro!: walk_bits_completes [OF co mp] collect_token_completes acc mono that)
  show ?thesis unfolding flip1_stage_def Let_def
    by (rule completes_bind [OF clean], rule completes_end, rule walk)
qed

lemma bitflips_completes:
  assumes co: "cooperates e J" and mp: "mapped e" and fits: "fits_file e" and r: "ready J (K 0) s"
    and acc: "\<And>b. b < 8 * in_len e \<Longrightarrow> b mod 8 = 7 \<Longrightarrow> accepts_tokens e (K b) (K (Suc b))"
    and mono: "\<And>b d. K b d \<Longrightarrow> K (Suc b) d"
  shows "completes (bitflips e s) (ready J (K (8 * in_len e)))"
proof -
  note len = fits_file_bits [OF fits]
  have f: "completes (flip_stage e n name k t) (ready J (K (8 * in_len e)))" if "ready J (K (8 * in_len e)) t" "n \<le> 4" for n name k t
    by (rule flip_stage_completes [OF co mp that(1)]) (use len that(2) in auto)
  show ?thesis unfolding bitflips_def
    by (rule completes_bind [OF flip1_stage_completes [OF co mp r acc mono]], assumption+, rule completes_bind [OF f], assumption, simp,
        rule completes_bind [OF f], assumption, simp, rule completes_bind [OF flip8_stage_completes [OF co mp]], assumption)
      (auto intro!: completes_ret completes_bind [OF flip_word_stage_completes [OF co mp]] flip_word_stage_completes [OF co mp])
qed

text \<open>Arithmetic and interesting values.\<close>

lemma attempt_completes:
  assumes co: "cooperates e J" and r: "ready J K s"
  shows "completes (attempt e k i wanted val v s) (ready J K)" and "completes (interest_try e k i wanted t v s) (ready J K)"
proof -
  have r1: "ready J K (on_afl (\<lambda>a. a\<lparr>stage_cur_val := val\<rparr>) (s\<lparr>d_out_buf := b\<rparr>))" "ready J K (val_type t (s\<lparr>d_out_buf := b\<rparr>))"
    "ready J K (on_afl (\<lambda>a. a\<lparr>stage_max := stage_max a - 1\<rparr>) s)" for b by (rule ready_stage [OF co r]; simp)+
  have r2: "ready J K (on_afl (\<lambda>a. a\<lparr>stage_cur := stage_cur a + 1\<rparr>) u)" if "ready J K u" for u by (rule ready_stage [OF co that]) simp_all
  show "completes (attempt e k i wanted val v s) (ready J K)"
    using r1(3) by (auto simp: attempt_def Let_def intro!: completes_ret completes_run [OF co r1(1)] r2)
  show "completes (interest_try e k i wanted t v s) (ready J K)"
    using r1(3) by (auto simp: interest_try_def Let_def intro!: completes_ret completes_run [OF co r1(2)] r2)
qed

lemma restore_completes:
  "ready J K s \<Longrightarrow> completes (restore_val k i v s) (ready J K)" "ready J K s \<Longrightarrow> completes (finish k i v s) (ready J K)"
  by (simp_all add: restore_val_def finish_def completes_ret)

lemma ready_val_type: "cooperates e J \<Longrightarrow> ready J K s \<Longrightarrow> ready J K (val_type t s)"
  by (rule ready_stage) simp_all

lemma arith_steps_complete:
  assumes co: "cooperates e J" and r: "ready J K s"
  shows "completes (arith8_step e i orig j s) (ready J K)" and "completes (arith16_step e i orig j s) (ready J K)"
    and "completes (arith32_step e i orig j s) (ready J K)"
proof -
  note rules = completes_bind attempt_completes(1) [OF co] restore_completes(1) ready_val_type [OF co] r
  show "completes (arith8_step e i orig j s) (ready J K)" unfolding arith8_step_def Let_def by (rule rules | assumption)+
  show "completes (arith16_step e i orig j s) (ready J K)" unfolding arith16_step_def Let_def by (rule rules | assumption)+
  show "completes (arith32_step e i orig j s) (ready J K)" unfolding arith32_step_def Let_def by (rule rules | assumption)+
qed

lemma interest_steps_complete:
  assumes co: "cooperates e J" and r: "ready J K s"
  shows "completes (interest8_step e i orig v s) (ready J K)" and "completes (interest_step e k swap i orig v s) (ready J K)"
proof -
  have r1: "ready J K (on_afl (\<lambda>a. a\<lparr>stage_cur_val := v\<rparr>) (s\<lparr>d_out_buf := b\<rparr>))"
    "ready J K (on_afl (\<lambda>a. a\<lparr>stage_max := stage_max a - 1\<rparr>) s)" "ready J K (on_afl (\<lambda>a. a\<lparr>stage_cur_val := v\<rparr>) s)" for b
    by (rule ready_stage [OF co r]; simp)+
  have r2: "ready J K (on_afl (\<lambda>a. a\<lparr>stage_cur := stage_cur a + 1\<rparr>) (u\<lparr>d_out_buf := b\<rparr>))" if "ready J K u" for u b
    by (rule ready_stage [OF co that]) simp_all
  show "completes (interest8_step e i orig v s) (ready J K)"
    using r1(2) by (auto simp: interest8_step_def Let_def intro!: completes_ret completes_run [OF co r1(1)] r2)
  show "completes (interest_step e k swap i orig v s) (ready J K)" unfolding interest_step_def Let_def
    by (rule completes_bind [OF attempt_completes(2) [OF co r1(3)]], rule attempt_completes(2) [OF co])
qed

lemma value_stages_complete:
  assumes co: "cooperates e J" and mp: "mapped e" and r: "ready J K s"
    and step: "\<And>i o' v t. ready J K t \<Longrightarrow> completes (step i o' v t) (ready J K)"
    and step': "\<And>i o' v t. ready J K t \<Longrightarrow> completes (step' i o' v t) (ready J K)"
  shows "completes (arith_stage e k step name pb idx s) (ready J K)" and "completes (interest_stage e k vs step' name pb idx s) (ready J K)"
proof -
  have b: "ready J K (begin_stage n x s)" for n x by (rule ready_stage [OF co r]) simp_all
  have c: "ready J K (on_afl (\<lambda>a. a\<lparr>stage_cur_byte := int i\<rparr>) t)" if "ready J K t" for i t by (rule ready_stage [OF co that]) simp_all
  have k: "K (d_dict t)" if "ready J K t" for t using that by (simp add: ready_def)
  show "completes (arith_stage e k step name pb idx s) (ready J K)" unfolding arith_stage_def
    by (rule completes_end, rule completes_for [where I = "ready J K"])
      (auto simp: b arith_at_def Let_def intro!: completes_at_byte [OF co mp, where K = K] completes_for [where I = "ready J K"] completes_ret step c k)
  show "completes (interest_stage e k vs step' name pb idx s) (ready J K)" unfolding interest_stage_def
    by (rule completes_end, rule completes_for [where I = "ready J K"])
      (auto simp: b interest_at_def Let_def intro!: completes_at_byte [OF co mp, where K = K] completes_bind [OF completes_for [where I = "ready J K"]] restore_completes(2) step' c k)
qed

lemma values_complete:
  assumes co: "cooperates e J" and mp: "mapped e" and r: "ready J K s"
  shows "completes (ariths e s) (ready J K)" and "completes (interests e s) (ready J K)"
proof -
  have a: "completes (arith_stage e 1 (arith8_step e) n pb idx t) (ready J K)" "completes (arith_stage e 2 (arith16_step e) n pb idx t) (ready J K)"
    "completes (arith_stage e 4 (arith32_step e) n pb idx t) (ready J K)" if "ready J K t" for n pb idx t
    by (rule value_stages_complete(1) [OF co mp that], (rule arith_steps_complete [OF co], assumption)+)+
  have i: "completes (interest_stage e k vs (interest8_step e) n pb idx t) (ready J K)"
    "completes (interest_stage e k vs (interest_step e k swap) n pb idx t) (ready J K)" if "ready J K t" for k vs swap n pb idx t
    by (rule value_stages_complete(2) [OF co mp that], (rule interest_steps_complete [OF co], assumption)+)+
  show "completes (ariths e s) (ready J K)"
    unfolding ariths_def using r
    by (auto simp del: One_nat_def intro!: completes_ret completes_bind [OF a(1)] completes_bind [OF a(2)] a(3) ready_val_type [OF co])
  show "completes (interests e s) (ready J K)"
    using r by (auto simp: interests_def intro!: completes_ret completes_bind [OF i(1)] completes_bind [OF i(2)] i(2) ready_val_type [OF co])
qed

text \<open>Dictionary tokens.\<close>

lemma skip_never:
  "word_of_nat (length (extras (d_dict s))) \<le> max_det_extras (d_dict s) \<Longrightarrow> skip_at_random e s = Inr (Some (False, d_afl s))"
  by (simp add: skip_at_random_def Let_def)

lemma token_steps_complete:
  assumes co: "cooperates e J" and r: "ready J K s" and few: "\<And>d. K d \<Longrightarrow> word_of_nat (length (extras d)) \<le> max_det_extras d"
  shows "completes (over_token e i t s) (ready J K)" and "completes (over_user_token e i t s) (ready J K)"
    and "completes (insert_token e i t s) (ready J K)"
proof -
  have r1: "ready J K (on_afl (\<lambda>a. a\<lparr>stage_max := stage_max a - 1\<rparr>) s)" by (rule ready_stage [OF co r]) simp_all
  have r2: "ready J K (on_afl (\<lambda>a. a\<lparr>stage_cur := stage_cur a + 1\<rparr>) u)" if "ready J K u" for u by (rule ready_stage [OF co that]) simp_all
  have r3: "ready J K (s\<lparr>d_last_len := n, d_out_buf := b\<rparr>)" "ready J K (s\<lparr>d_ex_tmp := b\<rparr>)" for n b using r by (simp_all add: ready_def)
  show over: "completes (over_token e i t s) (ready J K)"
    using r1 by (auto simp: over_token_def Let_def intro!: completes_ret completes_run [OF co r3(1)] r2)
  have "skip_at_random e s = Inr (Some (False, d_afl s))" using skip_never few r by (simp add: ready_def)
  then show "completes (over_user_token e i t s) (ready J K)" using over by (simp add: over_user_token_def)
  show "completes (insert_token e i t s) (ready J K)"
    using r1 by (auto simp: insert_token_def Let_def intro!: completes_ret completes_run [OF co r3(2)] r2)
qed

lemma token_stages_complete:
  assumes co: "cooperates e J" and mp: "mapped e" and r: "ready J K s" and few: "\<And>d. K d \<Longrightarrow> word_of_nat (length (extras d)) \<le> max_det_extras d"
    and step: "\<And>i t u. ready J K u \<Longrightarrow> completes (step i t u) (ready J K)" and pos: "0 < in_len e"
  shows "completes (over_stage e step ts name idx s) (ready J K)" and "completes (insert_stage junk e ts name idx s) (ready J K)"
proof -
  have b: "ready J K (val_type t (begin_stage n x s))" "ready J K (grow_ex_tmp junk e (begin_stage n x s))" for n x t
    by (rule ready_stage [OF co r]; simp add: grow_ex_tmp_def)+
  have c: "ready J K (on_afl (\<lambda>a. a\<lparr>stage_cur_byte := int i\<rparr>) t)" if "ready J K t" for i t by (rule ready_stage [OF co that]) simp_all
  have k: "K (d_dict t)" if "ready J K t" for t using that by (simp add: ready_def)
  show "completes (over_stage e step ts name idx s) (ready J K)" unfolding over_stage_def Let_def
    by (rule completes_end, rule completes_for [where I = "ready J K"])
      (auto simp: b over_at_def intro!: completes_at_byte [OF co mp, where K = K] completes_bind [OF completes_for [where I = "ready J K"]] completes_ret step c k)
  show "completes (insert_stage junk e ts name idx s) (ready J K)" unfolding insert_stage_def Let_def
    by (rule completes_end, rule completes_for [where I = "ready J K"])
      (use pos in \<open>auto simp: b insert_at_byte_def intro!: completes_at_byte [OF co mp, where K = K] completes_bind [OF completes_for [where I = "ready J K"]] completes_ret
        token_steps_complete(3) [OF co _ few] c k\<close>)
qed

lemma tokens_complete:
  assumes co: "cooperates e J" and mp: "mapped e" and r: "ready J K s" and few: "\<And>d. K d \<Longrightarrow> word_of_nat (length (extras d)) \<le> max_det_extras d"
    and pos: "0 < in_len e"
  shows "completes (user_extras junk e s) (ready J K)" and "completes (auto_extras junk e s) (ready J K)"
proof -
  note steps = token_steps_complete [OF co _ few]
  note st = token_stages_complete [OF co mp _ few _ pos]
  show "completes (user_extras junk e s) (ready J K)" unfolding user_extras_def
    using r by (auto intro!: completes_ret completes_bind [OF st(1)] st(2) steps)
  show "completes (auto_extras junk e s) (ready J K)" unfolding auto_extras_def
    using r by (auto intro!: completes_ret completes_bind [OF st(1)] st(2) steps)
qed

text \<open>A dictionary with room for one more automatic token per byte, and with few user tokens.\<close>

definition room :: "bytes list \<Rightarrow> u32 \<Rightarrow> nat \<Rightarrow> nat \<Rightarrow> nat \<Rightarrow> dictionary \<Rightarrow> bool" where
  "room X M n m i d \<longleftrightarrow> dict_at X (n + i) d \<and> length (a_extras d) \<le> m + i div 8 \<and> max_det_extras d = M"

lemma maybe_add_auto_returns:
  assumes "length (a_extras d) < MAX_AUTO_EXTRAS"
  shows "\<exists>d'. maybe_add_auto c fuel u mem d a = Inr (Some (d', a)) \<and> max_det_extras d' = max_det_extras d"
  using assms by (auto simp: maybe_add_auto_def sort_a_extras_def Let_def split: option.split)

lemma room_accepts:
  assumes "libc_ok (e_libc e)" and "n + i < 2 ^ 31 - 1" and "m + i div 8 < MAX_AUTO_EXTRAS" and "i mod 8 = 7"
  shows "accepts_tokens e (room X M n m i) (room X M n m (Suc i))"
proof -
  have s: "Suc i div 8 = Suc (i div 8)" using assms(4) by presburger
  note off = dict_at_offers [OF assms(1,2), unfolded offers_def]
  have mono: "room X M n m (Suc i) d" if "room X M n m i d" for d using that off by (simp add: room_def s)
  have "\<exists>d'. maybe_add_auto (e_libc e) (e_fuel e) (e_urandom e) mem d a = Inr (Some (d', a)) \<and> room X M n m (Suc i) d'"
    if r: "room X M n m i d" for d a mem
  proof -
    have k: "dict_at X (n + i) d" "length (a_extras d) \<le> m + i div 8" "max_det_extras d = M" using r by (simp_all add: room_def)
    obtain d' where d': "maybe_add_auto (e_libc e) (e_fuel e) (e_urandom e) mem d a = Inr (Some (d', a))" "max_det_extras d' = M"
      using maybe_add_auto_returns [of d] k assms(3) by fastforce
    have at: "dict_at X (Suc (n + i)) d'" using off k(1) d'(1) by blast
    have le: "\<forall>x \<in> set (a_extras d). unat (ae_hit_cnt x) \<le> n + i" and ok: "autos_ok (a_extras d)" using k(1) by (simp_all add: dict_at_def)
    then have "\<forall>x \<in> set (a_extras d). ae_hit_cnt x < 2 ^ 31 - 1" using assms(2) by (fastforce simp: word_less_nat_alt)
    from maybe_add_auto_effect [OF assms(1) ok this d'(1) le]
    have "d' = d \<or> tokens d' = tokens d \<or> tokens d' = add_mset mem (tokens d)" using k(2) assms(3) by (auto split: if_splits)
    then have "length (a_extras d') \<le> Suc (length (a_extras d))" by (auto simp: tokens_def dest: arg_cong [of _ _ size])
    then show ?thesis using d' at k(2) by (simp add: room_def s)
  qed
  then show ?thesis using mono by (auto simp: accepts_tokens_def)
qed

lemma room_mono: "room X M n m i d \<Longrightarrow> room X M n m (Suc i) d"
proof -
  assume r: "room X M n m i d"
  have "i div 8 \<le> Suc i div 8" by (rule div_le_mono) simp
  then show ?thesis using r by (auto simp: room_def dict_at_def intro: le_SucI)
qed

lemma before_finish_completes:
  assumes co: "cooperates e J" and mp: "mapped e" and fits: "fits_file e" and lib: "libc_ok (e_libc e)" and j: "J (d_afl s)"
    and room: "room X M n m 0 (d_dict s)" and few: "word_of_nat (length X) \<le> M"
    and n: "n + 8 * in_len e < 2 ^ 31 - 1" and m: "m + in_len e \<le> MAX_AUTO_EXTRAS"
  shows "completes (dbind (bitflips e s) (\<lambda>s. dbind (ariths e s) (interests e))) (ready J (room X M n m (8 * in_len e)))"
    and "completes (dbind (bitflips e s) (\<lambda>s. dbind (ariths e s) (\<lambda>s. dbind (interests e s) (\<lambda>s.
      dbind (user_extras junk e s) (auto_extras junk e))))) (ready J (room X M n m (8 * in_len e)))"
proof -
  let ?K = "room X M n m"
  have r: "ready J (?K 0) s" using j room by (simp add: ready_def)
  have acc: "accepts_tokens e (?K b) (?K (Suc b))" if "b < 8 * in_len e" "b mod 8 = 7" for b
    by (rule room_accepts [OF lib]) (use that n m in auto)
  have f: "word_of_nat (length (extras d)) \<le> max_det_extras d" if "?K i d" for i d using that few by (simp add: room_def dict_at_def)
  have pos: "0 < in_len e" using fits by (simp add: fits_file_def)
  note bf = bitflips_completes [where K = ?K, OF co mp fits r acc room_mono]
  show "completes (dbind (bitflips e s) (\<lambda>s. dbind (ariths e s) (interests e))) (ready J (?K (8 * in_len e)))"
    by (rule completes_bind [OF bf], assumption+, rule completes_bind [OF values_complete(1) [OF co mp]], assumption, rule values_complete(2) [OF co mp])
  show "completes (dbind (bitflips e s) (\<lambda>s. dbind (ariths e s) (\<lambda>s. dbind (interests e s) (\<lambda>s.
      dbind (user_extras junk e s) (auto_extras junk e))))) (ready J (?K (8 * in_len e)))"
    by (rule completes_bind [OF bf], assumption+, rule completes_bind [OF values_complete(1) [OF co mp]], assumption,
        rule completes_bind [OF values_complete(2) [OF co mp]], assumption, rule completes_bind [OF tokens_complete(1) [OF co mp _ f pos]], assumption+,
        rule tokens_complete(2) [OF co mp _ f pos])
qed

text \<open>The current entry is set up for the deterministic stages.\<close>

definition has_entry :: "nat \<Rightarrow> afl_state \<Rightarrow> bool" where
  "has_entry k a \<longleftrightarrow> queue_cur a = Some k \<and> k < length (queue_buf a) \<and> CHR ''/'' \<in> set (q_fname (queue_buf a ! k)) \<and>
     q_skipdet_e (queue_buf a ! k) \<noteq> None"

lemma stages_reach_end:
  assumes "cooperates e J" and "mapped e" and "fits_file e" and "libc_ok (e_libc e)" and "J (d_afl s)"
    and "room X M n m 0 (d_dict s)" and "word_of_nat (length X) \<le> M"
    and "n + 8 * in_len e < 2 ^ 31 - 1" and "m + in_len e \<le> MAX_AUTO_EXTRAS"
    and q: "\<forall>a. J a \<longrightarrow> has_entry k a"
  shows "\<exists>s'. deterministic_stages junk True chown_needed True e s = Inr (Some (Custom_mutator_stage, s')) \<and>
    skips_det sd main_id main_max perf (d_afl s') = Inr True"
proof -
  obtain t where t: "dbind (bitflips e s) (\<lambda>s. dbind (ariths e s) (\<lambda>s. dbind (interests e s) (\<lambda>s.
      dbind (user_extras junk e s) (auto_extras junk e)))) = Inr (Some (Go_on, t))" "J (d_afl t)"
    using before_finish_completes(2) [OF assms(1-9), of junk] by (auto simp: completes_def ready_def)
  have "deterministic_stages junk True chown_needed True e s = finish_det True chown_needed True t"
    unfolding deterministic_stages_def dbind_assoc [symmetric] t(1) [unfolded dbind_assoc [symmetric]] by (simp add: dbind_def)
  moreover have "queue_cur (d_afl t) = Some k" "k < length (queue_buf (d_afl t))" "CHR ''/'' \<in> set (q_fname (queue_buf (d_afl t) ! k))"
    "q_skipdet_e (queue_buf (d_afl t) ! k) \<noteq> None" using q t(2) by (auto simp: has_entry_def)
  ultimately show ?thesis by (auto simp: finish_det_def mark_as_det_done_def set_entry_def skips_det_def Let_def)
qed

end
