(* ===== verification/Det_Outcomes.thy ===== *)
theory Det_Outcomes
  imports Det_Progress
begin

text \<open>
  What the deterministic stages do as a whole: they restore the test case, run exactly the planned
  flips, leave no value of an effective byte untried, and come to an end.
\<close>

section \<open>No value of an effective byte is lost\<close>

lemma ucast8_inject: "(ucast (a :: u8) :: u32) = ucast b \<longleftrightarrow> a = b"
proof
  assume eq: "(ucast a :: u32) = ucast b"
  show "a = b"
  proof (rule bit_word_eqI)
    fix m assume "m < LENGTH(8)"
    then show "bit a m \<longleftrightarrow> bit b m" using arg_cong [OF eq, of "\<lambda>w. bit w m"] by (simp add: bit_simps)
  qed
qed simp

lemma ucast8_down: "(ucast (ucast (a :: u8) :: u32) :: u8) = a"
  by (rule bit_word_eqI) (simp add: bit_simps)

lemma take_bit_ucast8: "take_bit 8 (w :: u32) = ucast (ucast w :: u8)"
  by (rule bit_word_eqI) (auto simp: bit_simps)

lemma ucast8_of_int: "(ucast (word_of_int x :: u32) :: u8) = word_of_int x"
  by (rule bit_word_eqI) (auto simp: bit_simps)

lemma ucast8_of_nat: "(ucast (word_of_nat j :: u32) :: u8) = word_of_nat j"
  using ucast8_of_int [of "int j"] by simp

lemma ucast8_ariths: "(ucast (a + b :: u32) :: u8) = ucast a + ucast b" "(ucast (a - b :: u32) :: u8) = ucast a - ucast b"
proof -
  have u: "(ucast w :: u8) = word_of_int (uint w)" for w :: u32 using ucast8_of_int [of "uint w"] by simp
  have "(ucast (word_of_int (uint a + uint b) :: u32) :: u8) = word_of_int (uint a) + word_of_int (uint b)"
    "(ucast (word_of_int (uint a - uint b) :: u32) :: u8) = word_of_int (uint a) - word_of_int (uint b)"
    by (subst ucast8_of_int, simp)+
  moreover have "word_of_int (uint a + uint b) = a + b" "word_of_int (uint a - uint b) = a - b" by simp_all
  ultimately show "(ucast (a + b :: u32) :: u8) = ucast a + ucast b" "(ucast (a - b :: u32) :: u8) = ucast a - ucast b"
    unfolding u [of a] u [of b] by (simp_all only:)
qed

lemma put_byte: "i < length buf \<Longrightarrow> put_val 1 i v buf = buf[i := ucast v]"
proof -
  assume i: "i < length buf"
  have "store_le 1 v = [ucast v]" by (simp add: store_le_def byte_of_def)
  then show ?thesis using i by (simp add: put_val_def memcpy_at_def upd_conv_take_nth_drop)
qed

lemma get_byte: "i < length buf \<Longrightarrow> get_val 1 i buf = ucast (buf ! i)"
  by (simp add: get_val_def take_Suc hd_drop_conv_nth)

lemma flip_bits_byte:
  assumes "p + n \<le> 8" and "i < length buf"
  shows "flip_bits n (8 * i + p) buf = buf[i := buf ! i XOR push_bit (8 - p - n) (mask n)]"
  using assms(1)
proof (induction n)
  case 0
  then show ?case by (simp add: flip_bits_def)
next
  case (Suc n)
  have lt: "p + n < 8" and e: "8 * i + p + n = (p + n) + 8 * i" using Suc.prems by simp_all
  have idx: "(8 * i + p + n) div 8 = i" "(8 * i + p + n) mod 8 = p + n" unfolding e using lt by simp_all
  have e128: "(128 :: u8) = push_bit 7 1" by (simp add: push_bit_eq_mult)
  have b: "bit (128 :: u8) x \<longleftrightarrow> x = 7" for x
    unfolding e128 by (simp only: bit_push_bit_iff bit_1_iff) auto
  have m: "push_bit (8 - p - n) (mask n) XOR drop_bit (p + n) (128 :: u8) = push_bit (8 - p - Suc n) (mask (Suc n))"
  proof (rule bit_word_eqI)
    fix x assume "x < LENGTH(8)"
    have d: "bit (drop_bit (p + n) (128 :: u8)) x \<longleftrightarrow> p + n + x = 7" by (simp only: bit_drop_bit_eq comp_def b)
    show "bit (push_bit (8 - p - n) (mask n) XOR drop_bit (p + n) (128 :: u8)) x \<longleftrightarrow> bit (push_bit (8 - p - Suc n) (mask (Suc n)) :: u8) x"
      unfolding bit_xor_iff d using Suc.prems \<open>x < LENGTH(8)\<close> by (auto simp: bit_push_bit_iff bit_mask_iff)
  qed
  have "flip_bits (Suc n) (8 * i + p) buf = FLIP_BIT (8 * i + p + n) (flip_bits n (8 * i + p) buf)"
    by (simp add: flip_bits_def)
  also have "\<dots> = buf[i := (buf ! i XOR push_bit (8 - p - n) (mask n)) XOR drop_bit (p + n) 128]"
    using Suc assms(2) by (simp add: FLIP_BIT_def idx)
  finally show ?case unfolding xor.assoc m .
qed

lemma ucast_eq_mask:
  assumes "(ucast (a :: u8) :: u32) = push_bit k (mask n)"
  shows "a = push_bit k (mask n)"
proof (rule bit_word_eqI)
  fix m assume "m < LENGTH(8)"
  then show "bit a m \<longleftrightarrow> bit (push_bit k (mask n) :: u8) m"
    using arg_cong [OF assms, of "\<lambda>w. bit w m"] by (auto simp: bit_simps)
qed

lemma byte_pattern:
  assumes "could_be_bitflip (ucast (a :: u8))" and "a \<noteq> 0"
  shows "\<exists>k n. (n \<in> {1, 2, 4} \<and> k + n \<le> 8 \<or> n = 8 \<and> k = 0) \<and> a = push_bit k (mask n)"
proof -
  have "(ucast a :: u32) \<noteq> 0" using assms(2) ucast8_inject [of a 0] by simp
  then obtain k n where f: "flip_pattern k n" and c: "(ucast a :: u32) = push_bit k (mask n)"
    using assms(1) could_be_bitflip_iff by blast
  have kn: "k + n \<le> 32" "0 < n" using f by (auto simp: flip_pattern_def)
  have "bit (push_bit k (mask n) :: u32) (k + n - 1)" using kn by (auto simp: bit_simps)
  then have "bit (ucast a :: u32) (k + n - 1)" using c by simp
  then have "bit a (k + n - 1)" by (simp add: bit_simps)
  then have "k + n - 1 < 8" using bit_imp_le_length [of a] by simp
  then have "k + n \<le> 8" by linarith
  with f kn have "n \<in> {1, 2, 4} \<and> k + n \<le> 8 \<or> n = 8 \<and> k = 0" by (auto simp: flip_pattern_def)
  then show ?thesis using ucast_eq_mask [OF c] by blast
qed

lemma flips_plan_member:
  assumes "i < in_len e" and "effective e i" and "p + n \<le> 8" and "0 < n"
  shows "flip_bits n (8 * i + p) (e_in_buf e) \<in> set (flips_plan e n (8 * in_len e - (n - 1)))"
proof -
  have "8 * i + p < 8 * in_len e - (n - 1)" using assms by linarith
  moreover have "(8 * i + p) div 8 = i" using assms(3,4) by simp
  ultimately show ?thesis using assms(2) by (auto simp: flips_plan_def intro!: image_eqI [of _ _ "8 * i + p"])
qed

lemma bitflip_tried:
  assumes "i < in_len e" and "effective e i" and "could_be_bitflip (ucast (e_in_buf e ! i) XOR ucast y)"
  shows "(e_in_buf e)[i := y] \<in> set (bitflips_plan e)"
proof (cases "y = e_in_buf e ! i")
  case True
  then show ?thesis by (simp add: bitflips_plan_def)
next
  case False
  let ?a = "e_in_buf e ! i XOR y"
  have u: "(ucast (e_in_buf e ! i) XOR ucast y :: u32) = ucast ?a" by (rule bit_word_eqI) (auto simp: bit_simps)
  have undone: "e_in_buf e ! i XOR ?a = y" by (simp add: xor.assoc [symmetric])
  have a: "?a \<noteq> 0"
  proof
    assume "?a = 0"
    then show False using undone False by simp
  qed
  obtain k n where kn: "n \<in> {1, 2, 4} \<and> k + n \<le> 8 \<or> n = 8 \<and> k = 0" and p: "?a = push_bit k (mask n)"
    using byte_pattern [OF assms(3) [unfolded u] a] by blast
  have y: "y = e_in_buf e ! i XOR push_bit k (mask n)" using undone unfolding p by simp
  have i: "i < length (e_in_buf e)" using assms(1) by (simp add: in_len_def)
  from kn show ?thesis
  proof (elim disjE conjE)
    assume n: "n \<in> {1, 2, 4}" and le: "k + n \<le> 8"
    have "(e_in_buf e)[i := y] = flip_bits n (8 * i + (8 - k - n)) (e_in_buf e)"
      using flip_bits_byte [of "8 - k - n" n i "e_in_buf e"] le i y by simp
    moreover have "flip_bits n (8 * i + (8 - k - n)) (e_in_buf e) \<in> set (flips_plan e n (8 * in_len e - (n - 1)))"
      by (rule flips_plan_member [OF assms(1,2)]) (use le n in auto)
    ultimately show ?thesis using n by (auto simp: bitflips_plan_def)
  next
    assume "n = 8" and "k = 0"
    then have "(e_in_buf e)[i := y] = (e_in_buf e)[i := e_in_buf e ! i XOR 0xFF]" using y by (simp add: mask_eq_decr_exp)
    then show ?thesis using assms(1,2) by (auto simp: bitflips_plan_def flip8_plan_def)
  qed
qed

lemma byte_arith:
  "take_bit 8 (ucast (x :: u8) + word_of_nat j :: u32) = ucast (x + word_of_nat j)"
  "take_bit 8 (ucast (x :: u8) - word_of_nat j :: u32) = ucast (x - word_of_nat j)"
  by (simp_all add: take_bit_ucast8 ucast8_ariths ucast8_down ucast8_of_nat)

lemma byte_of_int: "take_bit 8 (word_of_int v :: u32) = ucast (word_of_int v :: u8)"
  by (rule bit_word_eqI) (auto simp: bit_simps)

definition near_byte :: "u8 \<Rightarrow> u8 \<Rightarrow> bool" where
  "near_byte x y \<longleftrightarrow> (\<exists>j \<le> ARITH_MAX. y = x + word_of_nat j \<or> y = x - word_of_nat j)"

lemma in_concat_map: "x \<in> set (f i) \<Longrightarrow> i \<in> set xs \<Longrightarrow> x \<in> set (concat (map f xs))"
  by auto

lemma arith_tried:
  assumes "i < in_len e" and "effective e i" and "near_byte (e_in_buf e ! i) y"
  shows "(e_in_buf e)[i := y] \<in> set (bitflips_plan e) \<union> set (arith8_plan e)"
proof -
  let ?x = "e_in_buf e ! i"
  obtain j where j: "j \<le> ARITH_MAX" "y = ?x + word_of_nat j \<or> y = ?x - word_of_nat j" using assms(3) by (auto simp: near_byte_def)
  have i: "i < length (e_in_buf e)" using assms(1) by (simp add: in_len_def)
  show ?thesis
  proof (cases "could_be_bitflip (ucast ?x XOR ucast y) \<or> j = 0")
    case True
    moreover have "y = ?x" if "j = 0" using j(2) that by auto
    moreover have "could_be_bitflip (ucast ?x XOR ucast ?x)" by (simp add: could_be_bitflip_def)
    ultimately have "could_be_bitflip (ucast ?x XOR ucast y)" by metis
    then show ?thesis using bitflip_tried [OF assms(1,2)] by blast
  next
    case False
    have "ucast y \<in> set (arith8_values (ucast ?x) j)" using False j(2) by (auto simp: arith8_values_def byte_arith)
    moreover have "(e_in_buf e)[i := y] = put_val 1 i (ucast y) (e_in_buf e)" using put_byte [OF i, of "ucast y"] by (simp only: ucast8_down)
    ultimately have v: "(e_in_buf e)[i := y] \<in> set (map (\<lambda>v. put_val 1 i v (e_in_buf e)) (arith8_values (get_val 1 i (e_in_buf e)) j))"
      unfolding get_byte [OF i] set_map by (simp only: image_eqI)
    have m: "j \<in> set [1..<ARITH_MAX + 1]" "i \<in> set (filter (effective e) [0..<in_len e])" using False j assms by auto
    have "(e_in_buf e)[i := y] \<in> set (arith8_plan e)"
      unfolding arith8_plan_def
      by (rule in_concat_map [where i = i, OF _ m(2)], rule in_concat_map [where i = j, OF _ m(1)], rule v)
    then show ?thesis by blast
  qed
qed

lemma could_be_arith_byte:
  assumes "could_be_arith (ucast (x :: u8)) (ucast y) 1"
  shows "near_byte x y"
proof (cases "x = y")
  case True
  then show ?thesis by (auto simp: near_byte_def intro: exI [of _ 0])
next
  case False
  have t: "take_bit 8 (ucast z :: u32) = ucast (z :: u8)" for z by (simp add: take_bit_ucast8 ucast8_down)
  have "(ucast x :: u32) \<noteq> ucast y" using False by (simp add: ucast8_inject)
  then have "near 8 (ucast x) (ucast y)"
    using assms by (auto simp: could_be_arith_def scan_diffs_def diff_step_def t split: if_splits)
  then have "reach 8 (ucast x) (ucast y)" using near_iff_reach [OF t] by blast
  then obtain d where "d \<le> ARITH_MAX" "(ucast y :: u32) = ucast (x + word_of_nat d) \<or> (ucast y :: u32) = ucast (x - word_of_nat d)"
    by (auto simp: reach_def byte_arith)
  then show ?thesis by (auto simp: near_byte_def ucast8_inject)
qed

text \<open>The values the three 8-bit stages owe to a byte \<open>x\<close>.\<close>

definition owed_byte :: "u8 \<Rightarrow> u8 \<Rightarrow> bool" where
  "owed_byte x y \<longleftrightarrow> could_be_bitflip (ucast x XOR ucast y) \<or> near_byte x y \<or> (\<exists>v \<in> set interesting_8. y = word_of_int v)"

lemma owed_tried:
  assumes "i < in_len e" and "effective e i" and "owed_byte (e_in_buf e ! i) y"
  shows "(e_in_buf e)[i := y] \<in> set (bitflips_plan e @ arith8_plan e @ interest8_plan e)"
proof (cases "could_be_bitflip (ucast (e_in_buf e ! i) XOR ucast y) \<or> near_byte (e_in_buf e ! i) y")
  case True
  then show ?thesis using bitflip_tried [OF assms(1,2)] arith_tried [OF assms(1,2)] by auto
next
  case False
  let ?x = "e_in_buf e ! i"
  have i: "i < length (e_in_buf e)" using assms(1) by (simp add: in_len_def)
  obtain v where v: "v \<in> set interesting_8" "y = word_of_int v" using False assms(3) by (auto simp: owed_byte_def)
  have "\<not> could_be_arith (ucast ?x) (ucast y) 1" using False could_be_arith_byte by blast
  then have "ucast y \<in> set (interest8_values (ucast ?x))"
    using False v by (auto simp: interest8_values_def byte_of_int intro!: image_eqI [of _ _ v])
  moreover have "(e_in_buf e)[i := y] = put_val 1 i (ucast y) (e_in_buf e)" using put_byte [OF i, of "ucast y"] by (simp only: ucast8_down)
  ultimately have w: "(e_in_buf e)[i := y] \<in> set (map (\<lambda>v. put_val 1 i v (e_in_buf e)) (interest8_values (get_val 1 i (e_in_buf e))))"
    unfolding get_byte [OF i] set_map by (simp only: image_eqI)
  have "(e_in_buf e)[i := y] \<in> set (interest8_plan e)"
    unfolding interest8_plan_def by (rule in_concat_map [where i = i], rule w) (use assms in auto)
  then show ?thesis by simp
qed

lemma keeps_Go_on:
  "keeps e s R S Q C \<Longrightarrow> R = Inr (Some (Go_on, s')) \<Longrightarrow> \<exists>xs. executes e (d_afl s) xs (d_afl s') \<and> Q s'"
  unfolding keeps_def by blast

lemma follows_Go_on:
  "follows e s R P Q C \<Longrightarrow> R = Inr (Some (Go_on, s')) \<Longrightarrow> executes e (d_afl s) P (d_afl s') \<and> Q s'"
  unfolding follows_def by blast

lemma dbind_Go_on:
  "dbind m f = Inr (Some (Go_on, s')) \<Longrightarrow> \<exists>s1. m = Inr (Some (Go_on, s1)) \<and> f s1 = Inr (Some (Go_on, s'))"
  by (erule dbind_cases) auto

text \<open>A stage that follows a plan and one that keeps the buffer, in a row.\<close>

lemma plan_then_words:
  assumes "follows e s m P Q C" and "\<And>s1. Q s1 \<Longrightarrow> keeps e s1 (f s1) UNIV Q C" and "dbind m f = Inr (Some (Go_on, s'))"
  shows "\<exists>xs. executes e (d_afl s) xs (d_afl s') \<and> set P \<subseteq> set xs \<and> Q s'"
proof -
  obtain s1 where 1: "m = Inr (Some (Go_on, s1))" "f s1 = Inr (Some (Go_on, s'))" using dbind_Go_on [OF assms(3)] by blast
  have m: "executes e (d_afl s) P (d_afl s1)" "Q s1" using follows_Go_on [OF assms(1) 1(1)] by simp_all
  obtain ys where "executes e (d_afl s1) ys (d_afl s')" "Q s'" using keeps_Go_on [OF assms(2) [OF m(2)] 1(2)] by blast
  then show ?thesis using executes_append [OF _ m(1)] by (intro exI [of _ "P @ ys"]) simp
qed

lemma ariths_run:
  assumes "holds e K s" and "\<not> e_no_arith e" and "ariths e s = Inr (Some (Go_on, s'))"
  shows "\<exists>xs. executes e (d_afl s) xs (d_afl s') \<and> set (arith8_plan e) \<subseteq> set xs \<and> holds e K s'"
proof -
  have v: "holds e K (val_type STAGE_VAL_LE s)" using assms(1) by (simp add: holds_def)
  obtain xs where x: "executes e (d_afl (val_type STAGE_VAL_LE s)) xs (d_afl s')" "set (arith8_plan e) \<subseteq> set xs" "holds e K s'"
    using plan_then_words [OF arith8_stage_follows [OF v] arith_words_keep] assms(3)
    unfolding ariths_def if_not_P [OF assms(2)] by blast
  then show ?thesis using executes_prepend [OF x(1), of "d_afl s"] by auto
qed

lemma interests_run:
  assumes "holds e K s" and "interests e s = Inr (Some (Go_on, s'))"
  shows "\<exists>xs. executes e (d_afl s) xs (d_afl s') \<and> set (interest8_plan e) \<subseteq> set xs \<and> holds e K s'"
proof -
  have v: "holds e K (val_type STAGE_VAL_LE s)" using assms(1) by (simp add: holds_def)
  obtain xs where x: "executes e (d_afl (val_type STAGE_VAL_LE s)) xs (d_afl s')" "set (interest8_plan e) \<subseteq> set xs" "holds e K s'"
    using plan_then_words [OF interest8_stage_follows [OF v] interest_words_keep] assms(2) unfolding interests_def by blast
  then show ?thesis using executes_prepend [OF x(1), of "d_afl s"] by auto
qed

section \<open>All stages\<close>

text \<open>
  C9: The deterministic stages restore the test case. Whenever they hand over to the custom mutators and the random stages,
  be it at the end or after a timeout in any stage, \<open>out_buf\<close> is the original test case again, the
  user's dictionary is unchanged and the automatic tokens are in order. The stages that overwrite
  with tokens rely on the dictionaries being sorted by length.
\<close>

theorem deterministic_stages_restore:
  assumes "libc_ok (e_libc e)" and "fits_file e" and "d_out_buf s = e_in_buf e" and "extras_ok (d_dict s)" and "autos_ok (a_extras (d_dict s))"
    and "\<forall>x \<in> set (a_extras (d_dict s)). unat (ae_hit_cnt x) + 8 * in_len e < 2 ^ 31 - 1"
    and "deterministic_stages junk created chown_needed owned e s = Inr (Some (l, s'))"
  shows "l \<noteq> Go_on \<and> (l = Custom_mutator_stage \<longrightarrow>
    d_out_buf s' = e_in_buf e \<and> extras (d_dict s') = extras (d_dict s) \<and> autos_ok (a_extras (d_dict s')))"
proof -
  define n where "n = 2 ^ 31 - 2 - 8 * in_len e"
  let ?L = "\<lambda>d. extras d = extras (d_dict s) \<and> autos_ok (a_extras d)"
  have small: "8 * in_len e < 2 ^ 31 - 2" using assms(2) by (simp add: fits_file_def MAX_FILE_def)
  have "dict_at (extras (d_dict s)) n (d_dict s)" using assms(5,6) small by (fastforce simp: dict_at_def n_def)
  moreover have "n + 8 * in_len e < 2 ^ 31 - 1" using small by (simp add: n_def)
  ultimately have k: "keeps e s (dbind (bitflips e s) (\<lambda>s. dbind (ariths e s) (\<lambda>s. dbind (interests e s) (\<lambda>s.
      dbind (user_extras junk e s) (auto_extras junk e))))) UNIV (holds e ?L) (holds e ?L)"
    using before_finish_keeps [OF assms(1-4)] by blast
  have "dbind (dbind (bitflips e s) (\<lambda>s. dbind (ariths e s) (\<lambda>s. dbind (interests e s) (\<lambda>s.
      dbind (user_extras junk e s) (auto_extras junk e))))) (finish_det created chown_needed owned) = Inr (Some (l, s'))"
    using assms(7) unfolding deterministic_stages_def dbind_assoc .
  then show ?thesis
  proof (cases rule: dbind_cases)
    case (1 s1)
    then have "holds e ?L s1" using k unfolding keeps_def by blast
    moreover have "l = Custom_mutator_stage \<and> d_out_buf s' = d_out_buf s1 \<and> d_dict s' = d_dict s1"
      using 1(2) by (auto simp: finish_det_def rbind_eq_Inr_iff split: option.splits if_splits)
    ultimately show ?thesis by (simp add: holds_def)
  next
    case 2
    then show ?thesis using k unfolding keeps_def holds_def by blast
  qed
qed

text \<open>
  C12: The bit-flip stages run the target first on the test case itself and then, in this order, on every
  flip of one, two and four adjacent bits and of one, two and four bytes that begins in an effective byte: on
  all of them when the stages end normally, and otherwise on an initial part of the list. The test case is
  restored unless the entry is abandoned.
\<close>

theorem bitflips_exact:
  assumes "fits_file e" and "d_out_buf s = e_in_buf e" and "bitflips e s = Inr (Some (l, s'))"
  shows "\<exists>xs. executes e (d_afl s) xs (d_afl s') \<and> prefix xs (bitflips_plan e) \<and> (l = Go_on \<longrightarrow> xs = bitflips_plan e) \<and>
    (l \<noteq> Abandon_entry \<longrightarrow> d_out_buf s' = e_in_buf e)"
proof -
  have "follows e s (bitflips e s) (bitflips_plan e) (holds e (\<lambda>_. True)) (holds e (\<lambda>_. True))"
    by (rule bitflips_follows [where K = "\<lambda>_ _. True"]) (use assms in \<open>auto simp: holds_def offers_def\<close>)
  then obtain xs where "executes e (d_afl s) xs (d_afl s')" "prefix xs (bitflips_plan e)" "l = Go_on \<longrightarrow> xs = bitflips_plan e \<and> holds e (\<lambda>_. True) s'"
      "l = Custom_mutator_stage \<longrightarrow> holds e (\<lambda>_. True) s'"
    using assms(3) unfolding follows_def by blast
  then show ?thesis by (intro exI [of _ xs]) (cases l; simp add: holds_def)
qed

text \<open>
  C10: The duplicate checks lose nothing at the width of a byte. When the bit-flip, arithmetic and
  interesting-value stages all run to their end, the target has been run, for every effective byte of the test case, on the test
  case with that byte changed by any flip pattern, moved up or down by at most \<open>ARITH_MAX\<close>, or replaced by any interesting
  value, although every stage leaves out the values an earlier one is held to have produced.
\<close>

theorem effective_bytes_explored:
  assumes "fits_file e" and "\<not> e_no_arith e" and "d_out_buf s = e_in_buf e"
    and "dbind (bitflips e s) (\<lambda>s. dbind (ariths e s) (interests e)) = Inr (Some (Go_on, s'))"
  shows "\<exists>xs. executes e (d_afl s) xs (d_afl s') \<and>
    (\<forall>i y. i < in_len e \<and> effective e i \<and> owed_byte (e_in_buf e ! i) y \<longrightarrow> (e_in_buf e)[i := y] \<in> set xs)"
proof -
  let ?K = "\<lambda>_. True"
  have f: "follows e s (bitflips e s) (bitflips_plan e) (holds e ?K) (holds e ?K)"
    by (rule bitflips_follows [where K = "\<lambda>_ _. True"]) (use assms in \<open>auto simp: holds_def offers_def\<close>)
  obtain s1 s2 where b: "bitflips e s = Inr (Some (Go_on, s1))" and a: "ariths e s1 = Inr (Some (Go_on, s2))"
    and r: "interests e s2 = Inr (Some (Go_on, s'))" using assms(4) by (blast dest: dbind_Go_on)
  have b': "executes e (d_afl s) (bitflips_plan e) (d_afl s1)" "holds e ?K s1" using follows_Go_on [OF f b] by simp_all
  obtain xs where xs: "executes e (d_afl s1) xs (d_afl s2)" "set (arith8_plan e) \<subseteq> set xs" "holds e ?K s2"
    using ariths_run [OF b'(2) assms(2) a] by blast
  obtain ys where ys: "executes e (d_afl s2) ys (d_afl s')" "set (interest8_plan e) \<subseteq> set ys" using interests_run [OF xs(3) r] by blast
  have "executes e (d_afl s) (bitflips_plan e @ xs @ ys) (d_afl s')"
    using executes_append [OF executes_append [OF ys(1) xs(1)] b'(1)] by simp
  moreover have "(e_in_buf e)[i := y] \<in> set (bitflips_plan e @ xs @ ys)"
    if "i < in_len e" "effective e i" "owed_byte (e_in_buf e ! i) y" for i y
    using owed_tried [OF that] xs(2) ys(2) by auto
  ultimately show ?thesis by blast
qed

text \<open>
  C11: The deterministic stages come to an end. When every run of the target returns without asking to
  abandon the entry, time is left, and the dictionaries are not so full that random choices are needed, all
  stages run to their end, whatever bytes are effective; control reaches the custom mutators, and the
  entry is marked, so that from then on it is passed over whatever its score and the options are.
\<close>

theorem deterministic_stages_complete:
  assumes "cooperates e J" and "J (d_afl s)" and "mapped e" and "fits_file e" and "libc_ok (e_libc e)" and "autos_ok (a_extras (d_dict s))"
    and "\<forall>x \<in> set (a_extras (d_dict s)). unat (ae_hit_cnt x) + 8 * in_len e < 2 ^ 31 - 1"
    and "word_of_nat (length (extras (d_dict s))) \<le> max_det_extras (d_dict s)" and "length (a_extras (d_dict s)) + in_len e \<le> MAX_AUTO_EXTRAS"
    and "\<forall>a. J a \<longrightarrow> has_entry k a"
  shows "\<exists>s'. deterministic_stages junk True chown_needed True e s = Inr (Some (Custom_mutator_stage, s')) \<and>
    skips_det skip_deterministic main_node_id main_node_max perf_score (d_afl s') = Inr True"
proof -
  define n where "n = 2 ^ 31 - 2 - 8 * in_len e"
  have small: "8 * in_len e < 2 ^ 31 - 2" using assms(4) by (simp add: fits_file_def MAX_FILE_def)
  have "room (extras (d_dict s)) (max_det_extras (d_dict s)) n (length (a_extras (d_dict s))) 0 (d_dict s)"
    using assms(6,7) small by (fastforce simp: room_def dict_at_def n_def)
  moreover have "n + 8 * in_len e < 2 ^ 31 - 1" using small by (simp add: n_def)
  ultimately show ?thesis using stages_reach_end [OF assms(1,3-5,2) _ assms(8) _ assms(9,10)] by blast
qed

text \<open>
  The predicate and the flips do not agree across bytes: a difference in two adjacent bits of a little-endian word that lie
  in different bytes counts as a bit flip, but the flips walk every byte from its highest bit and do not produce it.
\<close>

lemma crossing_flip_missed:
  assumes "e_in_buf e = [0, 0]"
  shows "could_be_bitflip 0x180 \<and> put_val 2 0 0x180 (e_in_buf e) \<notin> set (bitflips_plan e)"
proof
  show "could_be_bitflip 0x180" by code_simp
  have p: "put_val 2 0 0x180 [0, 0] = [0x80, 0x01]" by code_simp
  have l: "in_len e = 2" using assms by (simp add: in_len_def)
  have bits: "\<forall>b \<in> set [0..<16]. flip_bits 1 b [0, 0] \<noteq> [0x80, 0x01]" "\<forall>b \<in> set [0..<15]. flip_bits 2 b [0, 0] \<noteq> [0x80, 0x01]"
    "\<forall>b \<in> set [0..<13]. flip_bits 4 b [0, 0] \<noteq> [0x80, 0x01]" by code_simp+
  have bytes: "\<forall>i \<in> set [0..<2]. [0, 0][i := [0, 0] ! i XOR 0xFF] \<noteq> [0x80 :: u8, 0x01]" "flip_bytes 2 0 [0, 0] \<noteq> [0x80, 0x01]" by code_simp+
  show "put_val 2 0 0x180 (e_in_buf e) \<notin> set (bitflips_plan e)"
    using bits bytes unfolding assms p by (auto simp: bitflips_plan_def flips_plan_def flip8_plan_def flip_word_plan_def l assms)
qed

section \<open>Concrete runs\<close>

text \<open>
  Crash exploration (\<open>-C\<close>) on a target that never crashes: no test case is kept. One entry is in the queue.
\<close>

definition calm_state :: "afl_state \<Rightarrow> bool" where
  "calm_state a \<longleftrightarrow> crash_mode a = FSRV_RUN_CRASH \<and> custom_mutators_count a = 0 \<and> skip_requested a = 0 \<and> min_length a = 0 \<and> \<not> path_schedule a \<and>
     queue_cur a = Some 0 \<and> map (\<lambda>q. (q_fname q, q_skipdet_e q)) (queue_buf a) = [(''/q'', Some skipdet_zero)]"

definition calm_env :: det_env where
  "calm_env = \<lparr>e_world = edge_world, e_fuel = 1, e_libc = glibc, e_urandom = Inl (PFATAL ''urandom''), e_in_buf = [65, 7], e_skip_eff_map = [1],
     e_before_det_time = 0, e_no_arith = False\<rparr>"

definition calm_start :: det where
  "calm_start = \<lparr>d_afl = afl_zero\<lparr>crash_mode := FSRV_RUN_CRASH, queue_cur := Some 0, queue_buf := [entry_zero\<lparr>q_fname := ''/q'', q_skipdet_e := Some skipdet_zero\<rparr>]\<rparr>,
     d_out_buf = [65, 7], d_ex_tmp = [], d_dict = dict_zero, d_a_collect = [], d_a_len = 0, d_prev_cksum = 0, d_clean_cksum = 0, d_last_len = 0,
     d_orig_hit_cnt = 0, d_stage_finds = (\<lambda>_. 0), d_stage_cycles = (\<lambda>_. 0), d_blocks_eff_select = 0, d_blocks_eff_total = 0\<rparr>"

lemma calm_state_core:
  assumes "calm_state a" and "stage_core b = stage_core a"
  shows "calm_state b"
proof -
  have "crash_mode (stage_core b) = crash_mode (stage_core a)" "custom_mutators_count (stage_core b) = custom_mutators_count (stage_core a)"
    "skip_requested (stage_core b) = skip_requested (stage_core a)" "min_length (stage_core b) = min_length (stage_core a)"
    "schedule (stage_core b) = schedule (stage_core a)" "queue_cur (stage_core b) = queue_cur (stage_core a)"
    "queue_buf (stage_core b) = queue_buf (stage_core a)" by (simp_all only: assms(2))
  then show ?thesis using assms(1) by (simp add: stage_core_def calm_state_def path_schedule_def)
qed

lemma calm_run_frame:
  assumes "calm_state a" and "run_frame a b"
  shows "calm_state b"
proof -
  have c: "run_core b = run_core a" and q: "map energy_core (queue_buf b) = map energy_core (queue_buf a)" using assms(2) by (simp_all add: run_frame_def)
  have "crash_mode (run_core b) = crash_mode (run_core a)" "custom_mutators_count (run_core b) = custom_mutators_count (run_core a)"
    "skip_requested (run_core b) = skip_requested (run_core a)" "min_length (run_core b) = min_length (run_core a)"
    "schedule (run_core b) = schedule (run_core a)" "queue_cur (run_core b) = queue_cur (run_core a)" by (simp_all only: c)
  moreover have "map (\<lambda>q. (q_fname q, q_skipdet_e q)) (map energy_core (queue_buf b)) =
      map (\<lambda>q. (q_fname q, q_skipdet_e q)) (map energy_core (queue_buf a))" unfolding q ..
  then have "map (\<lambda>q. (q_fname q, q_skipdet_e q)) (queue_buf b) = map (\<lambda>q. (q_fname q, q_skipdet_e q)) (queue_buf a)"
    by (simp add: energy_core_def comp_def)
  ultimately show ?thesis using assms(1) by (simp add: run_core_def calm_state_def path_schedule_def)
qed

lemma calm_run:
  assumes "calm_state a"
  shows "\<exists>b. common_fuzz_stuff edge_world 1 x (word_of_nat (length x)) a = Inr (Some (False, b)) \<and> calm_state b"
proof -
  define n where "n = fit_length False (unat (word_of_nat (length x) :: u32)) a"
  let ?a = "a\<lparr>fsrv := afl_fsrv_write_to_testcase (take n x) (fsrv a)\<rparr>"
  have c: "custom_mutators_count a = 0" "min_length a = 0" using assms by (simp_all add: calm_state_def)
  have "unat (word_of_nat (length x) :: u32) \<le> length x" by (simp add: unsigned_of_nat take_bit_nat_less_eq_self)
  then have "n \<le> length x" using c(2) by (auto simp: n_def fit_length_def)
  then have w: "write_to_testcase edge_world x (word_of_nat (length x)) False a = Inr (x, of_nat n, ?a)"
    using c(1) by (simp add: write_to_testcase_def n_def Let_def)
  obtain f b where b: "exec_target edge_world (exec_tmout (fsrv ?a)) ?a = (f, b)" by (cases "exec_target edge_world (exec_tmout (fsrv ?a)) ?a") auto
  have fb: "f = FSRV_RUN_OK" "stop_soon b = 0" using exec_target_frame(2,4) [OF b] by (auto simp: edge_world_def fsrv_results)
  have a: "calm_state ?a" using assms by (simp add: calm_state_def path_schedule_def)
  let ?b = "b\<lparr>subseq_tmouts := 0\<rparr>"
  have cb: "calm_state ?b" using calm_run_frame [OF a exec_target_frame(1) [OF b]] by (simp add: calm_state_def path_schedule_def)
  have cm: "crash_mode ?b = FSRV_RUN_CRASH" "\<not> path_schedule ?b" using cb unfolding calm_state_def by blast+
  have s: "save_if_interesting edge_world 1 x (of_nat n) FSRV_RUN_OK ?b = Inr (Some (False, if of_nat n = (0 :: u32) then ?b else ?b\<lparr>san_case_status := 0\<rparr>))"
    using cm by (simp add: save_if_interesting_def start_find_def may_save_fault_def fsrv_results One_nat_def Let_def)
  have "skip_requested b = 0" using cb by (simp add: calm_state_def)
  then have r: "common_fuzz_stuff edge_world 1 x (word_of_nat (length x)) a =
      (if of_nat n = (0 :: u32) then Inr (Some (False, ?a)) else Inr (Some (False, ?b\<lparr>san_case_status := 0\<rparr>)))"
    unfolding common_fuzz_stuff_def w rbind_simps split_conv b Let_def using fb s by (simp add: fsrv_results)
  have "calm_state (?b\<lparr>san_case_status := 0\<rparr>)" using cb by (simp add: calm_state_def path_schedule_def)
  then show ?thesis unfolding r using a by auto
qed

lemma calm_cooperates: "cooperates calm_env calm_state"
  unfolding cooperates_def
proof (intro conjI allI impI)
  show "calm_state b" if "calm_state a" "stage_core b = stage_core a" for a b using calm_state_core that by blast
  show "\<exists>b. common_fuzz_stuff (e_world calm_env) (e_fuel calm_env) x (word_of_nat (length x)) a = Inr (Some (False, b)) \<and> calm_state b"
    if "calm_state a" for a x using calm_run [OF that] by (simp add: calm_env_def)
  show "o_time (e_world calm_env) a - e_before_det_time calm_env \<le> MAX_DET_TIMEOUT" for a by (simp add: calm_env_def edge_world_def MAX_DET_TIMEOUT_def)
qed

lemma calm_start_ok:
  "calm_state (d_afl calm_start)" "mapped calm_env" "fits_file calm_env" "libc_ok (e_libc calm_env)" "d_out_buf calm_start = e_in_buf calm_env"
  "extras_ok (d_dict calm_start)" "autos_ok (a_extras (d_dict calm_start))" "in_len calm_env = 2" "extras (d_dict calm_start) = []"
  "a_extras (d_dict calm_start) = []" "max_det_extras (d_dict calm_start) = 256" "\<not> e_no_arith calm_env"
  by (simp_all add: calm_start_def calm_env_def calm_state_def path_schedule_def afl_zero_def mapped_def in_len_def fits_file_def MAX_FILE_def glibc_ok
      extras_ok_def short_tokens_def autos_ok_def dict_zero_def)

lemma calm_queue: "\<forall>a. calm_state a \<longrightarrow> has_entry 0 a"
  by (auto simp: calm_state_def has_entry_def map_eq_Cons_conv)

lemma calm_stages:
  "\<exists>s. bitflips calm_env calm_start = Inr (Some (Go_on, s))"
  "\<exists>s. dbind (bitflips calm_env calm_start) (\<lambda>s. dbind (ariths calm_env s) (interests calm_env)) = Inr (Some (Go_on, s))"
  "\<exists>s. deterministic_stages [] True False True calm_env calm_start = Inr (Some (Custom_mutator_stage, s))"
proof -
  have r: "room [] 256 0 0 0 (d_dict calm_start)" using calm_start_ok by (simp add: room_def dict_at_def)
  have n: "8 * in_len calm_env < 2 ^ 31 - 1" "in_len calm_env \<le> MAX_AUTO_EXTRAS" using calm_start_ok(8) by (simp_all add: dict_sizes)
  then show c: "\<exists>s. dbind (bitflips calm_env calm_start) (\<lambda>s. dbind (ariths calm_env s) (interests calm_env)) = Inr (Some (Go_on, s))"
    using before_finish_completes(1) [OF calm_cooperates calm_start_ok(2-4,1) r] unfolding completes_def by auto
  then show "\<exists>s. bitflips calm_env calm_start = Inr (Some (Go_on, s))" by (blast dest: dbind_Go_on)
  show "\<exists>s. deterministic_stages [] True False True calm_env calm_start = Inr (Some (Custom_mutator_stage, s))"
    using stages_reach_end [OF calm_cooperates calm_start_ok(2-4,1) r _ _ _ calm_queue, where junk = "[]" and chown_needed = False and sd = True
        and main_id = 0 and main_max = 0 and perf = 0] n by auto
qed

theorem deterministic_stages_complete_witness:
  "\<exists>s'. deterministic_stages [] True False True calm_env calm_start = Inr (Some (Custom_mutator_stage, s')) \<and>
     skips_det False 0 0 100 (d_afl s') = Inr True"
  using deterministic_stages_complete [OF calm_cooperates calm_start_ok(1-4,7) _ _ _ calm_queue] calm_start_ok(8-11) by (simp add: dict_sizes)

theorem bitflips_exact_witness:
  "\<exists>s'. bitflips calm_env calm_start = Inr (Some (Go_on, s')) \<and> d_out_buf s' = [65, 7] \<and>
     executes calm_env (d_afl calm_start) (bitflips_plan calm_env) (d_afl s')"
proof -
  obtain s' where r: "bitflips calm_env calm_start = Inr (Some (Go_on, s'))" using calm_stages(1) by blast
  have "e_in_buf calm_env = [65, 7]" by (simp add: calm_env_def)
  then show ?thesis using bitflips_exact [OF calm_start_ok(3,5) r] r by auto
qed

theorem effective_bytes_explored_witness:
  "\<exists>xs (s' :: det). executes calm_env (d_afl calm_start) xs (d_afl s') \<and> [100, 7] \<in> set xs \<and> [127, 7] \<in> set xs"
proof -
  obtain s' where r: "dbind (bitflips calm_env calm_start) (\<lambda>s. dbind (ariths calm_env s) (interests calm_env)) = Inr (Some (Go_on, s'))"
    using calm_stages(2) by blast
  have "near_byte 65 100" by (auto simp: near_byte_def ARITH_MAX_def intro!: exI [of _ 35])
  then have o: "owed_byte 65 100" "owed_byte 65 127" by (simp_all add: owed_byte_def interesting_8_def INTERESTING_8_def)
  have e: "e_in_buf calm_env = [65, 7]" "effective calm_env 0" by (simp_all add: calm_env_def effective_def)
  obtain xs where x: "executes calm_env (d_afl calm_start) xs (d_afl s')"
    and t: "\<And>i y. i < in_len calm_env \<and> effective calm_env i \<and> owed_byte (e_in_buf calm_env ! i) y \<Longrightarrow> (e_in_buf calm_env)[i := y] \<in> set xs"
    using effective_bytes_explored [OF calm_start_ok(3,12,5) r] by blast
  have "[100, 7] \<in> set xs" "[127, 7] \<in> set xs" using t [of 0 100] t [of 0 127] e o calm_start_ok(8) by simp_all
  then show ?thesis using x by blast
qed

theorem deterministic_stages_restore_witness:
  "\<exists>s'. deterministic_stages [] True False True calm_env calm_start = Inr (Some (Custom_mutator_stage, s')) \<and> d_out_buf s' = [65, 7]"
proof -
  obtain s' where r: "deterministic_stages [] True False True calm_env calm_start = Inr (Some (Custom_mutator_stage, s'))" using calm_stages(3) by blast
  have e: "e_in_buf calm_env = [65, 7]" by (simp add: calm_env_def)
  have "\<forall>x \<in> set (a_extras (d_dict calm_start)). unat (ae_hit_cnt x) + 8 * in_len calm_env < 2 ^ 31 - 1" by (simp add: calm_start_ok(10))
  from deterministic_stages_restore [OF calm_start_ok(4,3,5-7) this r] show ?thesis using r e by simp
qed

end
