(* ===== verification/Hashmap.thy ===== *)
theory Hashmap
  imports Afl_Prelude "HOL-Library.Multiset"
begin

text \<open>
  The chained hash set of src/hashmap.c with which the colorization stage skips comparisons it
  has already solved. The locale \<open>bag\<close> is the interface such a set offers; the chained table is
  an interpretation of it, and the statement about sequences of \<open>hashmap_search_and_add\<close> is
  proved once in the locale. A chain is the list of its keys, head first.
\<close>

section \<open>The interface\<close>

definition search_add :: "('k \<Rightarrow> 't \<Rightarrow> bool) \<Rightarrow> ('k \<Rightarrow> 't \<Rightarrow> 't) \<Rightarrow> 'k \<Rightarrow> 't \<Rightarrow> bool \<times> 't" where
  "search_add mem ins k t = (if mem k t then (True, t) else (False, ins k t))"

fun search_add_all :: "('k \<Rightarrow> 't \<Rightarrow> bool) \<Rightarrow> ('k \<Rightarrow> 't \<Rightarrow> 't) \<Rightarrow> 'k list \<Rightarrow> 't \<Rightarrow> bool list \<times> 't" where
  "search_add_all mem ins [] t = ([], t)"
| "search_add_all mem ins (k # ks) t =
     (let (r, t) = search_add mem ins k t; (rs, t) = search_add_all mem ins ks t in (r # rs, t))"

locale bag =
  fixes emp :: 't and ins :: "'k \<Rightarrow> 't \<Rightarrow> 't" and mem :: "'k \<Rightarrow> 't \<Rightarrow> bool" and del :: "'k \<Rightarrow> 't \<Rightarrow> 't"
    and elems :: "'t \<Rightarrow> 'k multiset" and inv :: "'t \<Rightarrow> bool"
  assumes inv_emp: "inv emp"
    and inv_ins: "inv t \<Longrightarrow> inv (ins k t)"
    and inv_del: "inv t \<Longrightarrow> inv (del k t)"
    and elems_emp: "elems emp = {#}"
    and elems_ins: "inv t \<Longrightarrow> elems (ins k t) = add_mset k (elems t)"
    and elems_del: "inv t \<Longrightarrow> elems (del k t) = elems t - {#k#}"
    and mem_iff: "inv t \<Longrightarrow> mem k t \<longleftrightarrow> k \<in># elems t"
begin

lemma search_add_step:
  assumes "inv t"
  shows "fst (search_add mem ins k t) \<longleftrightarrow> k \<in># elems t"
    and "inv (snd (search_add mem ins k t))"
    and "set_mset (elems (snd (search_add mem ins k t))) = insert k (set_mset (elems t))"
  using assms by (auto simp: search_add_def mem_iff inv_ins elems_ins)

text \<open>Adding keys one after the other reports for each key whether it was there already.\<close>

lemma search_add_all_seen:
  assumes "inv t"
  shows "inv (snd (search_add_all mem ins ks t)) \<and>
    set_mset (elems (snd (search_add_all mem ins ks t))) = set_mset (elems t) \<union> set ks \<and>
    fst (search_add_all mem ins ks t) =
      map (\<lambda>i. ks ! i \<in># elems t \<or> ks ! i \<in> set (take i ks)) [0..<length ks]"
  using assms
proof (induction ks arbitrary: t)
  case Nil
  then show ?case by simp
next
  case (Cons k ks)
  let ?t = "snd (search_add mem ins k t)"
  note s = search_add_step [OF Cons.prems, of k]
  note IH = Cons.IH [OF s(2)]
  have "fst (search_add_all mem ins (k # ks) t) = (k \<in># elems t) # fst (search_add_all mem ins ks ?t)"
    using s(1) by (simp add: split_beta)
  also have "\<dots> = map (\<lambda>i. (k # ks) ! i \<in># elems t \<or> (k # ks) ! i \<in> set (take i (k # ks))) [0..<length (k # ks)]"
    (is "?l = ?r")
  proof (rule nth_equalityI)
    fix i assume "i < length ?l"
    then show "?l ! i = ?r ! i" using IH s(3) by (cases i) (auto simp del: upt_Suc)
  qed (use IH in simp)
  finally show ?case using IH s(3) by (simp add: split_beta)
qed

lemma mem_ins: "inv t \<Longrightarrow> mem k (ins j t) \<longleftrightarrow> k = j \<or> mem k t"
  by (auto simp: mem_iff inv_ins elems_ins)

lemma del_ins: "inv t \<Longrightarrow> elems (del k (ins k t)) = elems t"
  by (simp add: elems_del elems_ins inv_ins)

end

section \<open>The chained table\<close>

definition TABLE_SIZE :: nat where
  "TABLE_SIZE = 10007"

type_synonym table = "u64 list list"

definition hash_index :: "u64 \<Rightarrow> nat" where
  "hash_index key = unat (key mod 10007)"

definition empty_table :: table where
  "empty_table = replicate TABLE_SIZE []"

definition table_insert :: "u64 \<Rightarrow> table \<Rightarrow> table" where
  "table_insert key t = t[hash_index key := key # (t ! hash_index key)]"

fun chain_search :: "u64 \<Rightarrow> u64 list \<Rightarrow> bool" where
  "chain_search key [] = False"
| "chain_search key (k # ks) = (if k = key then True else chain_search key ks)"

definition table_search :: "u64 \<Rightarrow> table \<Rightarrow> bool" where
  "table_search key t = chain_search key (t ! hash_index key)"

fun chain_delete :: "u64 \<Rightarrow> u64 list \<Rightarrow> u64 list" where
  "chain_delete key [] = []"
| "chain_delete key (k # ks) = (if k = key then ks else k # chain_delete key ks)"

definition table_delete :: "u64 \<Rightarrow> table \<Rightarrow> table" where
  "table_delete key t = t[hash_index key := chain_delete key (t ! hash_index key)]"

definition table_elems :: "table \<Rightarrow> u64 multiset" where
  "table_elems t = (\<Sum>c\<leftarrow>t. mset c)"

definition table_inv :: "table \<Rightarrow> bool" where
  "table_inv t \<longleftrightarrow> length t = TABLE_SIZE \<and> (\<forall>i < TABLE_SIZE. \<forall>k \<in> set (t ! i). hash_index k = i)"

text \<open>The global \<open>_hashmap\<close>: \<open>None\<close> is the null pointer before the first reset.\<close>

definition hashmap_reset :: "table option \<Rightarrow> table option" where
  "hashmap_reset m = (case m of None \<Rightarrow> Some empty_table | Some t \<Rightarrow> Some (map (\<lambda>_. []) t))"

definition tagged_key :: "u8 \<Rightarrow> u64 \<Rightarrow> u64" where
  "tagged_key type key = (key AND 0xf8ffffffffffffff) + push_bit 56 (ucast type)"

definition hashmap_search_and_add :: "u8 \<Rightarrow> u64 \<Rightarrow> table option \<Rightarrow> (bool \<times> table option) res" where
  "hashmap_search_and_add type key m =
     (if 8 \<le> type then Inr (False, m)
      else case m of
        None \<Rightarrow> Inl (UB ''null pointer'')
      | Some t \<Rightarrow> (let val = tagged_key type key in
          if table_search val t then Inr (True, m) else Inr (False, Some (table_insert val t))))"

text \<open>
  \<open>hashmap_search_and_add_ptr\<close> copies the key to the address \<open>(char *)key_t + (7 - type)\<close>, where
  \<open>key_t\<close> is the integer 0 and not the address of the variable.
\<close>

definition hashmap_search_and_add_ptr :: "u8 \<Rightarrow> bytes \<Rightarrow> table option \<Rightarrow> (bool \<times> table option) res" where
  "hashmap_search_and_add_ptr type key m =
     (if 8 \<le> type then Inr (False, m) else Inl (UB ''memcpy to an invalid address''))"

definition hashmap_insert :: "u64 \<Rightarrow> table option \<Rightarrow> table option res" where
  "hashmap_insert key m = (case m of None \<Rightarrow> Inl (UB ''null pointer'') | Some t \<Rightarrow> Inr (Some (table_insert key t)))"

definition hashmap_search :: "u64 \<Rightarrow> table option \<Rightarrow> bool res" where
  "hashmap_search key m = (case m of None \<Rightarrow> Inl (UB ''null pointer'') | Some t \<Rightarrow> Inr (table_search key t))"

definition delete_key :: "u64 \<Rightarrow> table option \<Rightarrow> table option res" where
  "delete_key key m = (case m of None \<Rightarrow> Inl (UB ''null pointer'') | Some t \<Rightarrow> Inr (Some (table_delete key t)))"

section \<open>The table implements the interface\<close>

lemma hash_index_less: "hash_index k < TABLE_SIZE"
proof -
  have "unat (k mod 10007) = unat k mod 10007" by (simp only: unat_mod_distrib) simp
  then show ?thesis by (simp add: hash_index_def TABLE_SIZE_def)
qed

lemma sum_list_mset_update:
  "i < length t \<Longrightarrow> (\<Sum>c\<leftarrow>t[i := x]. mset c) + mset (t ! i) = (\<Sum>c\<leftarrow>t. mset c) + mset x"
proof (induction t arbitrary: i)
  case (Cons c t)
  then show ?case by (cases i) (simp_all add: add.assoc add.left_commute)
qed simp

lemma chain_search_iff: "chain_search k c \<longleftrightarrow> k \<in> set c"
  by (induction c) auto

lemma mset_chain_delete: "mset (chain_delete k c) = mset c - {#k#}"
  by (induction c) auto

lemma set_chain_delete: "set (chain_delete k c) \<subseteq> set c"
  by (induction c) auto

lemma set_table_elems: "set_mset (table_elems t) = (\<Union>c \<in> set t. set c)"
  unfolding table_elems_def by (induction t) auto

lemma table_elems_iff:
  assumes "table_inv t"
  shows "k \<in># table_elems t \<longleftrightarrow> k \<in> set (t ! hash_index k)"
proof
  assume "k \<in># table_elems t"
  then obtain i where "i < length t" "k \<in> set (t ! i)" unfolding set_table_elems by (metis UN_E in_set_conv_nth)
  then show "k \<in> set (t ! hash_index k)" using assms by (auto simp: table_inv_def)
next
  assume "k \<in> set (t ! hash_index k)"
  moreover have "t ! hash_index k \<in> set t" using assms hash_index_less by (simp add: table_inv_def)
  ultimately show "k \<in># table_elems t" by (auto simp: set_table_elems)
qed

lemma table_inv_update:
  assumes "table_inv t" and "\<And>k. k \<in> set c \<Longrightarrow> hash_index k = i"
  shows "table_inv (t[i := c])"
proof -
  have "hash_index k = j" if "j < TABLE_SIZE" "k \<in> set (t[i := c] ! j)" for j k
    using that assms by (cases "j = i") (auto simp: table_inv_def)
  then show ?thesis using assms(1) by (simp add: table_inv_def)
qed

lemma table_inv_insert: "table_inv t \<Longrightarrow> table_inv (table_insert k t)"
  unfolding table_insert_def using hash_index_less [of k]
  by (intro table_inv_update) (auto simp: table_inv_def)

lemma table_inv_delete: "table_inv t \<Longrightarrow> table_inv (table_delete k t)"
  unfolding table_delete_def using hash_index_less [of k]
  by (intro table_inv_update) (auto simp: table_inv_def dest!: set_chain_delete [THEN subsetD])

lemma elems_insert: "table_inv t \<Longrightarrow> table_elems (table_insert k t) = add_mset k (table_elems t)"
  using sum_list_mset_update [of "hash_index k" t "k # (t ! hash_index k)"] hash_index_less [of k]
  by (simp add: table_elems_def table_insert_def table_inv_def)

lemma elems_delete:
  assumes "table_inv t"
  shows "table_elems (table_delete k t) = table_elems t - {#k#}"
proof -
  let ?c = "t ! hash_index k"
  have u: "table_elems (table_delete k t) + mset ?c = table_elems t + (mset ?c - {#k#})"
    using sum_list_mset_update [of "hash_index k" t "chain_delete k ?c"] hash_index_less [of k] assms
    by (simp add: table_elems_def table_delete_def table_inv_def mset_chain_delete)
  show ?thesis
  proof (cases "k \<in> set ?c")
    case True
    then have "k \<in># table_elems t" using table_elems_iff [OF assms] by simp
    moreover have "mset ?c = add_mset k (mset ?c - {#k#})" using True by simp
    ultimately show ?thesis using u
      by (metis add_mset_add_single add_mset_remove_trivial_eq diff_union_single_conv multi_self_add_other_not_self
          add_right_cancel union_mset_add_mset_left union_mset_add_mset_right insert_DiffM)
  next
    case False
    then have "k \<notin># table_elems t" using table_elems_iff [OF assms] by simp
    then show ?thesis using u False by (simp add: diff_single_trivial)
  qed
qed

lemma elems_empty: "table_elems empty_table = {#}"
proof -
  have "(\<Sum>c\<leftarrow>replicate n []. mset c) = {#}" for n by (induction n) auto
  then show ?thesis by (simp only: table_elems_def empty_table_def)
qed

lemma inv_empty: "table_inv empty_table"
  by (simp add: table_inv_def empty_table_def)

interpretation hm: bag empty_table table_insert table_search table_delete table_elems table_inv
  by unfold_locales
     (simp_all add: inv_empty table_inv_insert table_inv_delete elems_empty elems_insert elems_delete
       table_search_def chain_search_iff table_elems_iff)

section \<open>Properties\<close>

lemma key_mask: "(0xf8ffffffffffffff :: u64) = NOT (push_bit 56 (mask 3))"
  by (simp add: mask_eq_decr_exp)

lemma type_bits: "type < 8 \<Longrightarrow> bit (type :: u8) n \<Longrightarrow> n < 3"
proof -
  assume "type < 8" "bit type n"
  then have "2 ^ n \<le> unat type" "unat type < 2 ^ 3" by (simp_all add: bit_imp_ge word_less_nat_alt)
  then have "(2 :: nat) ^ n < 2 ^ 3" by linarith
  then show "n < 3" using power_less_imp_less_exp [of "2 :: nat" n 3] by simp
qed

lemma bit_tagged_key:
  assumes "type < 8"
  shows "bit (tagged_key type key) n \<longleftrightarrow> (if 56 \<le> n \<and> n < 59 then bit type (n - 56) else bit key n)"
proof -
  have "tagged_key type key = (key AND NOT (push_bit 56 (mask 3))) OR push_bit 56 (ucast type)"
    unfolding tagged_key_def key_mask
    by (rule disjunctive_add) (auto simp: bit_simps dest: type_bits [OF assms])
  moreover have "bit type (n - 56) \<Longrightarrow> n - 56 < 3" by (rule type_bits [OF assms])
  ultimately show ?thesis by (auto simp: bit_simps dest: bit_imp_le_length)
qed

lemma tagged_key_eq_iff:
  assumes "type < 8" and "type' < 8"
  shows "tagged_key type key = tagged_key type' key' \<longleftrightarrow>
    type = type' \<and> key AND 0xf8ffffffffffffff = key' AND 0xf8ffffffffffffff"
proof
  assume eq: "tagged_key type key = tagged_key type' key'"
  have b: "(if 56 \<le> n \<and> n < 59 then bit type (n - 56) else bit key n) =
      (if 56 \<le> n \<and> n < 59 then bit type' (n - 56) else bit key' n)" for n
    using arg_cong [OF eq, of "\<lambda>w. bit w n"] by (simp only: bit_tagged_key [OF assms(1)] bit_tagged_key [OF assms(2)])
  have "type = type'"
  proof (rule bit_word_eqI)
    fix m assume "m < LENGTH(8)"
    show "bit type m = bit type' m"
      using b [of "m + 56"] type_bits [OF assms(1), of m] type_bits [OF assms(2), of m] by (cases "m < 3") auto
  qed
  moreover have "key AND 0xf8ffffffffffffff = key' AND 0xf8ffffffffffffff"
    unfolding key_mask
  proof (rule bit_word_eqI)
    fix m assume "m < LENGTH(64)"
    show "bit (key AND NOT (push_bit 56 (mask 3))) m = bit (key' AND NOT (push_bit 56 (mask 3))) m"
      using b [of m] \<open>m < LENGTH(64)\<close> by (cases "56 \<le> m \<and> m < 59") (auto simp: bit_simps)
  qed
  ultimately show "type = type' \<and> key AND 0xf8ffffffffffffff = key' AND 0xf8ffffffffffffff" by simp
qed (simp add: tagged_key_def)

fun run_adds :: "(u8 \<times> u64) list \<Rightarrow> table option \<Rightarrow> (bool list \<times> table option) res" where
  "run_adds [] m = Inr ([], m)"
| "run_adds ((type, key) # ks) m =
     rbind (hashmap_search_and_add type key m) (\<lambda>(r, m). rbind (run_adds ks m) (\<lambda>(rs, m). Inr (r # rs, m)))"

lemma run_adds_eq:
  assumes "\<forall>(type, key) \<in> set ks. type < 8"
  shows "run_adds ks (Some t) =
    (let (rs, t') = search_add_all table_search table_insert (map (\<lambda>(type, key). tagged_key type key) ks) t
     in Inr (rs, Some t'))"
  using assms
proof (induction ks arbitrary: t)
  case (Cons tk ks)
  then show ?case
    by (cases tk) (auto simp: hashmap_search_and_add_def search_add_def Let_def linorder_not_less split_beta)
qed simp

lemma hashmap_reset_empty:
  assumes "case m of None \<Rightarrow> True | Some t \<Rightarrow> length t = TABLE_SIZE"
  shows "hashmap_reset m = Some empty_table"
  using assms by (auto simp: hashmap_reset_def empty_table_def map_replicate_const split: option.splits)

text \<open>
  After a reset, a sequence of \<open>hashmap_search_and_add\<close> calls with types below 8 answers each
  call with whether an earlier call had the same type and the same key up to the three key bits
  that hold the type: two keys that differ only in bits 56 to 58 are taken for the same.
\<close>
theorem hashmap_seen:
  assumes "case m of None \<Rightarrow> True | Some t \<Rightarrow> length t = TABLE_SIZE"
    and "\<forall>(type, key) \<in> set ks. type < 8"
  shows "\<exists>t. run_adds ks (hashmap_reset m) =
    Inr (map (\<lambda>i. \<exists>j < i. fst (ks ! j) = fst (ks ! i) \<and>
                snd (ks ! j) AND 0xf8ffffffffffffff = snd (ks ! i) AND 0xf8ffffffffffffff) [0..<length ks], Some t)"
proof -
  let ?f = "\<lambda>(type, key). tagged_key type key"
  note seen = hm.search_add_all_seen [OF hm.inv_emp, of "map ?f ks"]
  have tag: "?f (ks ! j) = ?f (ks ! i) \<longleftrightarrow> fst (ks ! j) = fst (ks ! i) \<and>
      snd (ks ! j) AND 0xf8ffffffffffffff = snd (ks ! i) AND 0xf8ffffffffffffff" if "i < length ks" "j < i" for i j
    using that assms(2) tagged_key_eq_iff [of "fst (ks ! j)" "fst (ks ! i)"] by (force simp: split_beta)
  have "map ?f ks ! i \<in> set (take i (map ?f ks)) \<longleftrightarrow> (\<exists>j < i. ?f (ks ! j) = ?f (ks ! i))" if "i < length ks" for i
    using that by (auto simp: in_set_conv_nth)
  then have "fst (search_add_all table_search table_insert (map ?f ks) empty_table) =
      map (\<lambda>i. \<exists>j < i. fst (ks ! j) = fst (ks ! i) \<and>
                snd (ks ! j) AND 0xf8ffffffffffffff = snd (ks ! i) AND 0xf8ffffffffffffff) [0..<length ks]"
    using seen tag by (auto simp: hm.elems_emp)
  then show ?thesis
    using run_adds_eq [OF assms(2), of empty_table] hashmap_reset_empty [OF assms(1)] by (simp add: split_beta)
qed

theorem hashmap_seen_witness:
  "\<exists>t. run_adds [(1, 5), (2, 5), (1, 5)] (hashmap_reset None) = Inr ([False, False, True], Some t)"
proof -
  have "\<exists>t. run_adds [(1, 5), (2, 5), (1, 5)] (hashmap_reset None) =
    Inr (map (\<lambda>i. \<exists>j < i. fst ([(1 :: u8, 5 :: u64), (2, 5), (1, 5)] ! j) = fst ([(1 :: u8, 5 :: u64), (2, 5), (1, 5)] ! i) \<and>
                snd ([(1 :: u8, 5 :: u64), (2, 5), (1, 5)] ! j) AND 0xf8ffffffffffffff =
                snd ([(1 :: u8, 5 :: u64), (2, 5), (1, 5)] ! i) AND 0xf8ffffffffffffff) [0..<length [(1 :: u8, 5 :: u64), (2, 5), (1, 5)]], Some t)"
    by (rule hashmap_seen) simp_all
  then show ?thesis by (simp add: upt_rec less_Suc_eq_0_disj ex_disj_distrib conj_disj_distribR numeral_2_eq_2 numeral_3_eq_3)
qed

text \<open>
  The pointer variant never returns for a valid type: for every type below 8 it copies to an
  address near zero.
\<close>
theorem hashmap_search_and_add_ptr_ub:
  "hashmap_search_and_add_ptr type key m =
     (if type < 8 then Inl (UB ''memcpy to an invalid address'') else Inr (False, m))"
  by (auto simp: hashmap_search_and_add_ptr_def)

end
