(* ===== verification/Spec2Isabelle.thy ===== *)
theory Spec2Isabelle
  imports Campaign Trim Find_Outcomes Det_Outcomes Hashmap Sha1
begin

text \<open>
  GreenFuzz (GreenAFL) is AFL++ whose scheduler takes the energy of a run into account. This
  development models the core of \<open>afl-fuzz\<close>, the C program under src/AFLPlusPlus, and proves what makes
  it correct.

  \<^bold>\<open>The program.\<close> The fuzzer keeps a queue of test cases. In a loop it chooses an entry
  (src/afl-fuzz.c, src/afl-fuzz-queue.c), reads its test case through a cache, mutates it and runs
  the target on the results (src/afl-fuzz-run.c). The target leaves a trace in a coverage map; new
  coverage, hangs and crashes make \<open>save_if_interesting\<close> (src/afl-fuzz-bitmap.c) keep the test case. A
  kept test case is calibrated: run several times, with its run time and its energy recorded. Each byte of
  the map has a best entry, and the favoured entries cover all of it. The scheduler weighs
  entries by a score that includes the energy, and draws them by the alias method.

  \<^bold>\<open>The theories.\<close>
  \<^item> \<open>Afl_Prelude\<close>: C integers as words, errors as values (\<open>FATAL\<close>, \<open>PFATAL\<close>, undefined behaviour), the
    error monad, little-endian loads and stores.
  \<^item> \<open>Float64\<close>: binary64 arithmetic with rounding to nearest even, as the scores need it.
  \<^item> \<open>Afl_State\<close>: the fields of \<open>afl_state_t\<close>, \<open>struct queue_entry\<close> and \<open>afl_forkserver_t\<close> that are used.
    A pointer to an entry is its index in \<open>queue_buf\<close>.
  \<^item> \<open>Bitmap\<close>: classification, simplification, \<open>has_new_bits\<close> with its fast path, counters, compact traces.
  \<^item> \<open>Energy\<close>: the energy hook of \<open>fuzz_run_target\<close>, accounting, \<open>energy_bonus\<close> and the favour factor.
  \<^item> \<open>Favored\<close>: \<open>update_bitmap_score\<close>, \<open>update_bitmap_rescore\<close>, \<open>cull_queue\<close>, \<open>mark_as_redundant\<close>.
  \<^item> \<open>Score\<close>: \<open>calculate_score\<close> for every schedule, with the energy multipliers.
  \<^item> \<open>Rand\<close>, \<open>Alias\<close>: the random numbers, \<open>create_alias_table\<close> and \<open>select_next_queue_entry\<close>.
  \<^item> \<open>Text\<close>, \<open>Cache\<close>, \<open>Queue_Ops\<close>: text detection, the test case cache, \<open>add_to_queue\<close> and the candidate lists.
  \<^item> \<open>Execution\<close>: the world outside as one record of parameters, and handing a test case to the target.
  \<^item> \<open>Trim\<close>, \<open>Calibrate\<close>: \<open>trim_case\<close> and \<open>calibrate_case\<close>.
  \<^item> \<open>Finds\<close>, \<open>Find_Outcomes\<close>: \<open>save_if_interesting\<close> and \<open>common_fuzz_stuff\<close>, and what they do as a whole.
  \<^item> \<open>Extras\<close>, \<open>Auto_Extras\<close>: src/afl-fuzz-extras.c, the dictionary of the user with the parser of its files, and the
    automatic tokens with saving and loading.
  \<^item> \<open>Det_Stages\<close>: the deterministic stages of \<open>fuzz_one_original\<close> (src/afl-fuzz-one.c), from the decision to run
    them to the label \<open>custom_mutator_stage\<close>. A stage returns the label where control goes on.
  \<^item> \<open>Det_Runs\<close>, \<open>Det_Progress\<close>, \<open>Det_Outcomes\<close>: a logic for the sequence of test cases that the stages run, rules for
    runs that go on, and what the stages do as a whole.
  \<^item> \<open>Campaign\<close>: initialisation, the choice of the next entry, and the transition system of the scheduler.
  \<^item> \<open>Detpred\<close>, \<open>Hashmap\<close>, \<open>Sha1\<close>: the duplicate predicates of the deterministic stages, the table of seen
    values, and SHA-1 with HMAC.

  \<^bold>\<open>State and operations.\<close> Every function of the code is a definition of the same name on the record
  \<open>afl_state\<close>, in state-passing style; long functions are split at their loops and labels. A result
  is \<open>Inl e\<close> for an error; for functions with loops that may not end it is an option, and \<open>None\<close> means that the
  fuel was used up. Interfaces are locales: \<open>fp_rounding\<close>, what the code relies on of floating point
  rounding; \<open>testcase_source\<close>, the test cases behind the cache; \<open>bag\<close>, the table of seen values; and \<open>sorter\<close>, what the
  C standard promises of \<open>qsort\<close>. Each is interpreted on the code's definitions.

  \<^bold>\<open>What is shown.\<close>
  \<^item> Campaign: in every reachable state the queue, the slots, the cache and the alias table satisfy their
    joint invariant, and choosing an entry stays inside the arrays.
  \<^item> Finds: a test case is kept exactly when it covers something new; every file is accounted for, the README of the first
    crash among them; a hanging target
    is abandoned; ids can be read back from file names; and one configuration in which the handler does not return.
  \<^item> Trimming keeps the path; calibration ends and is exact on stable targets.
  \<^item> Scheduling: bounds and monotonicity of scores and bonuses in the energy, exactness of the alias table,
    winners of slots, coverage by the favoured entries.
  \<^item> Deterministic stages: they restore the test case, run exactly the planned flips in order, leave no owed
    value of an effective byte untried although later stages filter, and come to an end when the target cooperates.
  \<^item> Dictionaries: files are parsed into the tokens they list, every operation keeps the tokens sorted and distinct, duplicate
    removal equals its reference, the effect of offering an automatic token is exact, and automatic tokens survive a restart.
  \<^item> Coverage: the word-level routines equal their byte-level specifications.
  \<^item> SHA-1 equals FIPS 180, the cache is transparent, the scanner recognises UTF-8 in files that are long enough to be
    read at all, and the duplicate predicates accept exactly the changes they are stated to accept.
  \<^item> Errors: the score ends with an error exactly under the conditions named, and other failures the code reaches.

  \<^bold>\<open>Bounds and fuel.\<close> Calibration gets fuel 12, the largest number of cycles, and never runs out.
  Trimming needs as much fuel as the test case has bytes plus 29 passes. The fuel of \<open>save_if_interesting\<close> counts jumps back
  to \<open>save_to_queue\<close>; one is enough without \<open>AFL_KEEP_TIMEOUTS\<close>. Rejection sampling, eviction and selection of enabled
  entries are random loops: their theorems say what happens for every fuel. Queues have fewer than
  \<open>2 ^ 32\<close> entries, and test cases at most \<open>MAX_FILE\<close> bytes.

  \<^bold>\<open>Parameters.\<close> The target and the sanitizer binaries, signals, clocks, XXH3, \<open>log1p\<close>, \<open>pow\<close> and \<open>qsort\<close>, results of
  system calls and the callbacks of custom mutators. Theorems name what they need of them, for
  example that a target replays, that \<open>log1p\<close> is monotone, or that files can be written.

  \<^bold>\<open>Not modelled.\<close> The stages of src/afl-fuzz-one.c after the deterministic ones (custom mutators, havoc, splicing,
  MOpt), whose edits are random; the inference of effective bytes and input-to-state correspondence; the fork server, start-up, synchronisation,
  statistics and plugins, which consist of system calls; compiler wrappers, instrumentation, the other tools
  and vendored libraries.
\<close>

end
